(* ===== verification/PspPrelude.thy ===== *)
theory PspPrelude
  imports Main "HOL-Library.Word"
begin

text \<open>
  Shared vocabulary of the development: names for the C types the components use, the
  generic lemmas on lists and ring indices, and the fact collections the component
  theories fill.
\<close>

named_theorems inv_intros \<open>operations that keep a component's invariant\<close>
named_theorems run_defs \<open>definitions unfolded when a witness is evaluated\<close>

type_synonym jchar = "16 word"
type_synonym jbyte = "8 word"

text \<open>
  A \<^verbatim>\<open>pcsl_string\<close> is either \<^verbatim>\<open>PCSL_STRING_NULL\<close> (\<open>None\<close>) or a sequence of UTF-16
  code units; the terminating zero of the buffer is not part of the sequence.
\<close>

type_synonym pcsl_string = "jchar list option"

abbreviation PCSL_STRING_NULL :: pcsl_string where
  "PCSL_STRING_NULL \<equiv> None"

text \<open>
  The build's limit on isolates, \<^verbatim>\<open>configuration_xml/javacall/constants_open.xml\<close>.
\<close>

definition MAX_ISOLATES :: nat where
  "MAX_ISOLATES = 6"

text \<open>The memory image of \<^verbatim>\<open>jchar\<close>s, little endian as on the console.\<close>

definition jcharBytes :: "jchar list \<Rightarrow> jbyte list" where
  "jcharBytes cs = concat (map (\<lambda>c. [ucast c, ucast (drop_bit 8 c)]) cs)"

lemma length_jcharBytes [simp]: "length (jcharBytes cs) = 2 * length cs"
  by (induction cs) (simp_all add: jcharBytes_def)

subsection \<open>Lists\<close>

lemma nth_list_update_if: "j < length xs \<Longrightarrow> xs[i := x] ! j = (if i = j then x else xs ! j)"
  by (cases "i = j") auto

lemma map_upt_Suc_shift: "map f [0..<Suc n] = f 0 # map (\<lambda>k. f (Suc k)) [0..<n]"
proof -
  have "[0..<Suc n] = 0 # map Suc [0..<n]"
    by (simp add: map_Suc_upt upt_conv_Cons)
  then show ?thesis by (simp add: comp_def)
qed

lemma map_upt_snoc: "map f [0..<Suc n] = map f [0..<n] @ [f n]"
  by simp

subsection \<open>Ring indices\<close>

text \<open>A ring index is incremented and compared with the size, as the C code does it.\<close>

definition ring_succ :: "nat \<Rightarrow> nat \<Rightarrow> nat" where
  "ring_succ n i = (if Suc i = n then 0 else Suc i)"

lemma ring_succ_mod: "i < n \<Longrightarrow> ring_succ n i = Suc i mod n"
  by (auto simp: ring_succ_def)

lemma ring_succ_less [intro]: "i < n \<Longrightarrow> ring_succ n i < n"
  by (auto simp: ring_succ_def)

lemma ring_add_neq:
  assumes "j < k" "k < (n::nat)"
  shows "(i + j) mod n \<noteq> (i + k) mod n"
proof
  assume "(i + j) mod n = (i + k) mod n"
  then have "n dvd (i + k) - (i + j)"
    using assms by (metis mod_eq_dvd_iff_nat less_imp_le nat_add_left_cancel_le)
  then have "n dvd k - j" by simp
  with assms show False
    by (meson diff_le_self dvd_imp_le le_less_trans not_le zero_less_diff)
qed

end
