(* ===== verification/Interfaces.thy ===== *)
theory Interfaces
  imports PspPrelude "HOL-Library.Multiset"
begin

text \<open>
  The contracts between components, each a locale over the operations a client calls. A
  provider's theory interprets the locale on its own definitions; a client uses the lemmas
  proved here once.
\<close>

section \<open>Bounded FIFO queue\<close>

primrec drain :: "('q \<Rightarrow> 'e \<times> 'q) \<Rightarrow> nat \<Rightarrow> 'q \<Rightarrow> 'e list \<times> 'q" where
  "drain deq 0 q = ([], q)"
| "drain deq (Suc n) q =
     (let (e, q') = deq q; (es, q'') = drain deq n q' in (e # es, q''))"

locale bounded_fifo =
  fixes enq :: "'q \<Rightarrow> 'e \<Rightarrow> 'q"
    and deq :: "'q \<Rightarrow> 'e \<times> 'q"
    and contents :: "'q \<Rightarrow> 'e list"
    and cap :: nat
    and invar :: "'q \<Rightarrow> bool"
  assumes enq_contents:
      "\<lbrakk>invar q; length (contents q) < cap\<rbrakk> \<Longrightarrow> contents (enq q e) = contents q @ [e]"
    and enq_invar: "\<lbrakk>invar q; length (contents q) < cap\<rbrakk> \<Longrightarrow> invar (enq q e)"
    and deq_first: "\<lbrakk>invar q; contents q \<noteq> []\<rbrakk> \<Longrightarrow> fst (deq q) = hd (contents q)"
    and deq_contents: "\<lbrakk>invar q; contents q \<noteq> []\<rbrakk> \<Longrightarrow> contents (snd (deq q)) = tl (contents q)"
    and deq_invar: "\<lbrakk>invar q; contents q \<noteq> []\<rbrakk> \<Longrightarrow> invar (snd (deq q))"
    and within_cap: "invar q \<Longrightarrow> length (contents q) \<le> cap"
begin

lemma enq_all:
  "\<lbrakk>invar q; length (contents q) + length es \<le> cap\<rbrakk>
   \<Longrightarrow> contents (foldl enq q es) = contents q @ es \<and> invar (foldl enq q es)"
  by (induction es arbitrary: q) (auto simp: enq_contents enq_invar)

lemma drain_take:
  "\<lbrakk>invar q; n \<le> length (contents q)\<rbrakk>
   \<Longrightarrow> fst (drain deq n q) = take n (contents q)
      \<and> contents (snd (drain deq n q)) = drop n (contents q)
      \<and> invar (snd (drain deq n q))"
proof (induction n arbitrary: q)
  case 0
  then show ?case by simp
next
  case (Suc n)
  then have ne: "contents q \<noteq> []" by auto
  then have "n \<le> length (contents (snd (deq q)))"
    using Suc.prems by (simp add: deq_contents)
  with Suc.IH [of "snd (deq q)"] Suc.prems ne show ?case
    by (auto simp: deq_contents deq_first deq_invar neq_Nil_conv split_def Let_def)
qed

lemma fifo_delivery:
  assumes "invar q" "contents q = []" "length es \<le> cap"
  shows "fst (drain deq (length es) (foldl enq q es)) = es"
  using enq_all [of q es] drain_take [of "foldl enq q es" "length es"] assms by simp

end

section \<open>Stable priority queue\<close>

text \<open>Insertion before the first element with a greater key.\<close>

definition stable_insert :: "('e \<Rightarrow> 'k::linorder) \<Rightarrow> 'e \<Rightarrow> 'e list \<Rightarrow> 'e list" where
  "stable_insert key e es =
     takeWhile (\<lambda>x. key x \<le> key e) es @ e # dropWhile (\<lambda>x. key x \<le> key e) es"

lemma set_stable_insert [simp]: "set (stable_insert key e es) = insert e (set es)"
proof -
  have "set es = set (takeWhile (\<lambda>x. key x \<le> key e) es) \<union> set (dropWhile (\<lambda>x. key x \<le> key e) es)"
    by (metis set_append takeWhile_dropWhile_id)
  then show ?thesis by (auto simp: stable_insert_def)
qed

lemma mset_stable_insert [simp]: "mset (stable_insert key e es) = add_mset e (mset es)"
proof -
  have "mset es = mset (takeWhile (\<lambda>x. key x \<le> key e) es)
      + mset (dropWhile (\<lambda>x. key x \<le> key e) es)"
    by (metis mset_append takeWhile_dropWhile_id)
  then show ?thesis by (simp add: stable_insert_def)
qed

lemma distinct_map_stable_insert:
  "distinct (map f (stable_insert key e es)) \<longleftrightarrow> f e \<notin> f ` set es \<and> distinct (map f es)"
proof -
  have "mset (map f (stable_insert key e es)) = mset (map f (e # es))" by simp
  then have "distinct (map f (stable_insert key e es)) = distinct (map f (e # es))"
    by (rule mset_eq_imp_distinct_iff)
  then show ?thesis by simp
qed

lemma sorted_dropWhile_greater:
  "sorted (map key es) \<Longrightarrow> x \<in> set (dropWhile (\<lambda>x. key x \<le> (k::'k::linorder)) es) \<Longrightarrow> k < key x"
  by (induction es) (auto split: if_splits)

lemma sorted_stable_insert:
  assumes "sorted (map key es)"
  shows "sorted (map key (stable_insert key e es))"
proof -
  have "sorted (map key (takeWhile (\<lambda>x. key x \<le> key e) es @ dropWhile (\<lambda>x. key x \<le> key e) es))"
    using assms by simp
  then show ?thesis
    using sorted_dropWhile_greater [OF assms, of _ "key e"]
    by (auto simp: stable_insert_def sorted_append simp del: takeWhile_dropWhile_id
        dest: set_takeWhileD intro: less_imp_le)
qed

lemma filter_stable_insert:
  assumes "sorted (map key es)"
  shows "filter (\<lambda>x. v = key x) (stable_insert key e es) =
    filter (\<lambda>x. v = key x) es @ (if v = key e then [e] else [])"
proof -
  have "filter (\<lambda>x. key e = key x) (dropWhile (\<lambda>x. key x \<le> key e) es) = []"
    using sorted_dropWhile_greater [OF assms, of _ "key e"] by (fastforce simp: filter_empty_conv)
  moreover have "filter P es = filter P (takeWhile (\<lambda>x. key x \<le> key e) es)
      @ filter P (dropWhile (\<lambda>x. key x \<le> key e) es)" for P
    by (metis filter_append takeWhile_dropWhile_id)
  ultimately show ?thesis by (auto simp: stable_insert_def)
qed

lemma foldl_stable_insert: "foldl (\<lambda>es e. stable_insert key e es) [] xs = sort_key key xs"
proof -
  let ?f = "foldl (\<lambda>es e. stable_insert key e es) []"
  have s: "sorted (map key (?f xs))" for xs
    by (induction xs rule: rev_induct) (auto intro: sorted_stable_insert)
  have "mset (?f xs) = mset xs"
    by (induction xs rule: rev_induct) auto
  moreover have "filter (\<lambda>x. v = key x) (?f xs) = filter (\<lambda>x. v = key x) xs" for v
    by (induction xs rule: rev_induct) (auto simp: filter_stable_insert s)
  ultimately show ?thesis using s by (intro properties_for_sort_key [symmetric]) auto
qed

primrec put_all :: "('q \<Rightarrow> 'e \<Rightarrow> 'q option) \<Rightarrow> 'e list \<Rightarrow> 'q \<Rightarrow> 'q option" where
  "put_all put [] q = Some q"
| "put_all put (e # es) q = Option.bind (put q e) (put_all put es)"

primrec pop_all :: "('q \<Rightarrow> ('i \<times> 'q) option) \<Rightarrow> nat \<Rightarrow> 'q \<Rightarrow> ('i list \<times> 'q) option" where
  "pop_all pop 0 q = Some ([], q)"
| "pop_all pop (Suc n) q =
     Option.bind (pop q) (\<lambda>(i, q1). map_option (\<lambda>(is, q2). (i # is, q2)) (pop_all pop n q1))"

locale stable_pqueue =
  fixes put :: "'q \<Rightarrow> 'e \<Rightarrow> 'q option"
    and pop :: "'q \<Rightarrow> ('i \<times> 'q) option"
    and holds :: "'q \<Rightarrow> 'e list \<Rightarrow> bool"
    and key :: "'e \<Rightarrow> 'k::linorder"
    and ident :: "'e \<Rightarrow> 'i"
    and valid :: "'i \<Rightarrow> bool"
  assumes put_inserts:
      "\<lbrakk>holds q es; ident e \<notin> ident ` set es; valid (ident e)\<rbrakk>
       \<Longrightarrow> \<exists>q'. put q e = Some q' \<and> holds q' (stable_insert key e es)"
    and pop_first: "holds q (e # es) \<Longrightarrow> \<exists>q'. pop q = Some (ident e, q') \<and> holds q' es"
begin

lemma put_all_inserts:
  "\<lbrakk>holds q es; distinct (map ident (es @ xs)); \<forall>x \<in> set xs. valid (ident x)\<rbrakk>
   \<Longrightarrow> \<exists>q'. put_all put xs q = Some q'
          \<and> holds q' (foldl (\<lambda>es e. stable_insert key e es) es xs)"
proof (induction xs arbitrary: q es)
  case Nil
  then show ?case by simp
next
  case (Cons x xs)
  then obtain q1 where q1: "put q x = Some q1" "holds q1 (stable_insert key x es)"
    using put_inserts [of q es x] by auto
  have "distinct (map ident (stable_insert key x es @ xs))"
    using Cons.prems(2) distinct_map_stable_insert [of ident key x es] by auto
  from Cons.IH [OF q1(2) this] q1(1) Cons.prems(3) show ?case by simp
qed

lemma pop_all_first:
  "holds q (es @ fs) \<Longrightarrow> \<exists>q'. pop_all pop (length es) q = Some (map ident es, q') \<and> holds q' fs"
proof (induction es arbitrary: q)
  case Nil
  then show ?case by simp
next
  case (Cons e es)
  then obtain q1 where "pop q = Some (ident e, q1)" "holds q1 (es @ fs)"
    using pop_first [of q e "es @ fs"] by auto
  with Cons.IH [of q1] show ?case by auto
qed

lemma sorts:
  assumes "holds q []" "distinct (map ident xs)" "\<forall>x \<in> set xs. valid (ident x)"
  shows "\<exists>q1 q2. put_all put xs q = Some q1
    \<and> pop_all pop (length xs) q1 = Some (map ident (sort_key key xs), q2) \<and> holds q2 []"
proof -
  obtain q1 where q1: "put_all put xs q = Some q1" "holds q1 (sort_key key xs)"
    using put_all_inserts [OF assms(1), of xs] assms(2,3) by (auto simp: foldl_stable_insert)
  with pop_all_first [of q1 "sort_key key xs" "[]"] show ?thesis by auto
qed

end

section \<open>Quota of counted handles\<close>

text \<open>
  A client asks before it takes a unit and gives it back later; \<open>count\<close> is what it holds.
\<close>

primrec repeat_op :: "('s \<Rightarrow> (bool \<times> 's) option) \<Rightarrow> nat \<Rightarrow> 's \<Rightarrow> 's option" where
  "repeat_op f 0 s = Some s"
| "repeat_op f (Suc n) s = Option.bind (f s) (\<lambda>(ok, s'). if ok then repeat_op f n s' else None)"

locale handle_quota =
  fixes check :: "'s \<Rightarrow> (bool \<times> 's) option"
    and acquire :: "'s \<Rightarrow> (bool \<times> 's) option"
    and release :: "'s \<Rightarrow> (bool \<times> 's) option"
    and count :: "'s \<Rightarrow> int"
    and limit :: int
    and invar :: "'s \<Rightarrow> bool"
  assumes check_pure: "invar s \<Longrightarrow> \<exists>b. check s = Some (b, s)"
    and acquire_checked: "\<lbrakk>invar s; check s = Some (True, s)\<rbrakk>
      \<Longrightarrow> \<exists>s'. acquire s = Some (True, s') \<and> invar s' \<and> count s' = count s + 1"
    and acquire_refused: "\<lbrakk>invar s; check s = Some (False, s)\<rbrakk> \<Longrightarrow> acquire s = Some (False, s)"
    and release_one: "\<lbrakk>invar s; 0 < count s\<rbrakk>
      \<Longrightarrow> \<exists>s'. release s = Some (True, s') \<and> invar s' \<and> count s' = count s - 1"
    and count_bounds: "invar s \<Longrightarrow> 0 \<le> count s \<and> count s \<le> limit"
begin

lemma acquire_all:
  "\<lbrakk>invar s; repeat_op acquire n s = Some s'\<rbrakk> \<Longrightarrow> invar s' \<and> count s' = count s + int n"
proof (induction n arbitrary: s)
  case 0
  then show ?case by simp
next
  case (Suc n)
  obtain b where b: "check s = Some (b, s)" using check_pure [OF Suc.prems(1)] by blast
  show ?case
  proof (cases b)
    case True
    with b acquire_checked [OF Suc.prems(1)] obtain t where
      t: "acquire s = Some (True, t)" "invar t" "count t = count s + 1" by auto
    with Suc.prems(2) Suc.IH [OF t(2)] show ?thesis by simp
  next
    case False
    with b acquire_refused [OF Suc.prems(1)] Suc.prems(2) show ?thesis by simp
  qed
qed

lemma at_most_limit: "\<lbrakk>invar s; repeat_op acquire n s \<noteq> None\<rbrakk> \<Longrightarrow> int n \<le> limit - count s"
  using acquire_all count_bounds by fastforce

lemma release_all:
  "\<lbrakk>invar s; int n \<le> count s\<rbrakk>
   \<Longrightarrow> \<exists>s'. repeat_op release n s = Some s' \<and> invar s' \<and> count s' = count s - int n"
proof (induction n arbitrary: s)
  case 0
  then show ?case by simp
next
  case (Suc n)
  then obtain t where t: "release s = Some (True, t)" "invar t" "count t = count s - 1"
    using release_one [of s] by auto
  with Suc.prems(2) Suc.IH [of t] show ?case by (auto simp: algebra_simps)
qed

lemma balanced:
  assumes "invar s" "repeat_op acquire n s = Some s1"
  shows "\<exists>s2. repeat_op release n s1 = Some s2 \<and> invar s2 \<and> count s2 = count s"
proof -
  have *: "invar s1" "count s1 = count s + int n" using acquire_all [OF assms] by simp_all
  then have "int n \<le> count s1" using count_bounds [OF assms(1)] by simp
  from release_all [OF *(1) this] *(2) show ?thesis by simp
qed

end

section \<open>Codec\<close>

text \<open>
  An encoder of lists of units and a decoder that recovers what was encoded.
\<close>

locale codec =
  fixes enc :: "'a \<Rightarrow> 'b"
    and dec :: "'b \<Rightarrow> 'a option"
    and good :: "'a \<Rightarrow> bool"
  assumes dec_enc: "good x \<Longrightarrow> dec (enc x) = Some x"
begin

lemma enc_inj: "\<lbrakk>good x; good y; enc x = enc y\<rbrakk> \<Longrightarrow> x = y"
  using dec_enc by (metis option.inject)

lemma enc_inj_on: "inj_on enc {x. good x}"
  by (rule inj_onI) (use enc_inj in auto)

lemma map_dec_enc: "list_all good xs \<Longrightarrow> map (\<lambda>x. dec (enc x)) xs = map Some xs"
  by (induction xs) (auto simp: dec_enc)

end

section \<open>Random-access file\<close>

text \<open>Writing at a position; a gap behind the end is filled with \<open>z\<close>.\<close>

definition splice_at :: "'b \<Rightarrow> nat \<Rightarrow> 'b list \<Rightarrow> 'b list \<Rightarrow> 'b list" where
  "splice_at z pos bs content =
     (if bs = [] then content
      else take pos content @ replicate (pos - length content) z @ bs
           @ drop (pos + length bs) content)"

lemma length_splice_at:
  "length (splice_at z p bs c) = (if bs = [] then length c else max (length c) (p + length bs))"
  by (auto simp: splice_at_def)

lemma nth_splice_at:
  "\<lbrakk>bs \<noteq> []; i < length c \<or> i < p + length bs\<rbrakk> \<Longrightarrow> splice_at z p bs c ! i =
     (if p \<le> i \<and> i < p + length bs then bs ! (i - p) else if i < length c then c ! i else z)"
  by (auto simp: splice_at_def nth_append min_def max_def not_less not_le split: if_splits)

lemma splice_at_Nil [simp]: "splice_at z p [] c = c"
  by (simp add: splice_at_def)

lemmas splice_facts = length_splice_at nth_splice_at

lemma splice_at_adjacent:
  "splice_at z (p + length bs) cs (splice_at z p bs c) = splice_at z p (bs @ cs) c"
proof (cases "bs = [] \<or> cs = []")
  case False
  then show ?thesis
    by (intro nth_equalityI) (auto simp: splice_facts nth_append less_max_iff_disj)
qed auto

lemma splice_at_commute:
  assumes "p + length bs \<le> q \<or> q + length cs \<le> p"
  shows "splice_at z p bs (splice_at z q cs c) = splice_at z q cs (splice_at z p bs c)"
proof (cases "bs = [] \<or> cs = []")
  case False
  with assms show ?thesis
    by (intro nth_equalityI) (auto simp: splice_facts less_max_iff_disj)
qed auto

lemma splice_at_inside:
  assumes "p \<le> q" "q + length cs \<le> p + length bs"
  shows "splice_at z q cs (splice_at z p bs c) = splice_at z p (splice_at z (q - p) cs bs) c"
proof (cases "cs = []")
  case False
  then have "0 < length cs" by simp
  then have bs: "bs \<noteq> []" using assms by (intro notI) (simp del: length_greater_0_conv)
  define ds where "ds = splice_at z (q - p) cs bs"
  have len: "length ds = length bs" using assms False bs by (simp add: ds_def length_splice_at)
  have nth: "ds ! k = (if q - p \<le> k \<and> k < q - p + length cs then cs ! (k - (q - p)) else bs ! k)"
    if "k < length bs" for k
    using False that by (simp add: ds_def nth_splice_at)
  have "ds \<noteq> []" using len bs by auto
  then have "splice_at z q cs (splice_at z p bs c) = splice_at z p ds c"
    using assms False bs len
    by (intro nth_equalityI) (auto simp: splice_facts nth less_max_iff_disj)
  then show ?thesis by (simp add: ds_def)
qed simp

lemma take_drop_splice_at:
  assumes "p \<le> q" "q + n \<le> p + length bs"
  shows "take n (drop q (splice_at z p bs c)) = take n (drop (q - p) bs)"
proof (cases "bs = []")
  case False
  with assms show ?thesis by (intro nth_equalityI) (auto simp: splice_facts)
qed (use assms in simp)

lemma take_drop_splice_at_outside:
  assumes "q + n \<le> p \<or> p + length bs \<le> q" "q + n \<le> length c"
  shows "take n (drop q (splice_at z p bs c)) = take n (drop q c)"
proof (cases "bs = []")
  case False
  with assms show ?thesis by (intro nth_equalityI) (auto simp: splice_facts)
qed simp

text \<open>Several writes, the first one first.\<close>

fun splice_all :: "'b \<Rightarrow> (nat \<times> 'b list) list \<Rightarrow> 'b list \<Rightarrow> 'b list" where
  "splice_all z [] c = c"
| "splice_all z ((p, bs) # ws) c = splice_all z ws (splice_at z p bs c)"

lemma splice_all_append: "splice_all z (us @ ws) c = splice_all z ws (splice_all z us c)"
  by (induction us arbitrary: c) auto

lemma length_splice_all: "length c \<le> length (splice_all z ws c)"
proof (induction z ws c rule: splice_all.induct)
  case (2 z p bs ws c)
  have "length c \<le> length (splice_at z p bs c)" by (auto simp: length_splice_at)
  with 2 show ?case by simp
qed simp

text \<open>A write apart from all later ones can be moved behind them.\<close>

lemma splice_all_commute:
  assumes "\<forall>(q, cs) \<in> set ws. p + length bs \<le> q \<or> q + length cs \<le> p"
  shows "splice_all z ws (splice_at z p bs c) = splice_at z p bs (splice_all z ws c)"
  using assms
proof (induction ws arbitrary: c)
  case (Cons w ws)
  obtain q cs where w: "w = (q, cs)" by (cases w)
  with Cons(2) have "splice_at z q cs (splice_at z p bs c) = splice_at z p bs (splice_at z q cs c)"
    by (intro splice_at_commute) auto
  with w Cons show ?case by simp
qed simp

lemma take_drop_splice_all_outside:
  assumes "\<forall>(p, bs) \<in> set ws. q + n \<le> p \<or> p + length bs \<le> q" "q + n \<le> length c"
  shows "take n (drop q (splice_all z ws c)) = take n (drop q c)"
  using assms
proof (induction ws arbitrary: c)
  case (Cons w ws)
  obtain p bs where w: "w = (p, bs)" by (cases w)
  have "length c \<le> length (splice_at z p bs c)" by (auto simp: length_splice_at)
  with Cons w take_drop_splice_at_outside [of q n p bs c z] show ?case by simp
qed simp

text \<open>
  \<open>fv\<close> shows content and position of an open file whose operations cannot fail any more
  but for lack of space; \<open>space\<close> is what the content may still grow by.
\<close>

locale positioned_writes =
  fixes sk :: "int \<Rightarrow> 's \<Rightarrow> 'e option \<times> 's"
    and wr :: "'b list \<Rightarrow> 's \<Rightarrow> 'e option \<times> 's"
    and fv :: "'s \<Rightarrow> ('b list \<times> nat) option"
    and space :: "'s \<Rightarrow> nat"
    and z :: 'b
  assumes seek_to: "\<lbrakk>fv s = Some (c, p); 0 \<le> k\<rbrakk>
      \<Longrightarrow> \<exists>s'. sk k s = (None, s') \<and> fv s' = Some (c, nat k) \<and> space s' = space s"
    and write_here: "\<lbrakk>fv s = Some (c, p); length (splice_at z p bs c) \<le> length c + space s\<rbrakk>
      \<Longrightarrow> \<exists>s'. wr bs s = (None, s') \<and> fv s' = Some (splice_at z p bs c, p + length bs)
             \<and> length (splice_at z p bs c) + space s' = length c + space s"
begin

lemma write_at:
  assumes "fv s = Some (c, p)" "length (splice_at z k bs c) \<le> length c + space s"
  shows "\<exists>s1 s2. sk (int k) s = (None, s1) \<and> wr bs s1 = (None, s2)
    \<and> fv s2 = Some (splice_at z k bs c, k + length bs)
    \<and> length (splice_at z k bs c) + space s2 = length c + space s"
proof -
  obtain s1 where "sk (int k) s = (None, s1)" "fv s1 = Some (c, k)" "space s1 = space s"
    using seek_to [OF assms(1), of "int k"] by auto
  with write_here [of s1 c k bs] assms(2) show ?thesis by auto
qed

text \<open>A sequence of writes at given positions splices them all in, in order.\<close>

fun write_all :: "(nat \<times> 'b list) list \<Rightarrow> 's \<Rightarrow> 'e option \<times> 's" where
  "write_all [] s = (None, s)"
| "write_all ((k, bs) # ws) s =
     (case sk (int k) s of
        (Some e, s1) \<Rightarrow> (Some e, s1)
      | (None, s1) \<Rightarrow>
          (case wr bs s1 of (Some e, s2) \<Rightarrow> (Some e, s2) | (None, s2) \<Rightarrow> write_all ws s2))"

lemma write_all_splices:
  assumes "fv s = Some (c, p)" "length (splice_all z ws c) \<le> length c + space s"
  shows "\<exists>s' p'. write_all ws s = (None, s') \<and> fv s' = Some (splice_all z ws c, p')
    \<and> length (splice_all z ws c) + space s' = length c + space s"
  using assms
proof (induction ws arbitrary: s c p)
  case Nil
  then show ?case by simp
next
  case (Cons w ws)
  obtain k bs where w: "w = (k, bs)" by (cases w)
  have le: "length (splice_at z k bs c) \<le> length (splice_all z (w # ws) c)"
    using length_splice_all [of "splice_at z k bs c" z ws] w by simp
  with Cons(3) have "length (splice_at z k bs c) \<le> length c + space s" by simp
  from write_at [OF Cons(2) this] obtain s1 s2 where s2: "sk (int k) s = (None, s1)"
    "wr bs s1 = (None, s2)" "fv s2 = Some (splice_at z k bs c, k + length bs)"
    "length (splice_at z k bs c) + space s2 = length c + space s" by blast
  have "length (splice_all z ws (splice_at z k bs c)) \<le> length (splice_at z k bs c) + space s2"
    using Cons(3) s2(4) w by simp
  from Cons(1) [OF s2(3) this] s2 w show ?case by auto
qed

end

locale random_access = positioned_writes sk wr fv space z
  for sk :: "int \<Rightarrow> 's \<Rightarrow> 'e option \<times> 's" and wr :: "'b list \<Rightarrow> 's \<Rightarrow> 'e option \<times> 's"
    and fv :: "'s \<Rightarrow> ('b list \<times> nat) option" and space :: "'s \<Rightarrow> nat" and z :: 'b +
  fixes rd :: "nat \<Rightarrow> 's \<Rightarrow> ('e option \<times> int \<times> 'b list) \<times> 's"
  assumes read_here: "\<lbrakk>fv s = Some (c, p); 0 < n\<rbrakk>
      \<Longrightarrow> \<exists>s'. rd n s = ((None, if take n (drop p c) = [] then -1 else int (length (take n (drop p c))),
                            take n (drop p c)), s')
             \<and> fv s' = Some (c, p + length (take n (drop p c))) \<and> space s' = space s"
begin

lemma read_at:
  assumes "fv s = Some (c, p)" "0 < n"
  shows "\<exists>s1 s2. sk (int k) s = (None, s1)
    \<and> rd n s1 = ((None, if take n (drop k c) = [] then -1 else int (length (take n (drop k c))),
          take n (drop k c)), s2)
    \<and> fv s2 = Some (c, k + length (take n (drop k c))) \<and> space s2 = space s"
proof -
  obtain s1 where "sk (int k) s = (None, s1)" "fv s1 = Some (c, k)" "space s1 = space s"
    using seek_to [OF assms(1), of "int k"] by auto
  with read_here [of s1 c k n] assms(2) show ?thesis by auto
qed

lemma read_back:
  assumes "fv s = Some (c, p)" "length (splice_at z k bs c) \<le> length c + space s" "bs \<noteq> []"
  shows "\<exists>s1 s2 s3 s4. sk (int k) s = (None, s1) \<and> wr bs s1 = (None, s2)
    \<and> sk (int k) s2 = (None, s3) \<and> rd (length bs) s3 = ((None, int (length bs), bs), s4)"
proof -
  obtain s1 s2 where w: "sk (int k) s = (None, s1)" "wr bs s1 = (None, s2)"
    "fv s2 = Some (splice_at z k bs c, k + length bs)"
    using write_at [OF assms(1,2)] by blast
  have "take (length bs) (drop k (splice_at z k bs c)) = bs"
    using take_drop_splice_at [of k k "length bs" bs z c] by simp
  with read_at [OF w(3), of "length bs" k] assms(3) w(1,2) show ?thesis by auto
qed

end

section \<open>Heap\<close>

text \<open>
  Blocks of memory by address and size, 0 being no address; requests over \<open>most\<close> bytes are
  not covered.
\<close>

locale heap =
  fixes alloc :: "nat \<Rightarrow> 's \<Rightarrow> nat \<times> 's"
    and release :: "nat \<Rightarrow> 's \<Rightarrow> 's"
    and live :: "'s \<Rightarrow> (nat \<times> nat) set"
    and invar :: "'s \<Rightarrow> bool"
    and most :: nat
  assumes alloc_some: "\<lbrakk>invar s; n \<le> most; alloc n s = (p, s'); p \<noteq> 0\<rbrakk>
      \<Longrightarrow> invar s' \<and> (\<exists>k \<ge> n. (p, k) \<notin> live s \<and> live s' = insert (p, k) (live s))"
    and alloc_none: "\<lbrakk>invar s; alloc n s = (0, s')\<rbrakk> \<Longrightarrow> invar s' \<and> live s' = live s"
    and release_one: "\<lbrakk>invar s; (p, k) \<in> live s\<rbrakk>
      \<Longrightarrow> invar (release p s) \<and> live (release p s) = live s - {(p, k)}"
    and apart: "\<lbrakk>invar s; (p, k) \<in> live s; (q, l) \<in> live s; (p, k) \<noteq> (q, l)\<rbrakk>
      \<Longrightarrow> p + k < q \<or> q + l < p"
begin

lemma size_unique: "\<lbrakk>invar s; (p, k) \<in> live s; (p, l) \<in> live s\<rbrakk> \<Longrightarrow> k = l"
  using apart [of s p k p l] by auto

lemma new_apart:
  assumes "invar s" "n \<le> most" "alloc n s = (p, s')" "p \<noteq> 0"
  shows "\<exists>k \<ge> n. live s' = insert (p, k) (live s) \<and> (\<forall>(q, l) \<in> live s. p + k < q \<or> q + l < p)"
proof -
  obtain k where k: "invar s'" "n \<le> k" "(p, k) \<notin> live s" "live s' = insert (p, k) (live s)"
    using alloc_some [OF assms] by blast
  have "p + k < q \<or> q + l < p" if "(q, l) \<in> live s" for q l
    using apart [OF k(1), of p k q l] k(3,4) that by auto
  with k show ?thesis by blast
qed

lemma alloc_release:
  assumes "invar s" "n \<le> most" "alloc n s = (p, s')" "p \<noteq> 0"
  shows "invar (release p s') \<and> live (release p s') = live s"
proof -
  obtain k where k: "invar s'" "(p, k) \<notin> live s" "live s' = insert (p, k) (live s)"
    using alloc_some [OF assms] by blast
  with release_one [OF k(1), of p k] show ?thesis by auto
qed

lemma release_all:
  assumes "invar s" "distinct ps" "fst ` live s = set ps"
  shows "invar (fold release ps s) \<and> live (fold release ps s) = {}"
  using assms
proof (induction ps arbitrary: s)
  case (Cons p ps)
  then obtain k where k: "(p, k) \<in> live s" by force
  have r: "invar (release p s)" "live (release p s) = live s - {(p, k)}"
    using release_one [OF Cons(2) k] by auto
  have "fst ` (live s - {(p, k)}) = set ps"
    using Cons(3,4) size_unique [OF Cons(2) k] by (force simp: image_iff set_eq_iff)
  with Cons(1) [OF r(1)] Cons(3) r(2) show ?case by simp
qed simp

end

end
