(* ===== verification/EventQueue.thy ===== *)
theory EventQueue
  imports Interfaces "HOL-Library.Monad_Syntax"
begin

text \<open>
  The native event queue, \<^verbatim>\<open>midp/src/events/eventqueue/reference/native/midpEvents.c\<close>:
  one ring buffer of \<^verbatim>\<open>MAX_EVENTS\<close> events per isolate, filled by native code and
  emptied by the isolate's event monitor thread, which blocks on an empty queue.
  \<^verbatim>\<open>None\<close> as a result is undefined behaviour of the C code (a NULL queue table, an index
  outside it).
\<close>

section \<open>Data\<close>

definition MAX_EVENTS :: nat where
  "MAX_EVENTS = 20"

lemma MAX_EVENTS_pos [simp]: "0 < MAX_EVENTS" "MAX_EVENTS \<noteq> 0"
  by (simp_all add: MAX_EVENTS_def)

record MidpEvent =
  evtype :: int
  intParam1 :: int
  intParam2 :: int
  intParam3 :: int
  intParam4 :: int
  intParam5 :: int
  stringParam1 :: pcsl_string
  stringParam2 :: pcsl_string
  stringParam3 :: pcsl_string
  stringParam4 :: pcsl_string
  stringParam5 :: pcsl_string
  stringParam6 :: pcsl_string

text \<open>\<^verbatim>\<open>MIDP_EVENT_INITIALIZE\<close>: all zero, every string the NULL string.\<close>

definition MIDP_EVENT_INITIALIZE :: MidpEvent where
  "MIDP_EVENT_INITIALIZE =
     \<lparr>evtype = 0, intParam1 = 0, intParam2 = 0, intParam3 = 0, intParam4 = 0, intParam5 = 0,
      stringParam1 = PCSL_STRING_NULL, stringParam2 = PCSL_STRING_NULL,
      stringParam3 = PCSL_STRING_NULL, stringParam4 = PCSL_STRING_NULL,
      stringParam5 = PCSL_STRING_NULL, stringParam6 = PCSL_STRING_NULL\<rparr>"

definition EVENT_QUEUE_SHUTDOWN :: int where "EVENT_QUEUE_SHUTDOWN = 31"
definition FATAL_ERROR_NOTIFICATION :: int where "FATAL_ERROR_NOTIFICATION = 32"
definition ACTIVATE_ALL_EVENT :: int where "ACTIVATE_ALL_EVENT = 16"
definition PAUSE_ALL_EVENT :: int where "PAUSE_ALL_EVENT = 17"

record EventQueue =
  events :: "MidpEvent list"
  numEvents :: nat
  eventIn :: nat
  eventOut :: nat
  isMonitorBlocked :: bool

datatype queue_lock = NoLock | Unlocked | Locked

type_synonym thread = nat

text \<open>
  The module's static variables and the parts of the VM it drives: the special thread
  remembered for each isolate, the threads the VM has blocked, the status the VM was asked
  to exit with, and the string buffers handed back to the allocator.
\<close>

record EventSys =
  maxIsolates :: int
  pEventQueues :: "EventQueue list option"
  eventFieldIDsObtained :: bool
  queueLock :: queue_lock
  specialThread :: "int \<Rightarrow> thread option"
  blockedThreads :: "thread list"
  vmExit :: "int option"
  freedStrings :: "jchar list list"

section \<open>Single queue\<close>

text \<open>The statements that take an event out of a non-empty queue, and put one into it.\<close>

definition dequeueEvent :: "EventQueue \<Rightarrow> MidpEvent \<times> EventQueue" where
  "dequeueEvent q =
     (events q ! eventOut q,
      q\<lparr>events := (events q)[eventOut q := MIDP_EVENT_INITIALIZE],
        numEvents := numEvents q - 1,
        eventOut := (if Suc (eventOut q) = MAX_EVENTS then 0 else Suc (eventOut q))\<rparr>)"

definition enqueueEvent :: "EventQueue \<Rightarrow> MidpEvent \<Rightarrow> EventQueue" where
  "enqueueEvent q e =
     q\<lparr>events := (events q)[eventIn q := e],
       eventIn := (if Suc (eventIn q) = MAX_EVENTS then 0 else Suc (eventIn q)),
       numEvents := numEvents q + 1\<rparr>"

text \<open>The strings \<^verbatim>\<open>freeMIDPEventFields\<close> gives back (\<^verbatim>\<open>pcsl_string_free\<close> of NULL does nothing).\<close>

definition eventStrings :: "MidpEvent \<Rightarrow> jchar list list" where
  "eventStrings e =
     List.map_filter id
       [stringParam1 e, stringParam2 e, stringParam3 e,
        stringParam4 e, stringParam5 e, stringParam6 e]"

definition freeMIDPEventFields :: "EventSys \<Rightarrow> MidpEvent \<Rightarrow> EventSys" where
  "freeMIDPEventFields s e = s\<lparr>freedStrings := freedStrings s @ eventStrings e\<rparr>"

section \<open>The queue table\<close>

definition getIsolateEventQueue :: "EventSys \<Rightarrow> int \<Rightarrow> nat" where
  "getIsolateEventQueue s isolateId =
     nat (if isolateId < 0 \<or> isolateId \<ge> maxIsolates s then 0 else isolateId)"

definition setQueue :: "EventSys \<Rightarrow> nat \<Rightarrow> EventQueue \<Rightarrow> EventSys" where
  "setQueue s i q = s\<lparr>pEventQueues := map_option (\<lambda>qs. qs[i := q]) (pEventQueues s)\<rparr>"

definition queueAt :: "EventSys \<Rightarrow> nat \<Rightarrow> EventQueue option" where
  "queueAt s i =
     (case pEventQueues s of
        None \<Rightarrow> None
      | Some qs \<Rightarrow> if i < length qs then Some (qs ! i) else None)"

text \<open>-1 and no event for an empty queue, otherwise the event and the number still pending.\<close>

definition getPendingMIDPEvent ::
  "EventSys \<Rightarrow> int \<Rightarrow> ((int \<times> MidpEvent option) \<times> EventSys) option" where
  "getPendingMIDPEvent s isolateId =
     (let i = getIsolateEventQueue s isolateId in
      case queueAt s i of
        None \<Rightarrow> None
      | Some q \<Rightarrow>
          if numEvents q = 0 then Some ((-1, None), s)
          else (let (e, q') = dequeueEvent q in
                Some ((int (numEvents q'), Some e), setQueue s i q')))"


section \<open>Resetting, starting and stopping\<close>

lemma queueAt_setQueue:
  "queueAt (setQueue s i q) j = (if i = j then map_option (\<lambda>_. q) (queueAt s i) else queueAt s j)"
  by (auto simp: queueAt_def setQueue_def nth_list_update split: option.splits)

lemma getIsolateEventQueue_frame [simp]:
  "getIsolateEventQueue (setQueue s i q) = getIsolateEventQueue s"
  "getIsolateEventQueue (freeMIDPEventFields s e) = getIsolateEventQueue s"
  by (auto simp: getIsolateEventQueue_def setQueue_def freeMIDPEventFields_def fun_eq_iff)

lemma queueAt_free [simp]: "queueAt (freeMIDPEventFields s e) i = queueAt s i"
  by (simp add: queueAt_def freeMIDPEventFields_def)

definition pendingAt :: "EventSys \<Rightarrow> int \<Rightarrow> nat" where
  "pendingAt s h =
     (case queueAt s (getIsolateEventQueue s h) of None \<Rightarrow> 0 | Some q \<Rightarrow> numEvents q)"

lemma getPending_Some_decreases:
  "getPendingMIDPEvent s h = Some ((n, e), s') \<Longrightarrow> n \<noteq> -1 \<Longrightarrow> pendingAt s' h < pendingAt s h"
  by (auto simp: getPendingMIDPEvent_def Let_def pendingAt_def dequeueEvent_def
        queueAt_setQueue split: option.splits if_splits)

text \<open>The loop of \<^verbatim>\<open>resetEventQueue\<close>: take every pending event and free its strings.\<close>

function drainEvents :: "EventSys \<Rightarrow> int \<Rightarrow> EventSys option" where
  "drainEvents s h =
     (case getPendingMIDPEvent s h of
        None \<Rightarrow> None
      | Some ((n, e), s') \<Rightarrow>
          if n = -1 then Some s'
          else (case e of
                  None \<Rightarrow> None
                | Some ev \<Rightarrow> drainEvents (freeMIDPEventFields s' ev) h))"
  by pat_completeness auto
termination
  by (relation "measure (\<lambda>(s, h). pendingAt s h)")
    (auto simp: pendingAt_def [of "freeMIDPEventFields _ _"] pendingAt_def [symmetric]
          dest!: getPending_Some_decreases)

declare drainEvents.simps [simp del]

definition resetEventQueue :: "EventSys \<Rightarrow> int \<Rightarrow> EventSys option" where
  "resetEventQueue s handle =
     (case pEventQueues s of
        None \<Rightarrow> Some s
      | Some qs \<Rightarrow>
          if handle < 0 \<or> handle \<ge> int (length qs) then None
          else drainEvents
                 (setQueue s (nat handle) ((qs ! nat handle)\<lparr>isMonitorBlocked := False\<rparr>)) handle)"

fun resetQueues :: "int list \<Rightarrow> EventSys \<Rightarrow> EventSys option" where
  "resetQueues [] s = Some s"
| "resetQueues (i # is) s = do { s' \<leftarrow> resetEventQueue s i; resetQueues is s' }"

definition midp_resetEvents :: "EventSys \<Rightarrow> EventSys option" where
  "midp_resetEvents s =
     resetQueues (map int [0..<nat (maxIsolates s)]) (s\<lparr>eventFieldIDsObtained := False\<rparr>)"

definition zeroEventQueue :: EventQueue where
  "zeroEventQueue =
     \<lparr>events = replicate MAX_EVENTS MIDP_EVENT_INITIALIZE, numEvents = 0, eventIn = 0,
      eventOut = 0, isMonitorBlocked = False\<rparr>"

text \<open>
  \<^verbatim>\<open>multiple\<close> is the build flag \<^verbatim>\<open>ENABLE_MULTIPLE_ISOLATES\<close>, \<^verbatim>\<open>jvmMax\<close> what
  \<^verbatim>\<open>JVM_MaxIsolates\<close> answers, \<^verbatim>\<open>ok\<close> whether \<^verbatim>\<open>midpMalloc\<close> succeeds.
\<close>

definition InitializeEvents :: "bool \<Rightarrow> int \<Rightarrow> bool \<Rightarrow> EventSys \<Rightarrow> int \<times> EventSys" where
  "InitializeEvents multiple jvmMax ok s =
     (if pEventQueues s \<noteq> None then (0, s)
      else
        let s1 = (if multiple then s\<lparr>maxIsolates := jvmMax\<rparr> else s) in
        if \<not> ok then (-1, s1)
        else (0, s1\<lparr>pEventQueues := Some (replicate (nat (maxIsolates s1)) zeroEventQueue),
                    queueLock := Unlocked\<rparr>))"

definition FinalizeEvents :: "EventSys \<Rightarrow> EventSys option" where
  "FinalizeEvents s =
     (let s1 = s\<lparr>queueLock := NoLock\<rparr> in
      if pEventQueues s1 \<noteq> None
      then do { s2 \<leftarrow> midp_resetEvents s1; Some (s2\<lparr>pEventQueues := None\<rparr>) }
      else Some s1)"

section \<open>Storing\<close>

definition unblockThread :: "EventSys \<Rightarrow> thread \<Rightarrow> EventSys" where
  "unblockThread s t = s\<lparr>blockedThreads := removeAll t (blockedThreads s)\<rparr>"

definition StoreMIDPEventInVmThreadImp ::
  "MidpEvent \<Rightarrow> int \<Rightarrow> EventSys \<Rightarrow> EventSys option" where
  "StoreMIDPEventInVmThreadImp event isolateId s =
     (let i = getIsolateEventQueue s isolateId in
      case queueAt s i of
        None \<Rightarrow> None
      | Some q \<Rightarrow>
          let s1 = s\<lparr>queueLock := Locked\<rparr>;
              s2 = (if numEvents q \<noteq> MAX_EVENTS then
                      let q1 = enqueueEvent q event in
                      if isMonitorBlocked q1 then
                        (case specialThread s1 isolateId of
                           Some t \<Rightarrow>
                             setQueue (unblockThread s1 t) i (q1\<lparr>isMonitorBlocked := False\<rparr>)
                         | None \<Rightarrow> setQueue s1 i q1)
                      else setQueue s1 i q1
                    else s1)
          in Some (s2\<lparr>queueLock := Unlocked\<rparr>))"

fun storeToAll :: "MidpEvent \<Rightarrow> int list \<Rightarrow> EventSys \<Rightarrow> EventSys option" where
  "storeToAll event [] s = Some s"
| "storeToAll event (i # is) s =
     do { s' \<leftarrow> StoreMIDPEventInVmThreadImp event i s; storeToAll event is s' }"

definition StoreMIDPEventInVmThread :: "MidpEvent \<Rightarrow> int \<Rightarrow> EventSys \<Rightarrow> EventSys option" where
  "StoreMIDPEventInVmThread event isolateId s =
     (if isolateId \<noteq> -1 then StoreMIDPEventInVmThreadImp event isolateId s
      else storeToAll event (map int [0..<MAX_ISOLATES]) s)"

text \<open>\<^verbatim>\<open>cur\<close> and \<^verbatim>\<open>ams\<close> are \<^verbatim>\<open>getCurrentIsolateId()\<close> and \<^verbatim>\<open>midpGetAmsIsolateId()\<close>.\<close>

definition handleFatalError :: "int \<Rightarrow> int \<Rightarrow> EventSys \<Rightarrow> EventSys option" where
  "handleFatalError cur ams s =
     (if cur = ams then Some (s\<lparr>vmExit := Some (-1)\<rparr>)
      else StoreMIDPEventInVmThread
             (MIDP_EVENT_INITIALIZE\<lparr>evtype := FATAL_ERROR_NOTIFICATION, intParam1 := cur\<rparr>) ams s)"

section \<open>Native methods of the event monitor and of the Java queue\<close>

text \<open>The Java event object has the fields of the native event.\<close>

definition setStringField :: "pcsl_string \<Rightarrow> pcsl_string \<Rightarrow> pcsl_string" where
  "setStringField v old = (case v of None \<Rightarrow> old | Some x \<Rightarrow> Some x)"

definition fillEventObject :: "MidpEvent \<Rightarrow> MidpEvent \<Rightarrow> MidpEvent" where
  "fillEventObject e obj =
     obj\<lparr>evtype := evtype e, intParam1 := intParam1 e, intParam2 := intParam2 e,
         intParam3 := intParam3 e, intParam4 := intParam4 e, intParam5 := intParam5 e,
         stringParam1 := setStringField (stringParam1 e) (stringParam1 obj),
         stringParam2 := setStringField (stringParam2 e) (stringParam2 obj),
         stringParam3 := setStringField (stringParam3 e) (stringParam3 obj),
         stringParam4 := setStringField (stringParam4 e) (stringParam4 obj),
         stringParam5 := setStringField (stringParam5 e) (stringParam5 obj),
         stringParam6 := setStringField (stringParam6 e) (stringParam6 obj)\<rparr>"

definition readNativeEventCommon ::
  "int \<Rightarrow> MidpEvent \<Rightarrow> EventSys \<Rightarrow> ((int \<times> MidpEvent) \<times> EventSys) option" where
  "readNativeEventCommon isolateId eventObj s =
     do { ((eventsPending, e), s1) \<leftarrow> getPendingMIDPEvent s isolateId;
          if eventsPending = -1 then Some ((eventsPending, eventObj), s1)
          else do { event \<leftarrow> e;
                    Some ((eventsPending, fillEventObject event eventObj),
                          freeMIDPEventFields (s1\<lparr>eventFieldIDsObtained := True\<rparr>) event) } }"

definition waitForNativeEvent ::
  "int \<Rightarrow> thread \<Rightarrow> MidpEvent \<Rightarrow> EventSys \<Rightarrow> ((int \<times> MidpEvent) \<times> EventSys) option" where
  "waitForNativeEvent isolateId self eventObj s =
     do { ((eventsPending, obj), s1) \<leftarrow> readNativeEventCommon isolateId eventObj s;
          if eventsPending \<noteq> -1 then Some ((eventsPending, obj), s1)
          else do { q \<leftarrow> queueAt s1 (getIsolateEventQueue s1 isolateId);
                    Some ((0, obj),
                          setQueue (s1\<lparr>specialThread := (specialThread s1)(isolateId := Some self),
                                       blockedThreads := self # blockedThreads s1\<rparr>)
                            (getIsolateEventQueue s1 isolateId)
                            (q\<lparr>isMonitorBlocked := True\<rparr>)) } }"

definition readNativeEvent ::
  "int \<Rightarrow> MidpEvent \<Rightarrow> EventSys \<Rightarrow> ((bool \<times> MidpEvent) \<times> EventSys) option" where
  "readNativeEvent isolateId eventObj s =
     do { ((n, obj), s1) \<leftarrow> readNativeEventCommon isolateId eventObj s;
          Some ((n \<noteq> -1, obj), s1) }"

fun setStringParam :: "nat \<Rightarrow> pcsl_string \<Rightarrow> MidpEvent \<Rightarrow> MidpEvent" where
  "setStringParam k v e =
     (if k = 1 then e\<lparr>stringParam1 := v\<rparr> else if k = 2 then e\<lparr>stringParam2 := v\<rparr>
      else if k = 3 then e\<lparr>stringParam3 := v\<rparr> else if k = 4 then e\<lparr>stringParam4 := v\<rparr>
      else if k = 5 then e\<lparr>stringParam5 := v\<rparr> else e\<lparr>stringParam6 := v\<rparr>)"

fun getStringParam :: "nat \<Rightarrow> MidpEvent \<Rightarrow> pcsl_string" where
  "getStringParam k e =
     (if k = 1 then stringParam1 e else if k = 2 then stringParam2 e
      else if k = 3 then stringParam3 e else if k = 4 then stringParam4 e
      else if k = 5 then stringParam5 e else stringParam6 e)"

text \<open>
  The six \<^verbatim>\<open>GET_STRING_EVENT_FIELD\<close> uses: each conversion may run out of memory
  (\<^verbatim>\<open>alloc k\<close> says whether the k-th succeeds), which leaves the loop.
\<close>

fun getStringFields ::
  "(nat \<Rightarrow> bool) \<Rightarrow> MidpEvent \<Rightarrow> nat list \<Rightarrow> MidpEvent \<Rightarrow> MidpEvent \<times> bool" where
  "getStringFields alloc obj [] event = (event, True)"
| "getStringFields alloc obj (k # ks) event =
     (if alloc k
      then getStringFields alloc obj ks (setStringParam k (getStringParam k obj) event)
      else (event, False))"

definition sendNativeEventToIsolate ::
  "(nat \<Rightarrow> bool) \<Rightarrow> MidpEvent \<Rightarrow> int \<Rightarrow> EventSys \<Rightarrow> EventSys option" where
  "sendNativeEventToIsolate alloc eventObj isolateId s =
     (let s1 = s\<lparr>eventFieldIDsObtained := True\<rparr>;
          event0 = MIDP_EVENT_INITIALIZE
                     \<lparr>evtype := evtype eventObj, intParam1 := intParam1 eventObj,
                      intParam2 := intParam2 eventObj, intParam3 := intParam3 eventObj,
                      intParam4 := intParam4 eventObj, intParam5 := intParam5 eventObj\<rparr>;
          (event, noExceptions) = getStringFields alloc eventObj [1, 2, 3, 4, 5, 6] event0
      in if noExceptions then StoreMIDPEventInVmThread event isolateId s1
         else Some (freeMIDPEventFields s1 event))"

definition sendShutdownEvent :: "int \<Rightarrow> EventSys \<Rightarrow> EventSys option" where
  "sendShutdownEvent cur s =
     StoreMIDPEventInVmThread (MIDP_EVENT_INITIALIZE\<lparr>evtype := EVENT_QUEUE_SHUTDOWN\<rparr>) cur s"

definition resetNativeEventQueue :: "int \<Rightarrow> EventSys \<Rightarrow> EventSys option" where
  "resetNativeEventQueue cur s = resetEventQueue s cur"

text \<open>\<^verbatim>\<open>handle\<close> is the Java object's \<^verbatim>\<open>nativeEventQueueHandle\<close>.\<close>

definition EventQueue_finalize :: "int \<Rightarrow> EventSys \<Rightarrow> EventSys option" where
  "EventQueue_finalize handle s = (if handle \<ge> 0 then resetEventQueue s handle else Some s)"

section \<open>The end of an isolate\<close>

text \<open>
  \<^verbatim>\<open>Task::stop\<close> of the VM wakes the blocked threads of the task (\<open>ofTask\<close>) and forgets its special
  thread. It does not touch the isolate's queue: the monitor stays marked as blocked.
\<close>

definition wake_up_async_threads :: "(thread \<Rightarrow> bool) \<Rightarrow> EventSys \<Rightarrow> EventSys" where
  "wake_up_async_threads ofTask s = s\<lparr>blockedThreads := filter (\<lambda>t. \<not> ofTask t) (blockedThreads s)\<rparr>"

definition clear_special_thread :: "int \<Rightarrow> EventSys \<Rightarrow> EventSys" where
  "clear_special_thread i s = s\<lparr>specialThread := (specialThread s)(i := None)\<rparr>"

definition Task_stop :: "int \<Rightarrow> (thread \<Rightarrow> bool) \<Rightarrow> EventSys \<Rightarrow> EventSys" where
  "Task_stop i ofTask s = clear_special_thread i (wake_up_async_threads ofTask s)"

section \<open>The ring and its invariant\<close>

definition pending :: "EventQueue \<Rightarrow> MidpEvent list" where
  "pending q = map (\<lambda>k. events q ! ((eventOut q + k) mod MAX_EVENTS)) [0..<numEvents q]"

definition ring_inv :: "EventQueue \<Rightarrow> bool" where
  "ring_inv q \<longleftrightarrow>
     length (events q) = MAX_EVENTS \<and> eventOut q < MAX_EVENTS \<and> numEvents q \<le> MAX_EVENTS
     \<and> eventIn q = (eventOut q + numEvents q) mod MAX_EVENTS
     \<and> (\<forall>k \<in> {numEvents q..<MAX_EVENTS}.
          events q ! ((eventOut q + k) mod MAX_EVENTS) = MIDP_EVENT_INITIALIZE)"

lemma length_pending [simp]: "length (pending q) = numEvents q"
  by (simp add: pending_def)

lemma pending_empty_iff: "pending q = [] \<longleftrightarrow> numEvents q = 0"
  by (metis length_pending length_0_conv)

lemma pending_monitor [simp]: "pending (q\<lparr>isMonitorBlocked := b\<rparr>) = pending q"
  by (simp add: pending_def)

lemma ring_inv_monitor [simp]: "ring_inv (q\<lparr>isMonitorBlocked := b\<rparr>) = ring_inv q"
  by (simp add: ring_inv_def)

lemma enqueue_ring_inv:
  assumes q: "ring_inv q" and n: "numEvents q < MAX_EVENTS"
  shows "ring_inv (enqueueEvent q e)"
proof -
  have "\<And>k. \<lbrakk>Suc (numEvents q) \<le> k; k < MAX_EVENTS\<rbrakk>
    \<Longrightarrow> (eventOut q + numEvents q) mod MAX_EVENTS \<noteq> (eventOut q + k) mod MAX_EVENTS"
    by (rule ring_add_neq) auto
  then show ?thesis
    using q n ring_succ_mod [of "eventIn q" MAX_EVENTS]
    by (auto simp: ring_inv_def enqueueEvent_def ring_succ_def nth_list_update mod_Suc_eq)
qed

lemma enqueue_pending:
  assumes q: "ring_inv q" and n: "numEvents q < MAX_EVENTS"
  shows "pending (enqueueEvent q e) = pending q @ [e]"
proof -
  have "\<And>k. k < numEvents q
    \<Longrightarrow> (eventOut q + k) mod MAX_EVENTS \<noteq> (eventOut q + numEvents q) mod MAX_EVENTS"
    using n by (intro ring_add_neq) auto
  then show ?thesis
    using q by (fastforce simp: pending_def enqueueEvent_def ring_inv_def nth_list_update)
qed

lemma dequeue_pending:
  assumes q: "ring_inv q" and n: "numEvents q \<noteq> 0"
  shows "pending q = fst (dequeueEvent q) # pending (snd (dequeueEvent q))"
proof -
  obtain m where m: "numEvents q = Suc m" using n by (cases "numEvents q") auto
  have out: "ring_succ MAX_EVENTS (eventOut q) = Suc (eventOut q) mod MAX_EVENTS"
    using q by (simp add: ring_succ_mod ring_inv_def)
  have "\<And>k. k < m \<Longrightarrow> (eventOut q + 0) mod MAX_EVENTS \<noteq> (eventOut q + Suc k) mod MAX_EVENTS"
    using q m by (intro ring_add_neq) (auto simp: ring_inv_def)
  then have "map (\<lambda>k. (events q)[eventOut q := MIDP_EVENT_INITIALIZE] !
                 ((Suc (eventOut q) mod MAX_EVENTS + k) mod MAX_EVENTS)) [0..<m]
      = map (\<lambda>k. events q ! ((eventOut q + Suc k) mod MAX_EVENTS)) [0..<m]"
    using q by (intro map_cong) (auto simp: ring_inv_def nth_list_update mod_add_left_eq)
  then show ?thesis
    using q m out map_upt_Suc_shift [of "\<lambda>k. events q ! ((eventOut q + k) mod MAX_EVENTS)" m]
    by (simp add: pending_def dequeueEvent_def ring_inv_def flip: ring_succ_def
          del: upt_Suc)
qed

lemma dequeue_ring_inv:
  assumes q: "ring_inv q" and n: "numEvents q \<noteq> 0"
  shows "ring_inv (snd (dequeueEvent q))"
proof -
  have out: "(if Suc (eventOut q) = MAX_EVENTS then 0 else Suc (eventOut q)) = Suc (eventOut q) mod MAX_EVENTS"
    using q by (auto simp: ring_inv_def)
  have dead: "(events q)[eventOut q := MIDP_EVENT_INITIALIZE] ! ((Suc (eventOut q) mod MAX_EVENTS + k) mod MAX_EVENTS)
      = MIDP_EVENT_INITIALIZE" if "numEvents q - 1 \<le> k" "k < MAX_EVENTS" for k
  proof (cases "Suc k = MAX_EVENTS")
    case True
    then have "(Suc (eventOut q) mod MAX_EVENTS + k) mod MAX_EVENTS = eventOut q"
      using q by (simp add: mod_add_left_eq ring_inv_def flip: add_Suc_right)
    then show ?thesis using q by (simp add: ring_inv_def)
  next
    case False
    then have "(eventOut q + 0) mod MAX_EVENTS \<noteq> (eventOut q + Suc k) mod MAX_EVENTS"
      using that by (intro ring_add_neq) auto
    moreover have "Suc k \<in> {numEvents q..<MAX_EVENTS}"
      using that False by auto
    then have "events q ! ((eventOut q + Suc k) mod MAX_EVENTS) = MIDP_EVENT_INITIALIZE"
      using q unfolding ring_inv_def by blast
    ultimately show ?thesis
      using q by (simp add: ring_inv_def mod_add_left_eq nth_list_update)
  qed
  obtain m where "numEvents q = Suc m" using n by (cases "numEvents q") auto
  then show ?thesis
    using q dead unfolding ring_inv_def dequeueEvent_def
    by (auto simp: out mod_add_left_eq)
qed


lemma ring_inv_zero: "ring_inv zeroEventQueue" "pending zeroEventQueue = []"
  by (auto simp: ring_inv_def zeroEventQueue_def pending_def)

interpretation ring: bounded_fifo enqueueEvent dequeueEvent pending MAX_EVENTS ring_inv
proof unfold_locales
  fix q :: EventQueue and e :: MidpEvent
  assume q: "ring_inv q"
  show "length (pending q) \<le> MAX_EVENTS"
    using q by (simp add: ring_inv_def)
  show "length (pending q) < MAX_EVENTS \<Longrightarrow> pending (enqueueEvent q e) = pending q @ [e]"
    using q by (simp add: enqueue_pending)
  show "length (pending q) < MAX_EVENTS \<Longrightarrow> ring_inv (enqueueEvent q e)"
    using q by (simp add: enqueue_ring_inv)
  show "pending q \<noteq> [] \<Longrightarrow> fst (dequeueEvent q) = hd (pending q)"
    and "pending q \<noteq> [] \<Longrightarrow> pending (snd (dequeueEvent q)) = tl (pending q)"
    using dequeue_pending [OF q] by (auto simp: pending_empty_iff)
  show "pending q \<noteq> [] \<Longrightarrow> ring_inv (snd (dequeueEvent q))"
    using dequeue_ring_inv [OF q] by (simp add: pending_empty_iff)
qed

section \<open>The system invariant\<close>

text \<open>
  Every queue is a well-formed ring, and no isolate's monitor is marked blocked while events are
  waiting for it, unless the VM has no thread for it any more.
\<close>

definition queue_ok :: "EventSys \<Rightarrow> nat \<Rightarrow> EventQueue \<Rightarrow> bool" where
  "queue_ok s i q \<longleftrightarrow>
     ring_inv q \<and> (isMonitorBlocked q \<longrightarrow> numEvents q = 0 \<or> specialThread s (int i) = None)"

definition event_inv :: "EventSys \<Rightarrow> bool" where
  "event_inv s \<longleftrightarrow>
     0 < maxIsolates s
     \<and> (\<forall>qs. pEventQueues s = Some qs \<longrightarrow>
          length qs = nat (maxIsolates s) \<and> (\<forall>i < length qs. queue_ok s i (qs ! i)))"

definition valid_isolate :: "EventSys \<Rightarrow> int \<Rightarrow> bool" where
  "valid_isolate s i \<longleftrightarrow> 0 \<le> i \<and> i < maxIsolates s"

lemma getIsolateEventQueue_valid [simp]:
  "valid_isolate s i \<Longrightarrow> getIsolateEventQueue s i = nat i"
  by (simp add: valid_isolate_def getIsolateEventQueue_def)

lemma queueAt_ok: "event_inv s \<Longrightarrow> queueAt s i = Some q \<Longrightarrow> queue_ok s i q"
  by (auto simp: event_inv_def queueAt_def split: option.splits if_splits)

lemma queueAt_ring: "event_inv s \<Longrightarrow> queueAt s i = Some q \<Longrightarrow> ring_inv q"
  by (drule (1) queueAt_ok) (simp add: queue_ok_def)

lemma event_inv_setQueue:
  assumes "event_inv s" "queue_ok s i q"
  shows "event_inv (setQueue s i q)"
proof -
  have "queue_ok (setQueue s i q) = queue_ok s"
    by (simp add: queue_ok_def setQueue_def fun_eq_iff)
  then show ?thesis
    using assms unfolding event_inv_def by (auto simp: setQueue_def nth_list_update_if)
qed

lemma event_inv_more:
  "event_inv s \<Longrightarrow> event_inv (s\<lparr>queueLock := l\<rparr>)"
  "event_inv s \<Longrightarrow> event_inv (s\<lparr>eventFieldIDsObtained := b\<rparr>)"
  "event_inv s \<Longrightarrow> event_inv (s\<lparr>vmExit := v\<rparr>)"
  "event_inv s \<Longrightarrow> event_inv (freeMIDPEventFields s e)"
  "event_inv s \<Longrightarrow> event_inv (unblockThread s t)"
  "event_inv s \<Longrightarrow> event_inv (s\<lparr>blockedThreads := ts\<rparr>)"
  "event_inv s \<Longrightarrow> event_inv (s\<lparr>specialThread := (specialThread s)(i := None)\<rparr>)"
  by (auto simp: event_inv_def queue_ok_def freeMIDPEventFields_def unblockThread_def)


lemma frame_simps [simp]:
  "maxIsolates (setQueue s i q) = maxIsolates s"
  "specialThread (setQueue s i q) = specialThread s"
  "blockedThreads (setQueue s i q) = blockedThreads s"
  "freedStrings (setQueue s i q) = freedStrings s"
  "queueLock (setQueue s i q) = queueLock s"
  "maxIsolates (freeMIDPEventFields s e) = maxIsolates s"
  "freedStrings (freeMIDPEventFields s e) = freedStrings s @ eventStrings e"
  "pEventQueues (freeMIDPEventFields s e) = pEventQueues s"
  "maxIsolates (unblockThread s t) = maxIsolates s"
  "specialThread (unblockThread s t) = specialThread s"
  "queueAt (s\<lparr>queueLock := l\<rparr>) = queueAt s"
  "queueAt (unblockThread s t) = queueAt s"
  "queueAt (s\<lparr>eventFieldIDsObtained := b\<rparr>) = queueAt s"
  "queueAt (s\<lparr>specialThread := f, blockedThreads := ts\<rparr>) = queueAt s"
  by (auto simp: setQueue_def freeMIDPEventFields_def unblockThread_def queueAt_def fun_eq_iff)

lemma getPending_inv [inv_intros]:
  assumes "event_inv s" "getPendingMIDPEvent s i = Some (r, s')"
  shows "event_inv s'"
proof -
  obtain q where q: "queueAt s (getIsolateEventQueue s i) = Some q"
    using assms(2) by (auto simp: getPendingMIDPEvent_def Let_def split: option.splits)
  show ?thesis
  proof (cases "numEvents q = 0")
    case True
    with q assms show ?thesis by (auto simp: getPendingMIDPEvent_def)
  next
    case False
    have "queue_ok s (getIsolateEventQueue s i) (snd (dequeueEvent q))"
      using queueAt_ok [OF assms(1) q] False dequeue_ring_inv [of q]
      by (auto simp: queue_ok_def) (auto simp: dequeueEvent_def)
    with q assms False show ?thesis
      by (auto simp: getPendingMIDPEvent_def split_def Let_def intro: event_inv_setQueue)
  qed
qed

lemma getPending_empty:
  "queueAt s (getIsolateEventQueue s h) = Some q \<Longrightarrow> numEvents q = 0
   \<Longrightarrow> getPendingMIDPEvent s h = Some ((-1, None), s)"
  by (simp add: getPendingMIDPEvent_def)

lemma getPending_first:
  assumes "event_inv s" "queueAt s (getIsolateEventQueue s h) = Some q" "pending q = e # es"
  obtains q' where
    "getPendingMIDPEvent s h = Some ((int (length es), Some e), setQueue s (getIsolateEventQueue s h) q')"
    and "pending q' = es" "ring_inv q'" "isMonitorBlocked q' = isMonitorBlocked q"
proof
  have n: "numEvents q \<noteq> 0" using assms(3) by (metis list.distinct(1) pending_empty_iff)
  note d = dequeue_pending [OF queueAt_ring [OF assms(1,2)] n]
  show "pending (snd (dequeueEvent q)) = es" using d assms(3) by simp
  then have "numEvents (snd (dequeueEvent q)) = length es" by (metis length_pending)
  with n d assms(2,3) show "getPendingMIDPEvent s h = Some ((int (length es), Some e),
      setQueue s (getIsolateEventQueue s h) (snd (dequeueEvent q)))"
    by (auto simp: getPendingMIDPEvent_def split_def Let_def)
  show "ring_inv (snd (dequeueEvent q))"
    using dequeue_ring_inv [OF queueAt_ring [OF assms(1,2)] n] .
  show "isMonitorBlocked (snd (dequeueEvent q)) = isMonitorBlocked q"
    by (simp add: dequeueEvent_def)
qed

text \<open>Draining a queue returns every string of every pending event to the allocator, once.\<close>

lemma drainEvents_empties:
  assumes "event_inv s" "queueAt s (getIsolateEventQueue s h) = Some q"
  shows "\<exists>s' q'. drainEvents s h = Some s' \<and> event_inv s'
    \<and> queueAt s' (getIsolateEventQueue s h) = Some q' \<and> pending q' = []
    \<and> isMonitorBlocked q' = isMonitorBlocked q \<and> maxIsolates s' = maxIsolates s
    \<and> (\<forall>j. j \<noteq> getIsolateEventQueue s h \<longrightarrow> queueAt s' j = queueAt s j)
    \<and> freedStrings s' = freedStrings s @ concat (map eventStrings (pending q))"
  using assms
proof (induction "pending q" arbitrary: s q)
  case Nil
  then have "getPendingMIDPEvent s h = Some ((-1, None), s)"
    by (intro getPending_empty) (auto simp: pending_empty_iff [symmetric])
  with Nil show ?case by (subst drainEvents.simps) auto
next
  case (Cons e es)
  let ?i = "getIsolateEventQueue s h"
  obtain q' where g: "getPendingMIDPEvent s h = Some ((int (length es), Some e), setQueue s ?i q')"
    and q': "pending q' = es" "isMonitorBlocked q' = isMonitorBlocked q"
    using getPending_first [OF Cons.prems Cons.hyps(2) [symmetric]] by metis
  let ?s = "freeMIDPEventFields (setQueue s ?i q') e"
  have inv: "event_inv ?s" using getPending_inv [OF Cons.prems(1) g] by (rule event_inv_more)
  have at: "queueAt ?s (getIsolateEventQueue ?s h) = Some q'"
    using Cons.prems(2) by (simp add: queueAt_setQueue)
  have "drainEvents s h = drainEvents ?s h" by (subst drainEvents.simps) (simp add: g)
  with Cons.hyps(1) [OF q'(1) [symmetric] inv at] q' Cons.hyps(2) [symmetric] show ?case
    by (auto simp: queueAt_setQueue)
qed


lemma drain_inv [inv_intros]: "event_inv s \<Longrightarrow> drainEvents s h = Some s' \<Longrightarrow> event_inv s'"
proof -
  assume a: "event_inv s" "drainEvents s h = Some s'"
  then obtain q where "queueAt s (getIsolateEventQueue s h) = Some q"
    by (cases "queueAt s (getIsolateEventQueue s h)")
      (auto simp: drainEvents.simps [of s h] getPendingMIDPEvent_def Let_def)
  from drainEvents_empties [OF a(1) this] a(2) show ?thesis by auto
qed

lemma reset_inv [inv_intros]:
  assumes "event_inv s" "resetEventQueue s h = Some s'"
  shows "event_inv s'"
proof (cases "pEventQueues s")
  case None
  with assms show ?thesis by (simp add: resetEventQueue_def)
next
  case (Some qs)
  then have "queue_ok s (nat h) ((qs ! nat h)\<lparr>isMonitorBlocked := False\<rparr>)"
    using assms by (auto simp: event_inv_def queue_ok_def resetEventQueue_def split: if_splits)
  then show ?thesis
    using assms Some
    by (auto simp: resetEventQueue_def intro: drain_inv event_inv_setQueue split: if_splits)
qed

lemma reset_cleans:
  assumes "event_inv s" "valid_isolate s h" "queueAt s (nat h) = Some q"
  shows "\<exists>s' q'. resetEventQueue s h = Some s' \<and> queueAt s' (nat h) = Some q'
    \<and> pending q' = [] \<and> \<not> isMonitorBlocked q' \<and> maxIsolates s' = maxIsolates s
    \<and> (\<forall>j. j \<noteq> nat h \<longrightarrow> queueAt s' j = queueAt s j)
    \<and> freedStrings s' = freedStrings s @ concat (map eventStrings (pending q))"
proof -
  obtain qs where qs: "pEventQueues s = Some qs" "nat h < length qs" "q = qs ! nat h"
    using assms(3) by (auto simp: queueAt_def split: option.splits if_splits)
  let ?s = "setQueue s (nat h) (q\<lparr>isMonitorBlocked := False\<rparr>)"
  have inv: "event_inv ?s"
    using assms queueAt_ok [OF assms(1,3)] by (auto intro!: event_inv_setQueue simp: queue_ok_def)
  have "queueAt ?s (getIsolateEventQueue ?s h) = Some (q\<lparr>isMonitorBlocked := False\<rparr>)"
    using assms by (simp add: queueAt_setQueue)
  from drainEvents_empties [OF inv this] assms qs show ?thesis
    by (auto simp: resetEventQueue_def queueAt_setQueue valid_isolate_def)
qed

lemma resets_inv: "event_inv s \<Longrightarrow> resetQueues is s = Some s' \<Longrightarrow> event_inv s'"
  by (induction "is" arbitrary: s) (auto simp: bind_eq_Some_conv intro: reset_inv)

lemma midp_resetEvents_inv [inv_intros]:
  "event_inv s \<Longrightarrow> midp_resetEvents s = Some s' \<Longrightarrow> event_inv s'"
  by (auto simp: midp_resetEvents_def intro: resets_inv event_inv_more)

lemma FinalizeEvents_inv [inv_intros]:
  "event_inv s \<Longrightarrow> FinalizeEvents s = Some s' \<Longrightarrow> event_inv s'"
proof -
  assume a: "event_inv s" "FinalizeEvents s = Some s'"
  have l: "event_inv (s\<lparr>queueLock := NoLock\<rparr>)" using a(1) by (rule event_inv_more)
  show ?thesis
  proof (cases "pEventQueues s")
    case None
    with a l show ?thesis by (auto simp: FinalizeEvents_def)
  next
    case (Some qs)
    with a obtain s2 where "midp_resetEvents (s\<lparr>queueLock := NoLock\<rparr>) = Some s2"
      and "s' = s2\<lparr>pEventQueues := None\<rparr>"
      by (auto simp: FinalizeEvents_def bind_eq_Some_conv)
    with midp_resetEvents_inv [OF l] show ?thesis by (auto simp: event_inv_def)
  qed
qed

lemma InitializeEvents_inv [inv_intros]:
  assumes "event_inv s" "multiple \<Longrightarrow> 0 < jvmMax" "InitializeEvents multiple jvmMax ok s = (r, s')"
  shows "event_inv s'"
  using assms ring_inv_zero(1)
  by (auto simp: InitializeEvents_def Let_def event_inv_def queue_ok_def zeroEventQueue_def
      split: if_splits)

section \<open>Storing and waiting\<close>

lemma store_effect:
  assumes "event_inv s" "queueAt s (getIsolateEventQueue s i) = Some q"
  shows "\<exists>s' q'. StoreMIDPEventInVmThreadImp e i s = Some s'
    \<and> queueAt s' (getIsolateEventQueue s i) = Some q' \<and> ring_inv q'
    \<and> pending q' = (if length (pending q) < MAX_EVENTS then pending q @ [e] else pending q)
    \<and> (isMonitorBlocked q' \<longleftrightarrow> isMonitorBlocked q \<and> (specialThread s i = None \<or> numEvents q = MAX_EVENTS))
    \<and> (isMonitorBlocked q' \<longrightarrow> blockedThreads s' = blockedThreads s)
    \<and> (\<forall>j. j \<noteq> getIsolateEventQueue s i \<longrightarrow> queueAt s' j = queueAt s j)
    \<and> maxIsolates s' = maxIsolates s \<and> specialThread s' = specialThread s
    \<and> queueLock s' = Unlocked"
proof -
  have ok: "queue_ok s (getIsolateEventQueue s i) q" using queueAt_ok [OF assms] .
  then have r: "ring_inv q" and le: "numEvents q \<le> MAX_EVENTS"
    by (auto simp: queue_ok_def ring_inv_def)
  have m: "isMonitorBlocked (enqueueEvent q e) = isMonitorBlocked q"
    by (simp add: enqueueEvent_def)
  show ?thesis
  proof (cases "numEvents q = MAX_EVENTS")
    case True
    with assms r show ?thesis
      by (auto simp: StoreMIDPEventInVmThreadImp_def Let_def)
  next
    case False
    with assms r le m show ?thesis
      by (auto simp: StoreMIDPEventInVmThreadImp_def Let_def queueAt_setQueue enqueue_pending
          enqueue_ring_inv split: option.splits)
  qed
qed

text \<open>A redirected store finds queue 0 not waiting for a thread that is known.\<close>

definition noneToWake :: "EventSys \<Rightarrow> bool" where
  "noneToWake s \<longleftrightarrow> (\<forall>q. queueAt s 0 = Some q \<longrightarrow> isMonitorBlocked q \<longrightarrow> specialThread s 0 = None)"

lemma store_inv:
  assumes inv: "event_inv s" and st: "StoreMIDPEventInVmThreadImp e i s = Some s'"
    and ok: "valid_isolate s i \<or> getIsolateEventQueue s i = 0 \<and> noneToWake s"
  shows "event_inv s'"
proof -
  let ?i = "getIsolateEventQueue s i"
  obtain q where q: "queueAt s ?i = Some q"
    using st by (auto simp: StoreMIDPEventInVmThreadImp_def Let_def split: option.splits)
  obtain q' where eff: "queueAt s' ?i = Some q'" "ring_inv q'"
      "isMonitorBlocked q' \<longleftrightarrow> isMonitorBlocked q \<and> (specialThread s i = None \<or> numEvents q = MAX_EVENTS)"
      "\<forall>j. j \<noteq> ?i \<longrightarrow> queueAt s' j = queueAt s j" "maxIsolates s' = maxIsolates s"
      "specialThread s' = specialThread s"
    using store_effect [OF inv q, of e] st by auto
  have special: "specialThread s (int ?i) = None" if "isMonitorBlocked q'"
  proof (cases "valid_isolate s i")
    case True
    then have "int ?i = i" by (auto simp: valid_isolate_def)
    then show ?thesis using that eff(3) queueAt_ok [OF inv q] by (auto simp: queue_ok_def)
  next
    case False
    then show ?thesis using that ok eff(3) q by (auto simp: noneToWake_def)
  qed
  have len: "\<And>qs'. pEventQueues s' = Some qs' \<Longrightarrow>
      \<exists>qs. pEventQueues s = Some qs \<and> length qs = length qs'"
    using st q by (auto simp: StoreMIDPEventInVmThreadImp_def Let_def setQueue_def
        unblockThread_def split: option.splits if_splits)
  have at: "queue_ok s' j (qs' ! j)" if "pEventQueues s' = Some qs'" "j < length qs'" for qs' j
  proof -
    from that have "queueAt s' j = Some (qs' ! j)" by (simp add: queueAt_def)
    then show ?thesis
      using eff special queueAt_ok [OF inv, of j "qs' ! j"] by (cases "j = ?i") (auto simp: queue_ok_def)
  qed
  with len eff(5) inv show ?thesis unfolding event_inv_def by fastforce
qed


text \<open>
  A broadcast reaches the existing queues in order; an identifier past the last queue is
  redirected to queue 0, whose monitor the first store has already unblocked if it could.
\<close>

lemma storeToAll_inv:
  assumes "event_inv s" "storeToAll e is s = Some s'" "\<forall>i \<in> set is. 0 < i"
    and "noneToWake s"
  shows "event_inv s'"
  using assms
proof (induction "is" arbitrary: s)
  case Nil
  then show ?case by simp
next
  case (Cons i "is")
  obtain t where t: "StoreMIDPEventInVmThreadImp e i s = Some t" "storeToAll e is t = Some s'"
    using Cons.prems(2) by (auto simp: bind_eq_Some_conv)
  obtain q where q: "queueAt s (getIsolateEventQueue s i) = Some q"
    using t(1) by (auto simp: StoreMIDPEventInVmThreadImp_def Let_def split: option.splits)
  have i: "valid_isolate s i \<and> getIsolateEventQueue s i \<noteq> 0 \<or> getIsolateEventQueue s i = 0"
    using Cons.prems(3) by (auto simp: getIsolateEventQueue_def valid_isolate_def)
  then have "event_inv t"
    using store_inv [OF Cons.prems(1) t(1)] Cons.prems(4) by auto
  moreover have "noneToWake t"
    using store_effect [OF Cons.prems(1) q, of e] t(1) q i Cons.prems(4)
    by (cases "getIsolateEventQueue s i = 0") (auto simp: noneToWake_def)
  ultimately show ?case using Cons.IH [OF _ t(2)] Cons.prems(3) by auto
qed

lemma StoreMIDPEvent_inv [inv_intros]:
  assumes inv: "event_inv s" and st: "StoreMIDPEventInVmThread e i s = Some s'"
    and i: "valid_isolate s i \<or> i = -1"
  shows "event_inv s'"
proof (cases "i = -1")
  case False
  with assms show ?thesis by (auto simp: StoreMIDPEventInVmThread_def intro: store_inv)
next
  case True
  have ids: "map int [0..<MAX_ISOLATES] = 0 # map int [1..<MAX_ISOLATES]"
    by (simp add: MAX_ISOLATES_def upt_conv_Cons)
  obtain t where t: "StoreMIDPEventInVmThreadImp e 0 s = Some t"
      "storeToAll e (map int [1..<MAX_ISOLATES]) t = Some s'"
    using st True ids by (auto simp: StoreMIDPEventInVmThread_def bind_eq_Some_conv)
  have v: "valid_isolate s 0" using inv by (simp add: valid_isolate_def event_inv_def)
  obtain q where q: "queueAt s (getIsolateEventQueue s 0) = Some q"
    using t(1) by (auto simp: StoreMIDPEventInVmThreadImp_def Let_def split: option.splits)
  have "event_inv t" using store_inv [OF inv t(1)] v by simp
  moreover have "noneToWake t"
    using store_effect [OF inv q, of e] t(1) v queueAt_ok [OF inv q] q by (auto simp: queue_ok_def noneToWake_def)
  ultimately show ?thesis using storeToAll_inv [OF _ t(2)] by auto
qed

lemma read_inv:
  assumes "event_inv s" "readNativeEventCommon i obj s = Some ((n, obj'), s')"
  shows "event_inv s'"
  using assms
  by (auto simp: readNativeEventCommon_def bind_eq_Some_conv split: if_splits
      intro!: event_inv_more dest: getPending_inv)

lemma read_nothing:
  assumes "readNativeEventCommon i obj s = Some ((-1, obj'), s')"
  shows "s' = s \<and> (\<exists>q. queueAt s (getIsolateEventQueue s i) = Some q \<and> numEvents q = 0)"
  using assms
  by (auto simp: readNativeEventCommon_def getPendingMIDPEvent_def Let_def split_def
      split: if_splits option.splits)

lemma wait_inv [inv_intros]:
  assumes "event_inv s" "valid_isolate s i" "waitForNativeEvent i t obj s = Some (r, s')"
  shows "event_inv s'"
proof -
  obtain n obj1 s1 where r: "readNativeEventCommon i obj s = Some ((n, obj1), s1)"
    using assms(3) by (auto simp: waitForNativeEvent_def bind_eq_Some_conv)
  show ?thesis
  proof (cases "n = -1")
    case False
    with assms r read_inv show ?thesis by (auto simp: waitForNativeEvent_def)
  next
    case True
    with r read_nothing obtain q where s1: "s1 = s" and
      q: "queueAt s (nat i) = Some q" "numEvents q = 0"
      using assms(2) by fastforce
    let ?t = "s\<lparr>specialThread := (specialThread s)(i := Some t),
               blockedThreads := t # blockedThreads s\<rparr>"
    have "queue_ok ?t j p" if "queue_ok s j p" "j = nat i \<longrightarrow> p = q" for j p
      using that q(2) by (auto simp: queue_ok_def)
    moreover have "qs ! nat i = q" if "pEventQueues s = Some qs" for qs
      using q(1) that by (auto simp: queueAt_def split: if_splits)
    ultimately have inv: "event_inv ?t" using assms(1) by (auto simp: event_inv_def)
    then have "queue_ok ?t (nat i) (q\<lparr>isMonitorBlocked := True\<rparr>)"
      using q assms(2) queueAt_ring [OF assms(1)] by (auto simp: queue_ok_def)
    with event_inv_setQueue [OF inv] assms r True s1 q show ?thesis
      by (auto simp: waitForNativeEvent_def)
  qed
qed

section \<open>Reachable states\<close>

text \<open>
  Native code stores (to an isolate or to all of them), the monitor thread of an isolate reads or
  waits, queues are reset, tasks of the VM are stopped at any time, and the event system is started
  and stopped.
\<close>

inductive event_step :: "EventSys \<Rightarrow> EventSys \<Rightarrow> bool" where
  step_init: "(multiple \<Longrightarrow> 0 < jvmMax) \<Longrightarrow> InitializeEvents multiple jvmMax ok s = (r, s')
    \<Longrightarrow> event_step s s'"
| step_final: "FinalizeEvents s = Some s' \<Longrightarrow> event_step s s'"
| step_store: "valid_isolate s i \<or> i = -1 \<Longrightarrow> StoreMIDPEventInVmThread e i s = Some s'
    \<Longrightarrow> event_step s s'"
| step_wait: "valid_isolate s i \<Longrightarrow> waitForNativeEvent i t obj s = Some (r, s')
    \<Longrightarrow> event_step s s'"
| step_read: "readNativeEvent i obj s = Some (r, s') \<Longrightarrow> event_step s s'"
| step_send: "valid_isolate s i \<or> i = -1 \<Longrightarrow> sendNativeEventToIsolate alloc obj i s = Some s'
    \<Longrightarrow> event_step s s'"
| step_shutdown: "valid_isolate s i \<Longrightarrow> sendShutdownEvent i s = Some s' \<Longrightarrow> event_step s s'"
| step_fatal: "valid_isolate s ams \<Longrightarrow> handleFatalError cur ams s = Some s' \<Longrightarrow> event_step s s'"
| step_reset: "resetNativeEventQueue i s = Some s' \<Longrightarrow> event_step s s'"
| step_finalizer: "EventQueue_finalize h s = Some s' \<Longrightarrow> event_step s s'"
| step_stop: "event_step s (Task_stop i ofTask s)"

inductive event_reachable :: "EventSys \<Rightarrow> bool" where
  start: "0 < maxIsolates s \<Longrightarrow> pEventQueues s = None \<Longrightarrow> event_reachable s"
| step: "event_reachable s \<Longrightarrow> event_step s s' \<Longrightarrow> event_reachable s'"

lemma send_inv [inv_intros]:
  assumes "event_inv s" "valid_isolate s i \<or> i = -1"
    and "sendNativeEventToIsolate alloc obj i s = Some s'"
  shows "event_inv s'"
proof -
  let ?s = "s\<lparr>eventFieldIDsObtained := True\<rparr>"
  have inv: "event_inv ?s" using assms(1) by (rule event_inv_more)
  have i: "valid_isolate ?s i \<or> i = -1" using assms(2) by (simp add: valid_isolate_def)
  obtain e ok where "(if ok then StoreMIDPEventInVmThread e i ?s
      else Some (freeMIDPEventFields ?s e)) = Some s'"
    using assms(3)
    by (auto simp: sendNativeEventToIsolate_def Let_def simp del: getStringFields.simps
        split: prod.splits)
  then show ?thesis
    using StoreMIDPEvent_inv [OF inv _ i] event_inv_more(4) [OF inv] by (cases ok) auto
qed

lemma stop_inv [inv_intros]: "event_inv s \<Longrightarrow> event_inv (Task_stop i ofTask s)"
  using event_inv_more(7) [OF event_inv_more(6), of s "filter (\<lambda>t. \<not> ofTask t) (blockedThreads s)" i]
  by (simp add: Task_stop_def clear_special_thread_def wake_up_async_threads_def)

lemma event_step_inv:
  assumes "event_step s s'" "event_inv s"
  shows "event_inv s'"
  using assms
proof (induction rule: event_step.induct)
  case (step_fatal s ams cur s')
  then show ?case
    by (auto simp: handleFatalError_def split: if_splits
        intro!: event_inv_more(3) elim!: StoreMIDPEvent_inv)
next
  case (step_read i obj s r s')
  then show ?case by (auto simp: readNativeEvent_def bind_eq_Some_conv intro: read_inv)
qed (auto simp: sendShutdownEvent_def resetNativeEventQueue_def EventQueue_finalize_def
      intro: inv_intros split: if_splits)

lemma event_reachable_inv: "event_reachable s \<Longrightarrow> event_inv s"
proof (induction rule: event_reachable.induct)
  case (start s)
  then show ?case by (simp add: event_inv_def)
next
  case (step s s')
  then show ?case by (blast intro: event_step_inv)
qed


lemma store_wakes:
  assumes "event_inv s" "queueAt s (getIsolateEventQueue s i) = Some q" "isMonitorBlocked q"
    and "specialThread s i = Some t" "StoreMIDPEventInVmThreadImp e i s = Some s'" "valid_isolate s i"
  shows "t \<notin> set (blockedThreads s')"
  using assms queueAt_ok [OF assms(1,2)]
  by (auto simp: StoreMIDPEventInVmThreadImp_def Let_def queue_ok_def enqueueEvent_def
      unblockThread_def valid_isolate_def)

lemma storeToAll_single:
  assumes "event_inv s" "maxIsolates s = 1" "queueAt s 0 = Some q" "\<not> isMonitorBlocked q"
    and "length (pending q) + length is \<le> MAX_EVENTS"
  shows "\<exists>s' q'. storeToAll e is s = Some s' \<and> queueAt s' 0 = Some q'
    \<and> pending q' = pending q @ replicate (length is) e"
  using assms
proof (induction "is" arbitrary: s q)
  case Nil
  then show ?case by simp
next
  case (Cons i "is")
  have i: "getIsolateEventQueue s i = 0" using Cons.prems(2) by (simp add: getIsolateEventQueue_def)
  with Cons.prems(3) have q: "queueAt s (getIsolateEventQueue s i) = Some q" by simp
  from store_effect [OF Cons.prems(1) q, of e] obtain t q1 where
    t: "StoreMIDPEventInVmThreadImp e i s = Some t" "queueAt t 0 = Some q1"
      "pending q1 = pending q @ [e]" "\<not> isMonitorBlocked q1" "maxIsolates t = 1"
    using Cons.prems i by auto
  have "event_inv t" using store_inv [OF Cons.prems(1) t(1)] Cons.prems(3,4) i by (auto simp: noneToWake_def)
  from Cons.IH [OF this t(5,2,4)] t(3) Cons.prems(5) t(1) show ?case by auto
qed

section \<open>Properties\<close>

definition initialEventSys :: EventSys where
  "initialEventSys =
     \<lparr>maxIsolates = 1, pEventQueues = None, eventFieldIDsObtained = False, queueLock = NoLock,
      specialThread = (\<lambda>_. None), blockedThreads = [], vmExit = None, freedStrings = []\<rparr>"

definition startedEventSys :: EventSys where
  "startedEventSys = snd (InitializeEvents False 0 True initialEventSys)"

lemma started_reachable:
  "event_reachable startedEventSys" "valid_isolate startedEventSys 0"
  "queueAt startedEventSys 0 = Some zeroEventQueue" "maxIsolates startedEventSys = 1"
proof -
  have "InitializeEvents False 0 True initialEventSys = (0, startedEventSys)"
    by (simp add: startedEventSys_def InitializeEvents_def initialEventSys_def Let_def)
  moreover have "event_reachable initialEventSys"
    by (rule event_reachable.start) (simp_all add: initialEventSys_def)
  ultimately show "event_reachable startedEventSys"
    using event_reachable.step [OF _ step_init [of False 0 True initialEventSys 0]] by simp
qed (simp_all add: startedEventSys_def InitializeEvents_def initialEventSys_def Let_def
      valid_isolate_def queueAt_def)

text \<open>
  C1. Storing an event for an isolate appends it to that isolate's pending events, or drops
  it when \<^verbatim>\<open>MAX_EVENTS\<close> are pending; no other isolate's queue changes and the queue lock is
  released.
\<close>

theorem store_appends_or_drops:
  assumes "event_reachable s" "valid_isolate s i" "queueAt s (nat i) = Some q"
  shows "\<exists>s' q'. StoreMIDPEventInVmThread e i s = Some s' \<and> queueAt s' (nat i) = Some q'
    \<and> pending q' = (if length (pending q) < MAX_EVENTS then pending q @ [e] else pending q)
    \<and> (\<forall>j. j \<noteq> nat i \<longrightarrow> queueAt s' j = queueAt s j)
    \<and> queueLock s' = Unlocked"
proof -
  have "queueAt s (getIsolateEventQueue s i) = Some q" using assms(2,3) by simp
  from store_effect [OF event_reachable_inv [OF assms(1)] this, of e] assms(2) show ?thesis
    by (auto simp: StoreMIDPEventInVmThread_def valid_isolate_def)
qed

theorem store_appends_or_drops_witness:
  "\<exists>s' q'. StoreMIDPEventInVmThread MIDP_EVENT_INITIALIZE 0 startedEventSys = Some s'
     \<and> queueAt s' 0 = Some q' \<and> pending q' = [MIDP_EVENT_INITIALIZE]"
proof -
  have "queueAt startedEventSys (nat 0) = Some zeroEventQueue" by (simp add: started_reachable(3))
  from store_appends_or_drops [OF started_reachable(1,2) this, of MIDP_EVENT_INITIALIZE]
  show ?thesis by (simp add: ring_inv_zero(2)) metis
qed

text \<open>
  C2. FIFO delivery: a run of stores that fits the ring, followed by as many reads, hands
  out exactly the stored events in the order they were stored, whatever the position of the
  ring's indices.
\<close>

theorem events_delivered_in_order:
  assumes "ring_inv q" "pending q = []" "length es \<le> MAX_EVENTS"
  shows "fst (drain dequeueEvent (length es) (foldl enqueueEvent q es)) = es"
  using assms by (rule ring.fifo_delivery)

theorem events_delivered_in_order_witness:
  "fst (drain dequeueEvent 2 (foldl enqueueEvent zeroEventQueue
     [MIDP_EVENT_INITIALIZE\<lparr>evtype := 1\<rparr>, MIDP_EVENT_INITIALIZE\<lparr>evtype := 2\<rparr>]))
   = [MIDP_EVENT_INITIALIZE\<lparr>evtype := 1\<rparr>, MIDP_EVENT_INITIALIZE\<lparr>evtype := 2\<rparr>]"
  using events_delivered_in_order [OF ring_inv_zero,
      of "[MIDP_EVENT_INITIALIZE\<lparr>evtype := 1\<rparr>, MIDP_EVENT_INITIALIZE\<lparr>evtype := 2\<rparr>]"]
  by (simp add: MAX_EVENTS_def numeral_2_eq_2)

text \<open>
  C3. No lost wake-up: in every reachable state, tasks being stopped at any time, an isolate whose
  monitor is marked blocked and whose thread the VM knows has no event waiting, and the next store for
  the isolate delivers its event, unblocks that thread and clears the mark. When the task has been
  stopped and the VM has no thread, the store appends or drops the event like any other, wakes nobody
  and leaves the mark.
\<close>

theorem no_lost_wakeup:
  assumes "event_reachable s" "valid_isolate s i" "queueAt s (nat i) = Some q" "isMonitorBlocked q"
  shows "\<exists>s' q'. StoreMIDPEventInVmThread e i s = Some s' \<and> queueAt s' (nat i) = Some q'
    \<and> (case specialThread s i of
         Some t \<Rightarrow> pending q = [] \<and> t \<notin> set (blockedThreads s') \<and> pending q' = [e] \<and> \<not> isMonitorBlocked q'
       | None \<Rightarrow> pending q' = (if length (pending q) < MAX_EVENTS then pending q @ [e] else pending q)
           \<and> blockedThreads s' = blockedThreads s \<and> isMonitorBlocked q')"
proof -
  have inv: "event_inv s" using event_reachable_inv [OF assms(1)] .
  have q: "queueAt s (getIsolateEventQueue s i) = Some q" using assms(2,3) by simp
  have "specialThread s i = Some t \<Longrightarrow> pending q = [] \<and> numEvents q \<noteq> MAX_EVENTS" for t
    using queueAt_ok [OF inv assms(3)] assms(2,4)
    by (auto simp: queue_ok_def valid_isolate_def pending_empty_iff)
  with store_effect [OF inv q, of e] store_wakes [OF inv q assms(4), of _ e] assms(2,4) show ?thesis
    by (cases "specialThread s i") (auto simp: StoreMIDPEventInVmThread_def valid_isolate_def)
qed

theorem no_lost_wakeup_witness:
  "\<exists>s q. event_reachable s \<and> queueAt s 0 = Some q \<and> isMonitorBlocked q \<and> specialThread s 0 = Some 7
     \<and> pending q = []
     \<and> (\<exists>s'. StoreMIDPEventInVmThread MIDP_EVENT_INITIALIZE 0 s = Some s' \<and> 7 \<notin> set (blockedThreads s'))"
proof -
  let ?s = "setQueue (startedEventSys\<lparr>specialThread := (specialThread startedEventSys)(0 := Some 7),
    blockedThreads := 7 # blockedThreads startedEventSys\<rparr>) 0 (zeroEventQueue\<lparr>isMonitorBlocked := True\<rparr>)"
  have "waitForNativeEvent 0 7 MIDP_EVENT_INITIALIZE startedEventSys =
      Some ((0, MIDP_EVENT_INITIALIZE), ?s)"
    using started_reachable(2,3)
    by (simp add: waitForNativeEvent_def readNativeEventCommon_def getPendingMIDPEvent_def
        zeroEventQueue_def)
  then have r: "event_reachable ?s"
    using started_reachable(1,2) by (blast intro: event_reachable.step step_wait)
  have q: "queueAt ?s (nat 0) = Some (zeroEventQueue\<lparr>isMonitorBlocked := True\<rparr>)"
    using started_reachable(3) by (simp add: queueAt_setQueue)
  have "valid_isolate ?s 0" using started_reachable(2) by (simp add: valid_isolate_def)
  from no_lost_wakeup [OF r this q, of MIDP_EVENT_INITIALIZE] r q show ?thesis by auto
qed

text \<open>
  Resetting an isolate's queue empties it, clears the blocked mark, returns every
  string of every pending event to the allocator exactly once, and touches no other queue.
\<close>

theorem reset_frees_pending_strings:
  assumes "event_reachable s" "valid_isolate s h" "queueAt s (nat h) = Some q"
  shows "\<exists>s' q'. resetNativeEventQueue h s = Some s' \<and> queueAt s' (nat h) = Some q'
    \<and> pending q' = [] \<and> \<not> isMonitorBlocked q'
    \<and> (\<forall>j. j \<noteq> nat h \<longrightarrow> queueAt s' j = queueAt s j)
    \<and> freedStrings s' = freedStrings s @ concat (map eventStrings (pending q))"
  using reset_cleans [OF event_reachable_inv [OF assms(1)] assms(2,3)]
  by (auto simp: resetNativeEventQueue_def)

theorem reset_frees_pending_strings_witness:
  "\<exists>s' q'. resetNativeEventQueue 0 startedEventSys = Some s' \<and> queueAt s' 0 = Some q'
     \<and> pending q' = []"
  using reset_frees_pending_strings [OF started_reachable(1,2), of zeroEventQueue]
    started_reachable(3)
  by auto

text \<open>
  A broadcast (isolate -1) is stored once for each of the \<^verbatim>\<open>MAX_ISOLATES\<close> identifiers,
  and an identifier without a queue is redirected to queue 0: with a single isolate its one
  queue receives \<^verbatim>\<open>MAX_ISOLATES\<close> copies of the event.
\<close>

theorem broadcast_duplicates_without_isolates:
  assumes "event_reachable s" "maxIsolates s = 1" "queueAt s 0 = Some q"
    and "pending q = []" "\<not> isMonitorBlocked q"
  shows "\<exists>s' q'. StoreMIDPEventInVmThread e (-1) s = Some s' \<and> queueAt s' 0 = Some q'
    \<and> pending q' = replicate MAX_ISOLATES e"
  using storeToAll_single [OF event_reachable_inv [OF assms(1)] assms(2,3,5),
      of "map int [0..<MAX_ISOLATES]" e] assms(4)
  by (simp add: StoreMIDPEventInVmThread_def MAX_EVENTS_def MAX_ISOLATES_def del: upt.simps)

theorem broadcast_duplicates_without_isolates_witness:
  "\<exists>s' q'. StoreMIDPEventInVmThread MIDP_EVENT_INITIALIZE (-1) startedEventSys = Some s'
     \<and> queueAt s' 0 = Some q' \<and> pending q' = replicate 6 MIDP_EVENT_INITIALIZE"
  using broadcast_duplicates_without_isolates [OF started_reachable(1,4,3), of MIDP_EVENT_INITIALIZE]
    ring_inv_zero(2)
  by (simp add: MAX_ISOLATES_def zeroEventQueue_def)

end
