(* ===== verification/TimerQueue.thy ===== *)
theory TimerQueue
  imports Interfaces "HOL-Library.Monad_Syntax" "HOL-Library.Multiset"
begin

text \<open>
  The timer queue, \<^verbatim>\<open>midp/src/core/timer_queue/reference/native/timer_queue.c\<close>: a singly
  linked list of heap cells in the order of their wake-up times, edited through pointers to
  its links. Cells live in an explicit heap, so aliasing, freed cells and cycles are states
  of the model; \<open>None\<close> is a NULL or dangling dereference or a loop that does not end.
\<close>

section \<open>Data\<close>

type_synonym addr = nat

abbreviation NULL :: addr where
  "NULL \<equiv> 0"

record TimerHandle =
  timeToWakeup :: int
  userData :: nat
  userCallback :: nat
  timer_next :: addr

text \<open>
  \<^verbatim>\<open>timerHeap\<close> maps the address of each allocated handle to its contents;
  \<^verbatim>\<open>callbackLog\<close> records the user callbacks invoked, with the timer they were given.
\<close>

record TimerState =
  timerHeap :: "addr \<Rightarrow> TimerHandle option"
  rootTimer :: addr
  callbackLog :: "(nat \<times> addr) list"

text \<open>A \<^verbatim>\<open>TimerHandle **\<close>: the root variable, or the \<^verbatim>\<open>next\<close> field of a handle.\<close>

datatype TimerLink = RootLink | NextOf addr

fun readLink :: "TimerState \<Rightarrow> TimerLink \<Rightarrow> addr option" where
  "readLink s RootLink = Some (rootTimer s)"
| "readLink s (NextOf a) = map_option timer_next (timerHeap s a)"

fun writeLink :: "TimerState \<Rightarrow> TimerLink \<Rightarrow> addr \<Rightarrow> TimerState option" where
  "writeLink s RootLink x = Some (s\<lparr>rootTimer := x\<rparr>)"
| "writeLink s (NextOf a) x =
     (case timerHeap s a of
        None \<Rightarrow> None
      | Some t \<Rightarrow> Some (s\<lparr>timerHeap := (timerHeap s)(a \<mapsto> t\<lparr>timer_next := x\<rparr>)\<rparr>))"

definition midpFreeTimer :: "TimerState \<Rightarrow> addr \<Rightarrow> TimerState" where
  "midpFreeTimer s a = s\<lparr>timerHeap := (timerHeap s)(a := None)\<rparr>"

section \<open>Operations\<close>

text \<open>The \<^verbatim>\<open>for\<close> loop of \<^verbatim>\<open>add_timer\<close>: the first link whose timer wakes up later.\<close>

partial_function (option) findLater :: "TimerState \<Rightarrow> int \<Rightarrow> TimerLink \<Rightarrow> TimerLink option" where
  "findLater s time p =
     do { a \<leftarrow> readLink s p;
          if a = NULL then Some p
          else do { t \<leftarrow> timerHeap s a;
                    if timeToWakeup t > time then Some p else findLater s time (NextOf a) } }"

definition add_timer :: "addr \<Rightarrow> TimerState \<Rightarrow> TimerState option" where
  "add_timer newTimer s =
     do { t \<leftarrow> timerHeap s newTimer;
          p \<leftarrow> findLater s (timeToWakeup t) RootLink;
          a \<leftarrow> readLink s p;
          s1 \<leftarrow> writeLink s (NextOf newTimer) a;
          writeLink s1 p newTimer }"

text \<open>\<^verbatim>\<open>mem\<close> is what \<^verbatim>\<open>midpMalloc\<close> returns: an address, or NULL.\<close>

definition new_timer ::
  "addr \<Rightarrow> int \<Rightarrow> nat \<Rightarrow> nat \<Rightarrow> TimerState \<Rightarrow> (addr \<times> TimerState) option" where
  "new_timer mem time data callback s =
     (if mem \<noteq> NULL then
        do { s1 \<leftarrow> add_timer mem
               (s\<lparr>timerHeap := (timerHeap s)(mem \<mapsto>
                    \<lparr>timeToWakeup = time, userData = data, userCallback = callback,
                     timer_next = NULL\<rparr>)\<rparr>);
             Some (mem, s1) }
      else Some (mem, s))"

text \<open>The loop of \<^verbatim>\<open>get_timer_ptr\<close>; the inner \<open>None\<close> is the NULL result.\<close>

partial_function (option) findTimerLink ::
  "TimerState \<Rightarrow> addr \<Rightarrow> TimerLink \<Rightarrow> TimerLink option option" where
  "findTimerLink s timer p =
     do { a \<leftarrow> readLink s p;
          if a = NULL then Some None
          else if a = timer then Some (Some p)
          else findTimerLink s timer (NextOf a) }"

definition get_timer_ptr :: "addr \<Rightarrow> TimerState \<Rightarrow> TimerLink option option" where
  "get_timer_ptr timer s =
     (if timer \<noteq> NULL then findTimerLink s timer RootLink else Some None)"

definition delete_timer :: "addr \<Rightarrow> TimerState \<Rightarrow> TimerState option" where
  "delete_timer timer s =
     do { ptr \<leftarrow> get_timer_ptr timer s;
          (case ptr of
             None \<Rightarrow> Some s
           | Some p \<Rightarrow>
               do { t \<leftarrow> timerHeap s timer;
                    s1 \<leftarrow> writeLink s p (timer_next t);
                    Some (midpFreeTimer s1 timer) }) }"

definition remove_timer :: "addr \<Rightarrow> TimerState \<Rightarrow> (addr \<times> TimerState) option" where
  "remove_timer timer s =
     do { ptr \<leftarrow> get_timer_ptr timer s;
          s1 \<leftarrow> (case ptr of
                   None \<Rightarrow> Some s
                 | Some p \<Rightarrow> do { t \<leftarrow> timerHeap s timer; writeLink s p (timer_next t) });
          Some (timer, s1) }"

text \<open>The loop of \<^verbatim>\<open>delete_timer_by_userdata\<close>: the first timer with the data, or NULL.\<close>

partial_function (option) findUserData :: "TimerState \<Rightarrow> nat \<Rightarrow> addr \<Rightarrow> addr option" where
  "findUserData s data timer =
     (if timer = NULL then Some NULL
      else do { t \<leftarrow> timerHeap s timer;
                if userData t = data then Some timer
                else findUserData s data (timer_next t) })"

definition delete_timer_by_userdata :: "nat \<Rightarrow> TimerState \<Rightarrow> TimerState option" where
  "delete_timer_by_userdata data s =
     do { timer \<leftarrow> findUserData s data (rootTimer s);
          if timer = NULL then Some s else delete_timer timer s }"

definition get_timer :: "TimerState \<Rightarrow> (addr \<times> TimerState) option" where
  "get_timer s =
     (if rootTimer s \<noteq> NULL then
        do { let timer = rootTimer s;
             t \<leftarrow> timerHeap s timer;
             s1 \<leftarrow> writeLink (s\<lparr>rootTimer := timer_next t\<rparr>) (NextOf timer) NULL;
             Some (timer, s1) }
      else Some (NULL, s))"

definition peek_timer :: "TimerState \<Rightarrow> addr" where
  "peek_timer s = rootTimer s"

definition get_timer_data :: "addr \<Rightarrow> TimerState \<Rightarrow> nat option" where
  "get_timer_data timer s =
     (if timer \<noteq> NULL then map_option userData (timerHeap s timer) else Some 0)"

definition get_timer_wakeup :: "addr \<Rightarrow> TimerState \<Rightarrow> int option" where
  "get_timer_wakeup timer s =
     (if timer \<noteq> NULL then map_option timeToWakeup (timerHeap s timer) else Some (-1))"

definition set_timer_wakeup :: "addr \<Rightarrow> int \<Rightarrow> TimerState \<Rightarrow> TimerState option" where
  "set_timer_wakeup timer time s =
     (if timer \<noteq> NULL then
        do { t \<leftarrow> timerHeap s timer;
             Some (s\<lparr>timerHeap := (timerHeap s)(timer \<mapsto> t\<lparr>timeToWakeup := time\<rparr>)\<rparr>) }
      else Some s)"

definition wakeup_timer :: "addr \<Rightarrow> TimerState \<Rightarrow> TimerState option" where
  "wakeup_timer timer s =
     (if timer = NULL then Some s
      else do { t \<leftarrow> timerHeap s timer;
                if userCallback t \<noteq> NULL
                then Some (s\<lparr>callbackLog := callbackLog s @ [(userCallback t, timer)]\<rparr>)
                else Some s })"

section \<open>The list in the heap\<close>

text \<open>What a queued timer holds beside its link: address, wake-up time, data, callback.\<close>

type_synonym timer_entry = "addr \<times> int \<times> nat \<times> nat"

abbreviation entry_time :: "timer_entry \<Rightarrow> int" where
  "entry_time e \<equiv> fst (snd e)"

definition entryOf :: "addr \<Rightarrow> TimerHandle \<Rightarrow> timer_entry" where
  "entryOf a t = (a, timeToWakeup t, userData t, userCallback t)"

text \<open>\<open>lseg h x es y\<close>: following \<^verbatim>\<open>next\<close> from \<open>x\<close> visits \<open>es\<close> and arrives at \<open>y\<close>.\<close>

fun lseg :: "(addr \<Rightarrow> TimerHandle option) \<Rightarrow> addr \<Rightarrow> timer_entry list \<Rightarrow> addr \<Rightarrow> bool" where
  "lseg h x [] y = (x = y)"
| "lseg h x (e # es) y =
     (x \<noteq> NULL \<and> (case h x of
        None \<Rightarrow> False
      | Some t \<Rightarrow> e = entryOf x t \<and> lseg h (timer_next t) es y))"

definition tqueue :: "TimerState \<Rightarrow> timer_entry list \<Rightarrow> bool" where
  "tqueue s es \<longleftrightarrow> lseg (timerHeap s) (rootTimer s) es NULL"

lemma lseg_append: "lseg h x (es @ fs) y \<longleftrightarrow> (\<exists>z. lseg h x es z \<and> lseg h z fs y)"
  by (induction es arbitrary: x) (auto split: option.splits)

lemma lseg_upd [simp]: "a \<notin> fst ` set es \<Longrightarrow> lseg (h(a := v)) x es y = lseg h x es y"
  by (induction es arbitrary: x) (auto simp: entryOf_def split: option.splits)

lemma lseg_NULL [simp]: "lseg h NULL es y \<longleftrightarrow> es = [] \<and> y = NULL"
  by (cases es) auto

lemma lseg_unique: "lseg h x es NULL \<Longrightarrow> lseg h x fs NULL \<Longrightarrow> es = fs"
proof (induction es arbitrary: x fs)
  case Nil
  then show ?case by simp
next
  case (Cons e es)
  then show ?case by (cases fs) (auto split: option.splits)
qed

lemma lseg_addr: "lseg h x (e # es) y \<Longrightarrow> fst e = x"
  by (auto simp: entryOf_def split: option.splits)

lemma lseg_distinct: "lseg h x es NULL \<Longrightarrow> distinct (map fst es) \<and> NULL \<notin> fst ` set es"
proof (induction es arbitrary: x)
  case Nil
  then show ?case by simp
next
  case (Cons e es)
  then obtain t where t: "h x = Some t" "lseg h (timer_next t) es NULL" "x \<noteq> NULL"
    by (auto split: option.splits)
  have "fst e \<notin> fst ` set es"
  proof
    assume "fst e \<in> fst ` set es"
    then obtain f where "f \<in> set es" and fe: "fst f = fst e" by auto
    then obtain us vs where es: "es = us @ f # vs" by (auto dest: split_list)
    with t(2) obtain z where z: "lseg h z (f # vs) NULL" unfolding es lseg_append by blast
    have "z = x" using lseg_addr [OF Cons.prems] lseg_addr [OF z] fe by (simp del: lseg.simps)
    with z have eq: "f # vs = e # es" using lseg_unique [OF _ Cons.prems] by blast
    from arg_cong [OF es [unfolded eq], of length] show False by simp
  qed
  with Cons.IH [OF t(2)] lseg_addr [OF Cons.prems] t(3) show ?case by auto
qed

lemma lseg_last:
  "lseg h x (es @ [e]) z \<Longrightarrow> \<exists>t. h (fst e) = Some t \<and> timer_next t = z \<and> e = entryOf (fst e) t"
  by (auto simp: lseg_append entryOf_def split: option.splits)

subsection \<open>Links\<close>

definition linkAfter :: "TimerLink \<Rightarrow> timer_entry list \<Rightarrow> TimerLink" where
  "linkAfter p pre = (if pre = [] then p else NextOf (fst (last pre)))"

lemma linkAfter_simps [simp]:
  "linkAfter p [] = p" "linkAfter p (pre @ [e]) = NextOf (fst e)"
  "linkAfter p (e # pre) = linkAfter (NextOf (fst e)) pre"
  by (auto simp: linkAfter_def)

lemma readLink_after:
  "lseg (timerHeap s) (rootTimer s) pre z \<Longrightarrow> readLink s (linkAfter RootLink pre) = Some z"
  by (cases pre rule: rev_cases) (auto dest: lseg_last)

lemma writeLink_after:
  assumes "lseg (timerHeap s) (rootTimer s) pre z" "distinct (map fst pre)"
  shows "\<exists>s'. writeLink s (linkAfter RootLink pre) w = Some s'
    \<and> lseg (timerHeap s') (rootTimer s') pre w
    \<and> (\<forall>a. a \<notin> fst ` set pre \<longrightarrow> timerHeap s' a = timerHeap s a)
    \<and> callbackLog s' = callbackLog s"
proof (cases pre rule: rev_cases)
  case Nil
  with assms show ?thesis by simp
next
  case (snoc us e)
  with assms obtain t where t: "timerHeap s (fst e) = Some t" "e = entryOf (fst e) t"
    using lseg_last by blast
  moreover from assms snoc obtain y where "lseg (timerHeap s) (rootTimer s) us y" "y = fst e"
    by (auto simp: lseg_append entryOf_def split: option.splits)
  ultimately show ?thesis
    using assms snoc by (auto simp: lseg_append entryOf_def split: option.splits intro!: exI [of _ y])
qed

lemma lseg_heap_cong:
  "(\<And>a. a \<in> fst ` set es \<Longrightarrow> h' a = h a) \<Longrightarrow> lseg h' x es y = lseg h x es y"
proof (induction es arbitrary: x)
  case (Cons e es)
  show ?case
  proof (cases "fst e = x")
    case True
    with Cons show ?thesis by (auto split: option.splits)
  next
    case False
    then show ?thesis using lseg_addr [of h x e es y] lseg_addr [of h' x e es y] by blast
  qed
qed simp

section \<open>What the operations do to the list\<close>

lemma findLater_result:
  "\<lbrakk>lseg (timerHeap s) z es NULL; readLink s p = Some z\<rbrakk>
   \<Longrightarrow> findLater s time p = Some (linkAfter p (takeWhile (\<lambda>e. entry_time e \<le> time) es))"
proof (induction es arbitrary: z p)
  case Nil
  then show ?case by (subst findLater.simps) simp
next
  case (Cons e es)
  then obtain t where t: "timerHeap s z = Some t" "e = entryOf z t" "z \<noteq> NULL"
    "lseg (timerHeap s) (timer_next t) es NULL"
    by (auto split: option.splits)
  then have "readLink s (NextOf z) = Some (timer_next t)" by simp
  from Cons.IH [OF t(4) this] t Cons.prems(2) show ?case
    by (subst findLater.simps) (auto simp: entryOf_def)
qed

lemma findTimerLink_absent:
  "\<lbrakk>lseg (timerHeap s) z es NULL; readLink s p = Some z; timer \<notin> fst ` set es\<rbrakk>
   \<Longrightarrow> findTimerLink s timer p = Some None"
proof (induction es arbitrary: z p)
  case Nil
  then show ?case by (subst findTimerLink.simps) simp
next
  case (Cons e es)
  then obtain t where t: "timerHeap s z = Some t" "e = entryOf z t" "z \<noteq> NULL"
    "lseg (timerHeap s) (timer_next t) es NULL"
    by (auto split: option.splits)
  then have "readLink s (NextOf z) = Some (timer_next t)" by simp
  from Cons.IH [OF t(4) this] t Cons.prems show ?case
    by (subst findTimerLink.simps) (auto simp: entryOf_def)
qed

lemma findTimerLink_present:
  "\<lbrakk>lseg (timerHeap s) z (pre @ e # post) NULL; readLink s p = Some z; fst e \<notin> fst ` set pre\<rbrakk>
   \<Longrightarrow> findTimerLink s (fst e) p = Some (Some (linkAfter p pre))"
proof (induction pre arbitrary: z p)
  case Nil
  then show ?case by (subst findTimerLink.simps) (auto simp: entryOf_def split: option.splits)
next
  case (Cons f pre)
  then obtain t where t: "timerHeap s z = Some t" "f = entryOf z t" "z \<noteq> NULL"
    "lseg (timerHeap s) (timer_next t) (pre @ e # post) NULL"
    by (auto split: option.splits)
  then have "readLink s (NextOf z) = Some (timer_next t)" by simp
  from Cons.IH [OF t(4) this] t Cons.prems show ?case
    by (subst findTimerLink.simps) (auto simp: entryOf_def)
qed

lemma findUserData_result:
  "lseg (timerHeap s) z es NULL \<Longrightarrow> findUserData s data z =
     Some (case filter (\<lambda>e. fst (snd (snd e)) = data) es of [] \<Rightarrow> NULL | e # _ \<Rightarrow> fst e)"
proof (induction es arbitrary: z)
  case Nil
  then show ?case by (subst findUserData.simps) simp
next
  case (Cons e es)
  then show ?case by (subst findUserData.simps) (auto simp: entryOf_def split: option.splits)
qed

text \<open>Linking a cell in at \<open>linkAfter RootLink pre\<close>, and taking one out there.\<close>

lemma link_in:
  assumes q: "tqueue s (pre @ post)" and a: "a \<noteq> NULL" "a \<notin> fst ` set (pre @ post)"
    and h: "timerHeap s a = Some t"
  shows "\<exists>s'. do { z \<leftarrow> readLink s (linkAfter RootLink pre);
                   s1 \<leftarrow> writeLink s (NextOf a) z;
                   writeLink s1 (linkAfter RootLink pre) a } = Some s'
    \<and> tqueue s' (pre @ entryOf a t # post) \<and> callbackLog s' = callbackLog s
    \<and> (\<forall>b. b \<notin> insert a (fst ` set pre) \<longrightarrow> timerHeap s' b = timerHeap s b)"
proof -
  obtain z where z: "lseg (timerHeap s) (rootTimer s) pre z" "lseg (timerHeap s) z post NULL"
    using q by (auto simp: tqueue_def lseg_append)
  have d: "distinct (map fst (pre @ post))"
    using q lseg_distinct unfolding tqueue_def by blast
  let ?s1 = "s\<lparr>timerHeap := (timerHeap s)(a \<mapsto> t\<lparr>timer_next := z\<rparr>)\<rparr>"
  have "a \<notin> fst ` set pre" using a by auto
  then have l1: "lseg (timerHeap ?s1) (rootTimer ?s1) pre z" using z by simp
  from writeLink_after [OF l1, of a] d obtain s' where s':
    "writeLink ?s1 (linkAfter RootLink pre) a = Some s'"
    "lseg (timerHeap s') (rootTimer s') pre a"
    "\<forall>b. b \<notin> fst ` set pre \<longrightarrow> timerHeap s' b = timerHeap ?s1 b"
    "callbackLog s' = callbackLog s"
    by auto
  have "lseg (timerHeap s') z post NULL = lseg (timerHeap ?s1) z post NULL"
  proof (rule lseg_heap_cong)
    fix b assume "b \<in> fst ` set post"
    moreover from this d have "b \<notin> fst ` set pre" by auto
    ultimately show "timerHeap s' b = timerHeap ?s1 b" using s'(3) by simp
  qed
  moreover have "timerHeap s' a = Some (t\<lparr>timer_next := z\<rparr>)"
    using s'(3) \<open>a \<notin> fst ` set pre\<close> by simp
  moreover have "lseg (timerHeap ?s1) z post NULL" using z(2) a by (simp add: image_Un)
  ultimately have "tqueue s' (pre @ entryOf a t # post)"
    using s'(2) z a by (auto simp: tqueue_def lseg_append entryOf_def)
  with s' readLink_after [OF z(1)] h show ?thesis by auto
qed

lemma link_out:
  assumes q: "tqueue s (pre @ e # post)"
  shows "\<exists>t s'. timerHeap s (fst e) = Some t \<and> e = entryOf (fst e) t
    \<and> writeLink s (linkAfter RootLink pre) (timer_next t) = Some s'
    \<and> tqueue s' (pre @ post) \<and> tqueue (midpFreeTimer s' (fst e)) (pre @ post)
    \<and> callbackLog s' = callbackLog s
    \<and> (\<forall>b. b \<notin> fst ` set pre \<longrightarrow> timerHeap s' b = timerHeap s b)"
proof -
  obtain z t where z: "lseg (timerHeap s) (rootTimer s) pre z" and
    t: "z \<noteq> NULL" "timerHeap s z = Some t" "e = entryOf z t" "lseg (timerHeap s) (timer_next t) post NULL"
    using q by (auto simp: tqueue_def lseg_append split: option.splits)
  have d: "distinct (map fst (pre @ e # post))"
    using q lseg_distinct unfolding tqueue_def by blast
  from writeLink_after [OF z, of "timer_next t"] d obtain s' where s':
    "writeLink s (linkAfter RootLink pre) (timer_next t) = Some s'"
    "lseg (timerHeap s') (rootTimer s') pre (timer_next t)"
    "\<forall>b. b \<notin> fst ` set pre \<longrightarrow> timerHeap s' b = timerHeap s b"
    "callbackLog s' = callbackLog s"
    by auto
  have "lseg (timerHeap s') (timer_next t) post NULL = lseg (timerHeap s) (timer_next t) post NULL"
  proof (rule lseg_heap_cong)
    fix b assume "b \<in> fst ` set post"
    moreover from this d have "b \<notin> fst ` set pre" by auto
    ultimately show "timerHeap s' b = timerHeap s b" using s'(3) by simp
  qed
  with s'(2) t have "tqueue s' (pre @ post)" by (auto simp: tqueue_def lseg_append)
  moreover have "fst e \<notin> fst ` set (pre @ post)" using d by auto
  ultimately have "tqueue (midpFreeTimer s' (fst e)) (pre @ post)"
    by (simp add: tqueue_def midpFreeTimer_def)
  with \<open>tqueue s' (pre @ post)\<close> s' t show ?thesis by (auto simp: entryOf_def)
qed

lemma add_timer_inserts:
  assumes q: "tqueue s es" and a: "a \<noteq> NULL" "a \<notin> fst ` set es" and h: "timerHeap s a = Some t"
  shows "\<exists>s'. add_timer a s = Some s' \<and> tqueue s' (stable_insert entry_time (entryOf a t) es)
    \<and> callbackLog s' = callbackLog s
    \<and> (\<forall>b. b \<notin> insert a (fst ` set es) \<longrightarrow> timerHeap s' b = timerHeap s b)"
proof -
  let ?P = "\<lambda>e. entry_time e \<le> timeToWakeup t"
  let ?pre = "takeWhile ?P es" and ?post = "dropWhile ?P es"
  have "findLater s (timeToWakeup t) RootLink = Some (linkAfter RootLink ?pre)"
    using q findLater_result [of s "rootTimer s" es RootLink] by (simp add: tqueue_def)
  moreover from link_in [of s ?pre ?post a t] q a h obtain s' where
    "do { z \<leftarrow> readLink s (linkAfter RootLink ?pre); s1 \<leftarrow> writeLink s (NextOf a) z;
          writeLink s1 (linkAfter RootLink ?pre) a } = Some s'"
    "tqueue s' (?pre @ entryOf a t # ?post)" "callbackLog s' = callbackLog s"
    "\<forall>b. b \<notin> insert a (fst ` set ?pre) \<longrightarrow> timerHeap s' b = timerHeap s b"
    by auto
  ultimately show ?thesis using h
    by (auto simp: add_timer_def stable_insert_def entryOf_def dest: set_takeWhileD)
qed

lemma new_timer_inserts:
  assumes "tqueue s es" "a \<noteq> NULL" "a \<notin> fst ` set es"
  shows "\<exists>s'. new_timer a time d c s = Some (a, s')
    \<and> tqueue s' (stable_insert entry_time (a, time, d, c) es) \<and> callbackLog s' = callbackLog s"
proof -
  let ?t = "\<lparr>timeToWakeup = time, userData = d, userCallback = c, timer_next = NULL\<rparr>"
  let ?s = "s\<lparr>timerHeap := (timerHeap s)(a \<mapsto> ?t)\<rparr>"
  have "tqueue ?s es" using assms by (simp add: tqueue_def)
  from add_timer_inserts [OF this assms(2,3), of ?t] assms(2) show ?thesis
    by (auto simp: new_timer_def entryOf_def)
qed

lemma get_timer_pops:
  assumes q: "tqueue s (e # es)"
  shows "\<exists>s'. get_timer s = Some (fst e, s') \<and> tqueue s' es \<and> callbackLog s' = callbackLog s
    \<and> (\<exists>t. timerHeap s' (fst e) = Some t \<and> timer_next t = NULL \<and> e = entryOf (fst e) t)"
proof -
  have "fst e \<notin> fst ` set es"
    using q lseg_distinct [of "timerHeap s" "rootTimer s" "e # es"] by (auto simp: tqueue_def)
  with q show ?thesis by (auto simp: get_timer_def tqueue_def entryOf_def Let_def split: option.splits)
qed

lemma get_timer_ptr_split:
  assumes "tqueue s (pre @ e # post)"
  shows "get_timer_ptr (fst e) s = Some (Some (linkAfter RootLink pre))"
proof -
  have "distinct (map fst (pre @ e # post))" "NULL \<notin> fst ` set (pre @ e # post)"
    using assms lseg_distinct unfolding tqueue_def by blast+
  with findTimerLink_present [of s "rootTimer s" pre e post RootLink] assms show ?thesis
    by (auto simp: get_timer_ptr_def tqueue_def)
qed

lemma get_timer_ptr_absent:
  "tqueue s es \<Longrightarrow> timer \<notin> fst ` set es \<Longrightarrow> get_timer_ptr timer s = Some None"
  using findTimerLink_absent [of s "rootTimer s" es RootLink timer]
  by (simp add: get_timer_ptr_def tqueue_def)

lemma filter_neq_fst: "a \<notin> fst ` set es \<Longrightarrow> filter (\<lambda>x. fst x \<noteq> a) es = es"
  by (rule filter_True) auto

lemma filter_split_fst:
  "distinct (map fst (pre @ e # post)) \<Longrightarrow> filter (\<lambda>x. fst x \<noteq> fst e) (pre @ e # post) = pre @ post"
  by (simp add: filter_neq_fst)

lemma delete_timer_filters:
  assumes q: "tqueue s es"
  shows "\<exists>s'. delete_timer a s = Some s' \<and> tqueue s' (filter (\<lambda>e. fst e \<noteq> a) es)
    \<and> callbackLog s' = callbackLog s
    \<and> (if a \<in> fst ` set es then timerHeap s' a = None else s' = s)"
proof (cases "a \<in> fst ` set es")
  case False
  then have "filter (\<lambda>e. fst e \<noteq> a) es = es" by (rule filter_neq_fst)
  with False get_timer_ptr_absent [OF q] q show ?thesis by (auto simp: delete_timer_def)
next
  case True
  then obtain e where e: "e \<in> set es" "fst e = a" by auto
  then obtain pre post where es: "es = pre @ e # post" by (auto dest: split_list)
  have "distinct (map fst es)" using q lseg_distinct unfolding tqueue_def by blast
  then have "filter (\<lambda>e. fst e \<noteq> a) es = pre @ post"
    using filter_split_fst [of pre e post] e es by simp
  moreover from link_out [OF q [unfolded es]] obtain t s' where
    "timerHeap s (fst e) = Some t" "writeLink s (linkAfter RootLink pre) (timer_next t) = Some s'"
    "tqueue (midpFreeTimer s' (fst e)) (pre @ post)" "callbackLog s' = callbackLog s"
    by blast
  ultimately show ?thesis using get_timer_ptr_split [OF q [unfolded es]] e True
    by (simp add: delete_timer_def midpFreeTimer_def)
qed

lemma remove_timer_filters:
  assumes q: "tqueue s es"
  shows "\<exists>s'. remove_timer a s = Some (a, s') \<and> tqueue s' (filter (\<lambda>e. fst e \<noteq> a) es)
    \<and> callbackLog s' = callbackLog s
    \<and> (\<forall>e \<in> set es. fst e = a \<longrightarrow> (\<exists>t. timerHeap s' a = Some t \<and> entryOf a t = e))"
proof (cases "a \<in> fst ` set es")
  case False
  then have "filter (\<lambda>e. fst e \<noteq> a) es = es" by (rule filter_neq_fst)
  with False get_timer_ptr_absent [OF q] q show ?thesis by (auto simp: remove_timer_def)
next
  case True
  then obtain e where e: "e \<in> set es" "fst e = a" by auto
  then obtain pre post where es: "es = pre @ e # post" by (auto dest: split_list)
  have d: "distinct (map fst es)" using q lseg_distinct unfolding tqueue_def by blast
  then have f: "filter (\<lambda>e. fst e \<noteq> a) es = pre @ post"
    using filter_split_fst [of pre e post] e es by simp
  have u: "\<forall>f \<in> set es. fst f = a \<longrightarrow> f = e"
  proof (intro ballI impI)
    fix f assume "f \<in> set es" "fst f = a"
    with d e show "f = e" unfolding distinct_map by (blast dest: inj_onD)
  qed
  from link_out [OF q [unfolded es]] obtain t s' where o:
    "timerHeap s (fst e) = Some t" "e = entryOf (fst e) t"
    "writeLink s (linkAfter RootLink pre) (timer_next t) = Some s'" "tqueue s' (pre @ post)"
    "callbackLog s' = callbackLog s" "\<forall>b. b \<notin> fst ` set pre \<longrightarrow> timerHeap s' b = timerHeap s b"
    by blast
  have "fst e \<notin> fst ` set pre" using d es by auto
  with o(1,6) have "timerHeap s' a = Some t" using e by simp
  moreover have "remove_timer a s = Some (a, s')"
    using o(1,3) get_timer_ptr_split [OF q [unfolded es]] e by (simp add: remove_timer_def)
  moreover have "entryOf a t = e" using o(2) e by simp
  ultimately show ?thesis using o(4,5) f u by metis
qed

lemma delete_by_userdata_filters:
  assumes q: "tqueue s es"
  shows "\<exists>s'. delete_timer_by_userdata d s = Some s'
    \<and> tqueue s' (case filter (\<lambda>e. fst (snd (snd e)) = d) es of
                    [] \<Rightarrow> es | e # _ \<Rightarrow> filter (\<lambda>x. fst x \<noteq> fst e) es)"
proof -
  have f: "findUserData s d (rootTimer s) =
     Some (case filter (\<lambda>e. fst (snd (snd e)) = d) es of [] \<Rightarrow> NULL | e # _ \<Rightarrow> fst e)"
    using q findUserData_result by (simp add: tqueue_def)
  show ?thesis
  proof (cases "filter (\<lambda>e. fst (snd (snd e)) = d) es")
    case Nil
    with f q show ?thesis by (simp add: delete_timer_by_userdata_def)
  next
    case (Cons e l)
    then have "e \<in> set es" by (metis filter_is_subset list.set_intros(1) subsetD)
    moreover have "NULL \<notin> fst ` set es" using q lseg_distinct unfolding tqueue_def by blast
    ultimately have "fst e \<noteq> NULL" by auto
    with Cons f delete_timer_filters [OF q, of "fst e"] show ?thesis
      by (auto simp: delete_timer_by_userdata_def)
  qed
qed

section \<open>The queue as a stable priority queue\<close>

definition putTimer :: "TimerState \<Rightarrow> timer_entry \<Rightarrow> TimerState option" where
  "putTimer s e = (case e of (a, time, d, c) \<Rightarrow> map_option snd (new_timer a time d c s))"

interpretation tq: stable_pqueue putTimer get_timer tqueue entry_time fst "\<lambda>a. a \<noteq> NULL"
proof unfold_locales
  fix s es and e :: timer_entry
  assume "tqueue s es" "fst e \<notin> fst ` set es" "fst e \<noteq> NULL"
  then show "\<exists>s'. putTimer s e = Some s' \<and> tqueue s' (stable_insert entry_time e es)"
    using new_timer_inserts [of s es "fst e" "fst (snd e)" "fst (snd (snd e))" "snd (snd (snd e))"]
    by (cases e) (auto simp: putTimer_def)
next
  fix s es and e :: timer_entry
  assume "tqueue s (e # es)"
  then show "\<exists>s'. get_timer s = Some (fst e, s') \<and> tqueue s' es"
    using get_timer_pops by blast
qed

section \<open>Properties\<close>

definition emptyTimers :: TimerState where
  "emptyTimers = \<lparr>timerHeap = (\<lambda>_. None), rootTimer = NULL, callbackLog = []\<rparr>"

lemma tqueue_empty: "tqueue emptyTimers []"
  by (simp add: emptyTimers_def tqueue_def)

text \<open>
  C4. Timers come out in the order of their wake-up times, timers of equal time in the
  order they were created: creating any timers on fresh handles and taking as many out
  returns their handles in the stable sort of the wake-up times.
\<close>

theorem timers_fire_in_order:
  assumes "tqueue s []" "distinct (map fst ts)" "\<forall>t \<in> set ts. fst t \<noteq> NULL"
  shows "\<exists>s1 s2. put_all putTimer ts s = Some s1
    \<and> pop_all get_timer (length ts) s1 = Some (map fst (sort_key entry_time ts), s2)
    \<and> tqueue s2 []"
  using assms by (rule tq.sorts)

theorem timers_fire_in_order_witness:
  "\<exists>s1 s2. put_all putTimer [(8, 30, 1, 0), (16, 10, 2, 0), (24, 30, 3, 0)] emptyTimers = Some s1
    \<and> pop_all get_timer 3 s1 = Some ([16, 8, 24], s2) \<and> tqueue s2 []"
  using timers_fire_in_order [OF tqueue_empty, of "[(8, 30, 1, 0), (16, 10, 2, 0), (24, 30, 3, 0)]"]
  by (simp add: numeral_3_eq_3)

text \<open>
  C5. Deleting a timer unlinks and frees exactly that timer and keeps the order of the
  others; deleting a handle that is not queued changes nothing.
\<close>

theorem delete_timer_exact:
  assumes "tqueue s es"
  shows "\<exists>s'. delete_timer a s = Some s' \<and> tqueue s' (filter (\<lambda>e. fst e \<noteq> a) es)
    \<and> (if a \<in> fst ` set es then timerHeap s' a = None else s' = s)"
  using delete_timer_filters [OF assms] by blast

theorem delete_timer_exact_witness:
  "\<exists>s s'. tqueue s [(8, 5, 1, 0)] \<and> delete_timer 8 s = Some s' \<and> tqueue s' []"
proof -
  obtain s where s: "tqueue s [(8, 5, 1, 0)]"
    using new_timer_inserts [OF tqueue_empty, of 8 5 1 0] by (auto simp: stable_insert_def)
  with delete_timer_exact [OF s, of 8] show ?thesis by auto
qed

text \<open>
  Deletion by user data removes the earliest timer that carries the data, and no other;
  with no such timer the queue stays as it is.
\<close>

theorem delete_by_userdata_first_match:
  assumes "tqueue s es"
  shows "\<exists>s'. delete_timer_by_userdata d s = Some s'
    \<and> tqueue s' (case filter (\<lambda>e. fst (snd (snd e)) = d) es of
                    [] \<Rightarrow> es | e # _ \<Rightarrow> filter (\<lambda>x. fst x \<noteq> fst e) es)"
  using assms by (rule delete_by_userdata_filters)

theorem delete_by_userdata_first_match_witness:
  "\<exists>s s'. tqueue s [(8, 5, 1, 0), (16, 9, 1, 0)] \<and> delete_timer_by_userdata 1 s = Some s'
     \<and> tqueue s' [(16, 9, 1, 0)]"
proof -
  obtain s where s: "tqueue s [(8, 5, 1, 0)]"
    using new_timer_inserts [OF tqueue_empty, of 8 5 1 0] by (auto simp: stable_insert_def)
  obtain t where t: "tqueue t [(8, 5, 1, 0), (16, 9, 1, 0)]"
    using new_timer_inserts [OF s, of 16 9 1 0] by (auto simp: stable_insert_def)
  with delete_by_userdata_first_match [OF t, of 1] show ?thesis by auto
qed

end
