(* ===== verification/ResourceLimit.thy ===== *)
theory ResourceLimit
  imports Interfaces "HOL-Library.Monad_Syntax"
begin

text \<open>
  The resource manager, \<^verbatim>\<open>midp/src/core/resource_manager/reference/native/midpResourceLimit.c\<close>:
  a pool of each resource type, a reservation and a limit per suite, and what each isolate
  uses. \<^verbatim>\<open>cur\<close> is \<^verbatim>\<open>getCurrentIsolateId()\<close>, \<^verbatim>\<open>ams\<close> is \<^verbatim>\<open>midpGetAmsIsolateId()\<close>, \<^verbatim>\<open>prop\<close> the
  value of the internal property \<^verbatim>\<open>MAX_ISOLATES\<close>. Quantities are mathematical integers: the
  limits are below $2^{22}$, so the sums the code forms do not overflow an \<^verbatim>\<open>int\<close> for
  requests below $2^{30}$. \<open>None\<close> is an access outside the usage table.
\<close>

section \<open>Data\<close>

datatype RscType = TCP_CLI | TCP_SER | UDP | FILE | AUDIO_CHA | IMAGE_MUT | IMAGE_IMMUT

definition rscTypes :: "RscType list" where
  "rscTypes = [TCP_CLI, TCP_SER, UDP, FILE, AUDIO_CHA, IMAGE_MUT, IMAGE_IMMUT]"

lemma set_rscTypes [simp]: "set rscTypes = UNIV"
  by (auto simp: rscTypes_def) (metis RscType.exhaust)

text \<open>
  The limits of \<^verbatim>\<open>constants_open.xml\<close>, the policy the build selects (\<^verbatim>\<open>USE_FIXED = false\<close>): small
  reservations, and a suite may take what no reservation of another keeps.
\<close>

fun GLOBAL_LIMIT :: "RscType \<Rightarrow> int" where
  "GLOBAL_LIMIT TCP_CLI = 32"
| "GLOBAL_LIMIT TCP_SER = 12"
| "GLOBAL_LIMIT UDP = 12"
| "GLOBAL_LIMIT FILE = 30"
| "GLOBAL_LIMIT AUDIO_CHA = 5"
| "GLOBAL_LIMIT IMAGE_MUT = 1200000"
| "GLOBAL_LIMIT IMAGE_IMMUT = 1300000"

fun AMS_RESERVED :: "RscType \<Rightarrow> int" where
  "AMS_RESERVED TCP_CLI = 2"
| "AMS_RESERVED TCP_SER = 0"
| "AMS_RESERVED UDP = 0"
| "AMS_RESERVED FILE = 6"
| "AMS_RESERVED AUDIO_CHA = 0"
| "AMS_RESERVED IMAGE_MUT = 200000"
| "AMS_RESERVED IMAGE_IMMUT = 700000"

definition AMS_LIMIT :: "RscType \<Rightarrow> int" where
  "AMS_LIMIT type = GLOBAL_LIMIT type"

fun NON_AMS_RESERVED :: "RscType \<Rightarrow> int" where
  "NON_AMS_RESERVED TCP_CLI = 0"
| "NON_AMS_RESERVED TCP_SER = 0"
| "NON_AMS_RESERVED UDP = 0"
| "NON_AMS_RESERVED FILE = 4"
| "NON_AMS_RESERVED AUDIO_CHA = 0"
| "NON_AMS_RESERVED IMAGE_MUT = 0"
| "NON_AMS_RESERVED IMAGE_IMMUT = 0"

definition NON_AMS_LIMIT :: "RscType \<Rightarrow> int" where
  "NON_AMS_LIMIT type = GLOBAL_LIMIT type - AMS_RESERVED type"

definition SUITE_RESERVED :: "bool \<Rightarrow> RscType \<Rightarrow> int" where
  "SUITE_RESERVED isAms type = (if isAms then AMS_RESERVED type else NON_AMS_RESERVED type)"

definition SUITE_LIMIT :: "bool \<Rightarrow> RscType \<Rightarrow> int" where
  "SUITE_LIMIT isAms type = (if isAms then AMS_LIMIT type else NON_AMS_LIMIT type)"

record IsolateResourceUsage =
  isolateId :: int
  inUse :: bool
  resourceUsage :: "RscType \<Rightarrow> int"

record ResourceState =
  gResourcesAvailable :: "RscType \<Rightarrow> int"
  isInitialized :: bool
  gIsolateResourceUsage :: "IsolateResourceUsage list"

definition initialResources :: ResourceState where
  "initialResources =
     \<lparr>gResourcesAvailable = (\<lambda>t. GLOBAL_LIMIT t - AMS_RESERVED t), isInitialized = False,
      gIsolateResourceUsage = []\<rparr>"

section \<open>Operations\<close>

definition initResourceLimit :: "int \<Rightarrow> ResourceState \<Rightarrow> ResourceState option" where
  "initResourceLimit prop s =
     (let max_isolates = (if 0 = prop then int MAX_ISOLATES else prop);
          blank = \<lparr>isolateId = -1, inUse = False, resourceUsage = (\<lambda>_. 0)\<rparr> in
      if max_isolates < 1 then None
      else Some (s\<lparr>gIsolateResourceUsage :=
                     (replicate (nat max_isolates) blank)[0 := blank\<lparr>isolateId := 1, inUse := True\<rparr>],
                   isInitialized := True\<rparr>))"

definition ensureInitialized :: "int \<Rightarrow> ResourceState \<Rightarrow> ResourceState option" where
  "ensureInitialized prop s = (if \<not> isInitialized s then initResourceLimit prop s else Some s)"

text \<open>
  A loop \<^verbatim>\<open>for (i = 0; i < max_isolates; i++)\<close> that stops at the first entry with a property:
  the index found, or the bound; outside the table it is undefined.
\<close>

function scanEntries ::
  "(IsolateResourceUsage \<Rightarrow> bool) \<Rightarrow> IsolateResourceUsage list \<Rightarrow> nat \<Rightarrow> nat \<Rightarrow> nat option" where
  "scanEntries P es n i =
     (if i < n then
        if i < length es then if P (es ! i) then Some i else scanEntries P es n (Suc i)
        else None
      else Some i)"
  by pat_completeness auto
termination
  by (relation "measure (\<lambda>(P, es, n, i). n - i)") auto

declare scanEntries.simps [simp del]

text \<open>The result is an index into the table; the inner \<open>None\<close> is the null pointer.\<close>

definition findIsolateResourceUsageStruct ::
  "int \<Rightarrow> int \<Rightarrow> int \<Rightarrow> ResourceState \<Rightarrow> (nat option \<times> ResourceState) option" where
  "findIsolateResourceUsageStruct prop ams isolate s =
     do { s1 \<leftarrow> ensureInitialized prop s;
          if isolate = ams then Some (Some 0, s1)
          else do { i \<leftarrow> scanEntries (\<lambda>e. isolate = isolateId e) (gIsolateResourceUsage s1)
                          MAX_ISOLATES 0;
                    Some (if i < MAX_ISOLATES then Some i else None, s1) } }"

definition fromGlobal :: "bool \<Rightarrow> IsolateResourceUsage \<Rightarrow> RscType \<Rightarrow> int \<Rightarrow> int" where
  "fromGlobal isAms entry type delta =
     (if resourceUsage entry type < SUITE_RESERVED isAms type
      then max 0 (resourceUsage entry type + delta - SUITE_RESERVED isAms type)
      else delta)"

definition checkResourceLimit ::
  "bool \<Rightarrow> IsolateResourceUsage \<Rightarrow> RscType \<Rightarrow> int \<Rightarrow> ResourceState \<Rightarrow> bool" where
  "checkResourceLimit isAms entry type requestSize s \<longleftrightarrow>
     resourceUsage entry type + requestSize \<le> SUITE_LIMIT isAms type \<and>
     gResourcesAvailable s type - fromGlobal isAms entry type requestSize \<ge> 0"

definition midpCheckResourceLimit ::
  "int \<Rightarrow> int \<Rightarrow> int \<Rightarrow> RscType \<Rightarrow> int \<Rightarrow> ResourceState \<Rightarrow> (bool \<times> ResourceState) option" where
  "midpCheckResourceLimit prop ams cur type requestSize s =
     do { (idx, s1) \<leftarrow> findIsolateResourceUsageStruct prop ams cur s;
          Some (case idx of
                  None \<Rightarrow> False
                | Some i \<Rightarrow>
                    let entry = gIsolateResourceUsage s1 ! i in
                    inUse entry \<and> checkResourceLimit (cur = ams) entry type requestSize s1, s1) }"

definition setUsage :: "nat \<Rightarrow> RscType \<Rightarrow> int \<Rightarrow> ResourceState \<Rightarrow> ResourceState" where
  "setUsage i type v s =
     s\<lparr>gIsolateResourceUsage := (gIsolateResourceUsage s)
         [i := (gIsolateResourceUsage s ! i)
                 \<lparr>resourceUsage := (resourceUsage (gIsolateResourceUsage s ! i))(type := v)\<rparr>]\<rparr>"

definition setAvailable :: "RscType \<Rightarrow> int \<Rightarrow> ResourceState \<Rightarrow> ResourceState" where
  "setAvailable type v s = s\<lparr>gResourcesAvailable := (gResourcesAvailable s)(type := v)\<rparr>"

text \<open>
  When the isolate has no entry the count functions report a failure through the null entry
  pointer (\<^verbatim>\<open>entry->resourceUsage[type]\<close>); the report is compiled out in a release build, and
  the model returns the failure.
\<close>

definition midpIncResourceCount ::
  "int \<Rightarrow> int \<Rightarrow> int \<Rightarrow> RscType \<Rightarrow> int \<Rightarrow> ResourceState \<Rightarrow> (bool \<times> ResourceState) option" where
  "midpIncResourceCount prop ams cur type delta s =
     do { (idx, s1) \<leftarrow> findIsolateResourceUsageStruct prop ams cur s;
          (case idx of
             None \<Rightarrow> Some (False, s1)
           | Some i \<Rightarrow>
               let entry = gIsolateResourceUsage s1 ! i; isAms = (cur = ams) in
               if inUse entry \<and> resourceUsage entry type + delta \<le> SUITE_LIMIT isAms type then
                 let g = fromGlobal isAms entry type delta in
                 if gResourcesAvailable s1 type - g \<ge> 0
                 then Some (True, setUsage i type (resourceUsage entry type + delta)
                              (setAvailable type (gResourcesAvailable s1 type - g) s1))
                 else Some (False, s1)
               else Some (False, s1)) }"

definition toGlobal :: "bool \<Rightarrow> IsolateResourceUsage \<Rightarrow> RscType \<Rightarrow> int \<Rightarrow> int" where
  "toGlobal isAms entry type delta =
     (if resourceUsage entry type > SUITE_RESERVED isAms type
      then if resourceUsage entry type - delta < SUITE_RESERVED isAms type
           then resourceUsage entry type - SUITE_RESERVED isAms type
           else delta
      else 0)"

definition midpDecResourceCount ::
  "int \<Rightarrow> int \<Rightarrow> int \<Rightarrow> RscType \<Rightarrow> int \<Rightarrow> ResourceState \<Rightarrow> (bool \<times> ResourceState) option" where
  "midpDecResourceCount prop ams cur type delta s =
     do { (idx, s1) \<leftarrow> findIsolateResourceUsageStruct prop ams cur s;
          (case idx of
             None \<Rightarrow> Some (False, s1)
           | Some i \<Rightarrow>
               let entry = gIsolateResourceUsage s1 ! i;
                   g = (if inUse entry then toGlobal (cur = ams) entry type delta else delta)
               in Some (True, setUsage i type (resourceUsage entry type - delta)
                          (setAvailable type (gResourcesAvailable s1 type + g) s1))) }"

definition midpCheckReservedResources :: "int \<Rightarrow> ResourceState \<Rightarrow> (bool \<times> ResourceState) option" where
  "midpCheckReservedResources prop s =
     do { s1 \<leftarrow> ensureInitialized prop s;
          Some (list_all (\<lambda>t. \<not> NON_AMS_RESERVED t > gResourcesAvailable s1 t) rscTypes, s1) }"

definition midpAllocateReservedResources ::
  "int \<Rightarrow> int \<Rightarrow> int \<Rightarrow> ResourceState \<Rightarrow> (bool \<times> ResourceState) option" where
  "midpAllocateReservedResources prop ams cur s =
     do { s1 \<leftarrow> ensureInitialized prop s;
          if cur = ams then Some (True, s1)
          else do {
            idx \<leftarrow> scanEntries (\<lambda>e. \<not> inUse e) (gIsolateResourceUsage s1) MAX_ISOLATES 0;
            if idx < MAX_ISOLATES then
              if list_all (\<lambda>t. \<not> SUITE_RESERVED (cur = ams) t > gResourcesAvailable s1 t) rscTypes
              then Some (True,
                s1\<lparr>gResourcesAvailable :=
                     (\<lambda>t. gResourcesAvailable s1 t - SUITE_RESERVED (cur = ams) t),
                   gIsolateResourceUsage := (gIsolateResourceUsage s1)
                     [idx := (gIsolateResourceUsage s1 ! idx)
                               \<lparr>isolateId := cur, inUse := True, resourceUsage := (\<lambda>_. 0)\<rparr>]\<rparr>)
              else Some (False, s1)
            else Some (False, s1) } }"

definition midpFreeReservedResources ::
  "int \<Rightarrow> int \<Rightarrow> int \<Rightarrow> ResourceState \<Rightarrow> ResourceState option" where
  "midpFreeReservedResources prop ams cur s =
     do { s1 \<leftarrow> ensureInitialized prop s;
          if cur = ams then Some s1
          else do {
            idx \<leftarrow> scanEntries (\<lambda>e. isolateId e = cur) (gIsolateResourceUsage s1) MAX_ISOLATES 0;
            if idx < MAX_ISOLATES then
              let entry = gIsolateResourceUsage s1 ! idx in
              Some (s1\<lparr>gIsolateResourceUsage :=
                         (gIsolateResourceUsage s1)[idx := entry\<lparr>inUse := False\<rparr>],
                       gResourcesAvailable :=
                         (\<lambda>t. let unused = SUITE_RESERVED (cur = ams) t - resourceUsage entry t in
                              if unused > 0 then gResourcesAvailable s1 t + unused
                              else gResourcesAvailable s1 t)\<rparr>)
            else Some s1 } }"

section \<open>Accounting\<close>

text \<open>
  What entry \<open>i\<close> keeps out of the pool: an isolate in use its reservation or, above it, what
  it uses; an entry given up only what was not returned. Entry 0 is the AMS.
\<close>

definition hold :: "nat \<Rightarrow> IsolateResourceUsage \<Rightarrow> RscType \<Rightarrow> int" where
  "hold i e t =
     (if inUse e then max (SUITE_RESERVED (i = 0) t) (resourceUsage e t) else resourceUsage e t)"

definition held :: "IsolateResourceUsage list \<Rightarrow> RscType \<Rightarrow> int" where
  "held es t = (\<Sum>i<length es. hold i (es ! i) t)"


text \<open>The AMS has the identifier 1, which \<^verbatim>\<open>initResourceLimit\<close> writes into entry 0.\<close>

definition table_ok :: "IsolateResourceUsage list \<Rightarrow> bool" where
  "table_ok es \<longleftrightarrow> length es = MAX_ISOLATES \<and> inUse (es ! 0) \<and> isolateId (es ! 0) = 1 \<and>
     (\<forall>i < length es. \<forall>t. 0 \<le> resourceUsage (es ! i) t
        \<and> resourceUsage (es ! i) t \<le> SUITE_LIMIT (i = 0) t)"

definition resource_inv :: "ResourceState \<Rightarrow> bool" where
  "resource_inv s \<longleftrightarrow>
     (if isInitialized s
      then table_ok (gIsolateResourceUsage s) \<and>
        (\<forall>t. 0 \<le> gResourcesAvailable s t \<and>
             gResourcesAvailable s t + held (gIsolateResourceUsage s) t \<le> GLOBAL_LIMIT t)
      else s = initialResources)"

lemma reserved_nonneg [simp]: "0 \<le> SUITE_RESERVED b t"
  by (cases t) (auto simp: SUITE_RESERVED_def)

lemma reserved_limit: "SUITE_RESERVED b t \<le> SUITE_LIMIT b t"
  by (cases t) (auto simp: SUITE_RESERVED_def SUITE_LIMIT_def AMS_LIMIT_def NON_AMS_LIMIT_def)

lemma AMS_le_global: "AMS_RESERVED t \<le> GLOBAL_LIMIT t"
  by (cases t) auto

lemma sum_list_update:
  fixes f :: "nat \<Rightarrow> 'a \<Rightarrow> int"
  assumes "i < length xs"
  shows "(\<Sum>j<length xs. f j (xs[i := x] ! j)) = (\<Sum>j<length xs. f j (xs ! j)) - f i (xs ! i) + f i x"
proof -
  have r: "(\<Sum>j<length xs. g j) = g i + (\<Sum>j\<in>{..<length xs} - {i}. g j)" for g :: "nat \<Rightarrow> int"
    using assms by (intro sum.remove) auto
  have "(\<Sum>j\<in>{..<length xs} - {i}. f j (xs[i := x] ! j)) = (\<Sum>j\<in>{..<length xs} - {i}. f j (xs ! j))"
    by (intro sum.cong) auto
  with r [of "\<lambda>j. f j (xs[i := x] ! j)"] r [of "\<lambda>j. f j (xs ! j)"] assms show ?thesis by simp
qed

lemma held_update:
  "i < length es \<Longrightarrow> held (es[i := e]) t = held es t - hold i (es ! i) t + hold i e t"
  using sum_list_update [of i es "\<lambda>j x. hold j x t" e] by (simp add: held_def)

lemma table_ok_update:
  "\<lbrakk>table_ok es; i < length es; inUse e \<or> i \<noteq> 0; isolateId e = 1 \<or> i \<noteq> 0;
    \<And>t. 0 \<le> resourceUsage e t \<and> resourceUsage e t \<le> SUITE_LIMIT (i = 0) t\<rbrakk>
   \<Longrightarrow> table_ok (es[i := e])"
  by (auto simp: table_ok_def nth_list_update)

lemma scanEntries_bound:
  "scanEntries P es n i = Some j \<Longrightarrow> i \<le> n \<Longrightarrow> i \<le> j \<and> j \<le> n \<and> (j < n \<longrightarrow> j < length es \<and> P (es ! j))
     \<and> (\<forall>k. i \<le> k \<and> k < j \<longrightarrow> \<not> P (es ! k))"
proof (induction P es n i rule: scanEntries.induct)
  case (1 P es n i)
  from 1(2) have *: "(if i < n then if i < length es then if P (es ! i) then Some i
      else scanEntries P es n (Suc i) else None else Some i) = Some j"
    by (subst (asm) scanEntries.simps)
  show ?case
  proof (cases "i < n \<and> i < length es \<and> \<not> P (es ! i)")
    case True
    with 1(1) * have "Suc i \<le> j \<and> j \<le> n \<and> (j < n \<longrightarrow> j < length es \<and> P (es ! j))
      \<and> (\<forall>k. Suc i \<le> k \<and> k < j \<longrightarrow> \<not> P (es ! k))" by auto
    with True show ?thesis by (metis Suc_leD Suc_leI le_neq_implies_less)
  next
    case False
    with * 1(3) show ?thesis by (auto split: if_splits)
  qed
qed

lemma scanEntries_total: "n \<le> length es \<Longrightarrow> \<exists>j. scanEntries P es n i = Some j"
proof (induction P es n i rule: scanEntries.induct)
  case (1 P es n i)
  then show ?case by (subst scanEntries.simps) auto
qed

section \<open>The operations keep the accounts\<close>

lemma init_inv:
  assumes "resource_inv s" "prop = 0 \<or> prop = int MAX_ISOLATES"
  shows "\<exists>s1. ensureInitialized prop s = Some s1 \<and> resource_inv s1 \<and> isInitialized s1
    \<and> (isInitialized s \<longrightarrow> s1 = s)"
proof (cases "isInitialized s")
  case True
  with assms show ?thesis by (simp add: ensureInitialized_def)
next
  case False
  let ?b = "\<lparr>isolateId = -1, inUse = False, resourceUsage = (\<lambda>_. 0)\<rparr>"
  let ?a = "?b\<lparr>isolateId := 1, inUse := True\<rparr>"
  let ?es = "(replicate MAX_ISOLATES ?b)[0 := ?a]"
  have s: "s = initialResources" using assms(1) False by (simp add: resource_inv_def)
  have lim: "0 \<le> SUITE_LIMIT b t" for b t using reserved_nonneg reserved_limit order_trans by blast
  have z: "held (replicate MAX_ISOLATES ?b) t = 0" for t by (simp add: held_def hold_def)
  have h: "held ?es t = AMS_RESERVED t" for t
    using held_update [of 0 "replicate MAX_ISOLATES ?b" ?a t] z [of t] reserved_nonneg [of True t]
    by (simp add: hold_def MAX_ISOLATES_def SUITE_RESERVED_def)
  have "table_ok ?es" using lim by (auto simp: table_ok_def MAX_ISOLATES_def nth_list_update_if)
  with h AMS_le_global s False assms(2) show ?thesis
    by (auto simp: ensureInitialized_def initResourceLimit_def Let_def resource_inv_def
        initialResources_def MAX_ISOLATES_def)
qed

lemma find_inv:
  assumes "resource_inv s" "prop = 0 \<or> prop = int MAX_ISOLATES"
  shows "\<exists>s1 idx. findIsolateResourceUsageStruct prop 1 cur s = Some (idx, s1)
    \<and> resource_inv s1 \<and> isInitialized s1 \<and> (isInitialized s \<longrightarrow> s1 = s)
    \<and> (case idx of None \<Rightarrow> cur \<noteq> 1 | Some i \<Rightarrow> i < MAX_ISOLATES \<and> (i = 0 \<longleftrightarrow> cur = 1)
          \<and> isolateId (gIsolateResourceUsage s1 ! i) = cur)"
proof -
  obtain s1 where s1: "ensureInitialized prop s = Some s1" "resource_inv s1" "isInitialized s1"
    "isInitialized s \<longrightarrow> s1 = s"
    using init_inv [OF assms] by blast
  let ?es = "gIsolateResourceUsage s1"
  have t: "table_ok ?es" using s1 by (simp add: resource_inv_def)
  then obtain j where j: "scanEntries (\<lambda>e. cur = isolateId e) ?es MAX_ISOLATES 0 = Some j"
    using scanEntries_total [of MAX_ISOLATES ?es "\<lambda>e. cur = isolateId e" 0]
    by (auto simp: table_ok_def)
  show ?thesis
  proof (cases "cur = 1")
    case True
    with s1 t show ?thesis
      by (auto simp: findIsolateResourceUsageStruct_def table_ok_def MAX_ISOLATES_def)
  next
    case False
    then have "j < MAX_ISOLATES \<longrightarrow> j \<noteq> 0 \<and> isolateId (?es ! j) = cur"
      using scanEntries_bound [OF j] t by (cases "j = 0") (auto simp: table_ok_def)
    with False s1 j show ?thesis
      by (auto simp: findIsolateResourceUsageStruct_def)
  qed
qed

lemma inv_transfer:
  assumes "resource_inv s" "isInitialized s" "i < MAX_ISOLATES"
    and "table_ok ((gIsolateResourceUsage s)[i := e])"
    and "\<And>t. 0 \<le> av t \<and> av t + hold i e t
           \<le> gResourcesAvailable s t + hold i (gIsolateResourceUsage s ! i) t"
  shows "resource_inv (s\<lparr>gResourcesAvailable := av,
     gIsolateResourceUsage := (gIsolateResourceUsage s)[i := e]\<rparr>)"
proof -
  have "i < length (gIsolateResourceUsage s)"
    using assms(1-3) by (simp add: resource_inv_def table_ok_def)
  moreover have "av t + held (gIsolateResourceUsage s) t - hold i (gIsolateResourceUsage s ! i) t
      + hold i e t \<le> GLOBAL_LIMIT t" for t
  proof -
    have "gResourcesAvailable s t + held (gIsolateResourceUsage s) t \<le> GLOBAL_LIMIT t"
      using assms(1,2) by (simp add: resource_inv_def)
    with assms(5) [of t] show ?thesis by simp
  qed
  ultimately show ?thesis using assms by (auto simp: resource_inv_def held_update algebra_simps)
qed


lemma set_usage_inv:
  assumes inv: "resource_inv s" "isInitialized s" and i: "i < MAX_ISOLATES"
    and v: "0 \<le> v" "v \<le> SUITE_LIMIT (i = 0) type" "0 \<le> a"
    and e: "e = gIsolateResourceUsage s ! i" "e' = e\<lparr>resourceUsage := (resourceUsage e)(type := v)\<rparr>"
    and h: "a + hold i e' type \<le> gResourcesAvailable s type + hold i e type"
  shows "resource_inv (setUsage i type v (setAvailable type a s))"
proof -
  have t: "table_ok (gIsolateResourceUsage s)" using inv by (simp add: resource_inv_def)
  then have "table_ok ((gIsolateResourceUsage s)[i := e'])"
    using i v e by (intro table_ok_update) (auto simp: table_ok_def)
  moreover have "0 \<le> ((gResourcesAvailable s)(type := a)) x
     \<and> ((gResourcesAvailable s)(type := a)) x + hold i e' x \<le> gResourcesAvailable s x + hold i e x" for x
    using inv v e h by (auto simp: resource_inv_def hold_def)
  moreover have "setUsage i type v (setAvailable type a s) = s\<lparr>gResourcesAvailable :=
      (gResourcesAvailable s)(type := a), gIsolateResourceUsage := (gIsolateResourceUsage s)[i := e']\<rparr>"
    by (simp add: setUsage_def setAvailable_def e)
  ultimately show ?thesis using inv_transfer [OF inv i, of e'] e(1) by metis
qed

lemma usage_bounds:
  "\<lbrakk>resource_inv s; isInitialized s; i < MAX_ISOLATES\<rbrakk>
   \<Longrightarrow> 0 \<le> resourceUsage (gIsolateResourceUsage s ! i) t
      \<and> resourceUsage (gIsolateResourceUsage s ! i) t \<le> SUITE_LIMIT (i = 0) t"
  by (simp add: resource_inv_def table_ok_def)

lemma inc_inv:
  assumes inv: "resource_inv s" and p: "prop = 0 \<or> prop = int MAX_ISOLATES" and d: "0 \<le> delta"
    and r: "midpIncResourceCount prop 1 cur type delta s = Some (ok, s')"
  shows "resource_inv s'"
proof -
  obtain s1 idx where f: "findIsolateResourceUsageStruct prop 1 cur s = Some (idx, s1)"
    "resource_inv s1" "isInitialized s1"
    "case idx of None \<Rightarrow> cur \<noteq> 1 | Some i \<Rightarrow> i < MAX_ISOLATES \<and> (i = 0 \<longleftrightarrow> cur = 1)
       \<and> isolateId (gIsolateResourceUsage s1 ! i) = cur"
    using find_inv [OF inv p, of cur] by blast
  show ?thesis
  proof (cases "s' = s1")
    case True
    with f show ?thesis by simp
  next
    case False
    then obtain i where i: "idx = Some i" using f r by (cases idx) (auto simp: midpIncResourceCount_def)
    let ?e = "gIsolateResourceUsage s1 ! i"
    let ?g = "fromGlobal (cur = 1) ?e type delta" and ?u = "resourceUsage ?e type"
    have c: "inUse ?e" "?u + delta \<le> SUITE_LIMIT (cur = 1) type" "0 \<le> gResourcesAvailable s1 type - ?g"
      "s' = setUsage i type (?u + delta) (setAvailable type (gResourcesAvailable s1 type - ?g) s1)"
      using f r i False by (auto simp: midpIncResourceCount_def Let_def split: if_splits)
    have i0: "i < MAX_ISOLATES" "(cur = 1) = (i = 0)" using f(4) i by auto
    show ?thesis unfolding c(4)
      by (rule set_usage_inv [OF f(2,3) i0(1) _ _ c(3) refl refl])
        (use usage_bounds [OF f(2,3) i0(1), of type] d c i0(2) in
          \<open>auto simp: hold_def fromGlobal_def max_def split: if_splits\<close>)
  qed
qed

text \<open>\<open>holding\<close>: the usage the isolate's entry shows, if it has one.\<close>

definition holding :: "int \<Rightarrow> int \<Rightarrow> RscType \<Rightarrow> ResourceState \<Rightarrow> int" where
  "holding prop cur type s =
     (case findIsolateResourceUsageStruct prop 1 cur s of
        Some (Some i, s1) \<Rightarrow> resourceUsage (gIsolateResourceUsage s1 ! i) type
      | _ \<Rightarrow> 0)"

lemma dec_inv:
  assumes inv: "resource_inv s" and p: "prop = 0 \<or> prop = int MAX_ISOLATES"
    and d: "0 \<le> delta" "delta \<le> holding prop cur type s"
    and r: "midpDecResourceCount prop 1 cur type delta s = Some (ok, s')"
  shows "resource_inv s'"
proof -
  obtain s1 idx where f: "findIsolateResourceUsageStruct prop 1 cur s = Some (idx, s1)"
    "resource_inv s1" "isInitialized s1"
    "case idx of None \<Rightarrow> cur \<noteq> 1 | Some i \<Rightarrow> i < MAX_ISOLATES \<and> (i = 0 \<longleftrightarrow> cur = 1)
       \<and> isolateId (gIsolateResourceUsage s1 ! i) = cur"
    using find_inv [OF inv p, of cur] by blast
  show ?thesis
  proof (cases idx)
    case None
    with f r show ?thesis by (simp add: midpDecResourceCount_def)
  next
    case (Some i)
    let ?e = "gIsolateResourceUsage s1 ! i"
    let ?g = "if inUse ?e then toGlobal (cur = 1) ?e type delta else delta"
    have s': "s' = setUsage i type (resourceUsage ?e type - delta)
        (setAvailable type (gResourcesAvailable s1 type + ?g) s1)"
      using f r Some by (auto simp: midpDecResourceCount_def Let_def)
    have i0: "i < MAX_ISOLATES" "(cur = 1) = (i = 0)" using f(4) Some by auto
    have h: "delta \<le> resourceUsage ?e type" using d(2) f(1) Some by (simp add: holding_def)
    have a: "0 \<le> gResourcesAvailable s1 type" using f(2,3) by (simp add: resource_inv_def)
    show ?thesis unfolding s'
      by (rule set_usage_inv [OF f(2,3) i0(1) _ _ _ refl refl])
        (use usage_bounds [OF f(2,3) i0(1), of type] d(1) h a i0(2) in
          \<open>auto simp: hold_def toGlobal_def max_def split: if_splits\<close>)
  qed
qed

lemma allocate_inv:
  assumes inv: "resource_inv s" and p: "prop = 0 \<or> prop = int MAX_ISOLATES"
    and r: "midpAllocateReservedResources prop 1 cur s = Some (ok, s')"
  shows "resource_inv s'"
proof -
  obtain s1 where s1: "ensureInitialized prop s = Some s1" "resource_inv s1" "isInitialized s1"
    using init_inv [OF inv p] by blast
  have t: "table_ok (gIsolateResourceUsage s1)" using s1 by (simp add: resource_inv_def)
  show ?thesis
  proof (cases "s' = s1")
    case True
    with s1 show ?thesis by simp
  next
    case False
    let ?av = "\<lambda>t. gResourcesAvailable s1 t - SUITE_RESERVED (cur = 1) t"
    obtain i where i: "cur \<noteq> 1" "scanEntries (\<lambda>e. \<not> inUse e) (gIsolateResourceUsage s1) MAX_ISOLATES 0 = Some i"
      "i < MAX_ISOLATES" "\<And>t. SUITE_RESERVED (cur = 1) t \<le> gResourcesAvailable s1 t"
      and s': "s' = s1\<lparr>gResourcesAvailable := ?av, gIsolateResourceUsage := (gIsolateResourceUsage s1)
          [i := (gIsolateResourceUsage s1 ! i)\<lparr>isolateId := cur, inUse := True, resourceUsage := (\<lambda>_. 0)\<rparr>]\<rparr>"
      using r s1 False
      by (auto simp: midpAllocateReservedResources_def bind_eq_Some_conv list_all_iff not_less
          split: if_splits)
    let ?e = "gIsolateResourceUsage s1 ! i"
    have nu: "\<not> inUse ?e" using scanEntries_bound [OF i(2)] i(3) by simp
    with t have i0: "i \<noteq> 0" by (cases "i = 0") (auto simp: table_ok_def)
    have lim: "0 \<le> SUITE_LIMIT b t" for b t using reserved_nonneg reserved_limit order_trans by blast
    show ?thesis unfolding s'
    proof (rule inv_transfer [OF s1(2,3) i(3)])
      show "table_ok ((gIsolateResourceUsage s1)[i := ?e\<lparr>isolateId := cur, inUse := True,
          resourceUsage := (\<lambda>_. 0)\<rparr>])"
        using t i i0 lim by (intro table_ok_update) (auto simp: table_ok_def)
    qed (use i i0 nu usage_bounds [OF s1(2,3) i(3)] in \<open>auto simp: hold_def\<close>)
  qed
qed


text \<open>The isolate has an entry, and the entry is in use.\<close>

definition reserves :: "int \<Rightarrow> int \<Rightarrow> ResourceState \<Rightarrow> bool" where
  "reserves prop cur s =
     (case findIsolateResourceUsageStruct prop 1 cur s of
        Some (Some i, s1) \<Rightarrow> inUse (gIsolateResourceUsage s1 ! i)
      | _ \<Rightarrow> False)"

lemma reservesE:
  assumes "reserves prop cur s" "resource_inv s" "prop = 0 \<or> prop = int MAX_ISOLATES"
  obtains i s1 where "findIsolateResourceUsageStruct prop 1 cur s = Some (Some i, s1)"
    "ensureInitialized prop s = Some s1"
    "resource_inv s1" "isInitialized s1" "i < MAX_ISOLATES" "i = 0 \<longleftrightarrow> cur = 1"
    "inUse (gIsolateResourceUsage s1 ! i)" "isInitialized s \<longrightarrow> s1 = s"
proof -
  from assms(1) obtain i s1 where f: "findIsolateResourceUsageStruct prop 1 cur s = Some (Some i, s1)"
    "inUse (gIsolateResourceUsage s1 ! i)"
    by (auto simp: reserves_def split: option.splits prod.splits)
  moreover from f have "ensureInitialized prop s = Some s1"
    by (auto simp: findIsolateResourceUsageStruct_def bind_eq_Some_conv split: if_splits)
  ultimately show thesis using that find_inv [OF assms(2,3), of cur] by auto
qed

lemma scan_find:
  assumes "findIsolateResourceUsageStruct prop 1 cur s = Some (Some i, s1)" "cur \<noteq> 1"
  shows "scanEntries (\<lambda>e. isolateId e = cur) (gIsolateResourceUsage s1) MAX_ISOLATES 0 = Some i
    \<and> i < MAX_ISOLATES"
proof -
  have eq: "(\<lambda>e. cur = isolateId e) = (\<lambda>e. isolateId e = cur)" by (auto simp: fun_eq_iff)
  have "scanEntries (\<lambda>e. cur = isolateId e) (gIsolateResourceUsage s1) MAX_ISOLATES 0 = Some i
    \<and> i < MAX_ISOLATES"
    using assms
    by (auto simp: findIsolateResourceUsageStruct_def bind_eq_Some_conv split: if_splits)
  then show ?thesis unfolding eq .
qed

lemma free_result:
  assumes "reserves prop cur s" "resource_inv s" "prop = 0 \<or> prop = int MAX_ISOLATES" "cur \<noteq> 1"
    and f: "findIsolateResourceUsageStruct prop 1 cur s = Some (Some i, s1)"
  shows "midpFreeReservedResources prop 1 cur s = Some
     (s1\<lparr>gResourcesAvailable := (\<lambda>t. gResourcesAvailable s1 t
            + max 0 (NON_AMS_RESERVED t - resourceUsage (gIsolateResourceUsage s1 ! i) t)),
         gIsolateResourceUsage := (gIsolateResourceUsage s1)
            [i := (gIsolateResourceUsage s1 ! i)\<lparr>inUse := False\<rparr>]\<rparr>)"
proof -
  from assms obtain s2 where "ensureInitialized prop s = Some s2" "s2 = s1"
    using reservesE [OF assms(1-3)] by (metis option.inject prod.inject)
  with scan_find [OF f] assms(4) show ?thesis
    by (auto simp: midpFreeReservedResources_def Let_def SUITE_RESERVED_def fun_eq_iff max_def)
qed

lemma free_inv:
  assumes "reserves prop cur s" "resource_inv s" "prop = 0 \<or> prop = int MAX_ISOLATES"
    and r: "midpFreeReservedResources prop 1 cur s = Some s'"
  shows "resource_inv s'"
proof -
  from assms obtain i s1 where f: "findIsolateResourceUsageStruct prop 1 cur s = Some (Some i, s1)"
    "ensureInitialized prop s = Some s1"
    "resource_inv s1" "isInitialized s1" "i < MAX_ISOLATES" "i = 0 \<longleftrightarrow> cur = 1"
    "inUse (gIsolateResourceUsage s1 ! i)"
    using reservesE [OF assms(1-3)] by metis
  show ?thesis
  proof (cases "cur = 1")
    case True
    with f r show ?thesis by (simp add: midpFreeReservedResources_def)
  next
    case False
    let ?e = "gIsolateResourceUsage s1 ! i"
    from free_result [OF assms(1-3) False f(1)] r have s': "s' = s1\<lparr>gResourcesAvailable :=
        (\<lambda>t. gResourcesAvailable s1 t + max 0 (NON_AMS_RESERVED t - resourceUsage ?e t)),
        gIsolateResourceUsage := (gIsolateResourceUsage s1)[i := ?e\<lparr>inUse := False\<rparr>]\<rparr>" by simp
    have t: "table_ok (gIsolateResourceUsage s1)" "\<And>t. 0 \<le> gResourcesAvailable s1 t"
      using f by (auto simp: resource_inv_def)
    show ?thesis unfolding s'
    proof (rule inv_transfer [OF f(3-5)])
      show "table_ok ((gIsolateResourceUsage s1)[i := ?e\<lparr>inUse := False\<rparr>])"
        using t(1) False f(5,6) by (intro table_ok_update) (auto simp: table_ok_def)
    qed (use t(2) f(6,7) False in \<open>auto simp: hold_def SUITE_RESERVED_def max_def\<close>)
  qed
qed

section \<open>Reachable states\<close>

text \<open>
  Isolates check, take and return resources, in any order and of any amount that is not negative. The flag
  says whether they have kept to what the code expects of them: to return at most what they took, and to
  release a reservation that is in use. Nothing checks either.
\<close>

inductive resource_reachable :: "int \<Rightarrow> bool \<Rightarrow> ResourceState \<Rightarrow> bool" for p where
  start: "resource_reachable p True initialResources"
| check: "resource_reachable p kept s \<Longrightarrow> midpCheckResourceLimit p 1 cur t n s = Some (ok, s')
    \<Longrightarrow> resource_reachable p kept s'"
| check_reserved: "resource_reachable p kept s \<Longrightarrow> midpCheckReservedResources p s = Some (ok, s')
    \<Longrightarrow> resource_reachable p kept s'"
| inc: "resource_reachable p kept s \<Longrightarrow> 0 \<le> delta
    \<Longrightarrow> midpIncResourceCount p 1 cur t delta s = Some (ok, s') \<Longrightarrow> resource_reachable p kept s'"
| dec: "resource_reachable p kept s \<Longrightarrow> 0 \<le> delta
    \<Longrightarrow> midpDecResourceCount p 1 cur t delta s = Some (ok, s')
    \<Longrightarrow> resource_reachable p (kept \<and> delta \<le> holding p cur t s) s'"
| allocate: "resource_reachable p kept s
    \<Longrightarrow> midpAllocateReservedResources p 1 cur s = Some (ok, s') \<Longrightarrow> resource_reachable p kept s'"
| free: "resource_reachable p kept s
    \<Longrightarrow> midpFreeReservedResources p 1 cur s = Some s' \<Longrightarrow> resource_reachable p (kept \<and> reserves p cur s) s'"




lemma resource_reachable_inv:
  assumes "resource_reachable prop kept s" "kept" "prop = 0 \<or> prop = int MAX_ISOLATES"
  shows "resource_inv s"
  using assms
proof (induction rule: resource_reachable.induct)
  case start
  then show ?case by (simp add: resource_inv_def initialResources_def)
next
  case (check kept s cur t n ok s')
  then show ?case
    using find_inv [of s "prop" cur]
    by (auto simp: midpCheckResourceLimit_def bind_eq_Some_conv)
next
  case (check_reserved kept s ok s')
  then show ?case
    using init_inv [of s "prop"] by (auto simp: midpCheckReservedResources_def bind_eq_Some_conv)
qed (blast intro: inc_inv dec_inv allocate_inv free_inv)+


section \<open>The quota of one isolate\<close>

text \<open>An isolate with an entry in use, on an initialised table.\<close>

definition quota_inv :: "int \<Rightarrow> ResourceState \<Rightarrow> bool" where
  "quota_inv cur s \<longleftrightarrow> resource_inv s \<and> isInitialized s \<and> reserves 0 cur s"

lemma quota_entry:
  assumes "quota_inv cur s"
  obtains i where "findIsolateResourceUsageStruct 0 1 cur s = Some (Some i, s)" "i < MAX_ISOLATES"
    "i = 0 \<longleftrightarrow> cur = 1" "inUse (gIsolateResourceUsage s ! i)"
    "i < length (gIsolateResourceUsage s)"
proof -
  from assms have a: "reserves 0 cur s" "resource_inv s" "isInitialized s"
    by (auto simp: quota_inv_def)
  from reservesE [OF a(1,2)] obtain i s1 where
    "findIsolateResourceUsageStruct 0 1 cur s = Some (Some i, s1)" "i < MAX_ISOLATES"
    "i = 0 \<longleftrightarrow> cur = 1" "inUse (gIsolateResourceUsage s1 ! i)" "s1 = s"
    using a(3) by metis
  moreover have "length (gIsolateResourceUsage s) = MAX_ISOLATES"
    using a(2,3) by (simp add: resource_inv_def table_ok_def)
  ultimately show thesis using that by simp
qed

lemma scanEntries_cong:
  "\<lbrakk>length es' = length es; \<And>k. k < length es \<Longrightarrow> P (es' ! k) = P (es ! k)\<rbrakk>
   \<Longrightarrow> scanEntries P es' n i = scanEntries P es n i"
proof (induction P es n i rule: scanEntries.induct)
  case (1 P es n i)
  then show ?case
    by (subst scanEntries.simps, subst (2) scanEntries.simps) auto
qed

lemma find_setUsage:
  assumes "isInitialized s" "findIsolateResourceUsageStruct p ams cur s = Some (idx, s)"
  shows "findIsolateResourceUsageStruct p ams cur (setUsage i t v (setAvailable t a s))
    = Some (idx, setUsage i t v (setAvailable t a s))"
proof -
  let ?es = "gIsolateResourceUsage s"
  let ?e = "?es ! i"
  have "scanEntries (\<lambda>e. cur = isolateId e)
      (?es[i := ?e\<lparr>resourceUsage := (resourceUsage ?e)(t := v)\<rparr>]) MAX_ISOLATES 0
     = scanEntries (\<lambda>e. cur = isolateId e) ?es MAX_ISOLATES 0"
    by (rule scanEntries_cong) (auto simp: nth_list_update_if)
  with assms show ?thesis
    by (auto simp: findIsolateResourceUsageStruct_def ensureInitialized_def setUsage_def
        setAvailable_def bind_eq_Some_conv split: if_splits)
qed

lemma quota_inv_setUsage:
  assumes "quota_inv cur s" "resource_inv (setUsage i t v (setAvailable t a s))"
  shows "quota_inv cur (setUsage i t v (setAvailable t a s))"
proof -
  obtain j where j: "findIsolateResourceUsageStruct 0 1 cur s = Some (Some j, s)"
    "inUse (gIsolateResourceUsage s ! j)" "j < length (gIsolateResourceUsage s)"
    using quota_entry [OF assms(1)] by metis
  have "isInitialized s" using assms(1) by (simp add: quota_inv_def)
  from find_setUsage [OF this j(1), of i t v a] j assms show ?thesis
    by (auto simp: quota_inv_def reserves_def setUsage_def setAvailable_def nth_list_update_if)
qed

lemma check_inc_agree:
  assumes "midpCheckResourceLimit p ams cur t n s = Some (ok, s1)"
  shows "\<exists>s2. midpIncResourceCount p ams cur t n s = Some (ok, s2) \<and> (\<not> ok \<longrightarrow> s2 = s1)"
proof -
  obtain idx where f: "findIsolateResourceUsageStruct p ams cur s = Some (idx, s1)"
    using assms by (auto simp: midpCheckResourceLimit_def bind_eq_Some_conv)
  show ?thesis
  proof (cases idx)
    case None
    with f assms show ?thesis by (simp add: midpCheckResourceLimit_def midpIncResourceCount_def)
  next
    case (Some i)
    with f assms have "ok \<longleftrightarrow> inUse (gIsolateResourceUsage s1 ! i)
        \<and> checkResourceLimit (cur = ams) (gIsolateResourceUsage s1 ! i) t n s1"
      by (auto simp: midpCheckResourceLimit_def Let_def)
    with f Some show ?thesis
      by (cases ok) (simp_all add: midpIncResourceCount_def checkResourceLimit_def Let_def)
  qed
qed

lemma inc_result:
  assumes "quota_inv cur s" "0 \<le> n" "midpIncResourceCount 0 1 cur t n s = Some (True, s')"
  shows "quota_inv cur s' \<and> holding 0 cur t s' = holding 0 cur t s + n"
proof -
  obtain j where j: "findIsolateResourceUsageStruct 0 1 cur s = Some (Some j, s)"
    "inUse (gIsolateResourceUsage s ! j)" "j < length (gIsolateResourceUsage s)"
    using quota_entry [OF assms(1)] by metis
  have i: "isInitialized s" "resource_inv s" using assms(1) by (auto simp: quota_inv_def)
  have s': "s' = setUsage j t (resourceUsage (gIsolateResourceUsage s ! j) t + n)
      (setAvailable t (gResourcesAvailable s t
         - fromGlobal (cur = 1) (gIsolateResourceUsage s ! j) t n) s)"
    using assms(3) j by (auto simp: midpIncResourceCount_def Let_def split: if_splits)
  have "resource_inv s'" using inc_inv [OF i(2) _ assms(2,3)] by simp
  with quota_inv_setUsage [OF assms(1)] s' have "quota_inv cur s'" by simp
  moreover have "holding 0 cur t s' = holding 0 cur t s + n"
    unfolding s' using find_setUsage [OF i(1) j(1)] j
    by (simp add: holding_def) (simp add: setUsage_def setAvailable_def)
  ultimately show ?thesis by simp
qed

lemma dec_result:
  assumes "quota_inv cur s" "0 \<le> n" "n \<le> holding 0 cur t s"
  shows "\<exists>s'. midpDecResourceCount 0 1 cur t n s = Some (True, s') \<and> quota_inv cur s'
    \<and> holding 0 cur t s' = holding 0 cur t s - n"
proof -
  obtain j where j: "findIsolateResourceUsageStruct 0 1 cur s = Some (Some j, s)"
    "inUse (gIsolateResourceUsage s ! j)" "j < length (gIsolateResourceUsage s)"
    using quota_entry [OF assms(1)] by metis
  have i: "isInitialized s" "resource_inv s" using assms(1) by (auto simp: quota_inv_def)
  let ?s' = "setUsage j t (resourceUsage (gIsolateResourceUsage s ! j) t - n)
      (setAvailable t (gResourcesAvailable s t
         + toGlobal (cur = 1) (gIsolateResourceUsage s ! j) t n) s)"
  have s': "midpDecResourceCount 0 1 cur t n s = Some (True, ?s')"
    using j by (simp add: midpDecResourceCount_def Let_def)
  have "resource_inv ?s'" using dec_inv [OF i(2) _ assms(2,3) s'] by simp
  with quota_inv_setUsage [OF assms(1)] have "quota_inv cur ?s'" by simp
  moreover have "holding 0 cur t ?s' = holding 0 cur t s - n"
    using find_setUsage [OF i(1) j(1)] j
    by (simp add: holding_def) (simp add: setUsage_def setAvailable_def)
  ultimately show ?thesis using s' by blast
qed

lemma holding_bounds:
  assumes "quota_inv cur s"
  shows "0 \<le> holding 0 cur t s \<and> holding 0 cur t s \<le> SUITE_LIMIT (cur = 1) t"
proof -
  obtain j where j: "findIsolateResourceUsageStruct 0 1 cur s = Some (Some j, s)"
    "j < MAX_ISOLATES" "j = 0 \<longleftrightarrow> cur = 1"
    using quota_entry [OF assms(1)] by metis
  with usage_bounds [of s j t] assms show ?thesis by (simp add: holding_def quota_inv_def)
qed

lemma check_total:
  assumes "quota_inv cur s"
  shows "\<exists>b. midpCheckResourceLimit 0 1 cur t n s = Some (b, s)"
proof -
  obtain j where "findIsolateResourceUsageStruct 0 1 cur s = Some (Some j, s)"
    using quota_entry [OF assms(1)] by metis
  then show ?thesis by (simp add: midpCheckResourceLimit_def)
qed

interpretation fq: handle_quota "midpCheckResourceLimit 0 1 cur t 1"
  "midpIncResourceCount 0 1 cur t 1" "midpDecResourceCount 0 1 cur t 1" "holding 0 cur t"
  "SUITE_LIMIT (cur = 1) t" "quota_inv cur" for cur t
proof unfold_locales
  fix s assume q: "quota_inv cur s"
  then show "\<exists>b. midpCheckResourceLimit 0 1 cur t 1 s = Some (b, s)" by (rule check_total)
  show "0 \<le> holding 0 cur t s \<and> holding 0 cur t s \<le> SUITE_LIMIT (cur = 1) t"
    using q by (rule holding_bounds)
  {
    assume "midpCheckResourceLimit 0 1 cur t 1 s = Some (True, s)"
    with check_inc_agree obtain s' where "midpIncResourceCount 0 1 cur t 1 s = Some (True, s')" by blast
    with inc_result [OF q _ this] show "\<exists>s'. midpIncResourceCount 0 1 cur t 1 s = Some (True, s')
      \<and> quota_inv cur s' \<and> holding 0 cur t s' = holding 0 cur t s + 1" by simp
  }
  {
    assume "midpCheckResourceLimit 0 1 cur t 1 s = Some (False, s)"
    with check_inc_agree show "midpIncResourceCount 0 1 cur t 1 s = Some (False, s)" by blast
  }
  {
    assume "0 < holding 0 cur t s"
    with dec_result [OF q, of 1 t] show "\<exists>s'. midpDecResourceCount 0 1 cur t 1 s = Some (True, s')
      \<and> quota_inv cur s' \<and> holding 0 cur t s' = holding 0 cur t s - 1" by simp
  }
qed

section \<open>Properties\<close>

definition startedResources :: ResourceState where
  "startedResources = the (initResourceLimit 0 initialResources)"

lemma started_facts:
  "midpCheckReservedResources 0 initialResources = Some (True, startedResources)"
  "quota_inv 1 startedResources" "resource_reachable 0 True startedResources"
  "holding 0 1 t startedResources = 0" "isInitialized startedResources"
proof -
  show c: "midpCheckReservedResources 0 initialResources = Some (True, startedResources)"
    by (simp add: midpCheckReservedResources_def startedResources_def ensureInitialized_def
        initialResources_def initResourceLimit_def Let_def MAX_ISOLATES_def rscTypes_def)
  show r: "resource_reachable 0 True startedResources"
    by (rule resource_reachable.check_reserved [OF resource_reachable.start c])
  show i: "isInitialized startedResources"
    by (simp add: startedResources_def initResourceLimit_def Let_def initialResources_def
        MAX_ISOLATES_def)
  have f: "findIsolateResourceUsageStruct 0 1 1 startedResources = Some (Some 0, startedResources)"
    using i by (simp add: findIsolateResourceUsageStruct_def ensureInitialized_def)
  then show "quota_inv 1 startedResources" using resource_reachable_inv [OF r] i
    by (simp add: quota_inv_def reserves_def)
      (simp add: startedResources_def initResourceLimit_def Let_def MAX_ISOLATES_def)
  show "holding 0 1 t startedResources = 0" using f
    by (simp add: holding_def)
      (simp add: startedResources_def initResourceLimit_def Let_def MAX_ISOLATES_def)
qed

lemma started_check: "midpCheckResourceLimit 0 1 1 FILE 1 startedResources = Some (True, startedResources)"
  using started_facts(5)
  by (simp add: midpCheckResourceLimit_def findIsolateResourceUsageStruct_def ensureInitialized_def checkResourceLimit_def)
    (simp add: startedResources_def initResourceLimit_def Let_def MAX_ISOLATES_def initialResources_def SUITE_LIMIT_def AMS_LIMIT_def
      fromGlobal_def)



text \<open>
  C7. A reservation is honoured: an isolate whose entry is in use gets any request that
  keeps it within its reservation, whatever the other isolates have taken.
\<close>

theorem reservation_honoured:
  assumes "quota_inv cur s" "0 \<le> n" "holding 0 cur t s + n \<le> SUITE_RESERVED (cur = 1) t"
  shows "\<exists>s'. midpIncResourceCount 0 1 cur t n s = Some (True, s') \<and> quota_inv cur s'
    \<and> holding 0 cur t s' = holding 0 cur t s + n"
proof -
  obtain j where j: "findIsolateResourceUsageStruct 0 1 cur s = Some (Some j, s)"
    "inUse (gIsolateResourceUsage s ! j)"
    using quota_entry [OF assms(1)] by metis
  have "0 \<le> gResourcesAvailable s t"
    using assms(1) by (auto simp: quota_inv_def resource_inv_def)
  with j assms(2,3) reserved_limit [of "cur = 1" t]
  have "\<exists>s'. midpIncResourceCount 0 1 cur t n s = Some (True, s')"
    by (auto simp: midpIncResourceCount_def Let_def holding_def fromGlobal_def)
  with inc_result [OF assms(1,2)] show ?thesis by blast
qed

theorem reservation_honoured_witness:
  "\<exists>s'. midpIncResourceCount 0 1 1 FILE 6 startedResources = Some (True, s')
     \<and> holding 0 1 FILE s' = 6"
  using reservation_honoured [OF started_facts(2), of 6 FILE] started_facts(4) [of FILE]
  by (auto simp: SUITE_RESERVED_def)

text \<open>
  Checking predicts taking: for every state, isolate and request,
  \<^verbatim>\<open>midpIncResourceCount\<close> grants exactly what \<^verbatim>\<open>midpCheckResourceLimit\<close> allows, and a refused
  request leaves the accounts as the check left them.
\<close>

theorem check_predicts_inc:
  assumes "midpCheckResourceLimit p ams cur t n s = Some (ok, s1)"
  shows "\<exists>s2. midpIncResourceCount p ams cur t n s = Some (ok, s2) \<and> (\<not> ok \<longrightarrow> s2 = s1)"
  using assms by (rule check_inc_agree)

theorem check_predicts_inc_witness:
  "\<exists>s2. midpIncResourceCount 0 1 1 TCP_CLI 33 startedResources = Some (False, s2)"
proof -
  have "midpCheckResourceLimit 0 1 1 TCP_CLI 33 startedResources = Some (False, startedResources)"
    using started_facts(5)
    by (simp add: midpCheckResourceLimit_def findIsolateResourceUsageStruct_def
        ensureInitialized_def checkResourceLimit_def)
      (simp add: startedResources_def initResourceLimit_def Let_def MAX_ISOLATES_def
        SUITE_LIMIT_def AMS_LIMIT_def)
  from check_predicts_inc [OF this] show ?thesis by blast
qed

text \<open>
  Releasing a reservation twice corrupts the pool: the entry keeps its isolate
  identifier and the second release does not look at \<^verbatim>\<open>inUse\<close>, so the unused part of the
  reservation is returned to the pool a second time.
\<close>

theorem double_free_inflates_pool:
  assumes "quota_inv cur s" "cur \<noteq> 1"
  shows "\<exists>s1 s2. midpFreeReservedResources 0 1 cur s = Some s1
    \<and> midpFreeReservedResources 0 1 cur s1 = Some s2
    \<and> gResourcesAvailable s2 t = gResourcesAvailable s t
         + 2 * max 0 (NON_AMS_RESERVED t - holding 0 cur t s)"
proof -
  obtain i where f: "findIsolateResourceUsageStruct 0 1 cur s = Some (Some i, s)"
    "i < length (gIsolateResourceUsage s)"
    using quota_entry [OF assms(1)] by metis
  let ?e = "gIsolateResourceUsage s ! i"
  let ?es = "(gIsolateResourceUsage s)[i := ?e\<lparr>inUse := False\<rparr>]"
  let ?av = "\<lambda>t. gResourcesAvailable s t + max 0 (NON_AMS_RESERVED t - resourceUsage ?e t)"
  let ?s1 = "s\<lparr>gResourcesAvailable := ?av, gIsolateResourceUsage := ?es\<rparr>"
  have a: "resource_inv s" "isInitialized s" "reserves 0 cur s"
    using assms(1) by (auto simp: quota_inv_def)
  have s1: "midpFreeReservedResources 0 1 cur s = Some ?s1"
    using free_result [OF a(3,1) _ assms(2) f(1)] by simp
  have "scanEntries (\<lambda>e. isolateId e = cur) ?es MAX_ISOLATES 0
      = scanEntries (\<lambda>e. isolateId e = cur) (gIsolateResourceUsage s) MAX_ISOLATES 0"
    by (rule scanEntries_cong) (auto simp: nth_list_update_if)
  then have "midpFreeReservedResources 0 1 cur ?s1 = Some (?s1\<lparr>gIsolateResourceUsage := ?es,
      gResourcesAvailable := (\<lambda>t. ?av t + max 0 (NON_AMS_RESERVED t - resourceUsage ?e t))\<rparr>)"
    using scan_find [OF f(1) assms(2)] a(2) f(2) assms(2)
    by (simp add: midpFreeReservedResources_def ensureInitialized_def SUITE_RESERVED_def
        Let_def fun_eq_iff max_def)
  with s1 f(1) show ?thesis by (simp add: holding_def)
qed

lemma allocated_facts:
  "\<exists>s. midpAllocateReservedResources 0 1 2 startedResources = Some (True, s)
    \<and> quota_inv 2 s \<and> holding 0 2 FILE s = 0 \<and> gResourcesAvailable s FILE = 20"
proof -
  obtain s where s: "midpAllocateReservedResources 0 1 2 startedResources = Some (True, s)"
    "findIsolateResourceUsageStruct 0 1 2 s = Some (Some 1, s)"
    "inUse (gIsolateResourceUsage s ! 1)" "resourceUsage (gIsolateResourceUsage s ! 1) FILE = 0"
    "gResourcesAvailable s FILE = 20" "isInitialized s"
    by (simp add: midpAllocateReservedResources_def ensureInitialized_def
        startedResources_def initResourceLimit_def Let_def MAX_ISOLATES_def initialResources_def
        scanEntries.simps SUITE_RESERVED_def rscTypes_def findIsolateResourceUsageStruct_def)
  have "resource_inv s"
    using allocate_inv [OF _ _ s(1)] started_facts(2) by (auto simp: quota_inv_def)
  with s show ?thesis by (auto simp: quota_inv_def reserves_def holding_def)
qed

theorem double_free_inflates_pool_witness:
  "\<exists>s s1 s2. midpAllocateReservedResources 0 1 2 startedResources = Some (True, s)
     \<and> midpFreeReservedResources 0 1 2 s = Some s1 \<and> midpFreeReservedResources 0 1 2 s1 = Some s2
     \<and> gResourcesAvailable s2 FILE = 28"
proof -
  obtain s where s: "midpAllocateReservedResources 0 1 2 startedResources = Some (True, s)"
    "quota_inv 2 s" "holding 0 2 FILE s = 0" "gResourcesAvailable s FILE = 20"
    using allocated_facts by blast
  with double_free_inflates_pool [OF s(2), of FILE] show ?thesis by auto
qed

end
