(* ===== verification/SuspendResume.thy ===== *)
theory SuspendResume
  imports EventQueue
begin

text \<open>
  Suspending and resuming the Java stack,
  \<^verbatim>\<open>midp/src/core/suspend_resume/sr_main/default/native/suspend_resume.c\<close>: the state of the
  stack, the list of resources with their suspend and resume routines, and the events that
  tell the application manager. The routines of resources other than the VM are a parameter:
  \<^verbatim>\<open>ok p r\<close> says whether routine \<^verbatim>\<open>p\<close> succeeds on resource \<^verbatim>\<open>r\<close>. \<open>None\<close> is a NULL
  dereference.
\<close>

section \<open>Data\<close>

datatype SRState = SR_SUSPENDING | SR_SUSPENDED | SR_RESUMING | SR_ACTIVE | SR_INVALID

datatype Resource = VmResource | OtherResource nat

datatype SRProc = Suspend_vm | Resume_vm | OtherProc nat

type_synonym proc_oracle = "nat \<Rightarrow> Resource \<Rightarrow> bool"

record SuspendableResource =
  rstate :: SRState
  resource :: Resource
  suspend :: "SRProc option"
  resume :: "SRProc option"

abbreviation SR_EMPTY_PROC :: "SRProc option" where
  "SR_EMPTY_PROC \<equiv> None"

text \<open>
  Beside the module's variables: the initialisation level, the AMS isolate, the event
  queues, the log of routines called, and the clock of the resume-request port.
\<close>

record SRSys =
  sr_state :: SRState
  sr_resources :: "SuspendableResource list"
  vmIsSuspended :: bool
  allMidletsKilled :: bool
  midpInitLevel :: int
  amsIsolateId :: int
  eventSys :: EventSys
  procLog :: "(SRProc \<times> Resource) list"
  lastSuspendStart :: int
  sr_resume_timeout :: int

definition VM_LEVEL :: int where
  "VM_LEVEL = 4"

section \<open>The resources\<close>

fun callProc :: "proc_oracle \<Rightarrow> SRProc \<Rightarrow> Resource \<Rightarrow> SRSys \<Rightarrow> bool \<times> SRSys" where
  "callProc ok Suspend_vm r s =
     (True, s\<lparr>vmIsSuspended := True, procLog := procLog s @ [(Suspend_vm, r)]\<rparr>)"
| "callProc ok Resume_vm r s =
     (True, s\<lparr>vmIsSuspended := False, procLog := procLog s @ [(Resume_vm, r)]\<rparr>)"
| "callProc ok (OtherProc p) r s = (ok p r, s\<lparr>procLog := procLog s @ [(OtherProc p, r)]\<rparr>)"

definition SWITCH_STATE ::
  "proc_oracle \<Rightarrow> SuspendableResource \<Rightarrow> SRState \<Rightarrow> SRProc option \<Rightarrow> SRState \<Rightarrow> SRSys
   \<Rightarrow> SuspendableResource \<times> SRSys" where
  "SWITCH_STATE ok rs fromState proc toState s =
     (if rstate rs = fromState then
        (case proc of
           None \<Rightarrow> (rs\<lparr>rstate := toState\<rparr>, s)
         | Some p \<Rightarrow>
             let (b, s') = callProc ok p (resource rs) s in
             if b then (rs\<lparr>rstate := toState\<rparr>, s') else (rs\<lparr>rstate := SR_INVALID\<rparr>, s'))
      else (rs, s))"

fun suspendLoop ::
  "proc_oracle \<Rightarrow> SuspendableResource list \<Rightarrow> SRSys \<Rightarrow> SuspendableResource list \<times> SRSys" where
  "suspendLoop ok [] s = ([], s)"
| "suspendLoop ok (cur # rest) s =
     (let (cur', s1) = SWITCH_STATE ok cur SR_ACTIVE (suspend cur) SR_SUSPENDED s;
          (rest', s2) = suspendLoop ok rest s1
      in (cur' # rest', s2))"

definition suspend_resources :: "proc_oracle \<Rightarrow> SRSys \<Rightarrow> SRSys" where
  "suspend_resources ok s =
     (let (rs, s1) = suspendLoop ok (sr_resources s) s
      in s1\<lparr>sr_resources := rs, sr_state := SR_SUSPENDED\<rparr>)"

text \<open>
  The loop of \<^verbatim>\<open>resume_resources\<close>; \<^verbatim>\<open>kept\<close> are the records before \<^verbatim>\<open>cur\<close>, so \<^verbatim>\<open>prev\<close> is NULL
  when it is empty. After \<^verbatim>\<open>DESTROY_RESOURCE\<close> the code sets \<^verbatim>\<open>cur = prev\<close> and then reads
  \<^verbatim>\<open>cur->next\<close>.
\<close>

fun resumeLoop ::
  "proc_oracle \<Rightarrow> SuspendableResource list \<Rightarrow> SuspendableResource list \<Rightarrow> SRSys
   \<Rightarrow> (SuspendableResource list \<times> SRSys) option" where
  "resumeLoop ok kept [] s = Some (kept, s)"
| "resumeLoop ok kept (cur # rest) s =
     (let (cur', s1) = SWITCH_STATE ok cur SR_SUSPENDED (resume cur) SR_ACTIVE s in
      if rstate cur' = SR_INVALID then
        if kept = [] then None else resumeLoop ok kept rest s1
      else resumeLoop ok (kept @ [cur']) rest s1)"

definition resume_resources :: "proc_oracle \<Rightarrow> SRSys \<Rightarrow> SRSys option" where
  "resume_resources ok s =
     do { (rs, s1) \<leftarrow> resumeLoop ok [] (sr_resources s) s; Some (s1\<lparr>sr_resources := rs\<rparr>) }"

text \<open>\<^verbatim>\<open>mem\<close>: whether \<^verbatim>\<open>midpMalloc\<close> succeeds; its result is not checked.\<close>

definition sr_registerResource ::
  "bool \<Rightarrow> Resource \<Rightarrow> SRProc option \<Rightarrow> SRProc option \<Rightarrow> SRSys \<Rightarrow> SRSys option" where
  "sr_registerResource mem res suspendProc resumeProc s =
     (if \<not> mem then None
      else Some (s\<lparr>sr_resources :=
             \<lparr>rstate = SR_ACTIVE, resource = res, suspend = suspendProc, resume = resumeProc\<rparr>
             # sr_resources s\<rparr>))"

fun destroyFirst :: "Resource \<Rightarrow> SuspendableResource list \<Rightarrow> SuspendableResource list" where
  "destroyFirst res [] = []"
| "destroyFirst res (cur # rest) =
     (if resource cur = res then rest else cur # destroyFirst res rest)"

definition sr_unregisterResource :: "Resource \<Rightarrow> SRSys \<Rightarrow> SRSys" where
  "sr_unregisterResource res s = s\<lparr>sr_resources := destroyFirst res (sr_resources s)\<rparr>"

section \<open>The stack\<close>

definition sr_initSystem :: "bool \<Rightarrow> SRSys \<Rightarrow> SRSys option" where
  "sr_initSystem mem s =
     (if sr_state s = SR_INVALID then
        do { s1 \<leftarrow> sr_registerResource mem VmResource (Some Suspend_vm) (Some Resume_vm) s;
             Some (s1\<lparr>sr_state := SR_ACTIVE\<rparr>) }
      else Some s)"

definition midpStoreEventAndSignalAms :: "MidpEvent \<Rightarrow> SRSys \<Rightarrow> SRSys option" where
  "midpStoreEventAndSignalAms evt s =
     do { es \<leftarrow> StoreMIDPEventInVmThread evt (amsIsolateId s) (eventSys s);
          Some (s\<lparr>eventSys := es\<rparr>) }"

definition midp_suspend :: "bool \<Rightarrow> proc_oracle \<Rightarrow> SRSys \<Rightarrow> SRSys option" where
  "midp_suspend mem ok s =
     do { s0 \<leftarrow> sr_initSystem mem s;
          (case sr_state s0 of
             SR_ACTIVE \<Rightarrow>
               (let s1 = s0\<lparr>sr_state := SR_SUSPENDING\<rparr> in
                if midpInitLevel s1 \<ge> VM_LEVEL
                then midpStoreEventAndSignalAms (MIDP_EVENT_INITIALIZE\<lparr>evtype := PAUSE_ALL_EVENT\<rparr>) s1
                else Some (suspend_resources ok s1))
           | SR_RESUMING \<Rightarrow> Some (s0\<lparr>sr_state := SR_SUSPENDING\<rparr>)
           | _ \<Rightarrow> Some s0) }"

definition resume_java :: "SRSys \<Rightarrow> SRSys option" where
  "resume_java s =
     do { s1 \<leftarrow> (if midpInitLevel s \<ge> VM_LEVEL
                then midpStoreEventAndSignalAms (MIDP_EVENT_INITIALIZE\<lparr>evtype := ACTIVATE_ALL_EVENT\<rparr>) s
                else Some s);
          Some (s1\<lparr>sr_state := SR_ACTIVE\<rparr>) }"

definition midp_resume :: "proc_oracle \<Rightarrow> SRSys \<Rightarrow> SRSys option" where
  "midp_resume ok s =
     (case sr_state s of
        SR_SUSPENDED \<Rightarrow> do { s1 \<leftarrow> resume_resources ok s; resume_java s1 }
      | SR_SUSPENDING \<Rightarrow> Some (s\<lparr>sr_state := SR_RESUMING\<rparr>)
      | _ \<Rightarrow> Some s)"

definition suspended0 :: "proc_oracle \<Rightarrow> bool \<Rightarrow> SRSys \<Rightarrow> SRSys option" where
  "suspended0 ok killed s =
     (let s1 = s\<lparr>allMidletsKilled := killed\<rparr> in
      if sr_state s1 = SR_SUSPENDING then Some (suspend_resources ok s1) else resume_java s1)"

definition midletsKilledQuery :: "SRSys \<Rightarrow> bool \<times> SRSys" where
  "midletsKilledQuery s = (allMidletsKilled s, s\<lparr>allMidletsKilled := False\<rparr>)"

definition sr_repairSystem :: "proc_oracle \<Rightarrow> SRSys \<Rightarrow> SRSys" where
  "sr_repairSystem ok s =
     (case sr_state s of
        SR_RESUMING \<Rightarrow> s\<lparr>sr_state := SR_ACTIVE\<rparr>
      | SR_SUSPENDING \<Rightarrow> (suspend_resources ok s)\<lparr>allMidletsKilled := True\<rparr>
      | _ \<Rightarrow> s)"

definition sr_finalizeSystem :: "SRSys \<Rightarrow> SRSys" where
  "sr_finalizeSystem s = s\<lparr>sr_resources := [], sr_state := SR_INVALID\<rparr>"

section \<open>Polling for a resume request\<close>

definition DEFAULT_TIMEOUT :: int where
  "DEFAULT_TIMEOUT = 5000"

text \<open>\<^verbatim>\<open>t1\<close>, \<^verbatim>\<open>t2\<close>: the clock at the two readings.\<close>

definition midp_checkResumeRequest :: "int \<Rightarrow> int \<Rightarrow> SRSys \<Rightarrow> bool \<times> SRSys" where
  "midp_checkResumeRequest t1 t2 s =
     (let s1 = (if lastSuspendStart s = -1 then s\<lparr>lastSuspendStart := t1\<rparr> else s);
          time_passed = t2 - lastSuspendStart s1 in
      if time_passed \<ge> sr_resume_timeout s1
      then (True, s1\<lparr>lastSuspendStart := -1, sr_resume_timeout := DEFAULT_TIMEOUT\<rparr>)
      else (False, s1))"

definition midp_checkAndResume ::
  "proc_oracle \<Rightarrow> int \<times> int \<Rightarrow> SRSys \<Rightarrow> (bool \<times> SRSys) option" where
  "midp_checkAndResume ok t s =
     (if sr_state s = SR_SUSPENDED \<or> sr_state s = SR_SUSPENDING then
        let (req, s1) = midp_checkResumeRequest (fst t) (snd t) s in
        if req then do { s2 \<leftarrow> midp_resume ok s1; Some (True, s2) } else Some (False, s1)
      else Some (False, s))"

definition isResumePending :: "proc_oracle \<Rightarrow> int \<times> int \<Rightarrow> SRSys \<Rightarrow> (bool \<times> SRSys) option" where
  "isResumePending ok t s =
     do { (_, s1) \<leftarrow> midp_checkAndResume ok t s; Some (sr_state s1 = SR_RESUMING, s1) }"



section \<open>What the loops call\<close>

text \<open>The routines a loop calls, in order, and what they do to the VM's flag.\<close>

definition suspendCalls :: "SuspendableResource list \<Rightarrow> (SRProc \<times> Resource) list" where
  "suspendCalls rs =
     List.map_filter (\<lambda>r. if rstate r = SR_ACTIVE then map_option (\<lambda>p. (p, resource r)) (suspend r)
                     else None) rs"

definition resumeCalls :: "SuspendableResource list \<Rightarrow> (SRProc \<times> Resource) list" where
  "resumeCalls rs =
     List.map_filter (\<lambda>r. if rstate r = SR_SUSPENDED then map_option (\<lambda>p. (p, resource r)) (resume r)
                     else None) rs"

fun vmAfter :: "(SRProc \<times> Resource) list \<Rightarrow> bool \<Rightarrow> bool" where
  "vmAfter [] b = b"
| "vmAfter ((p, r) # ps) b =
     vmAfter ps (case p of Suspend_vm \<Rightarrow> True | Resume_vm \<Rightarrow> False | OtherProc _ \<Rightarrow> b)"

definition procOk :: "proc_oracle \<Rightarrow> SRProc option \<Rightarrow> Resource \<Rightarrow> bool" where
  "procOk ok p r = (case p of Some (OtherProc n) \<Rightarrow> ok n r | _ \<Rightarrow> True)"

definition afterSuspend :: "proc_oracle \<Rightarrow> SuspendableResource \<Rightarrow> SuspendableResource" where
  "afterSuspend ok r =
     (if rstate r = SR_ACTIVE
      then r\<lparr>rstate := if procOk ok (suspend r) (resource r) then SR_SUSPENDED else SR_INVALID\<rparr>
      else r)"

definition afterResume :: "proc_oracle \<Rightarrow> SuspendableResource \<Rightarrow> SuspendableResource" where
  "afterResume ok r =
     (if rstate r = SR_SUSPENDED
      then r\<lparr>rstate := if procOk ok (resume r) (resource r) then SR_ACTIVE else SR_INVALID\<rparr>
      else r)"

lemma callProc_eq:
  "callProc ok p r s = (procOk ok (Some p) r,
     s\<lparr>vmIsSuspended := vmAfter [(p, r)] (vmIsSuspended s), procLog := procLog s @ [(p, r)]\<rparr>)"
  by (cases p) (auto simp: procOk_def)

lemma suspendLoop_eq:
  "suspendLoop ok rs s = (map (afterSuspend ok) rs,
     s\<lparr>vmIsSuspended := vmAfter (suspendCalls rs) (vmIsSuspended s),
       procLog := procLog s @ suspendCalls rs\<rparr>)"
proof (induction rs arbitrary: s)
  case Nil
  then show ?case by (simp add: suspendCalls_def)
next
  case (Cons r rs)
  then show ?case
    by (auto simp: suspendCalls_def SWITCH_STATE_def callProc_eq afterSuspend_def Let_def
        procOk_def split: option.splits)
qed

lemma suspend_resources_eq:
  "suspend_resources ok s = s\<lparr>sr_resources := map (afterSuspend ok) (sr_resources s),
     sr_state := SR_SUSPENDED,
     vmIsSuspended := vmAfter (suspendCalls (sr_resources s)) (vmIsSuspended s),
     procLog := procLog s @ suspendCalls (sr_resources s)\<rparr>"
  by (simp add: suspend_resources_def suspendLoop_eq)

definition survivors :: "proc_oracle \<Rightarrow> SuspendableResource list \<Rightarrow> SuspendableResource list" where
  "survivors ok rs = filter (\<lambda>r. rstate r \<noteq> SR_INVALID) (map (afterResume ok) rs)"

lemma resumeLoop_eq:
  "kept \<noteq> [] \<or> rs = [] \<or> rstate (afterResume ok (hd rs)) \<noteq> SR_INVALID \<Longrightarrow>
   resumeLoop ok kept rs s = Some (kept @ survivors ok rs,
     s\<lparr>vmIsSuspended := vmAfter (resumeCalls rs) (vmIsSuspended s),
       procLog := procLog s @ resumeCalls rs\<rparr>)"
proof (induction rs arbitrary: s kept)
  case Nil
  then show ?case by (simp add: resumeCalls_def survivors_def)
next
  case (Cons r rs)
  have sw: "SWITCH_STATE ok r SR_SUSPENDED (resume r) SR_ACTIVE s = (afterResume ok r,
      s\<lparr>vmIsSuspended := vmAfter (resumeCalls [r]) (vmIsSuspended s),
        procLog := procLog s @ resumeCalls [r]\<rparr>)"
    by (auto simp: resumeCalls_def SWITCH_STATE_def callProc_eq afterResume_def Let_def
        procOk_def split: option.splits)
  have app: "resumeCalls (r # rs) = resumeCalls [r] @ resumeCalls rs"
    by (simp add: resumeCalls_def List.map_filter_def)
  have vm: "vmAfter (xs @ ys) b = vmAfter ys (vmAfter xs b)" for xs ys b
    by (induction xs arbitrary: b) auto
  show ?case
  proof (cases "rstate (afterResume ok r) = SR_INVALID")
    case True
    with Cons.prems have "kept \<noteq> []" by auto
    with True Cons.IH [of kept] show ?thesis by (simp add: sw app vm survivors_def)
  next
    case False
    with Cons.IH [of "kept @ [afterResume ok r]"] show ?thesis
      by (simp add: sw app vm survivors_def)
  qed
qed

lemma resumeLoop_crash:
  "rstate (afterResume ok r) = SR_INVALID \<Longrightarrow> resumeLoop ok [] (r # rs) s = None"
  by (auto simp: SWITCH_STATE_def callProc_eq afterResume_def Let_def procOk_def
      split: option.splits if_splits prod.splits)

lemma resume_resources_eq:
  assumes "sr_resources s = [] \<or> rstate (afterResume ok (hd (sr_resources s))) \<noteq> SR_INVALID"
  shows "resume_resources ok s = Some (s\<lparr>sr_resources := survivors ok (sr_resources s),
     vmIsSuspended := vmAfter (resumeCalls (sr_resources s)) (vmIsSuspended s),
     procLog := procLog s @ resumeCalls (sr_resources s)\<rparr>)"
  using resumeLoop_eq [of "[]" "sr_resources s" ok s] assms by (auto simp: resume_resources_def)

lemma resume_resources_crash:
  "\<lbrakk>sr_resources s = r # rs; rstate (afterResume ok r) = SR_INVALID\<rbrakk> \<Longrightarrow> resume_resources ok s = None"
  using resumeLoop_crash [of ok r rs s] by (simp add: resume_resources_def)

section \<open>Telling the application manager\<close>

definition amsQueue :: "SRSys \<Rightarrow> EventQueue \<Rightarrow> bool" where
  "amsQueue s q \<longleftrightarrow> event_inv (eventSys s) \<and> valid_isolate (eventSys s) (amsIsolateId s)
     \<and> queueAt (eventSys s) (nat (amsIsolateId s)) = Some q"

lemma signal_ams_any:
  assumes "amsQueue s q"
  shows "\<exists>es q'. midpStoreEventAndSignalAms e s = Some (s\<lparr>eventSys := es\<rparr>)
    \<and> amsQueue (s\<lparr>eventSys := es\<rparr>) q'
    \<and> pending q' = (if length (pending q) < MAX_EVENTS then pending q @ [e] else pending q)"
proof -
  have inv: "event_inv (eventSys s)" and v: "valid_isolate (eventSys s) (amsIsolateId s)"
    and q: "queueAt (eventSys s) (getIsolateEventQueue (eventSys s) (amsIsolateId s)) = Some q"
    using assms(1) by (auto simp: amsQueue_def)
  from store_effect [OF inv q, of e] v obtain es q' where
    st: "StoreMIDPEventInVmThreadImp e (amsIsolateId s) (eventSys s) = Some es"
      "queueAt es (nat (amsIsolateId s)) = Some q'"
      "pending q' = (if length (pending q) < MAX_EVENTS then pending q @ [e] else pending q)"
      "maxIsolates es = maxIsolates (eventSys s)"
    by auto
  have *: "StoreMIDPEventInVmThread e (amsIsolateId s) (eventSys s) = Some es"
    using st(1) v by (auto simp: StoreMIDPEventInVmThread_def valid_isolate_def)
  have "event_inv es" using StoreMIDPEvent_inv [OF inv *] v by blast
  with * st v show ?thesis
    by (auto simp: midpStoreEventAndSignalAms_def amsQueue_def valid_isolate_def)
qed

lemma signal_ams:
  assumes "amsQueue s q" "length (pending q) < MAX_EVENTS"
  shows "\<exists>es q'. midpStoreEventAndSignalAms e s = Some (s\<lparr>eventSys := es\<rparr>)
    \<and> amsQueue (s\<lparr>eventSys := es\<rparr>) q' \<and> pending q' = pending q @ [e]"
  using signal_ams_any [OF assms(1), of e] assms(2) by simp

section \<open>The VM's flag\<close>

definition vmRecords :: "SuspendableResource list \<Rightarrow> SuspendableResource list" where
  "vmRecords rs = filter (\<lambda>r. resource r = VmResource) rs"

definition foreignProcs :: "SuspendableResource \<Rightarrow> bool" where
  "foreignProcs r \<longleftrightarrow> suspend r \<notin> {Some Suspend_vm, Some Resume_vm}
     \<and> resume r \<notin> {Some Suspend_vm, Some Resume_vm}"

definition vmRecord :: "SRState \<Rightarrow> SuspendableResource" where
  "vmRecord st = \<lparr>rstate = st, resource = VmResource, suspend = Some Suspend_vm,
     resume = Some Resume_vm\<rparr>"

text \<open>
  While the system is initialised the VM is registered once, its record agrees with the
  state of the stack, and the VM is stopped exactly in state \<^verbatim>\<open>SR_SUSPENDED\<close>.
\<close>

definition sr_inv :: "SRSys \<Rightarrow> bool" where
  "sr_inv s \<longleftrightarrow> (\<forall>r \<in> set (sr_resources s). resource r \<noteq> VmResource \<longrightarrow> foreignProcs r)
     \<and> (vmIsSuspended s \<longleftrightarrow> sr_state s = SR_SUSPENDED)
     \<and> vmRecords (sr_resources s) =
         (if sr_state s = SR_INVALID then []
          else [vmRecord (if sr_state s = SR_SUSPENDED then SR_SUSPENDED else SR_ACTIVE)])"





lemma after_frame [simp]:
  "resource (afterSuspend ok r) = resource r" "resource (afterResume ok r) = resource r"
  "foreignProcs (afterSuspend ok r) = foreignProcs r" "foreignProcs (afterResume ok r) = foreignProcs r"
  by (auto simp: afterSuspend_def afterResume_def foreignProcs_def)








lemma sr_inv_frame [simp]:
  "sr_inv (s\<lparr>eventSys := es\<rparr>) = sr_inv s"
  "sr_inv (s\<lparr>allMidletsKilled := b\<rparr>) = sr_inv s"
  "sr_inv (s\<lparr>lastSuspendStart := i\<rparr>) = sr_inv s"
  "sr_inv (s\<lparr>sr_resume_timeout := i\<rparr>) = sr_inv s"
  "sr_inv (s\<lparr>midpInitLevel := i\<rparr>) = sr_inv s"
  "sr_inv (s\<lparr>amsIsolateId := i\<rparr>) = sr_inv s"
  by (simp_all add: sr_inv_def)


section \<open>Reachable states\<close>

text \<open>
  The operations come in any order, with any outcome of the routines; the stack is started and ended any
  number of times, and the levels of initialisation, the application manager and the event queues change in
  between. Resources other than the VM come and go with routines of their own. The flag says whether the
  callers have kept two rules that nothing checks: the Java side answers while a suspension is pending, or at
  least not in \<^verbatim>\<open>SR_SUSPENDED\<close> or \<^verbatim>\<open>SR_INVALID\<close>, and the stack is not ended while it is suspended.
\<close>

inductive sr_step :: "SRSys \<Rightarrow> bool \<Rightarrow> SRSys \<Rightarrow> bool" where
  sr_init: "sr_initSystem mem s = Some s' \<Longrightarrow> sr_step s True s'"
| sr_suspend: "midp_suspend mem ok s = Some s' \<Longrightarrow> sr_step s True s'"
| sr_suspended0: "suspended0 ok k s = Some s'
    \<Longrightarrow> sr_step s (sr_state s \<notin> {SR_SUSPENDED, SR_INVALID}) s'"
| sr_resume: "midp_resume ok s = Some s' \<Longrightarrow> sr_step s True s'"
| sr_check: "midp_checkAndResume ok t s = Some (b, s') \<Longrightarrow> sr_step s True s'"
| sr_repair: "sr_step s True (sr_repairSystem ok s)"
| sr_query: "sr_step s True (snd (midletsKilledQuery s))"
| sr_register: "p \<notin> {Some Suspend_vm, Some Resume_vm} \<Longrightarrow> q \<notin> {Some Suspend_vm, Some Resume_vm}
    \<Longrightarrow> sr_registerResource mem (OtherResource n) p q s = Some s' \<Longrightarrow> sr_step s True s'"
| sr_unregister: "sr_step s True (sr_unregisterResource (OtherResource n) s)"
| sr_finalize: "sr_step s (sr_state s \<noteq> SR_SUSPENDED) (sr_finalizeSystem s)"
| sr_outside: "sr_step s True (s\<lparr>midpInitLevel := l, amsIsolateId := i, eventSys := es\<rparr>)"

inductive sr_reachable :: "bool \<Rightarrow> SRSys \<Rightarrow> bool" where
  sr_start: "sr_state s = SR_INVALID \<Longrightarrow> sr_resources s = [] \<Longrightarrow> \<not> vmIsSuspended s \<Longrightarrow> sr_reachable True s"
| sr_next: "sr_reachable kept s \<Longrightarrow> sr_step s rule s' \<Longrightarrow> sr_reachable (kept \<and> rule) s'"












section \<open>Waiting\<close>




lemma tell_frame [simp]:
  "amsQueue (s\<lparr>lastSuspendStart := i\<rparr>) = amsQueue s" "amsQueue (s\<lparr>sr_resume_timeout := i\<rparr>) = amsQueue s"
  by (simp_all add: amsQueue_def fun_eq_iff)




section \<open>Properties\<close>

definition bootSystem :: "int \<Rightarrow> SRSys" where
  "bootSystem level =
     \<lparr>sr_state = SR_INVALID, sr_resources = [], vmIsSuspended = False, allMidletsKilled = False,
      midpInitLevel = level, amsIsolateId = 0, eventSys = startedEventSys, procLog = [],
      lastSuspendStart = -1, sr_resume_timeout = DEFAULT_TIMEOUT\<rparr>"

definition activeSystem :: "int \<Rightarrow> SRSys" where
  "activeSystem level = (bootSystem level)\<lparr>sr_state := SR_ACTIVE, sr_resources := [vmRecord SR_ACTIVE]\<rparr>"

lemma active_system:
  "sr_initSystem True (bootSystem l) = Some (activeSystem l)" "sr_reachable True (activeSystem l)"
  "\<exists>q. amsQueue (activeSystem l) q \<and> pending q = []"
proof -
  show i: "sr_initSystem True (bootSystem l) = Some (activeSystem l)"
    by (simp add: sr_initSystem_def sr_registerResource_def bootSystem_def activeSystem_def vmRecord_def)
  have "sr_reachable True (bootSystem l)" by (rule sr_start) (simp_all add: bootSystem_def)
  from sr_next [OF this sr_init [OF i]] show "sr_reachable True (activeSystem l)" by simp
  have "amsQueue (activeSystem l) zeroEventQueue"
    using event_reachable_inv [OF started_reachable(1)] started_reachable(2,3)
    by (simp add: amsQueue_def activeSystem_def bootSystem_def)
  with ring_inv_zero(2) show "\<exists>q. amsQueue (activeSystem l) q \<and> pending q = []" by blast
qed



text \<open>
  C9. A full cycle: with active resources whose routines all succeed and room for two
  events, suspending, the answer of the Java side and resuming bring the stack back to
  \<^verbatim>\<open>SR_ACTIVE\<close> with the same resources; the manager gets \<^verbatim>\<open>PAUSE_ALL_EVENT\<close> then
  \<^verbatim>\<open>ACTIVATE_ALL_EVENT\<close>, and each suspend routine, then each resume routine, ran once in list
  order.
\<close>

theorem suspend_resume_cycle:
  assumes "sr_state s = SR_ACTIVE" "VM_LEVEL \<le> midpInitLevel s"
    and "amsQueue s q" "length (pending q) + 2 \<le> MAX_EVENTS"
    and "list_all (\<lambda>r. rstate r = SR_ACTIVE) (sr_resources s)"
  shows "\<exists>s1 s2 s3 q3. midp_suspend mem (\<lambda>_ _. True) s = Some s1 \<and> sr_state s1 = SR_SUSPENDING
    \<and> suspended0 (\<lambda>_ _. True) killed s1 = Some s2 \<and> sr_state s2 = SR_SUSPENDED
    \<and> list_all (\<lambda>r. rstate r = SR_SUSPENDED) (sr_resources s2)
    \<and> midp_resume (\<lambda>_ _. True) s2 = Some s3 \<and> sr_state s3 = SR_ACTIVE
    \<and> sr_resources s3 = sr_resources s
    \<and> procLog s3 = procLog s @ suspendCalls (sr_resources s) @ resumeCalls (sr_resources s2)
    \<and> amsQueue s3 q3
    \<and> pending q3 = pending q @ [MIDP_EVENT_INITIALIZE\<lparr>evtype := PAUSE_ALL_EVENT\<rparr>,
                                 MIDP_EVENT_INITIALIZE\<lparr>evtype := ACTIVATE_ALL_EVENT\<rparr>]"
proof -
  let ?ok = "\<lambda>_ _. True" and ?rs = "sr_resources s"
  have ok [simp]: "procOk ?ok p r" for p r by (auto simp: procOk_def split: option.splits SRProc.splits)
  let ?s0 = "s\<lparr>sr_state := SR_SUSPENDING\<rparr>"
  have "amsQueue ?s0 q" using assms(3) by (simp add: amsQueue_def)
  from signal_ams [OF this, of "MIDP_EVENT_INITIALIZE\<lparr>evtype := PAUSE_ALL_EVENT\<rparr>"] assms(4)
  obtain es q1 where e1: "midpStoreEventAndSignalAms (MIDP_EVENT_INITIALIZE\<lparr>evtype := PAUSE_ALL_EVENT\<rparr>) ?s0
      = Some (?s0\<lparr>eventSys := es\<rparr>)" "amsQueue (?s0\<lparr>eventSys := es\<rparr>) q1"
    "pending q1 = pending q @ [MIDP_EVENT_INITIALIZE\<lparr>evtype := PAUSE_ALL_EVENT\<rparr>]" by auto
  let ?s1 = "?s0\<lparr>eventSys := es\<rparr>"
  have m: "midp_suspend mem ?ok s = Some ?s1"
    using assms(1,2) e1(1) by (simp add: midp_suspend_def sr_initSystem_def Let_def)
  let ?s2 = "suspend_resources ?ok (?s1\<lparr>allMidletsKilled := killed\<rparr>)"
  have sus: "suspended0 ?ok killed ?s1 = Some ?s2" by (simp add: suspended0_def)
  have rs2: "sr_resources ?s2 = map (\<lambda>r. r\<lparr>rstate := SR_SUSPENDED\<rparr>) ?rs"
    using assms(5) by (simp add: suspend_resources_eq afterSuspend_def list_all_iff)
  have ar: "map (afterResume ?ok) (sr_resources ?s2) = ?rs"
    unfolding rs2 using assms(5) by (simp add: afterResume_def list_all_iff comp_def map_idI)
  then have surv: "survivors ?ok (sr_resources ?s2) = ?rs"
    using assms(5) by (simp add: survivors_def list_all_iff filter_id_conv)
  have hd: "sr_resources ?s2 = [] \<or> rstate (afterResume ?ok (hd (sr_resources ?s2))) \<noteq> SR_INVALID"
    unfolding rs2 using assms(5) by (cases ?rs) (auto simp: afterResume_def)
  obtain s3 where r: "resume_resources ?ok ?s2 = Some s3" "sr_resources s3 = ?rs"
    "procLog s3 = procLog s @ suspendCalls ?rs @ resumeCalls (sr_resources ?s2)"
    "eventSys s3 = es" "amsIsolateId s3 = amsIsolateId s" "midpInitLevel s3 = midpInitLevel s"
    using resume_resources_eq [OF hd] surv by (simp add: suspend_resources_eq)
  then have "amsQueue s3 q1" using e1(2) by (simp add: amsQueue_def)
  from signal_ams [OF this, of "MIDP_EVENT_INITIALIZE\<lparr>evtype := ACTIVATE_ALL_EVENT\<rparr>"] assms(4) e1(3)
  obtain es3 q3 where e3: "midpStoreEventAndSignalAms (MIDP_EVENT_INITIALIZE\<lparr>evtype := ACTIVATE_ALL_EVENT\<rparr>) s3
      = Some (s3\<lparr>eventSys := es3\<rparr>)" "amsQueue (s3\<lparr>eventSys := es3\<rparr>) q3"
    "pending q3 = pending q1 @ [MIDP_EVENT_INITIALIZE\<lparr>evtype := ACTIVATE_ALL_EVENT\<rparr>]" by auto
  have st2: "sr_state ?s2 = SR_SUSPENDED" by (simp add: suspend_resources_eq)
  have "midp_resume ?ok ?s2 = Some (s3\<lparr>eventSys := es3, sr_state := SR_ACTIVE\<rparr>)"
    using r(1,6) e3(1) assms(2) st2 by (simp add: midp_resume_def resume_java_def)
  moreover have "list_all (\<lambda>r. rstate r = SR_SUSPENDED) (sr_resources ?s2)"
    by (simp add: rs2 list_all_iff)
  moreover have "amsQueue (s3\<lparr>eventSys := es3, sr_state := SR_ACTIVE\<rparr>) q3"
    using e3(2) by (simp add: amsQueue_def)
  ultimately show ?thesis using m sus st2 r(2,3) e1(3) e3(3)
    by (intro exI [of _ ?s1] exI [of _ ?s2] exI [of _ "s3\<lparr>eventSys := es3, sr_state := SR_ACTIVE\<rparr>"]
        exI [of _ q3]) simp
qed

theorem suspend_resume_cycle_witness:
  "\<exists>s1 s2 s3. midp_suspend True (\<lambda>_ _. True) (activeSystem 4) = Some s1
     \<and> suspended0 (\<lambda>_ _. True) False s1 = Some s2 \<and> midp_resume (\<lambda>_ _. True) s2 = Some s3
     \<and> sr_state s3 = SR_ACTIVE \<and> sr_resources s3 = [vmRecord SR_ACTIVE]"
proof -
  obtain q where q: "amsQueue (activeSystem 4) q" "pending q = []" using active_system(3) by blast
  have "sr_state (activeSystem 4) = SR_ACTIVE" "VM_LEVEL \<le> midpInitLevel (activeSystem 4)"
    "list_all (\<lambda>r. rstate r = SR_ACTIVE) (sr_resources (activeSystem 4))"
    "sr_resources (activeSystem 4) = [vmRecord SR_ACTIVE]"
    by (simp_all add: activeSystem_def bootSystem_def VM_LEVEL_def vmRecord_def)
  with suspend_resume_cycle [of "activeSystem 4" q] q show ?thesis
    by (simp add: MAX_EVENTS_def) metis
qed

text \<open>
  A failing resume of the first registered resource is fatal: \<^verbatim>\<open>resume_resources\<close> removes
  the record with no predecessor and reads \<^verbatim>\<open>next\<close> of the NULL pointer. With any other
  resource the failing records are removed and the stack resumes.
\<close>

theorem resume_first_failure_fatal:
  assumes "sr_state s = SR_SUSPENDED" "sr_resources s = r # rs" "midpInitLevel s < VM_LEVEL"
  shows "midp_resume ok s =
    (if rstate (afterResume ok r) = SR_INVALID then None
     else Some (s\<lparr>sr_state := SR_ACTIVE, sr_resources := survivors ok (r # rs),
            vmIsSuspended := vmAfter (resumeCalls (r # rs)) (vmIsSuspended s),
            procLog := procLog s @ resumeCalls (r # rs)\<rparr>))"
proof (cases "rstate (afterResume ok r) = SR_INVALID")
  case True
  with resume_resources_crash [OF assms(2)] assms(1) show ?thesis by (simp add: midp_resume_def)
next
  case False
  with resume_resources_eq [of s ok] assms show ?thesis
    by (simp add: midp_resume_def resume_java_def)
qed

definition failingSystem :: SRSys where
  "failingSystem = (bootSystem 0)\<lparr>sr_state := SR_SUSPENDED, sr_resources :=
     [\<lparr>rstate = SR_SUSPENDED, resource = OtherResource 1, suspend = None, resume = Some (OtherProc 7)\<rparr>,
      vmRecord SR_SUSPENDED]\<rparr>"

theorem resume_first_failure_fatal_witness:
  "midp_resume (\<lambda>p _. p \<noteq> 7) failingSystem = None"
  using resume_first_failure_fatal [of failingSystem
      "\<lparr>rstate = SR_SUSPENDED, resource = OtherResource 1, suspend = None, resume = Some (OtherProc 7)\<rparr>"
      "[vmRecord SR_SUSPENDED]" "\<lambda>p _. p \<noteq> 7"]
  by (simp add: failingSystem_def bootSystem_def VM_LEVEL_def afterResume_def procOk_def)



end
