(* ===== verification/Utf.thy ===== *)
theory Utf
  imports Interfaces "HOL-Library.Monad_Syntax" "HOL-Library.Signed_Division"
begin

text \<open>
  The string codecs of the PCSL string library, \<^verbatim>\<open>pcsl/string/util/utf.c\<close>: UTF-8 and UTF-16
  into each other, code points to code units, the length of a UTF-16 string in characters,
  and the escaping of names for a file system, with its inverse from
  \<^verbatim>\<open>midp/src/rms/record_store/file_based/native/rms.c\<close>. A buffer is the list of its cells; a
  conversion consumes \<^verbatim>\<open>k\<close> more units after the first one, as \<^verbatim>\<open>str\<close> advances in the code.
\<close>

unbundle bit_operations_syntax

section \<open>Conversion loops\<close>

datatype pcsl_string_status =
  PCSL_STRING_OK | PCSL_STRING_ERR | PCSL_STRING_ENOMEM | PCSL_STRING_EINVAL
| PCSL_STRING_EILSEQ | PCSL_STRING_BUFFER_OVERFLOW | PCSL_STRING_OVERFLOW

fun putUnits :: "'a list \<Rightarrow> nat \<Rightarrow> 'a list \<Rightarrow> 'a list" where
  "putUnits [] off buf = buf"
| "putUnits (x # xs) off buf = putUnits xs (Suc off) (buf[off := x])"

text \<open>Both loops store their output in the same way; the first result is the overflow flag.\<close>

definition storeOut :: "'a list \<Rightarrow> nat \<Rightarrow> bool \<Rightarrow> 'a list option \<Rightarrow> bool \<times> 'a list option" where
  "storeOut out off overflow buffer =
     (if overflow then (overflow, buffer)
      else case buffer of
             None \<Rightarrow> (overflow, buffer)
           | Some buf \<Rightarrow>
               if off + length out > length buf then (True, buffer)
               else (overflow, Some (putUnits out off buf)))"

function convertLoop ::
  "('b \<Rightarrow> 'b list \<Rightarrow> 'a list \<times> bool \<times> nat) \<Rightarrow> 'b list \<Rightarrow> nat \<Rightarrow> bool \<Rightarrow> bool \<Rightarrow> 'a list option
   \<Rightarrow> nat \<times> bool \<times> bool \<times> 'a list option" where
  "convertLoop step [] off overflow bad buffer = (off, overflow, bad, buffer)"
| "convertLoop step (c # cs) off overflow bad buffer =
     (let (out, b, k) = step c cs;
          (overflow', buffer') = storeOut out off overflow buffer
      in convertLoop step (drop k cs) (off + length out) overflow' (bad \<or> b) buffer')"
  by pat_completeness auto
termination
  by (relation "measure (\<lambda>(step, cs, _). length cs)") auto

definition conversionResult ::
  "nat \<times> bool \<times> bool \<times> 'a list option \<Rightarrow> pcsl_string_status \<times> nat \<times> 'a list option" where
  "conversionResult r =
     (case r of (off, overflow, bad, buffer) \<Rightarrow>
        (if overflow then PCSL_STRING_BUFFER_OVERFLOW
         else if bad then PCSL_STRING_EILSEQ else PCSL_STRING_OK, off, buffer))"

section \<open>UTF-8 to UTF-16\<close>

definition UTF16_ERROR_CHAR :: jchar where
  "UTF16_ERROR_CHAR = 0xFFFD"

abbreviation followUp :: "jbyte \<Rightarrow> bool" where
  "followUp b \<equiv> b AND 0xC0 = 0x80"

definition utf8Pair :: "jbyte \<Rightarrow> jbyte \<Rightarrow> jchar" where
  "utf8Pair b1 b2 = push_bit 6 (ucast b1 AND 0x1F) OR (ucast b2 AND 0x3F)"

definition utf8Triple :: "jbyte \<Rightarrow> jbyte \<Rightarrow> jbyte \<Rightarrow> jchar" where
  "utf8Triple b1 b2 b3 =
     push_bit 12 (ucast b1 AND 0x0F) OR push_bit 6 (ucast b2 AND 0x3F) OR (ucast b3 AND 0x3F)"

definition utf8Ucs4 :: "jbyte \<Rightarrow> jbyte \<Rightarrow> jbyte \<Rightarrow> jbyte \<Rightarrow> 32 word" where
  "utf8Ucs4 b1 b2 b3 b4 =
     push_bit 18 (0x07 AND ucast b1) OR push_bit 12 (0x3F AND ucast b2)
     OR push_bit 6 (0x3F AND ucast b3) OR (0x3F AND ucast b4)"

text \<open>Division and remainder of C truncate towards zero.\<close>

definition surrogates :: "int \<Rightarrow> jchar list" where
  "surrogates ucs4 =
     [word_of_int ((ucs4 - 0x10000) sdiv 0x400 + 0xD800),
      word_of_int ((ucs4 - 0x10000) smod 0x400 + 0xDC00)]"

fun skipFollowUps :: "nat \<Rightarrow> jbyte list \<Rightarrow> nat" where
  "skipFollowUps (Suc n) (b # bs) = (if followUp b then Suc (skipFollowUps n bs) else 0)"
| "skipFollowUps _ _ = 0"

definition utf8Step :: "jbyte \<Rightarrow> jbyte list \<Rightarrow> jchar list \<times> bool \<times> nat" where
  "utf8Step byte1 str =
     (if byte1 AND 0x80 = 0 then ([ucast byte1], False, 0)
      else if byte1 AND 0xE0 = 0xC0 then
        (case str of
           byte2 # _ \<Rightarrow>
             if \<not> followUp byte2 then ([UTF16_ERROR_CHAR], True, 0)
             else ([utf8Pair byte1 byte2], False, 1)
         | _ \<Rightarrow> ([UTF16_ERROR_CHAR], True, 0))
      else if byte1 AND 0xF0 = 0xE0 then
        (case str of
           byte2 # byte3 # _ \<Rightarrow>
             if \<not> followUp byte2 \<or> \<not> followUp byte3
             then ([UTF16_ERROR_CHAR], True, if \<not> followUp byte2 then 0 else 1)
             else ([utf8Triple byte1 byte2 byte3], False, 2)
         | _ \<Rightarrow> ([UTF16_ERROR_CHAR], True, 0))
      else if byte1 AND 0xF8 = 0xF0 then
        (case str of
           byte2 # byte3 # byte4 # _ \<Rightarrow>
             if \<not> followUp byte2 \<or> \<not> followUp byte3 \<or> \<not> followUp byte4
             then ([UTF16_ERROR_CHAR], True,
                   if \<not> followUp byte2 then 0 else if \<not> followUp byte3 then 1 else 2)
             else (surrogates (sint (utf8Ucs4 byte1 byte2 byte3 byte4)), False, 3)
         | _ \<Rightarrow> ([UTF16_ERROR_CHAR], True, 0))
      else ([UTF16_ERROR_CHAR], True, skipFollowUps 2 str))"

definition pcsl_utf8_convert_to_utf16 ::
  "jbyte list option \<Rightarrow> jchar list option \<Rightarrow> pcsl_string_status \<times> nat \<times> jchar list option" where
  "pcsl_utf8_convert_to_utf16 str buffer =
     (case str of
        None \<Rightarrow> (PCSL_STRING_EINVAL, 0, buffer)
      | Some bs \<Rightarrow> conversionResult (convertLoop utf8Step bs 0 False False buffer))"

section \<open>UTF-16 to UTF-8\<close>

definition UTF8_ERROR_CHAR :: jbyte where
  "UTF8_ERROR_CHAR = 0x3F"

abbreviation highHalf :: "jchar \<Rightarrow> bool" where
  "highHalf c \<equiv> c \<ge> 0xD800 \<and> c \<le> 0xDBFF"

abbreviation lowHalf :: "jchar \<Rightarrow> bool" where
  "lowHalf c \<equiv> c \<ge> 0xDC00 \<and> c \<le> 0xDFFF"

definition surrogateUcs4 :: "jchar \<Rightarrow> jchar \<Rightarrow> 32 word" where
  "surrogateUcs4 hi lo = (ucast hi - 0xD800) * 0x400 + (ucast lo - 0xDC00) + 0x10000"

definition utf16Step :: "jchar \<Rightarrow> jchar list \<Rightarrow> jbyte list \<times> bool \<times> nat" where
  "utf16Step input_char str =
     (if input_char < 0x80 then ([ucast input_char], False, 0)
      else if input_char < 0x800 then
        ([ucast (0xC0 OR (drop_bit 6 input_char AND 0x1F)),
          ucast (0x80 OR (input_char AND 0x3F))], False, 0)
      else if highHalf input_char then
        (case str of
           [] \<Rightarrow> ([UTF8_ERROR_CHAR], True, 0)
         | low_char # _ \<Rightarrow>
             if low_char < 0xDC00 \<or> low_char > 0xDFFF then ([UTF8_ERROR_CHAR], True, 0)
             else (let ucs4 = surrogateUcs4 input_char low_char in
                   ([ucast (0xF0 OR (drop_bit 18 ucs4 AND 0x07)),
                     ucast (0x80 OR (drop_bit 12 ucs4 AND 0x3F)),
                     ucast (0x80 OR (drop_bit 6 ucs4 AND 0x3F)),
                     ucast (0x80 OR (ucs4 AND 0x3F))], False, 1)))
      else if lowHalf input_char then ([UTF8_ERROR_CHAR], True, 0)
      else ([ucast (0xE0 OR (drop_bit 12 input_char AND 0x0F)),
             ucast (0x80 OR (drop_bit 6 input_char AND 0x3F)),
             ucast (0x80 OR (input_char AND 0x3F))], False, 0))"

definition pcsl_utf16_convert_to_utf8 ::
  "jchar list option \<Rightarrow> jbyte list option \<Rightarrow> pcsl_string_status \<times> nat \<times> jbyte list option" where
  "pcsl_utf16_convert_to_utf8 str buffer =
     (case str of
        None \<Rightarrow> (PCSL_STRING_EINVAL, 0, buffer)
      | Some cs \<Rightarrow> conversionResult (convertLoop utf16Step cs 0 False False buffer))"

section \<open>Code points\<close>

definition pcsl_code_point_to_utf16_code_unit ::
  "32 word \<Rightarrow> pcsl_string_status \<times> jchar list" where
  "pcsl_code_point_to_utf16_code_unit code_point =
     (if code_point AND 0xFFFF0000 = 0 then (PCSL_STRING_OK, [ucast (code_point AND 0xFFFF)])
      else if sint code_point < 0 \<or> sint code_point > 0x10FFFF then (PCSL_STRING_EINVAL, [])
      else (let offset = code_point - 0x10000 in
            (PCSL_STRING_OK,
             [ucast (drop_bit 10 offset + 0xD800), ucast ((offset AND 0x3FF) + 0xDC00)])))"

fun utf16LengthLoop :: "jchar list \<Rightarrow> int \<Rightarrow> int" where
  "utf16LengthLoop [] char_count = char_count"
| "utf16LengthLoop (input_char # str) char_count =
     (if highHalf input_char then
        (case str of
           [] \<Rightarrow> -1
         | low_char # str' \<Rightarrow>
             if low_char < 0xDC00 \<or> low_char > 0xDFFF then -1
             else utf16LengthLoop str' (char_count + 1))
      else utf16LengthLoop str (char_count + 1))"

definition utf16_string_length :: "jchar list option \<Rightarrow> int" where
  "utf16_string_length str = (case str of None \<Rightarrow> -1 | Some cs \<Rightarrow> utf16LengthLoop cs 0)"

section \<open>Names for the file system\<close>

definition NUMS :: "jchar list" where
  "NUMS = [0x30, 0x31, 0x32, 0x33, 0x34, 0x35, 0x36, 0x37, 0x38, 0x39,
           0x61, 0x62, 0x63, 0x64, 0x65, 0x66]"

abbreviation charHash :: jchar where "charHash \<equiv> 0x23"
abbreviation charPercent :: jchar where "charPercent \<equiv> 0x25"

text \<open>What one character appends to \<^verbatim>\<open>pBuffer\<close>.\<close>

definition escapeChar :: "jchar \<Rightarrow> jchar list" where
  "escapeChar c =
     (if (c \<ge> 0x61 \<and> c \<le> 0x7A) \<or> (c \<ge> 0x30 \<and> c \<le> 0x39) then [c]
      else if c \<ge> 0x41 \<and> c \<le> 0x5A then [charHash, c]
      else [charPercent, NUMS ! unat (drop_bit 12 c AND 0x000F), NUMS ! unat (drop_bit 8 c AND 0x000F),
            NUMS ! unat (drop_bit 4 c AND 0x000F), NUMS ! unat (c AND 0x000F)])"

fun escapeLoop :: "jchar list \<Rightarrow> nat \<Rightarrow> jchar list \<Rightarrow> (nat \<times> jchar list) option" where
  "escapeLoop [] j pBuffer = Some (j, pBuffer)"
| "escapeLoop (c # cs) j pBuffer =
     (let e = escapeChar c in
      if j + length e \<le> length pBuffer then escapeLoop cs (j + length e) (putUnits e j pBuffer)
      else None)"

definition pcsl_utf16_to_escaped_ascii ::
  "jchar list \<Rightarrow> jchar list \<Rightarrow> nat \<Rightarrow> (nat \<times> jchar list) option" where
  "pcsl_utf16_to_escaped_ascii str pBuffer offset =
     do { (j, buf) \<leftarrow> escapeLoop str offset pBuffer; Some (j - offset, buf) }"

definition hexValue :: "jchar \<Rightarrow> jchar" where
  "hexValue c = (if c \<ge> 0x30 \<and> c \<le> 0x39 then c - 0x30 else c - 0x61 + 10)"

text \<open>
  Reading \<^verbatim>\<open>str_data[i]\<close>: the terminating zero follows the characters, and there is nothing
  behind it.
\<close>

definition unitAt :: "jchar list \<Rightarrow> nat \<Rightarrow> jchar option" where
  "unitAt str i =
     (if i < length str then Some (str ! i) else if i = length str then Some 0 else None)"

function unescapeLoop :: "jchar list \<Rightarrow> nat \<Rightarrow> jchar list \<Rightarrow> jchar list option" where
  "unescapeLoop str i result =
     (if i < length str then
        let c = str ! i in
        if c = charPercent then
          do { d1 \<leftarrow> unitAt str (i + 1); d2 \<leftarrow> unitAt str (i + 2);
               d3 \<leftarrow> unitAt str (i + 3); d4 \<leftarrow> unitAt str (i + 4);
               let v = hexValue d1;
               let v = push_bit 4 v + hexValue d2;
               let v = push_bit 4 v + hexValue d3;
               let v = push_bit 4 v + hexValue d4;
               unescapeLoop str (i + 5) (result @ [v]) }
        else if c = charHash then unescapeLoop str (Suc i) result
        else unescapeLoop str (Suc i) (result @ [c])
      else Some result)"
  by pat_completeness auto
termination
  by (relation "measure (\<lambda>(str, i, _). length str - i)") auto

declare unescapeLoop.simps [simp del]

section \<open>What a conversion loop produces\<close>

function convertAll :: "('b \<Rightarrow> 'b list \<Rightarrow> 'a list \<times> bool \<times> nat) \<Rightarrow> 'b list \<Rightarrow> 'a list \<times> bool" where
  "convertAll step [] = ([], False)"
| "convertAll step (c # cs) =
     (let (out, b, k) = step c cs; (outs, bs) = convertAll step (drop k cs) in (out @ outs, b \<or> bs))"
  by pat_completeness auto
termination
  by (relation "measure (\<lambda>(step, cs). length cs)") auto

lemma length_putUnits [simp]: "length (putUnits xs off buf) = length buf"
  by (induction xs arbitrary: off buf) auto

lemma putUnits_splice:
  "off + length xs \<le> length buf
   \<Longrightarrow> putUnits xs off buf = take off buf @ xs @ drop (off + length xs) buf"
proof (induction xs arbitrary: off buf)
  case Nil
  then show ?case by simp
next
  case (Cons x xs)
  then have "off < length buf" by simp
  then have t: "take (Suc off) (buf[off := x]) = take off buf @ [x]"
    by (simp add: take_Suc_conv_app_nth)
  have "Suc off + length xs \<le> length (buf[off := x])" using Cons.prems by simp
  from Cons.IH [OF this] show ?case by (simp add: t)
qed

lemma convertLoop_null:
  "convertLoop step cs off False bad None
   = (off + length (fst (convertAll step cs)), False, bad \<or> snd (convertAll step cs), None)"
  by (induction step cs arbitrary: off bad rule: convertAll.induct)
    (auto simp: storeOut_def Let_def split: prod.splits)

lemma convertLoop_overflowed:
  "convertLoop step cs off True bad buffer
   = (off + length (fst (convertAll step cs)), True, bad \<or> snd (convertAll step cs), buffer)"
  by (induction step cs arbitrary: off bad rule: convertAll.induct)
    (auto simp: storeOut_def Let_def split: prod.splits)

lemma convertLoop_buffer:
  "off \<le> length buf \<Longrightarrow> \<exists>buf'. convertLoop step cs off False bad (Some buf)
     = (off + length (fst (convertAll step cs)),
        off + length (fst (convertAll step cs)) > length buf, bad \<or> snd (convertAll step cs), Some buf')
   \<and> length buf' = length buf
   \<and> (off + length (fst (convertAll step cs)) \<le> length buf \<longrightarrow>
        buf' = take off buf @ fst (convertAll step cs) @ drop (off + length (fst (convertAll step cs))) buf)"
proof (induction step cs arbitrary: off bad buf rule: convertAll.induct)
  case (1 step)
  then show ?case by simp
next
  case (2 step c cs)
  obtain out b k where s: "step c cs = (out, b, k)" by (cases "step c cs") auto
  obtain outs bs where a: "convertAll step (drop k cs) = (outs, bs)" by fastforce
  show ?case
  proof (cases "off + length out > length buf")
    case True
    with s a show ?thesis
      by (auto simp: storeOut_def convertLoop_overflowed)
  next
    case False
    let ?buf = "putUnits out off buf"
    have le: "off + length out \<le> length buf" "length (take off buf) = off" using False 2(2) by auto
    have p: "?buf = take off buf @ out @ drop (off + length out) buf"
      using False by (intro putUnits_splice) simp
    have t: "take (off + length out) ?buf = take off buf @ out"
      unfolding p using le(2) by simp
    have d: "drop (off + length (out @ outs)) ?buf = drop (off + length (out @ outs)) buf"
      unfolding p using le(2) by (simp add: ac_simps)
    have l: "length ?buf = length buf" by simp
    have st: "storeOut out off False (Some buf) = (False, Some ?buf)"
      using False by (simp add: storeOut_def)
    have "off + length out \<le> length ?buf" using le(1) by simp
    from 2(1) [OF s [symmetric] refl refl this, of "bad \<or> b"] s a t d show ?thesis
      by (simp add: st l add.assoc)
  qed
qed

lemma conversion_result:
  "conversionResult (convertLoop step cs 0 False False None)
     = (if snd (convertAll step cs) then PCSL_STRING_EILSEQ else PCSL_STRING_OK,
        length (fst (convertAll step cs)), None)"
  "\<exists>buf'. conversionResult (convertLoop step cs 0 False False (Some buf))
     = (if length (fst (convertAll step cs)) > length buf then PCSL_STRING_BUFFER_OVERFLOW
        else if snd (convertAll step cs) then PCSL_STRING_EILSEQ else PCSL_STRING_OK,
        length (fst (convertAll step cs)), Some buf')
     \<and> length buf' = length buf
     \<and> (length (fst (convertAll step cs)) \<le> length buf \<longrightarrow>
          buf' = fst (convertAll step cs) @ drop (length (fst (convertAll step cs))) buf)"
  using convertLoop_buffer [of 0 buf step cs False]
  by (auto simp: conversionResult_def convertLoop_null)

section \<open>Bits\<close>

lemma less_16: "n < 16 \<Longrightarrow> n \<in> {0, 1, 2, 3, 4, 5, 6, 7, 8, 9, 10, 11, 12, 13, 14, 15::nat}"
  by (auto simp: eval_nat_numeral less_Suc_eq)

lemma less_8: "n < 8 \<Longrightarrow> n \<in> {0, 1, 2, 3, 4, 5, 6, 7::nat}"
  by (auto simp: eval_nat_numeral less_Suc_eq)

lemma less_bits:
  assumes "c < 2 ^ k" "k \<le> n"
  shows "\<not> bit (c :: 'a::len word) n"
proof -
  have "c AND mask k = c" using assms(1) by (simp add: less_mask_eq)
  then have "bit c n = bit (c AND mask k) n" by simp
  then show ?thesis using assms(2) by (simp add: bit_simps)
qed

lemma word8_eqI: "(\<And>n. n \<in> {0, 1, 2, 3, 4, 5, 6, 7} \<Longrightarrow> bit v n = bit w n) \<Longrightarrow> v = (w :: 8 word)"
  by (rule bit_word_eqI) (use less_8 in auto)

lemma word16_eqI:
  "(\<And>n. n \<in> {0, 1, 2, 3, 4, 5, 6, 7, 8, 9, 10, 11, 12, 13, 14, 15} \<Longrightarrow> bit v n = bit w n)
   \<Longrightarrow> v = (w :: 16 word)"
  by (rule bit_word_eqI) (use less_16 in auto)

lemma pair_recombine:
  assumes "(c :: jchar) < 0x800"
  shows "utf8Pair (ucast (0xC0 OR (drop_bit 6 c AND 0x1F))) (ucast (0x80 OR (c AND 0x3F))) = c"
proof (rule word16_eqI)
  fix n assume n: "n \<in> {0, 1, 2, 3, 4, 5, 6, 7, 8, 9, 10, 11, 12, 13, 14, 15::nat}"
  have h: "\<not> bit c 11" "\<not> bit c 12" "\<not> bit c 13" "\<not> bit c 14" "\<not> bit c 15"
    using less_bits [of c 11] assms by simp_all
  from n show "bit (utf8Pair (ucast (0xC0 OR (drop_bit 6 c AND 0x1F)))
      (ucast (0x80 OR (c AND 0x3F)))) n = bit c n"
    unfolding utf8Pair_def by (elim insertE emptyE; hypsubst) (simp_all add: bit_simps h)
qed

lemma triple_recombine:
  "utf8Triple (ucast (0xE0 OR (drop_bit 12 c AND 0x0F))) (ucast (0x80 OR (drop_bit 6 c AND 0x3F)))
     (ucast (0x80 OR (c AND 0x3F))) = (c :: jchar)"
proof (rule word16_eqI)
  fix n assume n: "n \<in> {0, 1, 2, 3, 4, 5, 6, 7, 8, 9, 10, 11, 12, 13, 14, 15::nat}"
  then show "bit (utf8Triple (ucast (0xE0 OR (drop_bit 12 c AND 0x0F)))
      (ucast (0x80 OR (drop_bit 6 c AND 0x3F))) (ucast (0x80 OR (c AND 0x3F)))) n = bit c n"
    unfolding utf8Triple_def by (elim insertE emptyE; hypsubst) (simp_all add: bit_simps)
qed

lemma quad_recombine:
  assumes "(u :: 32 word) < 2 ^ 21"
  shows "utf8Ucs4 (ucast (0xF0 OR (drop_bit 18 u AND 0x07))) (ucast (0x80 OR (drop_bit 12 u AND 0x3F)))
     (ucast (0x80 OR (drop_bit 6 u AND 0x3F))) (ucast (0x80 OR (u AND 0x3F))) = u" (is "?l = u")
proof (rule bit_word_eqI)
  fix n assume "n < LENGTH(32)"
  have h: "\<not> bit u k" if "21 \<le> k" for k using less_bits [OF assms that] .
  have "n \<in> {0, 1, 2, 3, 4, 5, 6, 7, 8, 9, 10, 11, 12, 13, 14, 15, 16, 17, 18, 19, 20} \<or> 21 \<le> n"
    by (auto simp: eval_nat_numeral less_Suc_eq not_le)
  then show "bit ?l n = bit u n"
  proof
    assume "21 \<le> n"
    moreover from this have "\<not> bit (0x07 :: 32 word) (n - 18)" "\<not> bit (0x3F :: 32 word) (n - 12)"
      "\<not> bit (0x3F :: 32 word) (n - 6)" "\<not> bit (0x3F :: 32 word) n"
      using less_bits [of "0x07 :: 32 word" 3 "n - 18"] less_bits [of "0x3F :: 32 word" 6 "n - 12"]
        less_bits [of "0x3F :: 32 word" 6 "n - 6"] less_bits [of "0x3F :: 32 word" 6 n] by simp_all
    moreover have "\<not> bit (0x1C0000 :: 32 word) n" "\<not> bit (0x3F000 :: 32 word) n"
      "\<not> bit (0xFC0 :: 32 word) n"
      using \<open>21 \<le> n\<close> less_bits [of "0x1C0000 :: 32 word" 21 n]
        less_bits [of "0x3F000 :: 32 word" 21 n] less_bits [of "0xFC0 :: 32 word" 21 n] by simp_all
    ultimately show ?thesis using h [of n] by (simp add: utf8Ucs4_def bit_simps)
  next
    assume "n \<in> {0, 1, 2, 3, 4, 5, 6, 7, 8, 9, 10, 11, 12, 13, 14, 15, 16, 17, 18, 19, 20}"
    then show ?thesis unfolding utf8Ucs4_def
      by (elim insertE emptyE; hypsubst) (simp_all add: bit_simps)
  qed
qed

lemma lead_byte [simp]:
  "(ucast (0xC0 OR (x AND 0x1F :: 16 word)) :: jbyte) AND 0x80 \<noteq> 0"
  "(ucast (0xC0 OR (x AND 0x1F :: 16 word)) :: jbyte) AND 0xE0 = 0xC0"
  "(ucast (0xE0 OR (x AND 0x0F :: 16 word)) :: jbyte) AND 0x80 \<noteq> 0"
  "(ucast (0xE0 OR (x AND 0x0F :: 16 word)) :: jbyte) AND 0xE0 \<noteq> 0xC0"
  "(ucast (0xE0 OR (x AND 0x0F :: 16 word)) :: jbyte) AND 0xF0 = 0xE0"
  "(ucast (0xF0 OR (y AND 0x07 :: 32 word)) :: jbyte) AND 0x80 \<noteq> 0"
  "(ucast (0xF0 OR (y AND 0x07 :: 32 word)) :: jbyte) AND 0xE0 \<noteq> 0xC0"
  "(ucast (0xF0 OR (y AND 0x07 :: 32 word)) :: jbyte) AND 0xF0 \<noteq> 0xE0"
  "(ucast (0xF0 OR (y AND 0x07 :: 32 word)) :: jbyte) AND 0xF8 = 0xF0"
proof -
  have neq: "v \<noteq> w" if "bit v n \<noteq> bit w n" for v w :: "8 word" and n using that by auto
  show "(ucast (0xC0 OR (x AND 0x1F :: 16 word)) :: jbyte) AND 0x80 \<noteq> 0"
    "(ucast (0xE0 OR (x AND 0x0F :: 16 word)) :: jbyte) AND 0x80 \<noteq> 0"
    "(ucast (0xF0 OR (y AND 0x07 :: 32 word)) :: jbyte) AND 0x80 \<noteq> 0"
    by (rule neq [of _ 7], simp add: bit_simps)+
  show "(ucast (0xE0 OR (x AND 0x0F :: 16 word)) :: jbyte) AND 0xE0 \<noteq> 0xC0"
    "(ucast (0xF0 OR (y AND 0x07 :: 32 word)) :: jbyte) AND 0xE0 \<noteq> 0xC0"
    by (rule neq [of _ 5], simp add: bit_simps)+
  show "(ucast (0xF0 OR (y AND 0x07 :: 32 word)) :: jbyte) AND 0xF0 \<noteq> 0xE0"
    by (rule neq [of _ 4], simp add: bit_simps)
  show "(ucast (0xC0 OR (x AND 0x1F :: 16 word)) :: jbyte) AND 0xE0 = 0xC0"
    by (rule word8_eqI, elim insertE emptyE; hypsubst) (simp_all add: bit_simps)
  show "(ucast (0xE0 OR (x AND 0x0F :: 16 word)) :: jbyte) AND 0xF0 = 0xE0"
    by (rule word8_eqI, elim insertE emptyE; hypsubst) (simp_all add: bit_simps)
  show "(ucast (0xF0 OR (y AND 0x07 :: 32 word)) :: jbyte) AND 0xF8 = 0xF0"
    by (rule word8_eqI, elim insertE emptyE; hypsubst) (simp_all add: bit_simps)
qed

lemma follow_byte [simp]:
  "followUp (ucast (0x80 OR (x AND 0x3F :: 16 word)))"
  "followUp (ucast (0x80 OR (y AND 0x3F :: 32 word)))"
  by (rule word8_eqI, elim insertE emptyE; hypsubst, simp_all add: bit_simps)+

lemma ascii_byte:
  assumes "(c :: jchar) < 0x80"
  shows "(ucast c :: jbyte) AND 0x80 = 0" "(ucast (ucast c :: jbyte) :: jchar) = c"
proof -
  have h: "\<not> bit c 7" "\<not> bit c 8" "\<not> bit c 9" "\<not> bit c 10" "\<not> bit c 11" "\<not> bit c 12"
    "\<not> bit c 13" "\<not> bit c 14" "\<not> bit c 15"
    using less_bits [of c 7] assms by simp_all
  show "(ucast c :: jbyte) AND 0x80 = 0"
    by (rule word8_eqI, elim insertE emptyE; hypsubst) (simp_all add: bit_simps h)
  show "(ucast (ucast c :: jbyte) :: jchar) = c"
    by (rule word16_eqI, elim insertE emptyE; hypsubst) (simp_all add: bit_simps h)
qed

lemma surrogate_value:
  assumes "highHalf hi" "lowHalf lo"
  shows "uint (surrogateUcs4 hi lo) = (uint hi - 0xD800) * 0x400 + (uint lo - 0xDC00) + 0x10000"
proof -
  have b: "0xD800 \<le> uint hi" "uint hi \<le> 0xDBFF" "0xDC00 \<le> uint lo" "uint lo \<le> 0xDFFF"
    using assms by (simp_all add: word_le_def)
  have "surrogateUcs4 hi lo
      = word_of_int ((uint hi - 0xD800) * 0x400 + (uint lo - 0xDC00) + 0x10000)"
    by (simp add: surrogateUcs4_def unsigned_def)
  moreover have "uint (word_of_int x :: 32 word) = x" if "0 \<le> x" "x < 2 ^ 32" for x
    using that by (simp add: uint_word_of_int_eq take_bit_int_eq_self)
  moreover have "0 \<le> (uint hi - 0xD800) * 0x400 + (uint lo - 0xDC00) + 0x10000"
    "(uint hi - 0xD800) * 0x400 + (uint lo - 0xDC00) + 0x10000 < 2 ^ 32"
    using b by simp_all
  ultimately show ?thesis by presburger
qed

lemma sdiv_smod_nonneg:
  "0 \<le> a \<Longrightarrow> a sdiv 0x400 = a div 0x400" "0 \<le> a \<Longrightarrow> a smod 0x400 = a mod (0x400 :: int)"
  by (cases "a = 0"; simp add: signed_divide_int_def signed_modulo_int_def)+

lemma surrogates_inverse:
  assumes "highHalf hi" "lowHalf lo"
  shows "surrogates (sint (surrogateUcs4 hi lo)) = [hi, lo]" "surrogateUcs4 hi lo < 2 ^ 21"
proof -
  have b: "0xD800 \<le> uint hi" "uint hi \<le> 0xDBFF" "0xDC00 \<le> uint lo" "uint lo \<le> 0xDFFF"
    using assms by (simp_all add: word_le_def)
  note v = surrogate_value [OF assms]
  from v b show "surrogateUcs4 hi lo < 2 ^ 21" by (simp add: word_less_def)
  have "sint (surrogateUcs4 hi lo) = uint (surrogateUcs4 hi lo)"
    using v b by (simp add: sint_uint signed_take_bit_int_eq_self)
  moreover have "(x * 0x400 + y) div 0x400 = x \<and> (x * 0x400 + y) mod 0x400 = y"
    if "0 \<le> y" "y < 0x400" for x y :: int using that by simp
  from this [of "uint lo - 0xDC00" "uint hi - 0xD800"]
  have "((uint hi - 0xD800) * 0x400 + (uint lo - 0xDC00)) div 0x400 = uint hi - 0xD800"
    "((uint hi - 0xD800) * 0x400 + (uint lo - 0xDC00)) mod 0x400 = uint lo - 0xDC00"
    using b by simp_all
  moreover have "0 \<le> (uint hi - 0xD800) * 0x400 + (uint lo - 0xDC00)" using b by simp
  ultimately show "surrogates (sint (surrogateUcs4 hi lo)) = [hi, lo]"
    by (simp add: surrogates_def v sdiv_smod_nonneg)
qed

section \<open>Well-formed UTF-16 survives the round trip\<close>

text \<open>Every high half is followed by a low half, and low halves stand nowhere else.\<close>

fun wellFormed16 :: "jchar list \<Rightarrow> bool" where
  "wellFormed16 [] = True"
| "wellFormed16 (c # cs) =
     (if highHalf c then (case cs of [] \<Rightarrow> False | d # ds \<Rightarrow> lowHalf d \<and> wellFormed16 ds)
      else \<not> lowHalf c \<and> wellFormed16 cs)"

lemma decode_bmp:
  assumes "\<not> highHalf c" "\<not> lowHalf c"
  shows "\<exists>b bs. utf16Step c cs = (b # bs, False, 0)
    \<and> utf8Step b (bs @ rest) = ([c], False, length bs)"
proof -
  consider "c < 0x80" | "\<not> c < 0x80" "c < 0x800" | "\<not> c < 0x80" "\<not> c < 0x800" by blast
  then show ?thesis
  proof cases
    case 1
    then show ?thesis by (simp add: utf16Step_def utf8Step_def ascii_byte)
  next
    case 2
    then show ?thesis by (simp add: utf16Step_def utf8Step_def pair_recombine)
  next
    case 3
    with assms show ?thesis by (auto simp: utf16Step_def utf8Step_def triple_recombine)
  qed
qed

lemma decode_pair:
  assumes "highHalf hi" "lowHalf lo"
  shows "\<exists>b1 b2 b3 b4. utf16Step hi (lo # cs) = ([b1, b2, b3, b4], False, 1)
    \<and> utf8Step b1 (b2 # b3 # b4 # rest) = ([hi, lo], False, 3)"
proof -
  have nl: "\<not> hi < 0x80" "\<not> hi < 0x800" "\<not> lo < 0xDC00" "\<not> lo > 0xDFFF"
    using assms by (auto simp: not_less elim: order_trans [rotated])
  note q = quad_recombine [OF surrogates_inverse(2) [OF assms]]
  note i = surrogates_inverse(1) [OF assms]
  let ?u = "surrogateUcs4 hi lo"
  let ?b1 = "ucast (0xF0 OR (drop_bit 18 ?u AND 0x07)) :: jbyte"
  let ?b2 = "ucast (0x80 OR (drop_bit 12 ?u AND 0x3F)) :: jbyte"
  let ?b3 = "ucast (0x80 OR (drop_bit 6 ?u AND 0x3F)) :: jbyte"
  let ?b4 = "ucast (0x80 OR (?u AND 0x3F)) :: jbyte"
  have "utf16Step hi (lo # cs) = ([?b1, ?b2, ?b3, ?b4], False, 1)"
    using nl assms by (simp add: utf16Step_def Let_def)
  moreover have "utf8Step ?b1 (?b2 # ?b3 # ?b4 # rest) = ([hi, lo], False, 3)"
    using q i by (simp add: utf8Step_def)
  ultimately show ?thesis by blast
qed

lemma convertAll_step:
  "step c cs = (out, False, k) \<Longrightarrow> convertAll step (c # cs)
     = (out @ fst (convertAll step (drop k cs)), snd (convertAll step (drop k cs)))"
  by (simp add: split_def Let_def)

lemma roundtrip_all:
  "wellFormed16 us \<Longrightarrow> \<not> snd (convertAll utf16Step us)
     \<and> convertAll utf8Step (fst (convertAll utf16Step us)) = (us, False)"
proof (induction us rule: wellFormed16.induct)
  case 1
  then show ?case by simp
next
  case (2 c cs)
  show ?case
  proof (cases "highHalf c")
    case True
    with 2(3) obtain d ds where cs: "cs = d # ds" "lowHalf d" "wellFormed16 ds"
      by (cases cs) auto
    have IH: "\<not> snd (convertAll utf16Step ds)
        \<and> convertAll utf8Step (fst (convertAll utf16Step ds)) = (ds, False)"
      using 2(1) [OF True cs(1,3)] .
    obtain b1 b2 b3 b4 where s: "utf16Step c (d # ds) = ([b1, b2, b3, b4], False, 1)"
      "utf8Step b1 (b2 # b3 # b4 # fst (convertAll utf16Step ds)) = ([c, d], False, 3)"
      using decode_pair [OF True cs(2)] by blast
    have "convertAll utf16Step (c # cs)
        = ([b1, b2, b3, b4] @ fst (convertAll utf16Step ds), snd (convertAll utf16Step ds))"
      using convertAll_step [where step = utf16Step, OF s(1)] cs(1) by simp
    with convertAll_step [where step = utf8Step, OF s(2)] IH cs(1) show ?thesis by (simp add: numeral_3_eq_3)
  next
    case False
    with 2(3) have c: "\<not> lowHalf c" "wellFormed16 cs" by (auto split: if_splits)
    have IH: "\<not> snd (convertAll utf16Step cs)
        \<and> convertAll utf8Step (fst (convertAll utf16Step cs)) = (cs, False)"
      using 2(2) [OF False c(2)] .
    obtain b bs where s: "utf16Step c cs = (b # bs, False, 0)"
      "utf8Step b (bs @ fst (convertAll utf16Step cs)) = ([c], False, length bs)"
      using decode_bmp [OF False c(1)] by blast
    have "convertAll utf16Step (c # cs)
        = ((b # bs) @ fst (convertAll utf16Step cs), snd (convertAll utf16Step cs))"
      using convertAll_step [where step = utf16Step, OF s(1)] by simp
    with convertAll_step [where step = utf8Step, OF s(2)] IH show ?thesis by simp
  qed
qed

lemma utf16Step_length: "length (fst (utf16Step c cs)) \<le> 3 * Suc (snd (snd (utf16Step c cs)))
    \<and> snd (snd (utf16Step c cs)) \<le> length cs"
  by (auto simp: utf16Step_def Let_def split: list.splits)

lemma skipFollowUps_le: "skipFollowUps n bs \<le> length bs"
  by (induction n bs rule: skipFollowUps.induct) auto

lemma utf8Step_length: "length (fst (utf8Step b bs)) \<le> Suc (snd (snd (utf8Step b bs)))
    \<and> snd (snd (utf8Step b bs)) \<le> length bs"
  using skipFollowUps_le [of 2 bs]
  by (auto simp: utf8Step_def surrogates_def split: list.splits)

lemma convertAll_length:
  assumes "\<And>c cs. length (fst (step c cs)) \<le> m * Suc (snd (snd (step c cs)))
    \<and> snd (snd (step c cs)) \<le> length cs"
  shows "length (fst (convertAll step cs)) \<le> m * length cs"
  using assms
proof (induction step cs rule: convertAll.induct)
  case (1 step)
  then show ?case by simp
next
  case (2 step c cs)
  obtain out b k where s: "step c cs = (out, b, k)" by (cases "step c cs") auto
  with 2(2) [of c cs] have k: "length out \<le> m * Suc k" "k \<le> length cs" by auto
  have "length (fst (convertAll step (drop k cs))) \<le> m * (length cs - k)"
    using 2(1) [OF s [symmetric] refl refl 2(2)] by simp
  moreover have "m * Suc k + m * (length cs - k) = m * length (c # cs)"
    using k(2) by (simp add: algebra_simps flip: distrib_left)
  ultimately show ?case using s k(1) by (simp add: split_def Let_def)
qed

section \<open>Escaped names\<close>

lemma escapeLoop_result:
  "j + length (concat (map escapeChar str)) \<le> length buf
   \<Longrightarrow> escapeLoop str j buf = Some (j + length (concat (map escapeChar str)),
        take j buf @ concat (map escapeChar str) @ drop (j + length (concat (map escapeChar str))) buf)"
proof (induction str arbitrary: j buf)
  case Nil
  then show ?case by simp
next
  case (Cons c str)
  let ?e = "escapeChar c" and ?r = "concat (map escapeChar str)"
  have le: "j + length ?e \<le> length buf" "length (take j buf) = j" using Cons.prems by auto
  have p: "putUnits ?e j buf = take j buf @ ?e @ drop (j + length ?e) buf"
    using le by (intro putUnits_splice) simp
  have t: "take (j + length ?e) (putUnits ?e j buf) = take j buf @ ?e"
    unfolding p using le(2) by simp
  have d: "drop (j + (length ?e + length ?r)) (putUnits ?e j buf) = drop (j + (length ?e + length ?r)) buf"
    unfolding p using le(2) by (simp add: ac_simps)
  from Cons.IH [of "j + length ?e" "putUnits ?e j buf"] Cons.prems le t d show ?case
    by (simp add: Let_def add.assoc)
qed

lemma nibble_less: "unat ((x :: jchar) AND 0x0F) < 16"
proof -
  have "x AND 0x0F < 2 ^ 4" using and_mask_less' [of 4 x] by (simp add: mask_eq_exp_minus_1)
  then show ?thesis by (simp add: word_less_nat_alt)
qed

lemma hexValue_NUMS: "k < 16 \<Longrightarrow> hexValue (NUMS ! k) = word_of_nat k"
  by (drule less_16, elim insertE emptyE; hypsubst) (simp_all add: NUMS_def hexValue_def)

lemma hexValue_nibble: "hexValue (NUMS ! unat ((x :: jchar) AND 0x0F)) = x AND 0x0F"
  using hexValue_NUMS [OF nibble_less [of x]] by simp

lemma add_nibble: "push_bit 4 v + (x AND 0x0F) = push_bit 4 v OR ((x :: jchar) AND 0x0F)"
proof (rule disjunctive_add_eq_or, rule word16_eqI)
  fix n assume "n \<in> {0, 1, 2, 3, 4, 5, 6, 7, 8, 9, 10, 11, 12, 13, 14, 15::nat}"
  then show "bit (push_bit 4 v AND (x AND 0x0F)) n = bit (0 :: jchar) n"
    by (elim insertE emptyE; hypsubst) (simp_all add: bit_simps)
qed

lemma nibbles_recombine:
  "push_bit 4 (push_bit 4 (push_bit 4 (drop_bit 12 c AND 0x0F) + (drop_bit 8 c AND 0x0F))
     + (drop_bit 4 c AND 0x0F)) + (c AND 0x0F) = (c :: jchar)"
  unfolding add_nibble
proof (rule word16_eqI)
  fix n assume "n \<in> {0, 1, 2, 3, 4, 5, 6, 7, 8, 9, 10, 11, 12, 13, 14, 15::nat}"
  then show "bit (push_bit 4 (push_bit 4 (push_bit 4 (drop_bit 12 c AND 0x0F) OR (drop_bit 8 c AND 0x0F))
     OR (drop_bit 4 c AND 0x0F)) OR (c AND 0x0F)) n = bit c n"
    by (elim insertE emptyE; hypsubst) (simp_all add: bit_simps)
qed

lemma unescape_escape:
  "unescapeLoop (pre @ concat (map escapeChar str)) (length pre) res = Some (res @ str)"
proof (induction str arbitrary: pre res)
  case Nil
  then show ?case by (simp add: unescapeLoop.simps)
next
  case (Cons c str)
  let ?r = "concat (map escapeChar str)"
  consider (plain) "(c \<ge> 0x61 \<and> c \<le> 0x7A) \<or> (c \<ge> 0x30 \<and> c \<le> 0x39)"
    | (upper) "\<not> ((c \<ge> 0x61 \<and> c \<le> 0x7A) \<or> (c \<ge> 0x30 \<and> c \<le> 0x39))" "c \<ge> 0x41 \<and> c \<le> 0x5A"
    | (other) "\<not> ((c \<ge> 0x61 \<and> c \<le> 0x7A) \<or> (c \<ge> 0x30 \<and> c \<le> 0x39))" "\<not> (c \<ge> 0x41 \<and> c \<le> 0x5A)"
    by blast
  then show ?case
  proof cases
    case plain
    then have "escapeChar c = [c]" "c \<noteq> charPercent" "c \<noteq> charHash" by (auto simp: escapeChar_def)
    with Cons.IH [of "pre @ [c]" "res @ [c]"] show ?thesis
      by (subst unescapeLoop.simps) (simp add: nth_append)
  next
    case upper
    then have e: "escapeChar c = [charHash, c]" and "c \<noteq> charPercent" "c \<noteq> charHash"
      by (auto simp: escapeChar_def)
    then have "unescapeLoop ((pre @ [charHash]) @ c # ?r) (length (pre @ [charHash])) res
        = Some (res @ c # str)"
      using Cons.IH [of "pre @ [charHash, c]" "res @ [c]"]
      by (subst unescapeLoop.simps) (simp add: nth_append)
    with e show ?thesis by (subst unescapeLoop.simps) (simp add: nth_append)
  next
    case other
    obtain d1 d2 d3 d4 where e: "escapeChar c = [charPercent, d1, d2, d3, d4]" and
      h: "hexValue d1 = drop_bit 12 c AND 0x0F" "hexValue d2 = drop_bit 8 c AND 0x0F"
        "hexValue d3 = drop_bit 4 c AND 0x0F" "hexValue d4 = c AND 0x0F"
      using other by (simp add: escapeChar_def hexValue_nibble)
    let ?s = "pre @ [charPercent, d1, d2, d3, d4] @ ?r"
    have "unitAt ?s (length pre + 1) = Some d1" "unitAt ?s (length pre + 2) = Some d2"
      "unitAt ?s (length pre + 3) = Some d3" "unitAt ?s (length pre + 4) = Some d4"
      by (simp_all add: unitAt_def nth_append)
    moreover have "unescapeLoop ?s (length pre + 5) (res @ [c]) = Some (res @ c # str)"
      using Cons.IH [of "pre @ [charPercent, d1, d2, d3, d4]" "res @ [c]"]
      by (simp add: add.commute eval_nat_numeral)
    ultimately have "unescapeLoop ?s (length pre) res = Some (res @ c # str)"
      using nibbles_recombine [of c]
      by (subst unescapeLoop.simps) (simp add: nth_append h Let_def)
    with e show ?thesis by simp
  qed
qed

definition lowerCase :: "jchar \<Rightarrow> jchar" where
  "lowerCase x = (if x \<ge> 0x41 \<and> x \<le> 0x5A then x + 0x20 else x)"

lemma NUMS_lower: "k < 16 \<Longrightarrow> lowerCase (NUMS ! k) = NUMS ! k"
  by (drule less_16, elim insertE emptyE; hypsubst) (simp_all add: NUMS_def lowerCase_def)

lemma NUMS_lower_nibble: "lowerCase (NUMS ! unat ((x :: jchar) AND 0x0F)) = NUMS ! unat (x AND 0x0F)"
  by (rule NUMS_lower [OF nibble_less])

lemma lowerCase_upper_inj:
  "\<lbrakk>c \<ge> 0x41 \<and> c \<le> 0x5A; d \<ge> 0x41 \<and> d \<le> 0x5A; lowerCase c = lowerCase d\<rbrakk> \<Longrightarrow> c = d"
  by (simp add: lowerCase_def)

lemma escapeChar_cases:
  obtains (plain) "escapeChar c = [c]" "(c \<ge> 0x61 \<and> c \<le> 0x7A) \<or> (c \<ge> 0x30 \<and> c \<le> 0x39)"
    "lowerCase c = c" "c \<noteq> charHash" "c \<noteq> charPercent"
  | (upper) "escapeChar c = [charHash, c]" "c \<ge> 0x41 \<and> c \<le> 0x5A"
  | (other) "escapeChar c = [charPercent, NUMS ! unat (drop_bit 12 c AND 0x0F),
      NUMS ! unat (drop_bit 8 c AND 0x0F), NUMS ! unat (drop_bit 4 c AND 0x0F), NUMS ! unat (c AND 0x0F)]"
proof -
  consider (p) "(c \<ge> 0x61 \<and> c \<le> 0x7A) \<or> (c \<ge> 0x30 \<and> c \<le> 0x39)"
    | (u) "\<not> ((c \<ge> 0x61 \<and> c \<le> 0x7A) \<or> (c \<ge> 0x30 \<and> c \<le> 0x39))" "c \<ge> 0x41 \<and> c \<le> 0x5A"
    | (o) "\<not> ((c \<ge> 0x61 \<and> c \<le> 0x7A) \<or> (c \<ge> 0x30 \<and> c \<le> 0x39))" "\<not> (c \<ge> 0x41 \<and> c \<le> 0x5A)"
    by blast
  then show thesis
  proof cases
    case p
    have "\<not> (c \<ge> 0x41 \<and> c \<le> 0x5A)"
    proof
      assume u: "c \<ge> 0x41 \<and> c \<le> 0x5A"
      from p show False
      proof
        assume "c \<ge> 0x61 \<and> c \<le> 0x7A"
        with u have "(0x61 :: jchar) \<le> 0x5A" by (blast intro: order_trans)
        then show False by simp
      next
        assume "c \<ge> 0x30 \<and> c \<le> 0x39"
        with u have "(0x41 :: jchar) \<le> 0x39" by (blast intro: order_trans)
        then show False by simp
      qed
    qed
    with p show thesis by (intro plain) (auto simp: escapeChar_def lowerCase_def)
  next
    case u
    then show thesis by (intro upper) (auto simp: escapeChar_def)
  next
    case o
    then show thesis by (intro other) (simp add: escapeChar_def)
  qed
qed

lemma nibbles_inj:
  assumes "NUMS ! unat (drop_bit 12 c AND 0x0F) = NUMS ! unat (drop_bit 12 d AND 0x0F)"
    "NUMS ! unat (drop_bit 8 c AND 0x0F) = NUMS ! unat (drop_bit 8 d AND 0x0F)"
    "NUMS ! unat (drop_bit 4 c AND 0x0F) = NUMS ! unat (drop_bit 4 d AND 0x0F)"
    "NUMS ! unat (c AND 0x0F) = NUMS ! unat (d AND (0x0F :: jchar))"
  shows "c = d"
proof -
  have e: "drop_bit 12 c AND 0x0F = drop_bit 12 d AND 0x0F" "drop_bit 8 c AND 0x0F = drop_bit 8 d AND 0x0F"
    "drop_bit 4 c AND 0x0F = drop_bit 4 d AND 0x0F" "c AND 0x0F = d AND 0x0F"
    using assms [THEN arg_cong, of hexValue] by (simp_all only: hexValue_nibble)
  have "c = push_bit 4 (push_bit 4 (push_bit 4 (drop_bit 12 c AND 0x0F) + (drop_bit 8 c AND 0x0F))
     + (drop_bit 4 c AND 0x0F)) + (c AND 0x0F)"
    by (rule nibbles_recombine [symmetric])
  also have "\<dots> = d" unfolding e by (rule nibbles_recombine)
  finally show ?thesis .
qed

lemma escapeChar_lower_prefix:
  assumes "map lowerCase (escapeChar c) @ r = map lowerCase (escapeChar d) @ r'"
  shows "c = d"
proof -
  have m: "lowerCase charHash = charHash" "lowerCase charPercent = charPercent"
    "charHash \<noteq> charPercent" by (simp_all add: lowerCase_def)
  show ?thesis
  proof (cases c rule: escapeChar_cases)
    case c: plain
    show ?thesis
      by (cases d rule: escapeChar_cases) (use assms c m in \<open>simp_all only: list.map append_Cons list.inject simp_thms\<close>)
  next
    case c: upper
    show ?thesis
    proof (cases d rule: escapeChar_cases)
      case d: upper
      show ?thesis using assms unfolding c(1) d(1)
        by (intro lowerCase_upper_inj [OF c(2) d(2)]) simp
    qed (use assms c(1) m in \<open>simp_all only: list.map append_Cons list.inject simp_thms\<close>)
  next
    case c: other
    show ?thesis
    proof (cases d rule: escapeChar_cases)
      case d: other
      show ?thesis
        by (rule nibbles_inj)
          (use assms c d in \<open>simp_all only: list.map append_Cons list.inject NUMS_lower_nibble\<close>)
    qed (use assms c m in \<open>simp_all only: list.map append_Cons list.inject simp_thms\<close>)
  qed
qed

lemma escape_lower_inj:
  "map lowerCase (concat (map escapeChar s)) = map lowerCase (concat (map escapeChar t)) \<Longrightarrow> s = t"
proof (induction s arbitrary: t)
  case Nil
  have "escapeChar c \<noteq> []" for c by (simp add: escapeChar_def)
  with Nil show ?case by (cases t) auto
next
  case (Cons c s)
  have ne: "escapeChar x \<noteq> []" for x by (simp add: escapeChar_def)
  with Cons.prems obtain d t' where t: "t = d # t'" by (cases t) auto
  with Cons.prems have eq: "map lowerCase (escapeChar c) @ map lowerCase (concat (map escapeChar s))
      = map lowerCase (escapeChar d) @ map lowerCase (concat (map escapeChar t'))" by simp
  then have "c = d" by (rule escapeChar_lower_prefix)
  with eq Cons.IH [of t'] t show ?case by simp
qed

definition fileNameChar :: "jchar \<Rightarrow> bool" where
  "fileNameChar x \<longleftrightarrow> x \<ge> 0x61 \<and> x \<le> 0x7A \<or> x \<ge> 0x30 \<and> x \<le> 0x39 \<or> x \<ge> 0x41 \<and> x \<le> 0x5A
     \<or> x = charHash \<or> x = charPercent"

lemma NUMS_fileName: "k < 16 \<Longrightarrow> fileNameChar (NUMS ! k)"
  by (drule less_16, elim insertE emptyE; hypsubst) (simp_all add: NUMS_def fileNameChar_def)

lemma escape_fileName: "list_all fileNameChar (concat (map escapeChar s))"
proof -
  have "list_all fileNameChar (escapeChar c)" for c
    using NUMS_fileName [OF nibble_less]
    by (cases c rule: escapeChar_cases) (auto simp: fileNameChar_def)
  then show ?thesis by (simp add: list_all_iff)
qed

section \<open>Code points\<close>

definition scalarValue :: "32 word \<Rightarrow> bool" where
  "scalarValue cp \<longleftrightarrow> cp \<le> 0x10FFFF \<and> \<not> (cp \<ge> 0xD800 \<and> cp \<le> 0xDFFF)"

lemma bmp_test: "(cp :: 32 word) AND 0xFFFF0000 = 0 \<longleftrightarrow> cp < 0x10000"
proof
  assume "cp AND 0xFFFF0000 = 0"
  have "cp = (cp AND 0xFFFF0000) OR (cp AND NOT 0xFFFF0000)"
    by (simp flip: bit.conj_disj_distrib)
  also have "NOT 0xFFFF0000 = (0xFFFF :: 32 word)" by (simp add: word_uint_eq_iff)
  also have "(cp AND 0xFFFF0000) OR (cp AND 0xFFFF) = cp AND 0xFFFF"
    using \<open>cp AND 0xFFFF0000 = 0\<close> by simp
  also have "\<dots> < 2 ^ 16" using and_mask_less' [of 16 cp] by (simp add: mask_eq_exp_minus_1)
  finally show "cp < 0x10000" by simp
next
  assume "cp < 0x10000"
  then have h: "\<not> bit cp k" if "16 \<le> k" for k using less_bits [of cp 16 k] that by simp
  show "cp AND 0xFFFF0000 = 0"
  proof (rule bit_word_eqI)
    fix n assume "n < LENGTH(32)"
    have "n \<in> {0, 1, 2, 3, 4, 5, 6, 7, 8, 9, 10, 11, 12, 13, 14, 15} \<or> 16 \<le> n"
      by (auto simp: eval_nat_numeral less_Suc_eq not_le)
    then show "bit (cp AND 0xFFFF0000) n = bit (0 :: 32 word) n"
    proof
      assume "n \<in> {0, 1, 2, 3, 4, 5, 6, 7, 8, 9, 10, 11, 12, 13, 14, 15}"
      then show ?thesis by (elim insertE emptyE; hypsubst) (simp_all add: bit_simps)
    qed (use h in \<open>simp add: bit_simps\<close>)
  qed
qed

lemma ucast_16: "uint (cp :: 32 word) < 0x10000 \<Longrightarrow> uint (ucast cp :: jchar) = uint cp"
  by (simp add: unsigned_ucast_eq unsigned_take_bit_eq take_bit_int_eq_self)

lemma bmp_units:
  assumes "cp < 0x10000" "scalarValue cp"
  shows "\<exists>c. pcsl_code_point_to_utf16_code_unit cp = (PCSL_STRING_OK, [c])
    \<and> \<not> highHalf c \<and> \<not> lowHalf c \<and> uint c = uint cp"
proof -
  have "cp AND 0xFFFF = cp" using less_mask_eq [of cp 16] assms(1) by (simp add: mask_eq_exp_minus_1)
  moreover have u: "uint (ucast cp :: jchar) = uint cp"
    using assms(1) by (intro ucast_16) (simp add: word_less_def)
  moreover have "\<not> (0xD800 \<le> uint cp \<and> uint cp \<le> 0xDFFF)"
    using assms(2) by (simp add: scalarValue_def word_le_def)
  then have "\<not> highHalf (ucast cp :: jchar)" "\<not> lowHalf (ucast cp :: jchar)"
    using u by (auto simp: word_le_def)
  ultimately show ?thesis using assms(1)
    by (simp add: pcsl_code_point_to_utf16_code_unit_def bmp_test)
qed

lemma supplementary_units:
  assumes "0x10000 \<le> cp" "cp \<le> 0x10FFFF"
  shows "\<exists>hi lo. pcsl_code_point_to_utf16_code_unit cp = (PCSL_STRING_OK, [hi, lo])
    \<and> highHalf hi \<and> lowHalf lo \<and> surrogateUcs4 hi lo = cp"
proof -
  let ?off = "cp - 0x10000"
  let ?hi = "ucast (drop_bit 10 ?off + 0xD800) :: jchar"
  let ?lo = "ucast ((?off AND 0x3FF) + 0xDC00) :: jchar"
  have c: "0x10000 \<le> uint cp" "uint cp \<le> 0x10FFFF" using assms by (simp_all add: word_le_def)
  then have s: "sint cp = uint cp" by (simp add: sint_uint signed_take_bit_int_eq_self)
  have o: "uint ?off = uint cp - 0x10000" using assms c by (simp add: uint_minus_simple_alt)
  have d: "uint (drop_bit 10 ?off) = (uint cp - 0x10000) div 1024"
    by (simp add: drop_bit_eq_div uint_div o)
  have a: "uint (?off AND 0x3FF) = (uint cp - 0x10000) mod 1024"
  proof -
    have "?off AND 0x3FF = word_of_int ((uint cp - 0x10000) mod 1024)"
      using o and_mask_bintr [of ?off 10] by (simp add: mask_eq_exp_minus_1 take_bit_eq_mod)
    moreover have "(uint cp - 0x10000) mod 1024 < 2 ^ 32"
      using pos_mod_bound [of 1024 "uint cp - 0x10000"] by simp
    ultimately show ?thesis by (simp add: uint_word_of_int_eq take_bit_int_eq_self)
  qed
  have b: "(uint cp - 0x10000) div 1024 \<le> 0x3FF" "0 \<le> (uint cp - 0x10000) div 1024"
    using c by auto
  have dh: "uint (drop_bit 10 ?off + 0xD800) = (uint cp - 0x10000) div 1024 + 0xD800"
    using b by (simp add: uint_word_ariths d)
  have dl: "uint ((?off AND 0x3FF) + 0xDC00) = (uint cp - 0x10000) mod 1024 + 0xDC00"
    by (simp add: uint_word_ariths a)
  have h: "uint ?hi = (uint cp - 0x10000) div 1024 + 0xD800"
    using b by (subst ucast_16) (simp_all add: dh)
  have l: "uint ?lo = (uint cp - 0x10000) mod 1024 + 0xDC00"
    by (subst ucast_16) (simp_all add: dl)
  have hl: "highHalf ?hi" "lowHalf ?lo" using b by (simp_all add: word_le_def h l)
  have "uint (surrogateUcs4 ?hi ?lo) = uint cp"
    using surrogate_value [OF hl] by (simp add: h l)
  then have "surrogateUcs4 ?hi ?lo = cp" by (simp add: word_uint_eq_iff)
  moreover have "\<not> cp < 0x10000" using assms(1) by simp
  ultimately show ?thesis using hl s c
    by (auto simp: pcsl_code_point_to_utf16_code_unit_def bmp_test Let_def)
qed

lemma length_loop_units:
  assumes "scalarValue cp"
  shows "utf16LengthLoop (snd (pcsl_code_point_to_utf16_code_unit cp) @ rest) n
    = utf16LengthLoop rest (n + 1)"
proof (cases "cp < 0x10000")
  case True
  with bmp_units [OF True assms] show ?thesis by auto
next
  case False
  then obtain hi lo where "pcsl_code_point_to_utf16_code_unit cp = (PCSL_STRING_OK, [hi, lo])"
    "highHalf hi" "lowHalf lo"
    using supplementary_units [of cp] assms by (auto simp: scalarValue_def not_less)
  moreover from this have "\<not> (lo < 0xDC00 \<or> lo > 0xDFFF)" by auto
  ultimately show ?thesis by simp
qed

lemma length_loop_all:
  "list_all scalarValue cps \<Longrightarrow>
   utf16LengthLoop (concat (map (snd \<circ> pcsl_code_point_to_utf16_code_unit) cps)) n = n + int (length cps)"
  by (induction cps arbitrary: n) (auto simp: length_loop_units)

section \<open>The codecs\<close>

definition encodeUtf8 :: "jchar list \<Rightarrow> jbyte list" where
  "encodeUtf8 us = fst (convertAll utf16Step us)"

definition decodeUtf8 :: "jbyte list \<Rightarrow> jchar list option" where
  "decodeUtf8 bs = (case pcsl_utf8_convert_to_utf16 (Some bs) (Some (replicate (length bs) 0)) of
     (PCSL_STRING_OK, n, Some buf) \<Rightarrow> Some (take n buf) | _ \<Rightarrow> None)"

lemma decodeUtf8_eq:
  "decodeUtf8 bs = (case convertAll utf8Step bs of (us, bad) \<Rightarrow> if bad then None else Some us)"
proof -
  have "length (fst (convertAll utf8Step bs)) \<le> 1 * length bs"
    by (rule convertAll_length) (use utf8Step_length in auto)
  then show ?thesis
    using conversion_result(2) [of utf8Step bs "replicate (length bs) 0"]
    by (auto simp: decodeUtf8_def pcsl_utf8_convert_to_utf16_def split_def split: prod.splits)
qed

interpretation utf8: codec encodeUtf8 decodeUtf8 wellFormed16
  by unfold_locales (use roundtrip_all in \<open>auto simp: encodeUtf8_def decodeUtf8_eq\<close>)

interpretation fname: codec "\<lambda>s. concat (map escapeChar s)" "\<lambda>s. unescapeLoop s 0 []" "\<lambda>_. True"
  by unfold_locales (use unescape_escape [of "[]"] in simp)

section \<open>Properties\<close>

text \<open>
  C11. UTF-16 survives UTF-8: a string in which high and low halves come in pairs, encoded
  into any buffer that is large enough and decoded from it into another, gives status OK both
  times and the same string; what lies behind the output in either buffer is untouched.
\<close>

theorem utf16_utf8_roundtrip:
  assumes "wellFormed16 us" "pcsl_utf16_convert_to_utf8 (Some us) (Some buf) = (st, n, Some buf')"
    and "n \<le> length buf" "length us \<le> length buf2"
  shows "st = PCSL_STRING_OK \<and> length buf' = length buf \<and> drop n buf' = drop n buf
    \<and> pcsl_utf8_convert_to_utf16 (Some (take n buf')) (Some buf2)
        = (PCSL_STRING_OK, length us, Some (us @ drop (length us) buf2))"
proof -
  let ?e = "fst (convertAll utf16Step us)"
  have rt: "\<not> snd (convertAll utf16Step us)" "convertAll utf8Step ?e = (us, False)"
    using roundtrip_all [OF assms(1)] by auto
  have 1: "st = PCSL_STRING_OK" "n = length ?e" "buf' = ?e @ drop n buf" "length buf' = length buf"
    using conversion_result(2) [of utf16Step us buf] assms(2,3) rt(1)
    by (auto simp: pcsl_utf16_convert_to_utf8_def)
  then have "take n buf' = ?e" by simp
  moreover have "pcsl_utf8_convert_to_utf16 (Some ?e) (Some buf2)
      = (PCSL_STRING_OK, length us, Some (us @ drop (length us) buf2))"
    using conversion_result(2) [of utf8Step ?e buf2] rt(2) assms(4)
    by (auto simp: pcsl_utf8_convert_to_utf16_def)
  moreover have "drop n buf' = drop n buf" using 1(2,3) by simp
  ultimately show ?thesis using 1(1,4) by simp
qed

theorem utf16_utf8_roundtrip_witness:
  "\<exists>buf'. pcsl_utf16_convert_to_utf8 (Some [0x41, 0x20AC, 0xD83D, 0xDE00]) (Some (replicate 10 0))
       = (PCSL_STRING_OK, 8, Some buf')
     \<and> pcsl_utf8_convert_to_utf16 (Some (take 8 buf')) (Some [0, 0, 0, 0])
       = (PCSL_STRING_OK, 4, Some [0x41, 0x20AC, 0xD83D, 0xDE00])"
proof -
  let ?us = "[0x41, 0x20AC, 0xD83D, 0xDE00] :: jchar list"
  have w: "wellFormed16 ?us" by simp
  have len: "length (fst (convertAll utf16Step ?us)) = 8"
    by (simp add: utf16Step_def Let_def)
  obtain buf' where e: "pcsl_utf16_convert_to_utf8 (Some ?us) (Some (replicate 10 0))
      = (PCSL_STRING_OK, 8, Some buf')"
    using conversion_result(2) [of utf16Step ?us "replicate 10 0"] len roundtrip_all [OF w]
    by (auto simp: pcsl_utf16_convert_to_utf8_def)
  from utf16_utf8_roundtrip [OF w e, of "[0, 0, 0, 0]"] e show ?thesis by simp
qed

text \<open>
  A conversion can be sized first: decoding with no buffer gives the length the decoding
  with a buffer reports, at most one unit for each byte; the second call overflows exactly
  when the buffer is shorter than that, and otherwise has the status of the first.
\<close>

theorem utf8_sizing_call:
  fixes bs :: "jbyte list" and buf :: "jchar list"
  shows "\<exists>st n buf'. pcsl_utf8_convert_to_utf16 (Some bs) None = (st, n, None) \<and> n \<le> length bs
    \<and> pcsl_utf8_convert_to_utf16 (Some bs) (Some buf)
        = (if n \<le> length buf then st else PCSL_STRING_BUFFER_OVERFLOW, n, Some buf')
    \<and> length buf' = length buf"
proof -
  have "length (fst (convertAll utf8Step bs)) \<le> 1 * length bs"
    by (rule convertAll_length) (use utf8Step_length in auto)
  with conversion_result(1) [of utf8Step bs] conversion_result(2) [of utf8Step bs buf]
  show ?thesis by (auto simp: pcsl_utf8_convert_to_utf16_def)
qed

text \<open>
  The decoder accepts what is not UTF-8: an overlong four-byte sequence gives status OK
  and a unit below the surrogates, a value above 0x10FFFF gives status OK and an unpaired low
  half, and the decoded string does not encode back.
\<close>

theorem utf8_accepts_invalid:
  "pcsl_utf8_convert_to_utf16 (Some [0xF0, 0x80, 0x80, 0x80]) (Some [0, 0])
     = (PCSL_STRING_OK, 2, Some [0xD7C0, 0xDC00])
   \<and> pcsl_utf8_convert_to_utf16 (Some [0xF7, 0xBF, 0xBF, 0xBF]) (Some [0, 0])
     = (PCSL_STRING_OK, 2, Some [0xDFBF, 0xDFFF])
   \<and> pcsl_utf8_convert_to_utf16 (Some [0xC0, 0x80]) (Some [0]) = (PCSL_STRING_OK, 1, Some [0])
   \<and> fst (pcsl_utf16_convert_to_utf8 (Some [0xDFBF, 0xDFFF]) None) = PCSL_STRING_EILSEQ"
  by (simp add: pcsl_utf8_convert_to_utf16_def pcsl_utf16_convert_to_utf8_def conversionResult_def
      utf8Step_def utf16Step_def storeOut_def surrogates_def utf8Ucs4_def utf8Pair_def
      signed_divide_int_def signed_modulo_int_def Let_def)

text \<open>
  \<^verbatim>\<open>utf16_string_length\<close> counts code points: the concatenated units of any Unicode scalar
  values have their number as length. It is not the promised validity test: an unpaired low
  half counts as a character.
\<close>

theorem utf16_length_counts_code_points:
  assumes "list_all scalarValue cps"
  shows "utf16_string_length (Some (concat (map (snd \<circ> pcsl_code_point_to_utf16_code_unit) cps)))
      = int (length cps)
    \<and> utf16_string_length (Some [0xDC00]) = 1"
  using length_loop_all [OF assms, of 0] by (simp add: utf16_string_length_def)

theorem utf16_length_counts_code_points_witness:
  "utf16_string_length (Some [0x41, 0xD83D, 0xDE00]) = 2"
proof -
  have "list_all scalarValue [0x41, 0x1F600]" by (simp add: scalarValue_def)
  moreover have "concat (map (snd \<circ> pcsl_code_point_to_utf16_code_unit) [0x41, 0x1F600])
      = [0x41, 0xD83D, 0xDE00]"
    by (simp add: pcsl_code_point_to_utf16_code_unit_def Let_def)
  ultimately show ?thesis using utf16_length_counts_code_points [of "[0x41, 0x1F600]"] by simp
qed

text \<open>
  C12. Escaped names are safe for the file system: every name is escaped into letters,
  digits, number and percent signs, the inverse recovers it, and two different names differ
  in more than the case of their escaped letters.
\<close>

theorem escaped_names_safe:
  assumes "pcsl_utf16_to_escaped_ascii s buf1 0 = Some (n, buf1')"
    and "pcsl_utf16_to_escaped_ascii t buf2 0 = Some (m, buf2')"
    and "5 * length s \<le> length buf1" "5 * length t \<le> length buf2"
  shows "list_all fileNameChar (take n buf1')
    \<and> unescapeLoop (take n buf1') 0 [] = Some s
    \<and> (map lowerCase (take n buf1') = map lowerCase (take m buf2') \<longrightarrow> s = t)"
proof -
  have len: "length (concat (map escapeChar s)) \<le> 5 * length s" for s
    by (induction s) (auto simp: escapeChar_def)
  have e: "take k b' = concat (map escapeChar s)"
    if "pcsl_utf16_to_escaped_ascii s b 0 = Some (k, b')" "5 * length s \<le> length b" for s k b b'
    using escapeLoop_result [of 0 s b] len [of s] that
    by (auto simp: pcsl_utf16_to_escaped_ascii_def)
  have 1: "take n buf1' = concat (map escapeChar s)" using e [OF assms(1,3)] .
  have 2: "take m buf2' = concat (map escapeChar t)" using e [OF assms(2,4)] .
  show ?thesis unfolding 1 2
    using escape_fileName [of s] unescape_escape [of "[]" s "[]"] escape_lower_inj [of s t]
    by simp
qed

theorem escaped_names_safe_witness:
  "\<exists>b1 b2. pcsl_utf16_to_escaped_ascii [0x61, 0x41] (replicate 10 0) 0 = Some (3, b1)
     \<and> pcsl_utf16_to_escaped_ascii [0x2F] (replicate 5 0) 0 = Some (5, b2)
     \<and> unescapeLoop (take 3 b1) 0 [] = Some [0x61, 0x41]"
proof -
  obtain b1 where b1: "pcsl_utf16_to_escaped_ascii [0x61, 0x41] (replicate 10 0) 0 = Some (3, b1)"
    by (simp add: pcsl_utf16_to_escaped_ascii_def escapeChar_def Let_def)
  obtain b2 where b2: "pcsl_utf16_to_escaped_ascii [0x2F] (replicate 5 0) 0 = Some (5, b2)"
    by (simp add: pcsl_utf16_to_escaped_ascii_def escapeChar_def Let_def)
  from escaped_names_safe [OF b1 b2] b1 b2 show ?thesis by simp
qed

end
