(* ===== verification/PcslString.thy ===== *)
theory PcslString
  imports Utf "HOL-Library.Sublist"
begin

text \<open>
  The strings of the PCSL library, \<^verbatim>\<open>pcsl/string/utf16/pcsl_string.c\<close>: a buffer of UTF-16 units with
  its terminating zero, the number of its cells and flags. A pointer to a string is \<open>None\<close> for
  \<^verbatim>\<open>NULL\<close> and else \<open>Some\<close> the contents; an operation returns its status with the new contents of
  the string it stores into. \<^verbatim>\<open>mem n\<close> says whether an allocation of \<open>n\<close> bytes succeeds. An outer
  \<open>None\<close> is undefined behaviour of the C code.
\<close>

section \<open>Strings\<close>

type_synonym jlong = "64 word"
type_synonym jint = "32 word"

record PcslString =
  sData :: "jchar list option"
  sLength :: int
  sFlags :: int

definition PCSL_STRING_IN_HEAP :: int where
  "PCSL_STRING_IN_HEAP = 1"

definition EMPTY_STRING :: PcslString where
  "EMPTY_STRING = \<lparr>sData = Some [0], sLength = 1, sFlags = 0\<rparr>"

definition NULL_STRING :: PcslString where
  "NULL_STRING = \<lparr>sData = None, sLength = 0, sFlags = 0\<rparr>"

text \<open>
  A block from \<^verbatim>\<open>pcsl_mem_malloc\<close>: its size in bytes gives the number of cells, none written.
  The copies and stores test both ranges: an access outside of a block is \<open>None\<close>. A string
  built in a block keeps the length the code stores, whatever the size of the block; a cell that
  was never written makes its contents undefined, \<open>None\<close> again.
\<close>

definition allocCells :: "int \<Rightarrow> jchar option list" where
  "allocCells bytes = replicate (nat (bytes div 2)) None"

definition memcpyCells :: "jchar option list \<Rightarrow> int \<Rightarrow> jchar list \<Rightarrow> int \<Rightarrow> int \<Rightarrow> jchar option list option" where
  "memcpyCells dst at src from n =
     (if 0 \<le> n \<and> 0 \<le> at \<and> at + n \<le> int (length dst) \<and> 0 \<le> from \<and> from + n \<le> int (length src)
      then Some (take (nat at) dst @ map Some (take (nat n) (drop (nat from) src)) @ drop (nat (at + n)) dst)
      else None)"

definition storeCell :: "jchar option list \<Rightarrow> int \<Rightarrow> jchar \<Rightarrow> jchar option list option" where
  "storeCell dst at c = memcpyCells dst at [c] 0 1"

definition reallocCells :: "jchar option list \<Rightarrow> int \<Rightarrow> jchar option list" where
  "reallocCells block bytes =
     take (nat (bytes div 2)) block @ replicate (nat (bytes div 2) - length block) None"

definition builtString :: "jchar option list \<Rightarrow> int \<Rightarrow> PcslString option" where
  "builtString block len =
     (if list_all (\<lambda>c. c \<noteq> None) block
      then Some \<lparr>sData = Some (map the block), sLength = len, sFlags = PCSL_STRING_IN_HEAP\<rparr> else None)"

text \<open>The string in a block of just its cells; the cells the operations read.\<close>

definition heapString :: "jchar list \<Rightarrow> PcslString" where
  "heapString cells = \<lparr>sData = Some cells, sLength = int (length cells), sFlags = PCSL_STRING_IN_HEAP\<rparr>"

definition cellsOf :: "PcslString \<Rightarrow> jchar list" where
  "cellsOf s = (case sData s of None \<Rightarrow> [] | Some d \<Rightarrow> take (nat (sLength s)) d)"

definition bufferOf :: "PcslString \<Rightarrow> jchar list" where
  "bufferOf s = (case sData s of None \<Rightarrow> [] | Some d \<Rightarrow> d)"

text \<open>
  The status and what the destination holds: \<open>None\<close> for the destination \<^verbatim>\<open>NULL\<close>, which no operation
  answers with OK, or with the status OK for undefined behaviour.
\<close>

type_synonym 'a stored = "pcsl_string_status \<times> 'a option"

definition pcsl_string_is_active :: "bool \<Rightarrow> bool" where
  "pcsl_string_is_active active = active"

definition pcsl_string_initialize :: "bool \<Rightarrow> pcsl_string_status \<times> bool" where
  "pcsl_string_initialize active = (PCSL_STRING_OK, True)"

definition pcsl_string_finalize :: "bool \<Rightarrow> pcsl_string_status \<times> bool" where
  "pcsl_string_finalize active = (PCSL_STRING_OK, False)"

section \<open>Lengths\<close>

definition dataOf :: "PcslString option \<Rightarrow> jchar list option" where
  "dataOf str = (case str of None \<Rightarrow> None | Some s \<Rightarrow> map_option (\<lambda>_. cellsOf s) (sData s))"

definition pcsl_string_length :: "PcslString option \<Rightarrow> int" where
  "pcsl_string_length str =
     (case dataOf str of None \<Rightarrow> -1 | Some cells \<Rightarrow> utf16_string_length (Some cells) - 1)"

definition pcsl_string_utf16_length :: "PcslString option \<Rightarrow> int" where
  "pcsl_string_utf16_length str =
     (case str of None \<Rightarrow> -1 | Some s \<Rightarrow> if sData s = None then -1 else sLength s - 1)"

definition pcsl_string_utf8_length :: "PcslString option \<Rightarrow> int" where
  "pcsl_string_utf8_length str =
     (case dataOf str of
        None \<Rightarrow> -1
      | Some cells \<Rightarrow>
          let (status, utf8_length, _) = pcsl_utf16_convert_to_utf8 (Some cells) None in
          if status = PCSL_STRING_OK then int utf8_length - 1 else -1)"

definition pcsl_string_is_null :: "PcslString option \<Rightarrow> bool" where
  "pcsl_string_is_null str = (case str of None \<Rightarrow> False | Some s \<Rightarrow> sData s = None)"

section \<open>Conversions\<close>

text \<open>The result is the status, what is stored in \<^verbatim>\<open>*converted_length\<close> and the buffer.\<close>

definition pcsl_string_convert_to_utf16 :: "PcslString option \<Rightarrow> jchar list option
    \<Rightarrow> pcsl_string_status \<times> int option \<times> jchar list option" where
  "pcsl_string_convert_to_utf16 str buffer =
     (case (str, buffer) of
        (Some s, Some buf) \<Rightarrow>
          if sData s = None then (PCSL_STRING_EINVAL, None, buffer)
          else if sLength s > int (length buf)
          then (PCSL_STRING_BUFFER_OVERFLOW, Some (sLength s - 1), buffer)
          else (PCSL_STRING_OK, Some (sLength s - 1),
                Some (cellsOf s @ drop (length (cellsOf s)) buf))
      | _ \<Rightarrow> (PCSL_STRING_EINVAL, None, buffer))"

definition pcsl_string_convert_to_utf8 :: "PcslString option \<Rightarrow> jbyte list option
    \<Rightarrow> pcsl_string_status \<times> int option \<times> jbyte list option" where
  "pcsl_string_convert_to_utf8 str buffer =
     (case (dataOf str, buffer) of
        (Some cells, Some buf) \<Rightarrow>
          let (status, converted_length, buf') = pcsl_utf16_convert_to_utf8 (Some cells) (Some buf) in
          (status,
           Some (if status = PCSL_STRING_OK then int converted_length - 1 else int converted_length), buf')
      | _ \<Rightarrow> (PCSL_STRING_EINVAL, None, buffer))"

definition stripZeros :: "('a :: zero) list \<Rightarrow> 'a list" where
  "stripZeros buffer = rev (dropWhile (\<lambda>c. c = 0) (rev buffer))"

definition pcsl_string_convert_from_utf16 :: "(int \<Rightarrow> bool) \<Rightarrow> jchar list option \<Rightarrow> int
    \<Rightarrow> PcslString option \<Rightarrow> PcslString stored" where
  "pcsl_string_convert_from_utf16 mem buffer buffer_length string =
     (case (buffer, string) of
        (Some buf, Some _) \<Rightarrow>
          if buffer_length < 0 then (PCSL_STRING_EINVAL, Some NULL_STRING)
          else if buffer_length > int (length buf) then (PCSL_STRING_OK, None)
          else
            let new_buffer_length = int (length (stripZeros (take (nat buffer_length) buf)));
                new_buffer_length = new_buffer_length + 1;
                bytes = 2 * new_buffer_length in
            if \<not> mem bytes then (PCSL_STRING_ENOMEM, Some NULL_STRING)
            else (PCSL_STRING_OK,
                  do { new_buffer \<leftarrow> memcpyCells (allocCells bytes) 0 buf 0 (new_buffer_length - 1);
                       new_buffer \<leftarrow> storeCell new_buffer (new_buffer_length - 1) 0;
                       builtString new_buffer new_buffer_length })
      | _ \<Rightarrow> (PCSL_STRING_EINVAL, string))"

text \<open>
  \<^verbatim>\<open>mem2\<close>: whether the reallocation that trims the buffer succeeds. What the conversion leaves in
  the allocated block is copied into it as a whole.
\<close>

definition pcsl_string_convert_from_utf8 :: "(int \<Rightarrow> bool) \<Rightarrow> bool \<Rightarrow> jbyte list option \<Rightarrow> int
    \<Rightarrow> PcslString option \<Rightarrow> PcslString stored" where
  "pcsl_string_convert_from_utf8 mem mem2 buffer buffer_length string =
     (let max_utf16_length = buffer_length * 2 + 1 in
      case (buffer, string) of
        (Some buf, Some _) \<Rightarrow>
          if buffer_length < 0 then (PCSL_STRING_EINVAL, Some NULL_STRING)
          else if \<not> mem (2 * max_utf16_length) then (PCSL_STRING_ENOMEM, Some NULL_STRING)
          else if buffer_length > int (length buf) then (PCSL_STRING_OK, None)
          else
            let (status, utf16_length, out) =
                  pcsl_utf8_convert_to_utf16 (Some (stripZeros (take (nat buffer_length) buf)))
                    (Some (replicate (nat max_utf16_length) 0)) in
            if status \<noteq> PCSL_STRING_OK then (status, Some NULL_STRING)
            else if int utf16_length + 1 > max_utf16_length then (PCSL_STRING_ERR, Some NULL_STRING)
            else if \<not> mem2 then (PCSL_STRING_ENOMEM, Some NULL_STRING)
            else (PCSL_STRING_OK,
                  do { converted \<leftarrow> out;
                       utf16_buffer \<leftarrow> memcpyCells (allocCells (2 * max_utf16_length)) 0 converted 0
                         (int utf16_length);
                       utf16_buffer \<leftarrow> storeCell utf16_buffer (int utf16_length) 0;
                       let utf16_length = int utf16_length + 1 in
                       builtString (reallocCells utf16_buffer (utf16_length * 2)) utf16_length })
      | _ \<Rightarrow> (PCSL_STRING_EINVAL, string))"

section \<open>Comparison\<close>

text \<open>
  \<^verbatim>\<open>memcmp\<close>: the sign is what C prescribes, the magnitude that of the C library.
\<close>

fun memcmp :: "jbyte list \<Rightarrow> jbyte list \<Rightarrow> int" where
  "memcmp (a # as) (b # bs) = (if a = b then memcmp as bs else uint a - uint b)"
| "memcmp _ _ = 0"

text \<open>
  Comparing the structures: equal contents of all fields. Equal contents in different buffers
  reach the comparison of the data, with the same result.
\<close>

definition pcsl_string_equals :: "PcslString option \<Rightarrow> PcslString option \<Rightarrow> bool" where
  "pcsl_string_equals str1 str2 =
     (case (str1, str2) of
        (None, None) \<Rightarrow> True
      | (Some s1, Some s2) \<Rightarrow>
          if s1 = s2 then True
          else if sData s1 = None \<or> sData s2 = None then False
          else if sLength s1 \<noteq> sLength s2 then False
          else memcmp (jcharBytes (cellsOf s1)) (jcharBytes (cellsOf s2)) = 0
      | _ \<Rightarrow> False)"

definition pcsl_string_compare :: "PcslString option \<Rightarrow> PcslString option \<Rightarrow> int option
    \<Rightarrow> int stored" where
  "pcsl_string_compare str1 str2 comparison =
     (if comparison = None then (PCSL_STRING_EINVAL, comparison)
      else case (str1, str2) of
        (None, None) \<Rightarrow> (PCSL_STRING_OK, Some 0)
      | (Some s1, Some s2) \<Rightarrow>
          if s1 = s2 then (PCSL_STRING_OK, Some 0)
          else if sData s1 = None \<and> sLength s1 > 0 \<or> sData s2 = None \<and> sLength s2 > 0
          then (PCSL_STRING_EINVAL, comparison)
          else
            let min_length = (if sLength s1 < sLength s2 then sLength s1 else sLength s2);
                cmp = (if min_length > 1
                       then memcmp (jcharBytes (take (nat min_length) (cellsOf s1)))
                              (jcharBytes (take (nat min_length) (cellsOf s2)))
                       else 0)
            in (PCSL_STRING_OK, Some (if cmp = 0 then sLength s1 - sLength s2 else cmp))
      | _ \<Rightarrow> (PCSL_STRING_EINVAL, comparison))"

definition pcsl_string_starts_with :: "PcslString option \<Rightarrow> PcslString option \<Rightarrow> bool" where
  "pcsl_string_starts_with str pfx =
     (case pfx of
        None \<Rightarrow> True
      | Some p \<Rightarrow>
          (case str of
             None \<Rightarrow> False
           | Some s \<Rightarrow>
               if sData p = None then True
               else if sData s = None then False
               else if sLength s < sLength p then False
               else if sLength p < 2 then True
               else memcmp (jcharBytes (take (nat (sLength p - 1)) (cellsOf s)))
                      (jcharBytes (take (nat (sLength p - 1)) (cellsOf p))) = 0))"

definition pcsl_string_ends_with :: "PcslString option \<Rightarrow> PcslString option \<Rightarrow> bool" where
  "pcsl_string_ends_with str sfx =
     (case sfx of
        None \<Rightarrow> True
      | Some p \<Rightarrow>
          (case str of
             None \<Rightarrow> False
           | Some s \<Rightarrow>
               if sData p = None then True
               else if sData s = None then False
               else if sLength s < sLength p then False
               else if sLength p < 2 then True
               else memcmp (jcharBytes (drop (nat (sLength s - sLength p)) (cellsOf s)))
                      (jcharBytes (cellsOf p)) = 0))"

section \<open>Building strings\<close>

definition damaged :: "PcslString \<Rightarrow> bool" where
  "damaged s \<longleftrightarrow> sLength s > 0 \<and> sData s = None"

definition pcsl_string_cat :: "(int \<Rightarrow> bool) \<Rightarrow> PcslString option \<Rightarrow> PcslString option
    \<Rightarrow> PcslString option \<Rightarrow> PcslString stored" where
  "pcsl_string_cat mem str1 str2 str =
     (if str = None then (PCSL_STRING_EINVAL, str)
      else
        let src1 = (case str1 of None \<Rightarrow> EMPTY_STRING | Some s \<Rightarrow> s);
            src2 = (case str2 of None \<Rightarrow> EMPTY_STRING | Some s \<Rightarrow> s) in
        if damaged src1 then (PCSL_STRING_EINVAL, str)
        else if damaged src2 then (PCSL_STRING_EINVAL, str)
        else
          let length1 = sLength src1; length2 = sLength src2 in
          if length1 < 2 \<and> length2 < 2 then (PCSL_STRING_OK, Some EMPTY_STRING)
          else
            let length1 = (if length1 > 0 \<and> length2 > 0 then length1 - 1 else length1) in
            let cat_length = length1 + length2 in
            if \<not> mem (cat_length * 2) then (PCSL_STRING_ENOMEM, Some NULL_STRING)
            else (PCSL_STRING_OK,
                  do { cat_buffer \<leftarrow> (if length1 > 0
                         then memcpyCells (allocCells (cat_length * 2)) 0 (bufferOf src1) 0 length1
                         else Some (allocCells (cat_length * 2)));
                       cat_buffer \<leftarrow> (if length2 > 0
                         then memcpyCells cat_buffer length1 (bufferOf src2) 0 length2 else Some cat_buffer);
                       builtString cat_buffer cat_length }))"

definition pcsl_string_dup :: "(int \<Rightarrow> bool) \<Rightarrow> PcslString option \<Rightarrow> PcslString option
    \<Rightarrow> PcslString stored" where
  "pcsl_string_dup mem src dst =
     (case (src, dst) of
        (Some s, Some _) \<Rightarrow>
          if damaged s then (PCSL_STRING_EINVAL, dst)
          else if sFlags s AND PCSL_STRING_IN_HEAP = 0 then (PCSL_STRING_OK, Some s)
          else if sLength s = 0 then (PCSL_STRING_OK, Some NULL_STRING)
          else if sLength s = 1 then (PCSL_STRING_OK, Some EMPTY_STRING)
          else
            let dup_length = sLength s in
            if \<not> mem (dup_length * 2) then (PCSL_STRING_ENOMEM, Some NULL_STRING)
            else (PCSL_STRING_OK,
                  do { dup_buffer \<leftarrow> memcpyCells (allocCells (dup_length * 2)) 0 (bufferOf s) 0 dup_length;
                       builtString dup_buffer dup_length })
      | _ \<Rightarrow> (PCSL_STRING_EINVAL, dst))"

definition pcsl_string_free :: "PcslString option \<Rightarrow> PcslString stored" where
  "pcsl_string_free str =
     (case str of None \<Rightarrow> (PCSL_STRING_EINVAL, None) | Some _ \<Rightarrow> (PCSL_STRING_OK, Some NULL_STRING))"

text \<open>The copy stored through \<^verbatim>\<open>dst\<close>: undefined for \<^verbatim>\<open>NULL\<close>, which \<^verbatim>\<open>pcsl_string_free\<close> only rejects.\<close>

definition pcsl_string_append :: "(int \<Rightarrow> bool) \<Rightarrow> PcslString option \<Rightarrow> PcslString option
    \<Rightarrow> PcslString stored option" where
  "pcsl_string_append mem dst src =
     (let (rc, tmpres) = pcsl_string_cat mem dst src (Some NULL_STRING) in
      if rc \<noteq> PCSL_STRING_OK then Some (rc, dst)
      else case dst of None \<Rightarrow> None | Some _ \<Rightarrow> Some (rc, tmpres))"

definition pcsl_string_append_buf :: "(int \<Rightarrow> bool) \<Rightarrow> PcslString option \<Rightarrow> jchar list option \<Rightarrow> int
    \<Rightarrow> PcslString stored option" where
  "pcsl_string_append_buf mem dst newtext textsize =
     (let (rc, text_str) = pcsl_string_convert_from_utf16 mem newtext textsize (Some NULL_STRING) in
      if rc \<noteq> PCSL_STRING_OK then Some (rc, dst)
      else case text_str of None \<Rightarrow> None | Some _ \<Rightarrow> pcsl_string_append mem dst text_str)"

definition pcsl_string_append_char :: "(int \<Rightarrow> bool) \<Rightarrow> PcslString option \<Rightarrow> jchar
    \<Rightarrow> PcslString stored option" where
  "pcsl_string_append_char mem dst newchar = pcsl_string_append_buf mem dst (Some [newchar]) 1"

definition pcsl_string_predict_size :: "PcslString option \<Rightarrow> int \<Rightarrow> PcslString option" where
  "pcsl_string_predict_size str sz = str"

text \<open>
  \<^verbatim>\<open>end_index - begin_index\<close> in 32 bits. For a begin that is not negative the difference of two
  \<^verbatim>\<open>jint\<close>s only leaves the range below, and a negative begin is rejected.
\<close>

definition jintDiff :: "int \<Rightarrow> int \<Rightarrow> int" where
  "jintDiff end_index begin_index =
     (if end_index - begin_index < - (2 ^ 31) then end_index - begin_index + 2 ^ 32
      else end_index - begin_index)"

definition pcsl_string_substring :: "(int \<Rightarrow> bool) \<Rightarrow> PcslString option \<Rightarrow> int \<Rightarrow> int
    \<Rightarrow> PcslString option \<Rightarrow> PcslString stored" where
  "pcsl_string_substring mem str begin_index end_index dst =
     (let sub_length = jintDiff end_index begin_index in
      case (str, dst) of
        (Some s, Some _) \<Rightarrow>
          if sData s = None then (PCSL_STRING_EINVAL, dst)
          else
            let src_length = pcsl_string_length str in
            if src_length < 0 \<or> begin_index < 0 \<or> sub_length < 0 \<or> end_index > src_length
            then (PCSL_STRING_EINVAL, dst)
            else if sub_length = 0 then (PCSL_STRING_OK, Some EMPTY_STRING)
            else if \<not> mem ((sub_length + 1) * 2) then (PCSL_STRING_ENOMEM, Some NULL_STRING)
            else (PCSL_STRING_OK,
                  do { sub_buffer \<leftarrow> memcpyCells (allocCells ((sub_length + 1) * 2)) 0
                         (bufferOf s) begin_index sub_length;
                       sub_buffer \<leftarrow> storeCell sub_buffer sub_length 0;
                       builtString sub_buffer (sub_length + 1) })
      | _ \<Rightarrow> (PCSL_STRING_EINVAL, dst))"

section \<open>Trimming\<close>

abbreviation blank :: "jchar \<Rightarrow> bool" where
  "blank c \<equiv> c = 0x9 \<or> c = 0x20"

text \<open>The loops over the blanks at the start and at the end, with the pointers as indices.\<close>

function skipBlanks :: "jchar list \<Rightarrow> int \<Rightarrow> int \<Rightarrow> int" where
  "skipBlanks d data_start data_end =
     (if data_end \<ge> data_start \<and> blank (d ! nat data_start) then skipBlanks d (data_start + 1) data_end
      else data_start)"
  by pat_completeness auto
termination by (relation "measure (\<lambda>(d, data_start, data_end). nat (data_end - data_start + 1))") auto

function dropBlanks :: "jchar list \<Rightarrow> int \<Rightarrow> int \<Rightarrow> int" where
  "dropBlanks d data_start data_end =
     (if data_end \<ge> data_start \<and> blank (d ! nat data_end) then dropBlanks d data_start (data_end - 1)
      else data_end)"
  by pat_completeness auto
termination by (relation "measure (\<lambda>(d, data_start, data_end). nat (data_end - data_start + 1))") auto

declare skipBlanks.simps [simp del] dropBlanks.simps [simp del]

text \<open>The two functions: \<^verbatim>\<open>both\<close> for the one that has the loop at the start.\<close>

definition trimmed :: "bool \<Rightarrow> (int \<Rightarrow> bool) \<Rightarrow> PcslString option \<Rightarrow> PcslString option
    \<Rightarrow> PcslString stored" where
  "trimmed both mem str dst =
     (case (str, dst) of
        (Some s, Some _) \<Rightarrow>
          if damaged s then (PCSL_STRING_EINVAL, dst)
          else if sLength s < 2 then
            (PCSL_STRING_OK, Some (if pcsl_string_is_null str then NULL_STRING else EMPTY_STRING))
          else
            let d = bufferOf s;
                data_end = sLength s - 2;
                data_start = (if both then skipBlanks d 0 data_end else 0);
                data_end = dropBlanks d data_start data_end;
                trimmed_length = data_end - data_start + 2 in
            if \<not> mem (trimmed_length * 2) then (PCSL_STRING_ENOMEM, Some NULL_STRING)
            else (PCSL_STRING_OK,
                  do { trimmed_buffer \<leftarrow> memcpyCells (allocCells (trimmed_length * 2)) 0
                         d data_start (trimmed_length - 1);
                       trimmed_buffer \<leftarrow> storeCell trimmed_buffer (trimmed_length - 1) 0;
                       builtString trimmed_buffer trimmed_length })
      | _ \<Rightarrow> (PCSL_STRING_EINVAL, dst))"

definition pcsl_string_trim :: "(int \<Rightarrow> bool) \<Rightarrow> PcslString option \<Rightarrow> PcslString option
    \<Rightarrow> PcslString stored" where
  "pcsl_string_trim = trimmed True"

definition pcsl_string_trim_from_end :: "(int \<Rightarrow> bool) \<Rightarrow> PcslString option \<Rightarrow> PcslString option
    \<Rightarrow> PcslString stored" where
  "pcsl_string_trim_from_end = trimmed False"

section \<open>Searching\<close>

definition IS_BMP_CODE_POINT :: "int \<Rightarrow> bool" where
  "IS_BMP_CODE_POINT cp \<longleftrightarrow> cp \<ge> 0 \<and> cp \<le> 0xFFFF"

definition IS_SURROGATE_CODE_POINT :: "int \<Rightarrow> bool" where
  "IS_SURROGATE_CODE_POINT cp \<longleftrightarrow> cp \<ge> 0xD800 \<and> cp \<le> 0xDFFF"

definition IS_UNICODE_CODE_POINT :: "int \<Rightarrow> bool" where
  "IS_UNICODE_CODE_POINT cp \<longleftrightarrow> cp \<ge> 0 \<and> cp \<le> 0x10FFFF"

text \<open>The first index of the list at which the test holds, as the loops return it.\<close>

definition searchIn :: "nat list \<Rightarrow> (nat \<Rightarrow> bool) \<Rightarrow> int" where
  "searchIn is P = (case find P is of None \<Rightarrow> -1 | Some i \<Rightarrow> int i)"

definition pcsl_string_index_of_from :: "PcslString option \<Rightarrow> int \<Rightarrow> int \<Rightarrow> int" where
  "pcsl_string_index_of_from str ch from_index =
     (case str of
        None \<Rightarrow> -1
      | Some s \<Rightarrow>
          if sData s = None \<or> sLength s = 0 then -1
          else if from_index \<ge> sLength s then -1
          else
            let from = nat (if from_index < 0 then 0 else from_index); d = cellsOf s in
            if IS_BMP_CODE_POINT ch then
              if IS_SURROGATE_CODE_POINT ch then -1
              else searchIn [from..<nat (sLength s)] (\<lambda>i. uint (d ! i) = ch)
            else if IS_UNICODE_CODE_POINT ch then
              let (status, code_unit) = pcsl_code_point_to_utf16_code_unit (word_of_int ch) in
              if status \<noteq> PCSL_STRING_OK then -1
              else searchIn [from..<nat (sLength s - 1)]
                     (\<lambda>i. d ! i = code_unit ! 0 \<and> d ! (i + 1) = code_unit ! 1)
            else -1)"

definition pcsl_string_index_of :: "PcslString option \<Rightarrow> int \<Rightarrow> int" where
  "pcsl_string_index_of str ch = pcsl_string_index_of_from str ch 0"

definition pcsl_string_last_index_of_from :: "PcslString option \<Rightarrow> int \<Rightarrow> int \<Rightarrow> int" where
  "pcsl_string_last_index_of_from str ch from_index =
     (case str of
        None \<Rightarrow> -1
      | Some s \<Rightarrow>
          if sData s = None \<or> sLength s = 0 then -1
          else
            let from = (if from_index \<ge> sLength s then sLength s - 1 else from_index); d = cellsOf s in
            if from < 0 then -1
            else if IS_BMP_CODE_POINT ch then
              if IS_SURROGATE_CODE_POINT ch then -1
              else searchIn (rev [0..<nat (from + 1)]) (\<lambda>i. uint (d ! i) = ch)
            else if IS_UNICODE_CODE_POINT ch then
              let (status, code_unit) = pcsl_code_point_to_utf16_code_unit (word_of_int ch);
                  from = (if from \<ge> sLength s - 1 then sLength s - 2 else from) in
              if status \<noteq> PCSL_STRING_OK then -1
              else searchIn (rev [0..<nat (from + 1)])
                     (\<lambda>i. d ! i = code_unit ! 0 \<and> d ! (i + 1) = code_unit ! 1)
            else -1)"

definition pcsl_string_last_index_of :: "PcslString option \<Rightarrow> int \<Rightarrow> int" where
  "pcsl_string_last_index_of str ch =
     (case str of
        None \<Rightarrow> -1
      | Some s \<Rightarrow> if sData s = None \<or> sLength s = 0 then -1
                  else pcsl_string_last_index_of_from str ch (sLength s - 1))"

section \<open>Decimal numbers\<close>

definition RADIX :: int where
  "RADIX = 10"

definition MAXINT_DIV_10 :: jlong where
  "MAXINT_DIV_10 = push_bit 32 0x0CCCCCCC OR push_bit 2 0x33333333"

definition MIN_LONG :: jlong where
  "MIN_LONG = push_bit 63 1"

fun parseLoop :: "jchar list \<Rightarrow> jlong \<Rightarrow> pcsl_string_status \<times> jlong" where
  "parseLoop [] ret_val = (PCSL_STRING_OK, ret_val)"
| "parseLoop (c # cs) ret_val =
     (if sint ret_val > sint MAXINT_DIV_10 \<or> sint ret_val < 0 then (PCSL_STRING_OVERFLOW, ret_val)
      else if 0x30 \<le> c \<and> c \<le> 0x39 then
        let ret_val = ret_val * word_of_int RADIX + ucast (c - 0x30) in
        if sint ret_val < 0 \<and> ret_val \<noteq> MIN_LONG then (PCSL_STRING_OVERFLOW, ret_val)
        else parseLoop cs ret_val
      else (PCSL_STRING_EINVAL, ret_val))"

definition pcsl_string_convert_to_jlong :: "PcslString option \<Rightarrow> jlong option \<Rightarrow> jlong stored" where
  "pcsl_string_convert_to_jlong str value =
     (case (dataOf str, value) of
        (Some src, Some _) \<Rightarrow>
          let len = pcsl_string_length str in
          if len = 0 then (PCSL_STRING_EINVAL, value)
          else
            let isNegative = (src ! 0 = 0x2D);
                i = (if src ! 0 = 0x2D \<or> src ! 0 = 0x2B then 1 else 0);
                (status, ret_val) = parseLoop (drop i (take (nat len) src)) 0 in
            if status \<noteq> PCSL_STRING_OK then (status, value)
            else if isNegative then (PCSL_STRING_OK, Some (- ret_val))
            else if ret_val = MIN_LONG then (PCSL_STRING_OVERFLOW, value)
            else (PCSL_STRING_OK, Some ret_val)
      | _ \<Rightarrow> (PCSL_STRING_EINVAL, value))"

definition pcsl_string_convert_to_jint :: "PcslString option \<Rightarrow> jint option \<Rightarrow> jint stored option" where
  "pcsl_string_convert_to_jint str value =
     (case pcsl_string_convert_to_jlong str (Some 0) of
        (PCSL_STRING_OK, Some value_long) \<Rightarrow>
          let value_int = ucast value_long in
          if scast value_int = value_long
          then (case value of None \<Rightarrow> None | Some _ \<Rightarrow> Some (PCSL_STRING_OK, Some value_int))
          else Some (PCSL_STRING_OVERFLOW, value)
      | (ret_val, _) \<Rightarrow> Some (ret_val, value))"

definition TEXT_BUF_FOR_LONG_SIZE :: nat where
  "TEXT_BUF_FOR_LONG_SIZE = 20"

definition DIGIT :: "int \<Rightarrow> jchar" where
  "DIGIT x = 0x30 + word_of_int x"

text \<open>\<^verbatim>\<open>buf[charPos] = c\<close>: undefined outside the buffer.\<close>

definition putAt :: "jchar list \<Rightarrow> int \<Rightarrow> jchar \<Rightarrow> jchar list option" where
  "putAt buf charPos c =
     (if 0 \<le> charPos \<and> charPos < int (length buf) then Some (buf[nat charPos := c]) else None)"

function digitLoop :: "int \<Rightarrow> jchar list \<Rightarrow> int \<Rightarrow> (int \<times> jchar list \<times> int) option" where
  "digitLoop value buf charPos =
     (if value \<ge> RADIX
      then do { buf \<leftarrow> putAt buf charPos (DIGIT (value mod RADIX));
                digitLoop (value div RADIX) buf (charPos - 1) }
      else Some (value, buf, charPos))"
  by pat_completeness auto
termination
  by (relation "measure (\<lambda>(value, _). nat value)") (auto simp: RADIX_def)

declare digitLoop.simps [simp del]

definition MIN_JLONG_TEXT :: "jchar list" where
  "MIN_JLONG_TEXT = [0x2D, 0x39, 0x32, 0x32, 0x33, 0x33, 0x37, 0x32, 0x30, 0x33, 0x36, 0x38,
     0x35, 0x34, 0x37, 0x37, 0x35, 0x38, 0x30, 0x38, 0]"

text \<open>The uninitialised buffer is zeros here; only cells that were written are copied.\<close>

definition pcsl_string_convert_from_jlong :: "(int \<Rightarrow> bool) \<Rightarrow> jlong \<Rightarrow> PcslString option
    \<Rightarrow> PcslString stored option" where
  "pcsl_string_convert_from_jlong mem value str =
     (if str = None then Some (PCSL_STRING_EINVAL, str)
      else
        let negative = (sint value < 0) in
        if negative \<and> value = MIN_LONG
        then Some (PCSL_STRING_OK,
               Some \<lparr>sData = Some MIN_JLONG_TEXT, sLength = int (length MIN_JLONG_TEXT), sFlags = 0\<rparr>)
        else
          let value = (if negative then - value else value);
              charPos = int TEXT_BUF_FOR_LONG_SIZE - 1 in
          do { buf \<leftarrow> putAt (replicate TEXT_BUF_FOR_LONG_SIZE 0) charPos 0;
               (v, buf, charPos) \<leftarrow> digitLoop (sint value) buf (charPos - 1);
               buf \<leftarrow> putAt buf charPos (DIGIT v);
               (buf, charPos) \<leftarrow> (if negative
                 then do { buf \<leftarrow> putAt buf (charPos - 1) 0x2D; Some (buf, charPos - 1) }
                 else Some (buf, charPos));
               let buf_length = 2 * (int TEXT_BUF_FOR_LONG_SIZE - charPos);
               if \<not> mem buf_length then Some (PCSL_STRING_ENOMEM, str)
               else do { new_buffer \<leftarrow> memcpyCells (allocCells buf_length) 0 buf charPos (buf_length div 2);
                         string \<leftarrow> builtString new_buffer (int TEXT_BUF_FOR_LONG_SIZE - charPos);
                         Some (PCSL_STRING_OK, Some string) } })"

definition pcsl_string_convert_from_jint :: "(int \<Rightarrow> bool) \<Rightarrow> jint \<Rightarrow> PcslString option
    \<Rightarrow> PcslString stored option" where
  "pcsl_string_convert_from_jint mem value str = pcsl_string_convert_from_jlong mem (scast value) str"

section \<open>Data access\<close>

definition pcsl_string_get_utf8_data :: "(int \<Rightarrow> bool) \<Rightarrow> PcslString option \<Rightarrow> jbyte list option" where
  "pcsl_string_get_utf8_data mem str =
     (case str of
        None \<Rightarrow> None
      | Some _ \<Rightarrow>
          let len = pcsl_string_utf8_length str + 1 in
          if \<not> mem len then None
          else case pcsl_string_convert_to_utf8 str (Some (replicate (nat len) 0)) of
                 (PCSL_STRING_OK, _, buffer) \<Rightarrow> buffer
               | _ \<Rightarrow> None)"

definition pcsl_string_get_utf16_data :: "PcslString option \<Rightarrow> jchar list option" where
  "pcsl_string_get_utf16_data str = dataOf str"

definition PCSL_STRING_ESCAPED_BUFFER_SIZE :: "int \<Rightarrow> int" where
  "PCSL_STRING_ESCAPED_BUFFER_SIZE n = n * 5"

definition pcsl_string_append_escaped_ascii :: "(int \<Rightarrow> bool) \<Rightarrow> PcslString option
    \<Rightarrow> PcslString option \<Rightarrow> PcslString stored option" where
  "pcsl_string_append_escaped_ascii mem dst sfx =
     (if pcsl_string_length sfx \<le> 0 then Some (PCSL_STRING_OK, dst)
      else case sfx of
        None \<Rightarrow> None
      | Some s \<Rightarrow>
          if sData s = None then Some (PCSL_STRING_ENOMEM, dst)
          else
            let id_len = PCSL_STRING_ESCAPED_BUFFER_SIZE (sLength s) in
            if \<not> mem (id_len * 2) then Some (PCSL_STRING_ENOMEM, dst)
            else do { (len, id_data) \<leftarrow>
                        pcsl_utf16_to_escaped_ascii (cellsOf s) (replicate (nat id_len) 0) 0;
                      pcsl_string_append_buf mem dst (Some id_data) (int len) })"

section \<open>Well-formed strings\<close>

text \<open>A string is \<^verbatim>\<open>PCSL_STRING_NULL\<close> or holds its length and ends with the zero; its text.\<close>

definition pcslOk :: "PcslString \<Rightarrow> bool" where
  "pcslOk s = (case sData s of
     None \<Rightarrow> s = NULL_STRING
   | Some d \<Rightarrow> d \<noteq> [] \<and> last d = 0 \<and> sLength s = int (length d))"

definition textOf :: "PcslString \<Rightarrow> pcsl_string" where
  "textOf s = map_option butlast (sData s)"

definition unitsOf :: "PcslString \<Rightarrow> jchar list" where
  "unitsOf s = (case textOf s of None \<Rightarrow> [] | Some t \<Rightarrow> t)"

lemma pcslOkE:
  assumes "pcslOk s"
  obtains "s = NULL_STRING" "textOf s = None" "unitsOf s = []"
  | t where "sData s = Some (t @ [0])" "sLength s = int (length t) + 1" "textOf s = Some t"
      "unitsOf s = t" "cellsOf s = t @ [0]" "bufferOf s = t @ [0]"
proof (cases "sData s")
  case None
  with assms that(1) show thesis by (simp add: pcslOk_def textOf_def unitsOf_def)
next
  case (Some d)
  with assms have "d \<noteq> []" "last d = 0" and l: "sLength s = int (length d)"
    by (simp_all add: pcslOk_def)
  then have d: "d = butlast d @ [0]" "sLength s = int (length d)"
    by (metis append_butlast_last_id, simp)
  have 1: "sData s = Some (butlast d @ [0])" using Some d(1) by simp
  moreover have "sLength s = int (length (butlast d)) + 1" using d by (metis length_append_singleton of_nat_Suc add.commute)
  moreover have "textOf s = Some (butlast d)" "unitsOf s = butlast d" using Some by (simp_all add: textOf_def unitsOf_def)
  moreover have "cellsOf s = butlast d @ [0]" "bufferOf s = butlast d @ [0]"
    using Some d by (simp_all add: cellsOf_def bufferOf_def)
  ultimately show thesis by (rule that(2))
qed

lemma ok_heap [simp]:
  "pcslOk (heapString (t @ [0]))" "textOf (heapString (t @ [0])) = Some t"
  "sData (heapString d) = Some d" "sLength (heapString d) = int (length d)"
  by (simp_all add: pcslOk_def textOf_def heapString_def)

lemma ok_heap_append [simp]:
  "pcslOk (heapString (t @ u @ [0]))" "textOf (heapString (t @ u @ [0])) = Some (t @ u)"
  using ok_heap(1,2) [of "t @ u"] by simp_all

lemma ok_literals [simp]:
  "pcslOk EMPTY_STRING" "pcslOk NULL_STRING" "textOf EMPTY_STRING = Some []" "textOf NULL_STRING = None"
  "sData NULL_STRING = None" "sLength NULL_STRING = 0" "sData EMPTY_STRING = Some [0]"
  "sLength EMPTY_STRING = 1" "cellsOf EMPTY_STRING = [0]" "cellsOf NULL_STRING = []"
  "cellsOf (heapString d) = d" "bufferOf EMPTY_STRING = [0]" "bufferOf NULL_STRING = []"
  by (simp_all add: pcslOk_def textOf_def EMPTY_STRING_def NULL_STRING_def cellsOf_def bufferOf_def
      heapString_def)

lemma ok_eqI:
  assumes "pcslOk s" "pcslOk t" "textOf s = textOf t"
  shows "sData s = sData t" "sLength s = sLength t" "cellsOf s = cellsOf t"
  using assms by (auto elim!: pcslOkE)

section \<open>Blocks\<close>

lemma memcpy_fresh:
  assumes "0 \<le> n" "0 \<le> from" "from + n \<le> int (length src)" "bytes div 2 = n + int m"
  shows "memcpyCells (allocCells bytes) 0 src from n
    = Some (map Some (take (nat n) (drop (nat from) src)) @ replicate m None)"
  using assms by (simp add: memcpyCells_def allocCells_def nat_add_distrib)

lemma memcpy_all:
  assumes "0 \<le> n" "0 \<le> from" "from + n \<le> int (length src)" "bytes div 2 = n"
  shows "memcpyCells (allocCells bytes) 0 src from n = Some (map Some (take (nat n) (drop (nat from) src)))"
  using memcpy_fresh [OF assms(1-3), of bytes 0] assms(4) by simp

lemma memcpy_behind:
  assumes "at = int (length xs)" "n = int m" "m \<le> length src"
  shows "memcpyCells (map Some xs @ replicate m None) at src 0 n = Some (map Some (xs @ take m src))"
  using assms by (simp add: memcpyCells_def nat_add_distrib)

lemma store_behind:
  assumes "at = int (length xs)" "0 < m"
  shows "storeCell (map Some xs @ replicate m None) at c = Some (map Some (xs @ [c]) @ replicate (m - 1) None)"
  using assms by (cases m) (simp_all add: storeCell_def memcpyCells_def nat_add_distrib)

lemma built_string: "len = int (length xs) \<Longrightarrow> builtString (map Some xs) len = Some (heapString xs)"
  by (simp add: builtString_def heapString_def list_all_iff comp_def)

text \<open>Copying a whole string.\<close>

lemma copy_all:
  assumes "n = int (length xs)" "bytes = 2 * n"
  shows "Option.bind (memcpyCells (allocCells bytes) 0 xs 0 n) (\<lambda>b. builtString b n) = Some (heapString xs)"
  using memcpy_all [of n 0 xs bytes] built_string [of n xs] assms by simp

text \<open>Copying into a block with one more cell, storing the zero in it and keeping that length.\<close>

lemma copy_terminated:
  assumes "0 \<le> n" "0 \<le> from" "from + n \<le> int (length src)" "bytes = 2 * (n + 1)" "len = n + 1"
  shows "Option.bind (memcpyCells (allocCells bytes) 0 src from n)
      (\<lambda>b. Option.bind (storeCell b n 0) (\<lambda>b. builtString b len))
    = Some (heapString (take (nat n) (drop (nat from) src) @ [0]))"
proof -
  let ?xs = "take (nat n) (drop (nat from) src)"
  have l: "n = int (length ?xs)" using assms(1-3) by auto
  have "memcpyCells (allocCells bytes) 0 src from n = Some (map Some ?xs @ replicate 1 None)"
    using assms by (intro memcpy_fresh) auto
  moreover have "storeCell (map Some ?xs @ replicate 1 None) n 0 = Some (map Some (?xs @ [0]))"
    using store_behind [OF l, of 1 0] by simp
  moreover have "builtString (map Some (?xs @ [0])) len = Some (heapString (?xs @ [0]))"
    using l assms(5) by (intro built_string) simp
  ultimately show ?thesis by simp
qed

section \<open>Comparing memory\<close>

lemma memcmp_eq: "length xs = length ys \<Longrightarrow> memcmp xs ys = 0 \<longleftrightarrow> xs = ys"
proof (induction xs ys rule: memcmp.induct)
  case (1 a as b bs)
  then show ?case by (auto simp: word_uint_eq_iff)
qed auto

lemma jcharBytes_inj [simp]: "jcharBytes xs = jcharBytes ys \<longleftrightarrow> xs = ys"
proof (induction xs arbitrary: ys)
  case Nil
  then show ?case by (cases ys) (simp_all add: jcharBytes_def)
next
  case (Cons x xs)
  have "x = y" if "(ucast x :: jbyte) = ucast y" "(ucast (drop_bit 8 x) :: jbyte) = ucast (drop_bit 8 y)"
    for y :: jchar
  proof (rule bit_word_eqI)
    fix n assume "n < LENGTH(16)"
    then have "n < 8 \<or> 8 \<le> n \<and> n < 16" by auto
    then show "bit x n = bit y n"
    proof
      assume "n < 8"
      moreover have "bit (ucast x :: jbyte) n = bit (ucast y :: jbyte) n" using that(1) by simp
      ultimately show ?thesis by (simp add: bit_simps)
    next
      assume n: "8 \<le> n \<and> n < 16"
      have "bit (ucast (drop_bit 8 x) :: jbyte) (n - 8) = bit (ucast (drop_bit 8 y) :: jbyte) (n - 8)"
        using that(2) by simp
      then have "n - 8 < 8 \<and> bit x n \<longleftrightarrow> n - 8 < 8 \<and> bit y n" using n by (simp add: bit_simps)
      with n show ?thesis by linarith
    qed
  qed
  with Cons show ?case by (cases ys) (auto simp: jcharBytes_def)
qed

lemma memcmp_jchars: "length xs = length ys \<Longrightarrow> memcmp (jcharBytes xs) (jcharBytes ys) = 0 \<longleftrightarrow> xs = ys"
  by (simp add: memcmp_eq)

section \<open>Strings as lists\<close>

lemma strip_prefix: "prefix (stripZeros xs) xs"
proof -
  have "xs = stripZeros xs @ rev (takeWhile (\<lambda>c. c = 0) (rev xs))"
    unfolding stripZeros_def by (metis rev_append rev_rev_ident takeWhile_dropWhile_id)
  then show ?thesis by (auto simp: prefix_def)
qed

lemma take_prefix: "take (length t) s = t \<longleftrightarrow> prefix t s"
  by (metis append_eq_conv_conj prefix_def)

lemma drop_suffix: "drop (nat (int (length s) - int (length t))) s = t \<and> length t \<le> length s \<longleftrightarrow> suffix t s"
  by (auto simp: suffix_def nat_diff_distrib' intro: exI [of _ "take (length s - length t) s"])
    (metis append_take_drop_id)

lemma equals_refines:
  assumes "pcslOk s" "pcslOk t"
  shows "pcsl_string_equals (Some s) (Some t) \<longleftrightarrow> textOf s = textOf t"
  using assms by (auto elim!: pcslOkE simp: pcsl_string_equals_def memcmp_jchars)

lemma starts_refines:
  assumes "pcslOk s" "pcslOk t"
  shows "pcsl_string_starts_with (Some s) (Some t) \<longleftrightarrow>
    textOf t = None \<or> textOf s \<noteq> None \<and> prefix (unitsOf t) (unitsOf s)"
  using assms by (auto elim!: pcslOkE simp: pcsl_string_starts_with_def memcmp_jchars take_prefix
      dest: prefix_length_le)

lemma ends_refines:
  assumes "pcslOk s" "pcslOk t"
  shows "pcsl_string_ends_with (Some s) (Some t) \<longleftrightarrow>
    textOf t = None \<or> textOf s \<noteq> None \<and> suffix (unitsOf t) (unitsOf s)"
  using assms by (auto elim!: pcslOkE simp: pcsl_string_ends_with_def memcmp_jchars
      simp flip: drop_suffix)

lemma cat_result:
  assumes "pcslOk s" "pcslOk t"
  shows "pcsl_string_cat mem (Some s) (Some t) (Some u) =
    (if unitsOf s = [] \<and> unitsOf t = [] then (PCSL_STRING_OK, Some EMPTY_STRING)
     else if \<not> mem (2 * int (length (unitsOf s @ unitsOf t)) + 2)
          then (PCSL_STRING_ENOMEM, Some NULL_STRING)
     else (PCSL_STRING_OK, Some (heapString (unitsOf s @ unitsOf t @ [0]))))"
proof -
  have copy: "Option.bind (memcpyCells (allocCells ((length1 + length2) * 2)) 0 (xs @ zs) 0 length1)
      (\<lambda>b. Option.bind (memcpyCells b length1 ys 0 length2) (\<lambda>b. builtString b (length1 + length2)))
    = Some (heapString (xs @ ys))"
    if "length1 = int (length xs)" "length2 = int (length ys)" for length1 length2 xs ys zs
  proof -
    have "memcpyCells (allocCells ((length1 + length2) * 2)) 0 (xs @ zs) 0 length1
        = Some (map Some xs @ replicate (length ys) None)"
      using memcpy_fresh [of length1 0 "xs @ zs" "(length1 + length2) * 2" "length ys"] that by simp
    moreover have "memcpyCells (map Some xs @ replicate (length ys) None) length1 ys 0 length2
        = Some (map Some (xs @ ys))"
      using memcpy_behind [of length1 xs length2 "length ys" ys] that by simp
    moreover have "builtString (map Some (xs @ ys)) (length1 + length2) = Some (heapString (xs @ ys))"
      using that by (intro built_string) simp
    ultimately show ?thesis by simp
  qed
  show ?thesis
    using assms(1)
  proof (cases rule: pcslOkE)
    case 1
    show ?thesis using assms(2)
    proof (cases rule: pcslOkE)
      case (2 x)
      with 1 copy_all [of "int (length x) + 1" "x @ [0]"] show ?thesis
        by (auto simp: pcsl_string_cat_def damaged_def Let_def algebra_simps)
    qed (use 1 in \<open>simp add: pcsl_string_cat_def damaged_def\<close>)
  next
    case s: (2 x)
    show ?thesis using assms(2)
    proof (cases rule: pcslOkE)
      case 1
      with s copy_all [of "int (length x) + 1" "x @ [0]"] show ?thesis
        by (auto simp: pcsl_string_cat_def damaged_def Let_def algebra_simps)
    next
      case (2 y)
      with s copy [of "int (length x)" x "int (length y) + 1" "y @ [0]" "[0]"]
        copy_all [of "int (length y) + 1" "y @ [0]"]
      show ?thesis by (cases "x = []") (auto simp: pcsl_string_cat_def damaged_def Let_def algebra_simps)
    qed
  qed
qed

lemma dup_result:
  assumes "pcslOk s" "pcsl_string_dup mem (Some s) (Some u) = (st, d)"
  shows "\<exists>r. d = Some r \<and> pcslOk r \<and> (st = PCSL_STRING_OK \<longrightarrow> textOf r = textOf s)
    \<and> (mem (sLength s * 2) \<longrightarrow> st = PCSL_STRING_OK)"
proof -
  have *: "\<not> damaged s" using assms(1) by (auto elim!: pcslOkE simp: damaged_def)
  show ?thesis
    using assms(1)
  proof (cases rule: pcslOkE)
    case 1
    with assms show ?thesis by (auto simp: pcsl_string_dup_def damaged_def NULL_STRING_def)
  next
    case (2 t)
    have "Option.bind (memcpyCells (allocCells (sLength s * 2)) 0 (bufferOf s) 0 (sLength s))
        (\<lambda>b. builtString b (sLength s)) = Some (heapString (t @ [0]))"
      using copy_all [of "sLength s" "t @ [0]" "sLength s * 2"] 2 by simp
    moreover have "sLength s \<noteq> 0" "sLength s = 1 \<longleftrightarrow> t = []" using 2(2) by simp_all
    ultimately have "pcsl_string_dup mem (Some s) (Some u) =
      (if sFlags s AND PCSL_STRING_IN_HEAP = 0 then (PCSL_STRING_OK, Some s)
       else if t = [] then (PCSL_STRING_OK, Some EMPTY_STRING)
       else if mem (sLength s * 2) then (PCSL_STRING_OK, Some (heapString (t @ [0])))
       else (PCSL_STRING_ENOMEM, Some NULL_STRING))"
      using * by (simp add: pcsl_string_dup_def Let_def)
    with assms 2(3) show ?thesis by (auto split: if_splits)
  qed
qed

lemma dup_fails:
  assumes "pcslOk s" "pcsl_string_dup mem (Some s) (Some u) = (st, d)" "st \<noteq> PCSL_STRING_OK"
  shows "d = Some NULL_STRING"
proof -
  have "\<not> damaged s" using assms(1) by (auto elim!: pcslOkE simp: damaged_def)
  with assms(2,3) show ?thesis by (auto simp: pcsl_string_dup_def Let_def split: if_splits)
qed

text \<open>\<^verbatim>\<open>pcsl_string_compare\<close> on texts: the shorter length, the bytes, then the lengths.\<close>

definition compareTexts :: "jchar list \<Rightarrow> jchar list \<Rightarrow> int" where
  "compareTexts t u =
     (let n = min (length t) (length u) + 1;
          cmp = (if n > 1 then memcmp (jcharBytes (take n (t @ [0]))) (jcharBytes (take n (u @ [0]))) else 0)
      in if cmp = 0 then int (length t) - int (length u) else cmp)"

lemma compareTexts_eq: "compareTexts t u = 0 \<longleftrightarrow> t = u"
proof (cases "t = [] \<or> u = []")
  case False
  let ?n = "min (length t) (length u) + 1"
  have l: "length (take ?n (t @ [0])) = length (take ?n (u @ [0]))" by simp
  from False show ?thesis
    unfolding compareTexts_def Let_def using memcmp_jchars [OF l] by auto
qed (auto simp: compareTexts_def)

lemma compare_result:
  assumes "pcslOk s" "pcslOk t" "textOf s = Some x" "textOf t = Some y"
  shows "pcsl_string_compare (Some s) (Some t) (Some c) = (PCSL_STRING_OK, Some (compareTexts x y))"
proof (cases "s = t")
  case True
  then show ?thesis using assms compareTexts_eq [of x x] by (simp add: pcsl_string_compare_def)
next
  case False
  have d: "sData s = Some (x @ [0])" "cellsOf s = x @ [0]" "sLength s = int (length x) + 1"
    "sData t = Some (y @ [0])" "cellsOf t = y @ [0]" "sLength t = int (length y) + 1"
    using assms by (auto elim!: pcslOkE)
  have m: "nat (if int (length x) + 1 < int (length y) + 1 then int (length x) + 1 else int (length y) + 1)
      = min (length x) (length y) + 1"
    "1 < (if int (length x) + 1 < int (length y) + 1 then int (length x) + 1 else int (length y) + 1)
      \<longleftrightarrow> 1 < min (length x) (length y) + 1"
    by (cases x; cases y; auto)+
  show ?thesis
    using False by (simp only: pcsl_string_compare_def d m Let_def compareTexts_def option.case prod.case
        if_False simp_thms option.distinct) (cases y; auto simp: m(2))
qed

lemma compare_null:
  assumes "pcslOk s" "textOf s = Some x"
  shows "pcsl_string_compare (Some NULL_STRING) (Some s) (Some c) = (PCSL_STRING_OK, Some (- int (length x) - 1))"
    "pcsl_string_compare (Some s) (Some NULL_STRING) (Some c) = (PCSL_STRING_OK, Some (int (length x) + 1))"
  using assms by (auto elim!: pcslOkE simp: pcsl_string_compare_def)

lemma compare_refines:
  assumes "pcslOk s" "pcslOk t"
  shows "\<exists>c. pcsl_string_compare (Some s) (Some t) (Some c0) = (PCSL_STRING_OK, Some c)
    \<and> (c = 0 \<longleftrightarrow> textOf s = textOf t)"
  using assms(1)
proof (cases rule: pcslOkE)
  case 1
  show ?thesis using assms(2)
    by (cases rule: pcslOkE) (use 1 assms(2) in \<open>auto simp: compare_null, simp add: pcsl_string_compare_def\<close>)
next
  case (2 x)
  show ?thesis
    using assms(2)
    by (cases rule: pcslOkE)
      (use 2 assms in \<open>auto simp: compare_null compare_result compareTexts_eq\<close>)
qed

lemma from_utf16_result:
  assumes "n \<le> length buf"
  shows "pcsl_string_convert_from_utf16 mem (Some buf) (int n) (Some u) =
    (if mem (2 * int (length (stripZeros (take n buf)) + 1))
     then (PCSL_STRING_OK, Some (heapString (stripZeros (take n buf) @ [0])))
     else (PCSL_STRING_ENOMEM, Some NULL_STRING))"
proof -
  define k where "k = length (stripZeros (take n buf))"
  have k: "k \<le> n" "k \<le> length buf"
    using assms prefix_length_le [OF strip_prefix [of "take n buf"]] by (simp_all add: k_def)
  have "take k (take n buf) = stripZeros (take n buf)"
    unfolding k_def take_prefix by (rule strip_prefix)
  with k have z: "take k buf = stripZeros (take n buf)" "k \<le> length buf" by (simp_all add: min_def)
  have "Option.bind (memcpyCells (allocCells (2 * (int k + 1))) 0 buf 0 (int k))
      (\<lambda>b. Option.bind (storeCell b (int k) 0) (\<lambda>b. builtString b (int k + 1)))
    = Some (heapString (stripZeros (take n buf) @ [0]))"
    using copy_terminated [of "int k" 0 buf "2 * (int k + 1)" "int k + 1"] z by simp
  then show ?thesis
    using assms by (simp add: pcsl_string_convert_from_utf16_def Let_def algebra_simps flip: k_def)
qed

lemma from_utf8_result:
  fixes buf :: "jbyte list"
  assumes "n \<le> length buf"
  defines "r \<equiv> convertAll utf8Step (stripZeros (take n buf))"
  shows "pcsl_string_convert_from_utf8 mem mem2 (Some buf) (int n) (Some u) =
    (if \<not> mem (2 * (int n * 2 + 1)) then (PCSL_STRING_ENOMEM, Some NULL_STRING)
     else if snd r then (PCSL_STRING_EILSEQ, Some NULL_STRING)
     else if mem2 then (PCSL_STRING_OK, Some (heapString (fst r @ [0])))
     else (PCSL_STRING_ENOMEM, Some NULL_STRING))"
proof -
  define k where "k = length (fst r)"
  define m where "m = nat (int n * 2 + 1)"
  have "k \<le> 1 * length (stripZeros (take n buf))"
    unfolding k_def r_def using utf8Step_length by (intro convertAll_length) simp
  then have k: "k \<le> n" using prefix_length_le [OF strip_prefix [of "take n buf"]] by simp
  have m: "k < m" "(2 * (int n * 2 + 1)) div 2 = int m" by (use k in \<open>simp_all add: m_def\<close>)
  obtain out where out: "pcsl_utf8_convert_to_utf16 (Some (stripZeros (take n buf))) (Some (replicate m 0))
      = (if snd r then PCSL_STRING_EILSEQ else PCSL_STRING_OK, k, Some out)" "length out = m" "take k out = fst r"
    using conversion_result(2) [of utf8Step "stripZeros (take n buf)" "replicate m 0"] m(1)
    by (auto simp: pcsl_utf8_convert_to_utf16_def k_def r_def)
  let ?cells = "map Some (fst r @ [0]) @ replicate (m - k - 1) None"
  have "memcpyCells (allocCells (2 * (int n * 2 + 1))) 0 out 0 (int k)
      = Some (map Some (fst r) @ replicate (m - k) None)"
    using memcpy_fresh [of "int k" 0 out "2 * (int n * 2 + 1)" "m - k"] m out(2,3) by simp
  moreover have "storeCell (map Some (fst r) @ replicate (m - k) None) (int k) 0 = Some ?cells"
    using store_behind [of "int k" "fst r" "m - k" 0] m by (simp add: k_def)
  moreover have "reallocCells ?cells ((int k + 1) * 2) = map Some (fst r @ [0])"
    by (simp add: reallocCells_def k_def nat_add_distrib)
  moreover have "builtString (map Some (fst r @ [0])) (int k + 1) = Some (heapString (fst r @ [0]))"
    by (intro built_string) (simp add: k_def)
  moreover have "\<not> int k + 1 > int n * 2 + 1" using k by simp
  ultimately show ?thesis
    using assms(1) out(1) by (simp add: pcsl_string_convert_from_utf8_def Let_def del: map_append flip: m_def)
qed

lemma skip_blanks:
  "k \<le> length t \<Longrightarrow>
    skipBlanks (t @ [0]) (int k) (int (length t) - 1) = int (k + length (takeWhile blank (drop k t)))"
proof (induction "length t - k" arbitrary: k)
  case 0
  then show ?case by (subst skipBlanks.simps) simp
next
  case (Suc n)
  then have k: "k < length t" by simp
  with Suc(1) [of "Suc k"] Suc(2) show ?case
    by (subst skipBlanks.simps) (simp add: nth_append add.commute flip: Cons_nth_drop_Suc)
qed

lemma drop_blanks:
  "dropBlanks (pre @ seg @ post) (int (length pre)) (int (length pre) + int (length seg) - 1)
    = int (length pre) + int (length (dropWhile blank (rev seg))) - 1"
proof (induction seg arbitrary: post rule: rev_induct)
  case Nil
  then show ?case by (subst dropBlanks.simps) simp
next
  case (snoc c seg)
  have "nat (int (length pre) + int (length seg)) = length pre + length seg" by simp
  with snoc.IH [of "c # post"] show ?case
    by (subst dropBlanks.simps) (simp add: nth_append)
qed

definition trimText :: "bool \<Rightarrow> jchar list \<Rightarrow> jchar list" where
  "trimText both t =
     (let t = (if both then dropWhile blank t else t) in rev (dropWhile blank (rev t)))"

text \<open>The part of the text that the two loops leave, with the zero behind it.\<close>

lemma trimmed_part:
  fixes t :: "jchar list" and both :: bool
  defines "start \<equiv> (if both then skipBlanks (t @ [0]) 0 (int (length t) - 1) else 0)"
  defines "n \<equiv> dropBlanks (t @ [0]) start (int (length t) - 1) - start + 1"
  shows "0 \<le> start" "n = int (length (trimText both t))" "start + n \<le> int (length (t @ [0]))"
    "take (nat n) (drop (nat start) (t @ [0])) = trimText both t"
proof -
  define pre where "pre = (if both then takeWhile blank t else [])"
  define seg where "seg = (if both then dropWhile blank t else t)"
  have t: "t = pre @ seg" by (simp add: pre_def seg_def)
  have start: "start = int (length pre)"
    using skip_blanks [of 0 t] by (simp add: start_def pre_def)
  have tt: "trimText both t = rev (dropWhile blank (rev seg))" by (simp add: trimText_def seg_def)
  obtain rest where rest: "seg = trimText both t @ rest"
  proof
    show "seg = trimText both t @ rev (takeWhile blank (rev seg))"
      unfolding tt by (metis rev_append rev_rev_ident takeWhile_dropWhile_id)
  qed
  have "dropBlanks (t @ [0]) start (int (length t) - 1) = int (length pre) + int (length (trimText both t)) - 1"
    using drop_blanks [of pre seg "[0]"] unfolding start tt by (simp add: t)
  then show n: "n = int (length (trimText both t))" by (simp add: n_def start)
  show "0 \<le> start" by (simp add: start)
  have le: "length (trimText both t) \<le> length seg" using arg_cong [OF rest, of length] by simp
  then show "start + n \<le> int (length (t @ [0]))" unfolding start n by (subst t) simp
  have "drop (length pre) (t @ [0]) = seg @ [0]" using t by simp
  moreover have "take (length (trimText both t)) seg = trimText both t" by (metis append_eq_conv_conj rest)
  ultimately show "take (nat n) (drop (nat start) (t @ [0])) = trimText both t"
    using le by (simp add: start n)
qed

lemma trimmed_result:
  assumes "pcslOk s"
  shows "\<exists>r st. trimmed both mem (Some s) (Some u) = (st, Some r) \<and> pcslOk r
    \<and> (st = PCSL_STRING_OK \<longrightarrow> textOf r = map_option (trimText both) (textOf s))
    \<and> ((\<forall>n. mem n) \<longrightarrow> st = PCSL_STRING_OK)"
  using assms(1)
proof (cases rule: pcslOkE)
  case 1
  then show ?thesis by (simp add: trimmed_def damaged_def pcsl_string_is_null_def)
next
  case (2 t)
  show ?thesis
  proof (cases "t = []")
    case True
    with 2 show ?thesis by (simp add: trimmed_def damaged_def pcsl_string_is_null_def trimText_def)
  next
    case False
    define start where "start = (if both then skipBlanks (t @ [0]) 0 (int (length t) - 1) else 0)"
    define n where "n = dropBlanks (t @ [0]) start (int (length t) - 1) - start + 1"
    note part = trimmed_part [where t = t and both = both, folded start_def, folded n_def]
    have l: "sLength s - 2 = int (length t) - 1" "\<not> sLength s < 2" "\<not> damaged s"
      using 2 False by (cases t; simp add: damaged_def)+
    have n: "dropBlanks (t @ [0]) start (int (length t) - 1) - start + 2 = n + 1" by (simp add: n_def)
    have "Option.bind (memcpyCells (allocCells ((n + 1) * 2)) 0 (t @ [0]) start n)
        (\<lambda>b. Option.bind (storeCell b n 0) (\<lambda>b. builtString b (n + 1)))
      = Some (heapString (trimText both t @ [0]))"
      using copy_terminated [OF _ part(1) part(3), of "(n + 1) * 2" "n + 1"] unfolding part(4) by (simp add: part(2))
    then have "trimmed both mem (Some s) (Some u) =
      (if mem ((n + 1) * 2) then (PCSL_STRING_OK, Some (heapString (trimText both t @ [0])))
       else (PCSL_STRING_ENOMEM, Some NULL_STRING))"
      unfolding trimmed_def option.case prod.case if_not_P [OF l(3)] if_not_P [OF l(2)] 2(6) l(1) Let_def
        start_def [symmetric] n add_diff_cancel_right'
      by (simp only: if_not_P if_P split: if_split) blast
    with 2 show ?thesis by auto
  qed
qed

lemma append_result:
  assumes "pcslOk s" "pcslOk t"
  shows "pcsl_string_append mem (Some s) (Some t) =
    (case pcsl_string_cat mem (Some s) (Some t) (Some NULL_STRING) of
       (st, r) \<Rightarrow> Some (st, if st = PCSL_STRING_OK then r else Some s))"
  by (auto simp: pcsl_string_append_def split: prod.splits)

text \<open>The string an operation leaves in its destination is well formed.\<close>

definition storedOk :: "PcslString stored \<Rightarrow> bool" where
  "storedOk p = (case snd p of None \<Rightarrow> False | Some r \<Rightarrow> pcslOk r)"

definition returnsOk :: "PcslString stored option \<Rightarrow> bool" where
  "returnsOk r = (case r of None \<Rightarrow> False | Some p \<Rightarrow> storedOk p)"

lemma storedOk_simps [simp]: "storedOk (st, Some r) = pcslOk r" "storedOk (st, None) = False"
  "returnsOk (Some p) = storedOk p" "returnsOk None = False"
  by (simp_all add: storedOk_def returnsOk_def)

lemma cat_ok: "pcslOk s \<Longrightarrow> pcslOk t \<Longrightarrow> storedOk (pcsl_string_cat mem (Some s) (Some t) (Some u))"
  by (simp add: cat_result)

lemma dup_ok: "pcslOk s \<Longrightarrow> storedOk (pcsl_string_dup mem (Some s) (Some u))"
  using dup_result [of s mem u] by (cases "pcsl_string_dup mem (Some s) (Some u)") fastforce

text \<open>The length that is passed with an array counts cells of it.\<close>

definition withinArray :: "'a list option \<Rightarrow> int \<Rightarrow> bool" where
  "withinArray buf n = (case buf of None \<Rightarrow> True | Some b \<Rightarrow> n \<le> int (length b))"

lemma from_utf16_ok:
  assumes "pcslOk u" "withinArray buf n"
  shows "storedOk (pcsl_string_convert_from_utf16 mem buf n (Some u))"
proof (cases "buf = None \<or> n < 0")
  case True
  then show ?thesis using assms(1) by (auto simp: pcsl_string_convert_from_utf16_def split: option.splits)
next
  case False
  with from_utf16_result [of "nat n" "the buf" mem u] assms(2) show ?thesis
    by (auto simp: withinArray_def split: option.splits)
qed

lemma from_utf8_ok:
  assumes "pcslOk u" "withinArray buf n"
  shows "storedOk (pcsl_string_convert_from_utf8 mem mem2 buf n (Some u))"
proof (cases "buf = None \<or> n < 0")
  case True
  then show ?thesis using assms(1) by (auto simp: pcsl_string_convert_from_utf8_def Let_def split: option.splits)
next
  case False
  with from_utf8_result [of "nat n" "the buf" mem mem2 u] assms(2) show ?thesis
    by (auto simp: withinArray_def split: option.splits)
qed

text \<open>
  Cutting stays inside of the text as long as the difference of the bounds does not wrap around.
\<close>

lemma length_loop_le: "0 \<le> k \<Longrightarrow> utf16LengthLoop cs k \<le> k + int (length cs)"
proof (induction cs k rule: utf16LengthLoop.induct)
  case (2 c cs k)
  show ?case
  proof (cases "highHalf c")
    case True
    show ?thesis
    proof (cases cs)
      case (Cons l ds)
      with 2(1) [OF True Cons] 2(3) True show ?thesis
        by (cases "l < 0xDC00 \<or> l > 0xDFFF") (simp_all only: utf16LengthLoop.simps list.case if_True if_False, simp_all)
    qed (use 2(3) True in simp)
  next
    case False
    with 2(2) [OF False] 2(3) show ?thesis by (simp only: utf16LengthLoop.simps if_False) simp
  qed
qed simp

lemma string_length_le:
  assumes "pcslOk s" "textOf s = Some t"
  shows "pcsl_string_length (Some s) \<le> int (length t)"
  using assms length_loop_le [of 0 "t @ [0]"]
  by (auto elim!: pcslOkE simp: pcsl_string_length_def dataOf_def utf16_string_length_def)

lemma substring_ok:
  assumes "pcslOk u" "pcslOk s" "- (2 ^ 31) \<le> e - b"
  shows "storedOk (pcsl_string_substring mem (Some s) b e (Some u))"
  using assms(2)
proof (cases rule: pcslOkE)
  case 1
  with assms(1) show ?thesis by (simp add: pcsl_string_substring_def)
next
  case (2 t)
  have len: "pcsl_string_length (Some s) \<le> int (length t)" using assms(2) 2(3) by (rule string_length_le)
  have "storedOk (PCSL_STRING_OK, Option.bind (memcpyCells (allocCells ((e - b + 1) * 2)) 0 (t @ [0]) b (e - b))
      (\<lambda>c. Option.bind (storeCell c (e - b) 0) (\<lambda>c. builtString c (e - b + 1))))"
    if "0 \<le> b" "0 \<le> e - b" "e \<le> pcsl_string_length (Some s)"
    using copy_terminated [of "e - b" b "t @ [0]" "(e - b + 1) * 2" "e - b + 1"] that len by simp
  moreover have "jintDiff e b = e - b" using assms(3) by (simp add: jintDiff_def)
  ultimately show ?thesis using assms(1) 2(1,6) by (simp add: pcsl_string_substring_def Let_def)
qed

lemma trimmed_ok: "pcslOk u \<Longrightarrow> pcslOk s \<Longrightarrow> storedOk (trimmed both mem (Some s) (Some u))"
  using trimmed_result [of s both mem u] by auto

lemma append_ok:
  "pcslOk u \<Longrightarrow> pcslOk s \<Longrightarrow> returnsOk (pcsl_string_append mem (Some u) (Some s))"
  by (simp add: append_result cat_result)

lemma append_buf_ok:
  assumes "pcslOk u" "withinArray buf n"
  shows "returnsOk (pcsl_string_append_buf mem (Some u) buf n)"
proof -
  obtain st r where r: "pcsl_string_convert_from_utf16 mem buf n (Some NULL_STRING) = (st, Some r)" "pcslOk r"
    using from_utf16_ok [of NULL_STRING buf n mem] assms(2)
    by (cases "pcsl_string_convert_from_utf16 mem buf n (Some NULL_STRING)")
      (auto simp: storedOk_def split: option.splits)
  with append_ok [OF assms(1) r(2), of mem] assms show ?thesis by (simp add: pcsl_string_append_buf_def)
qed

lemma append_buf_result:
  assumes "pcslOk s" "n \<le> length buf" "\<And>n. mem n"
  shows "\<exists>r. pcsl_string_append_buf mem (Some s) (Some buf) (int n) = Some (PCSL_STRING_OK, Some r)
    \<and> pcslOk r \<and> textOf r = Some (unitsOf s @ stripZeros (take n buf))"
proof -
  have u: "unitsOf (heapString (t @ [0])) = t" for t by (simp add: unitsOf_def)
  from assms show ?thesis
    by (simp add: pcsl_string_append_buf_def from_utf16_result append_result cat_result u)
qed

text \<open>
  For a text without high halves the characters are the units, so the bounds of a substring
  are those of the list.
\<close>

lemma length_loop_plain: "list_all (\<lambda>c. \<not> highHalf c) cs \<Longrightarrow> utf16LengthLoop cs k = k + int (length cs)"
  by (induction cs k rule: utf16LengthLoop.induct) auto

lemma length_plain:
  assumes "pcslOk s" "textOf s = Some t" "list_all (\<lambda>c. \<not> highHalf c) t"
  shows "pcsl_string_length (Some s) = int (length t)"
  using assms by (auto elim!: pcslOkE simp: pcsl_string_length_def dataOf_def utf16_string_length_def
      length_loop_plain)

lemma substring_result:
  assumes "pcslOk s" "textOf s = Some t" "list_all (\<lambda>c. \<not> highHalf c) t" "\<And>n. mem n"
    and "b \<le> e" "e \<le> length t"
  shows "\<exists>r. pcsl_string_substring mem (Some s) (int b) (int e) (Some u) = (PCSL_STRING_OK, Some r)
    \<and> pcslOk r \<and> textOf r = Some (take (e - b) (drop b t))"
proof -
  have s: "sData s = Some (t @ [0])" "bufferOf s = t @ [0]" using assms(1,2) by (auto elim!: pcslOkE)
  have d: "jintDiff (int e) (int b) = int e - int b" "nat (int e - int b) = e - b"
    using assms(5) by (simp_all add: jintDiff_def)
  have "Option.bind (memcpyCells (allocCells ((int e - int b + 1) * 2)) 0 (t @ [0]) (int b) (int e - int b))
      (\<lambda>c. Option.bind (storeCell c (int e - int b) 0) (\<lambda>c. builtString c (int e - int b + 1)))
    = Some (heapString (take (e - b) (drop b t) @ [0]))"
    using copy_terminated [of "int e - int b" "int b" "t @ [0]" "(int e - int b + 1) * 2" "int e - int b + 1"]
      assms(5,6) by (simp add: d(2))
  with assms(4-6) length_plain [OF assms(1-3)] s show ?thesis
    by (auto simp: pcsl_string_substring_def Let_def d(1))
qed

section \<open>Decimal numbers\<close>

definition isDigit :: "jchar \<Rightarrow> bool" where
  "isDigit c \<longleftrightarrow> 0x30 \<le> c \<and> c \<le> 0x39"

definition decimal :: "int \<Rightarrow> jchar list \<Rightarrow> int" where
  "decimal v cs = foldl (\<lambda>v c. v * 10 + (uint c - 0x30)) v cs"

lemma decimal_simps [simp]:
  "decimal v [] = v" "decimal v (c # cs) = decimal (v * 10 + (uint c - 0x30)) cs"
  "decimal v (cs @ [c]) = decimal v cs * 10 + (uint c - 0x30)"
  by (simp_all add: decimal_def)

lemma isDigit_uint: "isDigit c \<longleftrightarrow> 0x30 \<le> uint c \<and> uint c \<le> 0x39"
  by (simp add: isDigit_def word_le_def)

lemma decimal_mono: "list_all isDigit cs \<Longrightarrow> 0 \<le> v \<Longrightarrow> v \<le> decimal v cs"
proof (induction cs arbitrary: v)
  case (Cons c cs)
  let ?w = "v * 10 + (uint c - 0x30)"
  have "0 \<le> ?w" "v \<le> ?w" using Cons.prems by (simp_all add: isDigit_uint)
  with Cons have "?w \<le> decimal ?w cs" by simp
  with \<open>v \<le> ?w\<close> show ?case by simp
qed simp

lemma digit_value: "isDigit c \<Longrightarrow> (ucast (c - 0x30) :: jlong) = word_of_int (uint c - 0x30)"
proof -
  assume "isDigit c"
  then have "uint (c - 0x30) = uint c - 0x30"
    by (subst uint_minus_simple_alt [THEN iffD1]) (simp_all add: isDigit_def)
  then show ?thesis by (metis ucast_eq)
qed

lemma long_limits: "sint MAXINT_DIV_10 = 922337203685477580" "sint MIN_LONG = - (2 ^ 63)"
  "MIN_LONG = word_of_int (2 ^ 63)"
  by (simp_all add: MAXINT_DIV_10_def MIN_LONG_def)

lemma sint_jlong: "0 \<le> v \<Longrightarrow> v < 2 ^ 64 \<Longrightarrow>
    sint (word_of_int v :: jlong) = (if v < 2 ^ 63 then v else v - 2 ^ 64)"
proof (cases "v < 2 ^ 63")
  case False
  assume v: "0 \<le> v" "v < 2 ^ 64"
  have "(word_of_int v :: jlong) = word_of_int (v - 2 ^ 64)" by (simp add: word_of_int_eq_iff take_bit_eq_mod)
  then have "sint (word_of_int v :: jlong) = sint (word_of_int (v - 2 ^ 64) :: jlong)"
    by (rule arg_cong)
  also have "\<dots> = v - 2 ^ 64" unfolding signed_of_int
    using False v by (simp add: signed_take_bit_int_eq_self)
  finally show ?thesis using False by simp
qed (simp add: signed_of_int signed_take_bit_int_eq_self)

lemma parse_loop:
  assumes "0 \<le> v" "v \<le> 2 ^ 63"
  shows "if list_all isDigit cs \<and> decimal v cs \<le> 2 ^ 63
    then parseLoop cs (word_of_int v) = (PCSL_STRING_OK, word_of_int (decimal v cs))
    else fst (parseLoop cs (word_of_int v)) \<noteq> PCSL_STRING_OK"
  using assms
proof (induction cs arbitrary: v)
  case (Cons c cs)
  have s: "sint (word_of_int v :: jlong) = (if v < 2 ^ 63 then v else v - 2 ^ 64)"
    using Cons.prems by (simp add: sint_jlong)
  let ?w = "v * 10 + (uint c - 0x30)"
  show ?case
  proof (cases "isDigit c \<and> v \<le> 922337203685477580")
    case False
    moreover have "\<not> (list_all isDigit (c # cs) \<and> decimal v (c # cs) \<le> 2 ^ 63)"
    proof
      assume *: "list_all isDigit (c # cs) \<and> decimal v (c # cs) \<le> 2 ^ 63"
      with decimal_mono [of cs ?w] Cons.prems have "?w \<le> 2 ^ 63" by (auto simp: isDigit_uint)
      with * False show False by (auto simp: isDigit_uint)
    qed
    moreover have "fst (parseLoop (c # cs) (word_of_int v)) \<noteq> PCSL_STRING_OK"
      using False s Cons.prems by (auto simp: long_limits isDigit_def)
    ultimately show ?thesis by (simp only: if_False not_False_eq_True)
  next
    case True
    then have w: "0 \<le> ?w" "?w < 2 ^ 64" using Cons.prems by (auto simp: isDigit_uint)
    have m: "word_of_int v * word_of_int RADIX + ucast (c - 0x30) = (word_of_int ?w :: jlong)"
      using True by (simp add: digit_value RADIX_def)
    have s2: "sint (word_of_int ?w :: jlong) = (if ?w < 2 ^ 63 then ?w else ?w - 2 ^ 64)"
      using w by (rule sint_jlong)
    have e: "(word_of_int ?w :: jlong) = MIN_LONG \<longleftrightarrow> ?w = 2 ^ 63"
      unfolding long_limits(3) word_of_int_eq_iff using w by (simp add: take_bit_int_eq_self)
    have step: "parseLoop (c # cs) (word_of_int v) =
      (if ?w > 2 ^ 63 then (PCSL_STRING_OVERFLOW, word_of_int ?w) else parseLoop cs (word_of_int ?w))"
      using True Cons.prems s s2 w e by (auto simp: m long_limits isDigit_def Let_def)
    show ?thesis
    proof (cases "?w > 2 ^ 63")
      case True
      with decimal_mono [of cs ?w] w(1) show ?thesis unfolding step by auto
    next
      case False
      with Cons.IH [of ?w] w(1) True show ?thesis unfolding step by auto
    qed
  qed
qed simp

text \<open>
  On a well-formed text the loop reads every unit or stops at a high half: the number of
  characters is the number of units when the first ones up to it have no high half.
\<close>

lemma length_loop_wellFormed:
  assumes "wellFormed16 t"
  shows "\<exists>n. utf16LengthLoop (t @ [0]) k = k + int n + 1 \<and> n \<le> length t \<and> (t \<noteq> [] \<longrightarrow> 0 < n)
    \<and> (list_all (\<lambda>c. \<not> highHalf c) (take n t) \<longrightarrow> n = length t)"
  using assms
proof (induction t arbitrary: k rule: wellFormed16.induct)
  case 1
  then show ?case by simp
next
  case (2 c cs)
  show ?case
  proof (cases "highHalf c")
    case True
    with 2(3) obtain l ds where cs: "cs = l # ds" "lowHalf l" "wellFormed16 ds"
      by (auto split: list.splits if_splits)
    then obtain n where n: "utf16LengthLoop (ds @ [0]) (k + 1) = (k + 1) + int n + 1" "n \<le> length ds"
      using 2(1) [OF True cs(1,3), of "k + 1"] by blast
    have "utf16LengthLoop ((c # cs) @ [0]) k = utf16LengthLoop (ds @ [0]) (k + 1)"
      using True cs(1,2) by (auto dest: leD)
    also have "\<dots> = k + int (Suc n) + 1" using n(1) by simp
    finally have "utf16LengthLoop ((c # cs) @ [0]) k = k + int (Suc n) + 1" .
    moreover have "\<not> list_all (\<lambda>c. \<not> highHalf c) (take (Suc n) (c # cs))" using True by simp
    moreover have "Suc n \<le> length (c # cs)" using n(2) cs(1) by simp
    ultimately show ?thesis by blast
  next
    case False
    with 2(3) have "wellFormed16 cs" by (auto split: if_splits)
    then obtain n where n: "utf16LengthLoop (cs @ [0]) (k + 1) = (k + 1) + int n + 1" "n \<le> length cs"
      "list_all (\<lambda>c. \<not> highHalf c) (take n cs) \<longrightarrow> n = length cs"
      using 2(2) [OF False, of "k + 1"] by blast
    have "utf16LengthLoop ((c # cs) @ [0]) k = utf16LengthLoop (cs @ [0]) (k + 1)"
      using False by (simp only: append_Cons utf16LengthLoop.simps if_False)
    also have "\<dots> = k + int (Suc n) + 1" using n(1) by simp
    finally have "utf16LengthLoop ((c # cs) @ [0]) k = k + int (Suc n) + 1" .
    moreover have "list_all (\<lambda>c. \<not> highHalf c) (take (Suc n) (c # cs)) \<longrightarrow> Suc n = length (c # cs)"
      using n(3) by auto
    moreover have "Suc n \<le> length (c # cs)" using n(2) by simp
    ultimately show ?thesis by blast
  qed
qed

text \<open>The number a text stands for: an optional sign and decimal digits.\<close>

definition signedBody :: "jchar list \<Rightarrow> jchar list" where
  "signedBody t = (if hd t = 0x2D \<or> hd t = 0x2B then tl t else t)"

definition signedValue :: "jchar list \<Rightarrow> int" where
  "signedValue t = (if hd t = 0x2D then - decimal 0 (signedBody t) else decimal 0 (signedBody t))"

lemma digit_not_high: "list_all isDigit cs \<Longrightarrow> list_all (\<lambda>c. \<not> highHalf c) cs"
  by (induction cs) (auto simp: isDigit_def word_le_def)

text \<open>The loop of the parser on a well-formed text.\<close>

lemma parse_text:
  assumes "pcslOk s" "textOf s = Some t" "t \<noteq> []" "wellFormed16 t"
  defines "body \<equiv> drop (if t ! 0 = 0x2D \<or> t ! 0 = 0x2B then 1 else 0)
      (take (nat (pcsl_string_length (Some s))) (t @ [0]))"
  shows "pcsl_string_length (Some s) > 0"
    and "if list_all isDigit (signedBody t) \<and> decimal 0 (signedBody t) \<le> 2 ^ 63
      then parseLoop body 0 = (PCSL_STRING_OK, word_of_int (decimal 0 (signedBody t)))
      else fst (parseLoop body 0) \<noteq> PCSL_STRING_OK"
proof -
  obtain n where n: "utf16LengthLoop (t @ [0]) 0 = int n + 1" "n \<le> length t" "0 < n"
    "list_all (\<lambda>c. \<not> highHalf c) (take n t) \<longrightarrow> n = length t"
    using length_loop_wellFormed [OF assms(4), of 0] assms(3) by auto
  have "dataOf (Some s) = Some (t @ [0])" using assms(1,2) by (auto elim!: pcslOkE simp: dataOf_def)
  then have len: "pcsl_string_length (Some s) = int n"
    using n(1) by (simp add: pcsl_string_length_def utf16_string_length_def)
  then show "pcsl_string_length (Some s) > 0" using n(3) by simp
  define k where "k = (if t ! 0 = 0x2D \<or> t ! 0 = 0x2B then 1 else 0 :: nat)"
  have body: "body = drop k (take n t)" using n(2) len by (simp add: body_def k_def)
  have sb: "signedBody t = drop k t"
    using assms(3) by (cases t) (auto simp: signedBody_def k_def)
  have take: "list_all isDigit (drop k (take n t)) \<Longrightarrow> n = length t"
  proof -
    assume d: "list_all isDigit (drop k (take n t))"
    have "list_all (\<lambda>c. \<not> highHalf c) (take n t)"
    proof (cases "k = 0")
      case True
      with d show ?thesis using digit_not_high [of "take n t"] by simp
    next
      case False
      obtain c cs m where t: "t = c # cs" "n = Suc m" using assms(3) n(3) by (cases t; cases n) auto
      with False have "c = 0x2D \<or> c = 0x2B" "k = 1" by (auto simp: k_def split: if_splits)
      then have "\<not> highHalf c" by (auto simp: word_le_def)
      with d t \<open>k = 1\<close> show ?thesis using digit_not_high [of "take m cs"] by simp
    qed
    with n(4) show "n = length t" by simp
  qed
  have loop: "if list_all isDigit body \<and> decimal 0 body \<le> 2 ^ 63
      then parseLoop body 0 = (PCSL_STRING_OK, word_of_int (decimal 0 body))
      else fst (parseLoop body 0) \<noteq> PCSL_STRING_OK"
    using parse_loop [of 0 body] by (simp only: word_of_int_0 le_refl) simp
  show "if list_all isDigit (signedBody t) \<and> decimal 0 (signedBody t) \<le> 2 ^ 63
      then parseLoop body 0 = (PCSL_STRING_OK, word_of_int (decimal 0 (signedBody t)))
      else fst (parseLoop body 0) \<noteq> PCSL_STRING_OK"
  proof (cases "list_all isDigit body")
    case True
    with take have "n = length t" unfolding body by blast
    then have "body = signedBody t" unfolding body sb by simp
    with loop show ?thesis by (simp only:)
  next
    case False
    then have "\<not> list_all isDigit (signedBody t)"
      unfolding body sb by (metis append_take_drop_id drop_take list_all_append)
    with False loop show ?thesis by (simp only: simp_thms if_False)
  qed
qed

section \<open>Decimal texts of numbers\<close>

function decText :: "int \<Rightarrow> jchar list" where
  "decText v = (if v < 10 then [DIGIT v] else decText (v div 10) @ [DIGIT (v mod 10)])"
  by pat_completeness auto
termination by (relation "measure nat") auto

declare decText.simps [simp del]

lemma uint_DIGIT: "0 \<le> v \<Longrightarrow> v < 10 \<Longrightarrow> uint (DIGIT v) = 0x30 + v"
  by (simp add: DIGIT_def uint_word_ariths(1) uint_word_of_int_eq take_bit_int_eq_self)

lemma digit_DIGIT: "0 \<le> v \<Longrightarrow> v < 10 \<Longrightarrow> isDigit (DIGIT v)"
  by (simp add: isDigit_uint uint_DIGIT)

lemma decText_digits: "0 \<le> v \<Longrightarrow> list_all isDigit (decText v) \<and> decimal 0 (decText v) = v"
proof (induction v rule: decText.induct)
  case (1 v)
  show ?case
  proof (cases "v < 10")
    case True
    with 1 show ?thesis by (subst (1 2) decText.simps) (simp add: digit_DIGIT uint_DIGIT)
  next
    case False
    with 1 show ?thesis by (subst (1 2) decText.simps) (simp add: digit_DIGIT uint_DIGIT)
  qed
qed

lemma length_decText: "0 \<le> v \<Longrightarrow> v < 10 ^ Suc k \<longleftrightarrow> length (decText v) \<le> Suc k"
proof (induction v arbitrary: k rule: decText.induct)
  case (1 v)
  show ?case
  proof (cases "v < 10")
    case True
    moreover have "(1 :: int) \<le> 10 ^ k" by simp
    ultimately have "v < 10 * 10 ^ k" by linarith
    with True show ?thesis by (subst decText.simps) simp
  next
    case False
    then have l: "length (decText v) = Suc (length (decText (v div 10)))" by (subst decText.simps) simp
    show ?thesis
    proof (cases k)
      case 0
      then show ?thesis using False l by (simp add: decText.simps [of "v div 10"])
    next
      case (Suc j)
      have "v < 10 ^ Suc (Suc j) \<longleftrightarrow> v div 10 < 10 ^ Suc j" by auto
      with 1 False l Suc show ?thesis by simp
    qed
  qed
qed

lemma digit_loop:
  assumes "0 \<le> v" "int (length (decText v)) \<le> p + 2" "p < int (length buf)"
  shows "\<exists>b d. digitLoop v buf p = Some (d, b, p + 1 - int (length (decText v)))
    \<and> length b = length buf \<and> 0 \<le> d \<and> d < 10
    \<and> DIGIT d # drop (nat (p + 2 - int (length (decText v)))) b = decText v @ drop (nat (p + 1)) buf"
  using assms
proof (induction v buf p rule: digitLoop.induct)
  case (1 v buf p)
  show ?case
  proof (cases "v < 10")
    case True
    with 1 show ?thesis by (subst digitLoop.simps, simp add: decText.simps RADIX_def add.commute)
  next
    case False
    have dt: "decText v = decText (v div 10) @ [DIGIT (v mod 10)]" using False by (simp add: decText.simps)
    have ne: "0 < length (decText (v div 10))" by (subst decText.simps) simp
    then have "1 \<le> int (length (decText (v div 10)))" by linarith
    with 1(3) dt have p: "0 \<le> p" by simp
    have put: "putAt buf p (DIGIT (v mod RADIX)) = Some (buf[nat p := DIGIT (v mod 10)])"
      using p 1(4) by (simp add: putAt_def RADIX_def)
    have "digitLoop v buf p = digitLoop (v div 10) (buf[nat p := DIGIT (v mod 10)]) (p - 1)"
      using False put by (subst digitLoop.simps) (simp add: RADIX_def)
    moreover have "drop (nat p) (buf[nat p := DIGIT (v mod 10)]) = DIGIT (v mod 10) # drop (nat (p + 1)) buf"
      using p 1(4) by (simp add: nat_add_distrib flip: Cons_nth_drop_Suc)
    moreover note 1(1) [of "buf[nat p := DIGIT (v mod 10)]"]
    ultimately show ?thesis using False 1(2-4) put by (simp add: dt RADIX_def algebra_simps)
  qed
qed

lemma to_jlong_result:
  assumes "pcslOk s" "textOf s = Some t" "t \<noteq> []" "wellFormed16 t"
  shows "if list_all isDigit (signedBody t) \<and> - (2 ^ 63) \<le> signedValue t \<and> signedValue t < 2 ^ 63
    then pcsl_string_convert_to_jlong (Some s) (Some old)
      = (PCSL_STRING_OK, Some (word_of_int (signedValue t)))
    else \<exists>st. st \<noteq> PCSL_STRING_OK \<and> pcsl_string_convert_to_jlong (Some s) (Some old) = (st, Some old)"
proof -
  define d where "d = decimal 0 (signedBody t)"
  define body where "body = drop (if t ! 0 = 0x2D \<or> t ! 0 = 0x2B then 1 else 0)
      (take (nat (pcsl_string_length (Some s))) (t @ [0]))"
  have data: "dataOf (Some s) = Some (t @ [0])" using assms(1,2) by (auto elim!: pcslOkE simp: dataOf_def)
  have hd: "(t @ [0]) ! 0 = hd t" "t ! 0 = hd t" using assms(3) by (cases t; simp)+
  have ne: "pcsl_string_length (Some s) \<noteq> 0" using parse_text(1) [OF assms(1-4)] by simp
  have conv: "pcsl_string_convert_to_jlong (Some s) (Some old) =
      (case parseLoop body 0 of (st, r) \<Rightarrow>
         if st \<noteq> PCSL_STRING_OK then (st, Some old)
         else if hd t = 0x2D then (PCSL_STRING_OK, Some (- r))
         else if r = MIN_LONG then (PCSL_STRING_OVERFLOW, Some old)
         else (PCSL_STRING_OK, Some r))"
    using ne by (simp add: pcsl_string_convert_to_jlong_def data hd body_def Let_def)
  have p: "if list_all isDigit (signedBody t) \<and> d \<le> 2 ^ 63
      then parseLoop body 0 = (PCSL_STRING_OK, word_of_int d) else fst (parseLoop body 0) \<noteq> PCSL_STRING_OK"
    using parse_text(2) [OF assms(1-4)] unfolding body_def d_def .
  have v: "signedValue t = (if hd t = 0x2D then - d else d)" by (simp add: signedValue_def d_def)
  show ?thesis
  proof (cases "list_all isDigit (signedBody t) \<and> d \<le> 2 ^ 63")
    case True
    with p have pl: "parseLoop body 0 = (PCSL_STRING_OK, word_of_int d)" by (simp only: if_True simp_thms)
    from True have "0 \<le> d" using decimal_mono [of "signedBody t" 0] by (simp add: d_def)
    have "(word_of_int d :: jlong) = MIN_LONG \<longleftrightarrow> d = 2 ^ 63"
      unfolding long_limits(3) word_of_int_eq_iff using True \<open>0 \<le> d\<close> by (simp add: take_bit_int_eq_self)
    then have "pcsl_string_convert_to_jlong (Some s) (Some old) =
        (if hd t = 0x2D then (PCSL_STRING_OK, Some (word_of_int (- d)))
         else if d = 2 ^ 63 then (PCSL_STRING_OVERFLOW, Some old) else (PCSL_STRING_OK, Some (word_of_int d)))"
      unfolding conv pl by (simp only: prod.case simp_thms if_False wi_hom_neg)
    with True \<open>0 \<le> d\<close> show ?thesis unfolding v by (cases "hd t = 0x2D"; cases "d = 2 ^ 63") simp_all
  next
    case False
    with p have bad: "fst (parseLoop body 0) \<noteq> PCSL_STRING_OK" by simp
    have out: "\<not> (list_all isDigit (signedBody t) \<and> - (2 ^ 63) \<le> signedValue t \<and> signedValue t < 2 ^ 63)"
      using False unfolding v by (auto split: if_splits)
    have "pcsl_string_convert_to_jlong (Some s) (Some old) = (fst (parseLoop body 0), Some old)"
      using bad unfolding conv by (simp add: split_def)
    with bad out show ?thesis by auto
  qed
qed

lemma narrow_jlong:
  assumes "- (2 ^ 63) \<le> x" "x < 2 ^ 63"
  shows "scast (ucast (word_of_int x :: jlong) :: jint) = (word_of_int x :: jlong)
    \<longleftrightarrow> - (2 ^ 31) \<le> x \<and> x < 2 ^ 31"
    and "(ucast (word_of_int x :: jlong) :: jint) = word_of_int x"
proof -
  show u: "(ucast (word_of_int x :: jlong) :: jint) = word_of_int x"
    by (rule bit_word_eqI) (simp add: bit_simps)
  have l: "- (2 ^ 31) \<le> sint (word_of_int x :: jint)" "sint (word_of_int x :: jint) < 2 ^ 31"
    using sint_ge [of "word_of_int x :: jint"] sint_lt [of "word_of_int x :: jint"] by simp_all
  have "scast (word_of_int x :: jint) = (word_of_int x :: jlong)
      \<longleftrightarrow> sint (scast (word_of_int x :: jint) :: jlong) = sint (word_of_int x :: jlong)"
    by (metis signed_word_eqI)
  also have "\<dots> \<longleftrightarrow> sint (word_of_int x :: jint) = sint (word_of_int x :: jlong)"
    by (subst sint_up_scast) (simp_all add: is_up)
  also have "\<dots> \<longleftrightarrow> sint (word_of_int x :: jint) = x"
    using assms by (simp add: signed_of_int signed_take_bit_int_eq_self)
  also have "\<dots> \<longleftrightarrow> - (2 ^ 31) \<le> x \<and> x < 2 ^ 31"
    using l by (auto simp: signed_of_int signed_take_bit_int_eq_self)
  finally show "scast (ucast (word_of_int x :: jlong) :: jint) = (word_of_int x :: jlong)
    \<longleftrightarrow> - (2 ^ 31) \<le> x \<and> x < 2 ^ 31" unfolding u .
qed

definition numText :: "int \<Rightarrow> jchar list" where
  "numText i = (if i < 0 then 0x2D # decText (- i) else decText i)"

lemma decText_plain: "0 \<le> v \<Longrightarrow> decText v \<noteq> [] \<and> hd (decText v) \<noteq> 0x2D \<and> hd (decText v) \<noteq> 0x2B"
proof -
  assume v: "0 \<le> v"
  then have d: "list_all isDigit (decText v)" using decText_digits by blast
  have ne: "decText v \<noteq> []" by (subst decText.simps) simp
  with d have "isDigit (hd (decText v))" by (cases "decText v") simp_all
  with ne show ?thesis by (auto simp: isDigit_def word_le_def)
qed

lemma wellFormed_plain: "list_all (\<lambda>c. \<not> highHalf c \<and> \<not> lowHalf c) t \<Longrightarrow> wellFormed16 t"
  by (induction t) auto

lemma digit_plain: "list_all isDigit t \<Longrightarrow> list_all (\<lambda>c. \<not> highHalf c \<and> \<not> lowHalf c) t"
  by (induction t) (auto simp: isDigit_def word_le_def)

lemma numText_facts:
  "numText i \<noteq> []" "wellFormed16 (numText i)" "signedValue (numText i) = i"
  "list_all isDigit (signedBody (numText i))"
proof -
  define a where "a = abs i"
  have p: "decText a \<noteq> []" "hd (decText a) \<noteq> 0x2D" "hd (decText a) \<noteq> 0x2B"
    using decText_plain [of a] by (auto simp: a_def)
  have d: "list_all isDigit (decText a)" "decimal 0 (decText a) = a"
    using decText_digits [of a] by (auto simp: a_def)
  have n: "numText i = (if i < 0 then 0x2D # decText a else decText a)"
    by (simp add: numText_def a_def)
  show "numText i \<noteq> []" using p n by simp
  have "wellFormed16 (decText a)" by (intro wellFormed_plain digit_plain d(1))
  then show "wellFormed16 (numText i)" using n by (simp add: word_le_def)
  have b: "signedBody (numText i) = decText a" using p n by (simp add: signedBody_def)
  show "signedValue (numText i) = i" using p n d unfolding signedValue_def b
    by (cases "i < 0") (simp_all, simp_all add: a_def)
  show "list_all isDigit (signedBody (numText i))" using d(1) unfolding b .
qed

lemma min_long_text: "MIN_JLONG_TEXT = numText (- (2 ^ 63)) @ [0]"
  by (simp add: numText_def decText.simps DIGIT_def MIN_JLONG_TEXT_def)

lemma abs_jlong:
  assumes "v \<noteq> MIN_LONG"
  shows "- (2 ^ 63) < sint v" "sint v < 2 ^ 63" "sint (if sint v < 0 then - v else v) = abs (sint v)"
proof -
  have "sint v \<noteq> sint MIN_LONG" using assms signed_word_eqI [of v MIN_LONG] by blast
  then show r: "- (2 ^ 63) < sint v" "sint v < 2 ^ 63"
    using sint_ge [of v] sint_lt [of v] unfolding long_limits(2) by auto
  have "- v = word_of_int (- sint v)" by (simp add: wi_hom_neg)
  then have "sint (- v) = - sint v"
    using r by (simp only: signed_of_int) (simp add: signed_take_bit_int_eq_self)
  then show "sint (if sint v < 0 then - v else v) = abs (sint v)" by simp
qed

lemma from_jlong_result:
  fixes v :: jlong
  defines "i \<equiv> sint v"
  shows "if - (2 ^ 63) < i \<and> i \<le> - (10 ^ 18) then pcsl_string_convert_from_jlong (\<lambda>_. True) v (Some u) = None
    else \<exists>r. pcsl_string_convert_from_jlong (\<lambda>_. True) v (Some u) = Some (PCSL_STRING_OK, Some r)
           \<and> pcslOk r \<and> textOf r = Some (numText i)"
proof (cases "v = MIN_LONG")
  case True
  let ?r = "\<lparr>sData = Some MIN_JLONG_TEXT, sLength = int (length MIN_JLONG_TEXT), sFlags = 0\<rparr>"
  have i: "i = - (2 ^ 63)" using True by (simp add: i_def long_limits(2))
  have "pcsl_string_convert_from_jlong (\<lambda>_. True) v (Some u) = Some (PCSL_STRING_OK, Some ?r)"
    using True by (simp add: pcsl_string_convert_from_jlong_def long_limits(2))
  moreover have "pcslOk ?r" "textOf ?r = Some (numText i)"
    unfolding i by (simp_all add: pcslOk_def textOf_def min_long_text)
  ultimately show ?thesis using i by auto
next
  case False
  note r = abs_jlong(1,2) [OF False, folded i_def] and a = abs_jlong(3) [OF False, folded i_def]
  let ?t = "decText (abs i)" and ?buf = "replicate 20 0 :: jchar list"
  have len: "length ?t \<le> Suc 18" "length ?t \<le> Suc 17 \<longleftrightarrow> abs i < 10 ^ 18"
    using r length_decText [of "abs i" 18] length_decText [of "abs i" 17] by auto
  have l1: "1 \<le> length ?t" using decText_plain [of "abs i"] by (cases ?t) auto
  obtain b d where b: "digitLoop (abs i) ?buf 18 = Some (d, b, 19 - int (length ?t))" "length b = 20"
    "DIGIT d # drop (20 - length ?t) b = ?t @ [0]"
  proof -
    have "drop 19 ?buf = [0]" by (simp add: drop_replicate)
    moreover have "nat (20 - int (length ?t)) = 20 - length ?t" by simp
    ultimately show thesis using digit_loop [of "abs i" 18 ?buf] len(1) that by auto
  qed
  define k where "k = 19 - length ?t"
  have k: "nat (19 - int (length ?t)) = k" "20 - length ?t = Suc k" "19 - int (length ?t) = int k" "k < 20"
    using len(1) l1 by (auto simp: k_def)
  define b1 where "b1 = b[k := DIGIT d]"
  have b1: "putAt b (int k) (DIGIT d) = Some b1" "drop k b1 = ?t @ [0]" "length b1 = 20"
    using b(2,3) k(2,4) by (simp_all add: putAt_def b1_def flip: Cons_nth_drop_Suc)
  have conv: "pcsl_string_convert_from_jlong (\<lambda>_. True) v (Some u) =
      (if i < 0 then (case putAt b1 (int k - 1) 0x2D of None \<Rightarrow> None
         | Some b2 \<Rightarrow> Some (PCSL_STRING_OK, Some (heapString (drop (nat (int k - 1)) b2))))
       else Some (PCSL_STRING_OK, Some (heapString (drop k b1))))"
  proof -
    have copy: "Option.bind (memcpyCells (allocCells (2 * (20 - q))) 0 xs q (20 - q))
        (\<lambda>c. Option.bind (builtString c (20 - q)) (\<lambda>s. Some (PCSL_STRING_OK, Some s)))
      = Some (PCSL_STRING_OK, Some (heapString (drop (nat q) xs)))"
      if "length xs = 20" "0 \<le> q" "q < 20" for xs q
    proof -
      have "memcpyCells (allocCells (2 * (20 - q))) 0 xs q (20 - q)
          = Some (map Some (take (nat (20 - q)) (drop (nat q) xs)))"
        using that by (intro memcpy_all) simp_all
      moreover have "take (nat (20 - q)) (drop (nat q) xs) = drop (nat q) xs"
        using that by simp
      moreover have "builtString (map Some (drop (nat q) xs)) (20 - q) = Some (heapString (drop (nat q) xs))"
        using that by (intro built_string) simp
      ultimately show ?thesis by simp
    qed
    have "(replicate 20 0 :: jchar list)[19 := 0] = replicate 20 0" by (simp add: list_update_same_conv)
    then have put: "putAt (replicate TEXT_BUF_FOR_LONG_SIZE 0) (int TEXT_BUF_FOR_LONG_SIZE - 1) 0 = Some ?buf"
      by (simp add: TEXT_BUF_FOR_LONG_SIZE_def putAt_def)
    have loop: "digitLoop (sint (if i < 0 then - v else v)) ?buf (int TEXT_BUF_FOR_LONG_SIZE - 1 - 1)
        = Some (d, b, int k)"
      using b(1) by (simp add: a k(3) TEXT_BUF_FOR_LONG_SIZE_def)
    show ?thesis
    proof (cases "i < 0")
      case True
      show ?thesis
      proof (cases "putAt b1 (int k - 1) 0x2D")
        case None
        with True False put loop b1(1) show ?thesis
          by (simp add: pcsl_string_convert_from_jlong_def i_def Let_def)
      next
        case (Some b2)
        then have "0 \<le> int k - 1" "length b2 = 20" using b1(3) by (auto simp: putAt_def split: if_splits)
        then have "Option.bind (memcpyCells (allocCells (2 * (20 - (int k - 1)))) 0 b2 (int k - 1) (20 - (int k - 1)))
            (\<lambda>c. Option.bind (builtString c (20 - (int k - 1))) (\<lambda>s. Some (PCSL_STRING_OK, Some s)))
          = Some (PCSL_STRING_OK, Some (heapString (drop (nat (int k - 1)) b2)))"
          using k(4) by (intro copy) simp_all
        with Some True False put loop b1(1) show ?thesis
          by (simp add: pcsl_string_convert_from_jlong_def i_def Let_def TEXT_BUF_FOR_LONG_SIZE_def)
      qed
    next
      case pos: False
      have "Option.bind (memcpyCells (allocCells (2 * (20 - int k))) 0 b1 (int k) (20 - int k))
          (\<lambda>c. Option.bind (builtString c (20 - int k)) (\<lambda>s. Some (PCSL_STRING_OK, Some s)))
        = Some (PCSL_STRING_OK, Some (heapString (drop (nat (int k)) b1)))"
        using k(4) b1(3) by (intro copy) simp_all
      with pos False put loop b1(1) show ?thesis
        by (simp add: pcsl_string_convert_from_jlong_def i_def Let_def TEXT_BUF_FOR_LONG_SIZE_def)
    qed
  qed
  show ?thesis
  proof (cases "i < 0")
    case neg: True
    show ?thesis
    proof (cases "i \<le> - (10 ^ 18)")
      case True
      with len neg have "k = 0" by (auto simp: k_def)
      with conv neg True r(1) show ?thesis by (simp add: putAt_def)
    next
      case ok: False
      with len(2) neg have "length ?t \<le> 18" by simp
      then obtain j where j: "k = Suc j" by (cases k) (auto simp: k_def)
      have "drop j (b1[j := 0x2D]) = 0x2D # drop k b1" using b1(3) k(4) j by (simp flip: Cons_nth_drop_Suc)
      with conv neg b1 k(4) j have "pcsl_string_convert_from_jlong (\<lambda>_. True) v (Some u)
          = Some (PCSL_STRING_OK, Some (heapString (numText i @ [0])))"
        by (simp add: putAt_def numText_def)
      with ok show ?thesis by simp
    qed
  next
    case pos: False
    with conv b1(2) have "pcsl_string_convert_from_jlong (\<lambda>_. True) v (Some u)
        = Some (PCSL_STRING_OK, Some (heapString (numText i @ [0])))"
      by (simp add: numText_def)
    with pos show ?thesis by simp
  qed
qed

section \<open>Escaped names\<close>

lemma stripZeros_last: "xs \<noteq> [] \<Longrightarrow> last xs \<noteq> 0 \<Longrightarrow> stripZeros xs = xs"
  by (cases xs rule: rev_cases) (simp_all add: stripZeros_def)

lemma length_escape: "length (concat (map escapeChar s)) \<le> 5 * length s"
  by (induction s) (auto simp: escapeChar_def)

lemma escape_zero: "escapeChar 0 = [charPercent, 0x30, 0x30, 0x30, 0x30]"
  by (simp add: escapeChar_def NUMS_def)

text \<open>
  \<^verbatim>\<open>suffix->length\<close> counts the terminating zero, which is escaped with the rest.
\<close>

lemma append_escaped_result:
  assumes "pcslOk d" "pcslOk s" "textOf s = Some t" "pcsl_string_length (Some s) > 0" "\<And>n. mem n"
  shows "\<exists>r. pcsl_string_append_escaped_ascii mem (Some d) (Some s) = Some (PCSL_STRING_OK, Some r)
    \<and> pcslOk r \<and> textOf r = Some (unitsOf d @ concat (map escapeChar (t @ [0])))"
proof -
  let ?e = "concat (map escapeChar (t @ [0]))"
  have s: "cellsOf s = t @ [0]" "sLength s = int (length t) + 1" "sData s = Some (t @ [0])"
    using assms(2,3) by (auto elim!: pcslOkE)
  have n: "nat (PCSL_STRING_ESCAPED_BUFFER_SIZE (sLength s)) = 5 * length (t @ [0])"
    by (simp add: PCSL_STRING_ESCAPED_BUFFER_SIZE_def s(2))
  let ?buf = "replicate (5 * length (t @ [0])) 0 :: jchar list"
  have l: "length ?e \<le> length ?buf" using length_escape [of "t @ [0]"] by simp
  then have "escapeLoop (t @ [0]) 0 ?buf = Some (length ?e, ?e @ drop (length ?e) ?buf)"
    using escapeLoop_result [of 0 "t @ [0]" ?buf] by simp
  then have esc: "pcsl_utf16_to_escaped_ascii (t @ [0]) ?buf 0 = Some (length ?e, ?e @ drop (length ?e) ?buf)"
    by (simp add: pcsl_utf16_to_escaped_ascii_def)
  have strip: "stripZeros ?e = ?e" by (rule stripZeros_last) (simp_all add: escape_zero)
  obtain r where "pcsl_string_append_buf mem (Some d) (Some (?e @ drop (length ?e) ?buf)) (int (length ?e))
      = Some (PCSL_STRING_OK, Some r)" "pcslOk r" "textOf r = Some (unitsOf d @ ?e)"
    using append_buf_result [OF assms(1), of "length ?e" "?e @ drop (length ?e) ?buf" mem] assms(5) strip
    by auto
  with assms(4,5) s esc n show ?thesis
    by (simp add: pcsl_string_append_escaped_ascii_def Let_def del: concat_append map_append)
qed

lemma append_escaped_ok:
  assumes "pcslOk u" "pcslOk s"
  shows "returnsOk (pcsl_string_append_escaped_ascii mem (Some u) (Some s))"
  using assms(2)
proof (cases rule: pcslOkE)
  case 1
  with assms(1) show ?thesis by (simp add: pcsl_string_append_escaped_ascii_def)
next
  case (2 t)
  let ?n = "nat (PCSL_STRING_ESCAPED_BUFFER_SIZE (sLength s))"
  have n: "?n = 5 * length (t @ [0])" by (simp add: PCSL_STRING_ESCAPED_BUFFER_SIZE_def 2(2))
  obtain len data where e: "pcsl_utf16_to_escaped_ascii (t @ [0]) (replicate ?n 0) 0 = Some (len, data)"
    "len \<le> length data"
    using escapeLoop_result [of 0 "t @ [0]" "replicate ?n 0"] length_escape [of "t @ [0]"]
    unfolding n pcsl_utf16_to_escaped_ascii_def by fastforce
  have "returnsOk (pcsl_string_append_buf mem (Some u) (Some data) (int len))"
    using assms(1) e(2) by (intro append_buf_ok) (simp_all add: withinArray_def)
  with e(1) assms(1) 2(1,5) show ?thesis
    by (simp add: pcsl_string_append_escaped_ascii_def Let_def)
qed

text \<open>
  \<^verbatim>\<open>pcsl_string_substring\<close> checks the bounds after it has subtracted them: for an end so far below the
  begin that the difference wraps around, all tests pass and the copy reads behind the text.
\<close>

lemma jintDiff_word:
  assumes "0 \<le> b" "b < 2 ^ 31" "- (2 ^ 31) \<le> e" "e < 2 ^ 31"
  shows "jintDiff e b = sint (word_of_int e - word_of_int b :: jint)"
proof -
  have w: "sint (word_of_int e - word_of_int b :: jint) = signed_take_bit 31 (e - b)"
    unfolding wi_hom_sub signed_of_int by simp
  show ?thesis
  proof (cases "e - b < - (2 ^ 31)")
    case True
    have "signed_take_bit 31 (e - b) = signed_take_bit 31 (e - b + 2 ^ 32)"
      unfolding signed_take_bit_eq_take_bit_shift take_bit_eq_mod
      using mod_add_self2 [of "e - b + 2 ^ 31" "2 ^ 32 :: int"] by (simp add: algebra_simps)
    also have "\<dots> = e - b + 2 ^ 32" using True assms by (intro signed_take_bit_int_eq_self) simp_all
    finally show ?thesis using True by (simp add: w jintDiff_def)
  next
    case False
    then have "signed_take_bit 31 (e - b) = e - b" using assms by (intro signed_take_bit_int_eq_self) simp_all
    with False show ?thesis by (simp add: w jintDiff_def)
  qed
qed

lemma substring_wraps:
  assumes "pcslOk s" "textOf s = Some t" "0 \<le> pcsl_string_length (Some s)" "length t < 2 ^ 31 - 1"
    and "0 \<le> b" "b < 2 ^ 31" "- (2 ^ 31) \<le> e" "e - b < - (2 ^ 31)" "\<And>n. mem n"
  shows "pcsl_string_substring mem (Some s) b e (Some u) = (PCSL_STRING_OK, None)"
proof -
  have s: "sData s = Some (t @ [0])" "bufferOf s = t @ [0]" using assms(1,2) by (auto elim!: pcslOkE)
  have d: "jintDiff e b = e - b + 2 ^ 32" using assms(8) by (simp add: jintDiff_def)
  have "int (length t) < 2 ^ 31 - 1" using assms(4) by simp
  then have "memcpyCells (allocCells ((e - b + 2 ^ 32 + 1) * 2)) 0 (t @ [0]) b (e - b + 2 ^ 32) = None"
    using assms(7) by (simp add: memcpyCells_def)
  with s d assms(3,5-9) show ?thesis by (simp add: pcsl_string_substring_def Let_def)
qed

section \<open>Properties\<close>

text \<open>
  C13. Strings stay well formed: whatever the memory allows, the sizes, offsets and lengths that
  the operations compute fit each other. Every copy and every store of concatenating, duplicating,
  cutting, trimming, appending, escaping and converting stays inside of the allocated block and
  of the source, all cells of the block are written, the length that is stored is their number
  and the last one is the zero, in the error cases the destination is well formed too. The length
  passed with an array is to be within it, and the bounds of a substring are not to be so far
  apart that their difference wraps around: then the code copies from behind the text.
\<close>

theorem strings_stay_well_formed:
  assumes "pcslOk s" "pcslOk t" "pcslOk u" "withinArray buf n" "withinArray bytes m" "- (2 ^ 31) \<le> e - b"
  shows "list_all storedOk
      [pcsl_string_cat mem (Some s) (Some t) (Some u), pcsl_string_dup mem (Some s) (Some u),
       pcsl_string_substring mem (Some s) b e (Some u), pcsl_string_trim mem (Some s) (Some u),
       pcsl_string_trim_from_end mem (Some s) (Some u), pcsl_string_free (Some u),
       pcsl_string_convert_from_utf16 mem buf n (Some u),
       pcsl_string_convert_from_utf8 mem mem2 bytes m (Some u)]
    \<and> list_all returnsOk
      [pcsl_string_append mem (Some u) (Some s), pcsl_string_append_buf mem (Some u) buf n,
       pcsl_string_append_char mem (Some u) c, pcsl_string_append_escaped_ascii mem (Some u) (Some s)]"
proof -
  have "withinArray (Some [c]) 1" by (simp add: withinArray_def)
  with assms show ?thesis
    by (simp add: cat_ok dup_ok substring_ok trimmed_ok from_utf16_ok from_utf8_ok append_ok append_buf_ok
        append_escaped_ok pcsl_string_trim_def pcsl_string_trim_from_end_def pcsl_string_free_def
        pcsl_string_append_char_def)
qed

definition sampleString :: PcslString where
  "sampleString = heapString [0x2D, 0x34, 0x32, 0]"

lemma sample_string: "pcslOk sampleString" "textOf sampleString = Some [0x2D, 0x34, 0x32]"
  using ok_heap(1,2) [of "[0x2D, 0x34, 0x32]"] by (simp_all add: sampleString_def)

lemma strings_stay_well_formed_witness:
  "storedOk (pcsl_string_cat (\<lambda>n. n < 20) (Some sampleString) (Some EMPTY_STRING) (Some NULL_STRING))
   \<and> storedOk (pcsl_string_trim (\<lambda>n. n < 20) (Some sampleString) (Some NULL_STRING))
   \<and> storedOk (pcsl_string_convert_from_utf16 (\<lambda>n. n < 20) (Some [0x41, 0x42, 0]) 3 (Some NULL_STRING))"
proof -
  have "withinArray (Some [0x41, 0x42, 0 :: jchar]) 3" "withinArray (Some [0x41 :: jbyte]) 1"
    by (simp_all add: withinArray_def)
  from strings_stay_well_formed [OF sample_string(1) ok_literals(1,2) this, of 2 1 "\<lambda>n. n < 20"]
  show ?thesis by simp
qed

text \<open>
  C14. The operations implement those on lists: as long as there is memory, concatenation
  appends the texts (\<^verbatim>\<open>NULL\<close> counts as empty), duplication keeps the text, trimming drops the blanks
  at both ends, and a substring of a text without high halves is the part between the bounds;
  equality is that of the texts, comparison gives 0 for equal texts only, and the tests for
  the start and the end are those for a prefix and a suffix, \<^verbatim>\<open>NULL\<close> being part of everything.
  This is what the code does; the comments of \<^verbatim>\<open>pcsl_string.h\<close> have \<^verbatim>\<open>NULL\<close> equal to nothing and part
  of nothing, and the zeros at the end of a substring stripped.
\<close>

theorem strings_refine_lists:
  assumes "pcslOk s" "pcslOk t" "\<And>n. mem n"
  shows "(\<exists>r. pcsl_string_cat mem (Some s) (Some t) (Some u) = (PCSL_STRING_OK, Some r)
        \<and> textOf r = Some (unitsOf s @ unitsOf t))
    \<and> (\<exists>r. pcsl_string_dup mem (Some s) (Some u) = (PCSL_STRING_OK, Some r) \<and> textOf r = textOf s)
    \<and> (\<exists>r. pcsl_string_trim mem (Some s) (Some u) = (PCSL_STRING_OK, Some r)
        \<and> textOf r = map_option (\<lambda>x. rev (dropWhile blank (rev (dropWhile blank x)))) (textOf s))
    \<and> (list_all (\<lambda>c. \<not> highHalf c) (unitsOf s) \<and> textOf s \<noteq> None \<and> b \<le> e \<and> e \<le> length (unitsOf s) \<longrightarrow>
        (\<exists>r. pcsl_string_substring mem (Some s) (int b) (int e) (Some u) = (PCSL_STRING_OK, Some r)
          \<and> textOf r = Some (take (e - b) (drop b (unitsOf s)))))
    \<and> pcsl_string_equals (Some s) (Some t) = (textOf s = textOf t)
    \<and> (\<exists>c. pcsl_string_compare (Some s) (Some t) (Some c0) = (PCSL_STRING_OK, Some c)
        \<and> (c = 0 \<longleftrightarrow> textOf s = textOf t))
    \<and> pcsl_string_starts_with (Some s) (Some t)
        = (textOf t = None \<or> textOf s \<noteq> None \<and> prefix (unitsOf t) (unitsOf s))
    \<and> pcsl_string_ends_with (Some s) (Some t)
        = (textOf t = None \<or> textOf s \<noteq> None \<and> suffix (unitsOf t) (unitsOf s))"
proof (intro conjI impI)
  show "\<exists>r. pcsl_string_cat mem (Some s) (Some t) (Some u) = (PCSL_STRING_OK, Some r)
      \<and> textOf r = Some (unitsOf s @ unitsOf t)"
    using assms by (auto simp: cat_result)
  show "\<exists>r. pcsl_string_dup mem (Some s) (Some u) = (PCSL_STRING_OK, Some r) \<and> textOf r = textOf s"
    using dup_result [OF assms(1)] assms(3) by (metis prod.collapse)
  show "\<exists>r. pcsl_string_trim mem (Some s) (Some u) = (PCSL_STRING_OK, Some r)
      \<and> textOf r = map_option (\<lambda>x. rev (dropWhile blank (rev (dropWhile blank x)))) (textOf s)"
    using trimmed_result [OF assms(1), of True mem u] assms(3)
    by (auto simp: pcsl_string_trim_def trimText_def [abs_def] Let_def)
  show "\<exists>r. pcsl_string_substring mem (Some s) (int b) (int e) (Some u) = (PCSL_STRING_OK, Some r)
      \<and> textOf r = Some (take (e - b) (drop b (unitsOf s)))"
    if "list_all (\<lambda>c. \<not> highHalf c) (unitsOf s) \<and> textOf s \<noteq> None \<and> b \<le> e \<and> e \<le> length (unitsOf s)"
    using substring_result [OF assms(1), of "unitsOf s" mem b e u] that assms(3)
    by (auto simp: unitsOf_def)
  show "\<exists>c. pcsl_string_compare (Some s) (Some t) (Some c0) = (PCSL_STRING_OK, Some c)
      \<and> (c = 0 \<longleftrightarrow> textOf s = textOf t)"
    using assms(1,2) by (rule compare_refines)
qed (use assms(1,2) in \<open>simp_all only: equals_refines starts_refines ends_refines\<close>)

lemma strings_refine_lists_witness:
  "pcsl_string_ends_with (Some sampleString) (Some (heapString [0x32, 0]))
   \<and> (\<exists>r. pcsl_string_substring (\<lambda>_. True) (Some sampleString) 1 3 (Some NULL_STRING)
         = (PCSL_STRING_OK, Some r) \<and> textOf r = Some [0x34, 0x32])"
proof -
  have t: "pcslOk (heapString [0x32, 0])" "textOf (heapString [0x32, 0]) = Some [0x32]"
    using ok_heap(1,2) [of "[0x32]"] by simp_all
  have u: "unitsOf sampleString = [0x2D, 0x34, 0x32]" "unitsOf (heapString [0x32, 0]) = [0x32]"
    by (simp_all add: unitsOf_def sample_string t(2))
  have "suffix [0x32] [0x2D, 0x34, 0x32 :: jchar]" by (simp add: suffix_def)
  with strings_refine_lists [OF sample_string(1) t(1), of "\<lambda>_. True" NULL_STRING 1 3 0] u t(2)
  show ?thesis by (simp add: sample_string(2))
qed

text \<open>
  C15. Parsing decimal numbers: on a text that is not empty and has its surrogates in pairs, the
  parser for 64 bits succeeds exactly for an optional sign and digits whose value fits into
  them, and then stores the value; otherwise it fails and stores nothing. The one for 32 bits
  does the same for 32 bits. A sign alone is accepted, as 0.
\<close>

theorem decimal_parser:
  assumes "pcslOk s" "textOf s = Some t" "t \<noteq> []" "wellFormed16 t"
  defines "v \<equiv> signedValue t"
  shows "(\<exists>st. (st = PCSL_STRING_OK \<longleftrightarrow> list_all isDigit (signedBody t) \<and> - (2 ^ 63) \<le> v \<and> v < 2 ^ 63)
      \<and> pcsl_string_convert_to_jlong (Some s) (Some old)
          = (st, Some (if st = PCSL_STRING_OK then word_of_int v else old)))
    \<and> (\<exists>st. (st = PCSL_STRING_OK \<longleftrightarrow> list_all isDigit (signedBody t) \<and> - (2 ^ 31) \<le> v \<and> v < 2 ^ 31)
      \<and> pcsl_string_convert_to_jint (Some s) (Some oldi)
          = Some (st, Some (if st = PCSL_STRING_OK then word_of_int v else oldi)))"
proof (cases "list_all isDigit (signedBody t) \<and> - (2 ^ 63) \<le> v \<and> v < 2 ^ 63")
  case True
  then have j: "pcsl_string_convert_to_jlong (Some s) (Some x) = (PCSL_STRING_OK, Some (word_of_int v))" for x
    using to_jlong_result [OF assms(1-4), of x] unfolding v_def by (simp only: if_True simp_thms)
  have n: "scast (ucast (word_of_int v :: jlong) :: jint) = (word_of_int v :: jlong)
      \<longleftrightarrow> - (2 ^ 31) \<le> v \<and> v < 2 ^ 31"
    and w: "(ucast (word_of_int v :: jlong) :: jint) = word_of_int v"
    using True narrow_jlong by blast+
  have "pcsl_string_convert_to_jint (Some s) (Some oldi) =
      (if - (2 ^ 31) \<le> v \<and> v < 2 ^ 31 then Some (PCSL_STRING_OK, Some (word_of_int v))
       else Some (PCSL_STRING_OVERFLOW, Some oldi))"
    using n w by (simp only: pcsl_string_convert_to_jint_def j prod.case pcsl_string_status.case
        option.case Let_def)
  with True j show ?thesis by auto
next
  case False
  then have bad: "\<exists>st. st \<noteq> PCSL_STRING_OK \<and> pcsl_string_convert_to_jlong (Some s) (Some x) = (st, Some x)" for x
    using to_jlong_result [OF assms(1-4), of x] unfolding v_def by (simp only: if_False simp_thms)
  from bad [of 0] obtain st where st: "st \<noteq> PCSL_STRING_OK"
    "pcsl_string_convert_to_jlong (Some s) (Some 0) = (st, Some 0)" by blast
  then have "pcsl_string_convert_to_jint (Some s) (Some oldi) = Some (st, Some oldi)"
    by (cases st) (simp_all add: pcsl_string_convert_to_jint_def)
  moreover from bad [of old] obtain st2 where "st2 \<noteq> PCSL_STRING_OK"
    "pcsl_string_convert_to_jlong (Some s) (Some old) = (st2, Some old)" by blast
  moreover have "\<not> (list_all isDigit (signedBody t) \<and> - (2 ^ 31) \<le> v \<and> v < 2 ^ 31)" using False by auto
  ultimately show ?thesis using False st(1) by auto
qed

lemma decimal_parser_witness:
  "pcsl_string_convert_to_jlong (Some sampleString) (Some 7) = (PCSL_STRING_OK, Some (- 42))
   \<and> pcsl_string_convert_to_jlong (Some (heapString [0x2D, 0])) (Some 7) = (PCSL_STRING_OK, Some 0)"
proof -
  have d: "isDigit 0x34" "isDigit 0x32" by (simp_all add: isDigit_def)
  have v: "signedValue [0x2D, 0x34, 0x32] = -42" "signedBody [0x2D, 0x34, 0x32] = [0x34, 0x32]"
    "signedValue [0x2D] = 0" "signedBody [0x2D] = []"
    by (simp_all add: signedValue_def signedBody_def)
  have w: "wellFormed16 [0x2D, 0x34, 0x32]" "wellFormed16 [0x2D]" by simp_all
  have m: "pcslOk (heapString [0x2D, 0])" "textOf (heapString [0x2D, 0]) = Some [0x2D]"
    using ok_heap(1,2) [of "[0x2D]"] by simp_all
  show ?thesis
    using decimal_parser [OF sample_string _ w(1), of 7 0] decimal_parser [OF m _ w(2), of 7 0] v d by auto
qed

text \<open>
  C16. The text of a number: for the values above \<open>-(10 ^ 18)\<close> and for the least one it is the
  decimal text, and parsing it gives the value back. For the others, the negative ones of 19
  digits, the sign is stored in front of the buffer, which has 20 cells for the digits, the
  sign and the terminating zero: undefined behaviour. Numbers of 32 bits are never that long.
\<close>

theorem number_text:
  "(if - (2 ^ 63) < sint v \<and> sint v \<le> - (10 ^ 18)
    then pcsl_string_convert_from_jlong (\<lambda>_. True) v (Some u) = None
    else \<exists>r. pcsl_string_convert_from_jlong (\<lambda>_. True) v (Some u) = Some (PCSL_STRING_OK, Some r)
      \<and> textOf r = Some (numText (sint v))
      \<and> pcsl_string_convert_to_jlong (Some r) (Some old) = (PCSL_STRING_OK, Some v))
   \<and> (\<exists>r. pcsl_string_convert_from_jint (\<lambda>_. True) w (Some u) = Some (PCSL_STRING_OK, Some r)
      \<and> textOf r = Some (numText (sint w))
      \<and> pcsl_string_convert_to_jint (Some r) (Some oldi) = Some (PCSL_STRING_OK, Some w))"
proof
  have parse: "pcsl_string_convert_to_jlong (Some r) (Some x) = (PCSL_STRING_OK, Some y)"
    if "pcslOk r" "textOf r = Some (numText (sint y))" for r x and y :: jlong
    using to_jlong_result [OF that numText_facts(1,2), of x] sint_ge [of y] sint_lt [of y]
    by (simp add: numText_facts)
  show "if - (2 ^ 63) < sint v \<and> sint v \<le> - (10 ^ 18)
    then pcsl_string_convert_from_jlong (\<lambda>_. True) v (Some u) = None
    else \<exists>r. pcsl_string_convert_from_jlong (\<lambda>_. True) v (Some u) = Some (PCSL_STRING_OK, Some r)
      \<and> textOf r = Some (numText (sint v))
      \<and> pcsl_string_convert_to_jlong (Some r) (Some old) = (PCSL_STRING_OK, Some v)"
    using from_jlong_result [of v u] parse [where y = v] by (auto split: if_split_asm)
  let ?w = "scast w :: jlong"
  have w: "sint ?w = sint w" by (rule sint_up_scast) (simp add: is_up)
  have l: "- (2 ^ 31) \<le> sint w" "sint w < 2 ^ 31" using sint_ge [of w] sint_lt [of w] by simp_all
  then obtain r where r: "pcsl_string_convert_from_jlong (\<lambda>_. True) ?w (Some u)
      = Some (PCSL_STRING_OK, Some r)" "pcslOk r" "textOf r = Some (numText (sint ?w))"
    using from_jlong_result [of ?w u] unfolding w by (auto split: if_split_asm)
  have "pcsl_string_convert_to_jlong (Some r) (Some 0) = (PCSL_STRING_OK, Some ?w)"
    using r(2,3) by (rule parse)
  moreover have "(ucast ?w :: jint) = w" by (rule bit_word_eqI) (simp add: bit_simps)
  ultimately have "pcsl_string_convert_to_jint (Some r) (Some oldi) = Some (PCSL_STRING_OK, Some w)"
    by (simp add: pcsl_string_convert_to_jint_def)
  with r show "\<exists>r. pcsl_string_convert_from_jint (\<lambda>_. True) w (Some u) = Some (PCSL_STRING_OK, Some r)
      \<and> textOf r = Some (numText (sint w))
      \<and> pcsl_string_convert_to_jint (Some r) (Some oldi) = Some (PCSL_STRING_OK, Some w)"
    unfolding w by (auto simp: pcsl_string_convert_from_jint_def)
qed

text \<open>
  A high half without its low half makes \<^verbatim>\<open>pcsl_string_length\<close> -2, which its users do not
  expect: such a text is parsed as 0 with status OK whatever it holds, appending its escaped
  form appends nothing with status OK, and no part of it can be cut out.
\<close>

theorem unpaired_half_is_lost:
  assumes "pcslOk s" "textOf s = Some t" "utf16_string_length (Some (t @ [0])) = -1"
  shows "pcsl_string_length (Some s) = -2
    \<and> pcsl_string_convert_to_jlong (Some s) (Some old) = (PCSL_STRING_OK, Some 0)
    \<and> pcsl_string_append_escaped_ascii mem (Some d) (Some s) = Some (PCSL_STRING_OK, Some d)
    \<and> pcsl_string_substring mem (Some s) b e (Some d) = (PCSL_STRING_EINVAL, Some d)"
proof -
  have s: "dataOf (Some s) = Some (t @ [0])" "sData s = Some (t @ [0])"
    using assms(1,2) by (auto elim!: pcslOkE simp: dataOf_def)
  with assms(3) have l: "pcsl_string_length (Some s) = -2" by (simp add: pcsl_string_length_def)
  moreover have "(0 :: jlong) \<noteq> MIN_LONG" by (simp add: MIN_LONG_def)
  ultimately show ?thesis
    using s by (simp add: pcsl_string_convert_to_jlong_def pcsl_string_append_escaped_ascii_def
        pcsl_string_substring_def Let_def)
qed

lemma unpaired_half_is_lost_witness:
  "pcsl_string_convert_to_jlong (Some (heapString [0x41, 0xD800, 0])) (Some 7) = (PCSL_STRING_OK, Some 0)"
proof -
  have "pcslOk (heapString [0x41, 0xD800, 0])" "textOf (heapString [0x41, 0xD800, 0]) = Some [0x41, 0xD800]"
    using ok_heap(1,2) [of "[0x41, 0xD800]"] by simp_all
  moreover have "utf16_string_length (Some ([0x41, 0xD800] @ [0])) = -1" by (simp add: utf16_string_length_def)
  ultimately show ?thesis using unpaired_half_is_lost by blast
qed

end
