(* ===== verification/PosixFile.thy ===== *)
theory PosixFile
  imports Utf
begin

text \<open>
  The file port, \<^verbatim>\<open>javacall/implementation/psp_mips/common/file.c\<close> and
  \<^verbatim>\<open>pcsl/file/javacall/pcsl_file.c\<close>, over the POSIX calls of the C library: names are bound
  to inodes, descriptors have a position, the device has a limited free space, and any call
  can fail (\<^verbatim>\<open>faults n\<close> says whether the \<open>n\<close>-th call does). A failed close leaves the
  descriptor open; an unlinked file gives its blocks back at once.
\<close>

section \<open>The C library's files\<close>

type_synonym path = "jbyte list"

record OpenFile =
  ofInode :: nat
  ofPos :: nat
  ofRead :: bool
  ofWrite :: bool

record Os =
  names :: "path \<Rightarrow> nat option"
  isDirectory :: "path \<Rightarrow> bool"
  inodes :: "nat \<Rightarrow> jbyte list"
  fds :: "int \<Rightarrow> OpenFile option"
  nextInode :: nat
  nextFd :: int
  freeSpace :: nat
  faults :: "nat \<Rightarrow> bool"
  osCalls :: nat
  pathMax :: nat

definition osTick :: "Os \<Rightarrow> bool \<times> Os" where
  "osTick s = (faults s (osCalls s), s\<lparr>osCalls := Suc (osCalls s)\<rparr>)"

definition os_open :: "path \<Rightarrow> bool \<Rightarrow> bool \<Rightarrow> bool \<Rightarrow> bool \<Rightarrow> Os \<Rightarrow> int \<times> Os" where
  "os_open path creat trunc rd wr s0 =
     (let (fault, s) = osTick s0;
          opened = (\<lambda>i t. (nextFd t,
            t\<lparr>fds := (fds t)(nextFd t \<mapsto> \<lparr>ofInode = i, ofPos = 0, ofRead = rd, ofWrite = wr\<rparr>),
              nextFd := nextFd t + 1\<rparr>)) in
      if fault then (-1, s)
      else case names s path of
             Some i \<Rightarrow>
               if isDirectory s path then (-1, s)
               else if trunc \<and> wr
               then opened i (s\<lparr>inodes := (inodes s)(i := []),
                               freeSpace := freeSpace s + length (inodes s i)\<rparr>)
               else opened i s
           | None \<Rightarrow>
               if creat
               then opened (nextInode s)
                      (s\<lparr>names := (names s)(path \<mapsto> nextInode s),
                         inodes := (inodes s)(nextInode s := []), nextInode := Suc (nextInode s)\<rparr>)
               else (-1, s))"

definition os_close :: "int \<Rightarrow> Os \<Rightarrow> int \<times> Os" where
  "os_close fd s0 =
     (let (fault, s) = osTick s0 in
      if fault \<or> fds s fd = None then (-1, s) else (0, s\<lparr>fds := (fds s)(fd := None)\<rparr>))"

text \<open>The bytes read, or \<open>None\<close> for the result -1.\<close>

definition os_read :: "int \<Rightarrow> nat \<Rightarrow> Os \<Rightarrow> jbyte list option \<times> Os" where
  "os_read fd sz s0 =
     (let (fault, s) = osTick s0 in
      case fds s fd of
        None \<Rightarrow> (None, s)
      | Some f \<Rightarrow>
          if fault \<or> \<not> ofRead f then (None, s)
          else let bs = take sz (drop (ofPos f) (inodes s (ofInode f))) in
               (Some bs, s\<lparr>fds := (fds s)(fd \<mapsto> f\<lparr>ofPos := ofPos f + length bs\<rparr>)\<rparr>))"

text \<open>A gap behind the end of the file is filled with zeros.\<close>

abbreviation spliceAt :: "nat \<Rightarrow> jbyte list \<Rightarrow> jbyte list \<Rightarrow> jbyte list" where
  "spliceAt \<equiv> splice_at 0"

definition os_write :: "int \<Rightarrow> jbyte list \<Rightarrow> Os \<Rightarrow> int \<times> Os" where
  "os_write fd bs s0 =
     (let (fault, s) = osTick s0 in
      case fds s fd of
        None \<Rightarrow> (-1, s)
      | Some f \<Rightarrow>
          if fault \<or> \<not> ofWrite f then (-1, s)
          else let content = inodes s (ofInode f);
                   room = length content + freeSpace s - ofPos f;
                   k = min (length bs) room;
                   content' = spliceAt (ofPos f) (take k bs) content in
               if k = 0 \<and> bs \<noteq> [] then (-1, s)
               else (int k, s\<lparr>inodes := (inodes s)(ofInode f := content'),
                              fds := (fds s)(fd \<mapsto> f\<lparr>ofPos := ofPos f + k\<rparr>),
                              freeSpace := freeSpace s - (length content' - length content)\<rparr>))"

datatype whence = SEEK_SET | SEEK_CUR | SEEK_END

definition os_lseek :: "int \<Rightarrow> int \<Rightarrow> whence \<Rightarrow> Os \<Rightarrow> int \<times> Os" where
  "os_lseek fd offset wh s0 =
     (let (fault, s) = osTick s0 in
      case fds s fd of
        None \<Rightarrow> (-1, s)
      | Some f \<Rightarrow>
          let base = (case wh of SEEK_SET \<Rightarrow> 0 | SEEK_CUR \<Rightarrow> int (ofPos f)
                      | SEEK_END \<Rightarrow> int (length (inodes s (ofInode f)))) in
          if fault \<or> base + offset < 0 then (-1, s)
          else (base + offset, s\<lparr>fds := (fds s)(fd \<mapsto> f\<lparr>ofPos := nat (base + offset)\<rparr>)\<rparr>))"

definition os_unlink :: "path \<Rightarrow> Os \<Rightarrow> int \<times> Os" where
  "os_unlink path s0 =
     (let (fault, s) = osTick s0 in
      case names s path of
        None \<Rightarrow> (-1, s)
      | Some i \<Rightarrow>
          if fault \<or> isDirectory s path then (-1, s)
          else (0, s\<lparr>names := (names s)(path := None),
                     freeSpace := freeSpace s + length (inodes s i)\<rparr>))"

text \<open>\<open>None\<close>: the call fails; otherwise whether the path is a directory.\<close>

definition os_stat :: "path \<Rightarrow> Os \<Rightarrow> bool option \<times> Os" where
  "os_stat path s0 =
     (let (fault, s) = osTick s0 in
      if fault \<or> names s path = None then (None, s) else (Some (isDirectory s path), s))"

section \<open>The javacall port\<close>

datatype javacall_result = JAVACALL_OK | JAVACALL_FAIL

text \<open>
  The name as a C string: each code unit is stored as a \<^verbatim>\<open>char\<close>, and the library reads up to
  the first zero byte.
\<close>

definition javacall_UNICODEsToUtf8 :: "jchar list \<Rightarrow> Os \<Rightarrow> path option" where
  "javacall_UNICODEsToUtf8 fileName s =
     (if length fileName \<ge> pathMax s then None
      else Some (takeWhile (\<lambda>b. b \<noteq> 0) (map ucast fileName)))"

definition JAVACALL_FILE_O_RDONLY :: int where "JAVACALL_FILE_O_RDONLY = 0x00"
definition JAVACALL_FILE_O_WRONLY :: int where "JAVACALL_FILE_O_WRONLY = 0x01"
definition JAVACALL_FILE_O_RDWR :: int where "JAVACALL_FILE_O_RDWR = 0x02"
definition JAVACALL_FILE_O_CREAT :: int where "JAVACALL_FILE_O_CREAT = 0x40"
definition JAVACALL_FILE_O_TRUNC :: int where "JAVACALL_FILE_O_TRUNC = 0x200"

definition javacall_file_open :: "jchar list \<Rightarrow> int \<Rightarrow> Os \<Rightarrow> (javacall_result \<times> int) \<times> Os" where
  "javacall_file_open unicodeFileName flags s =
     (case javacall_UNICODEsToUtf8 unicodeFileName s of
        None \<Rightarrow> ((JAVACALL_FAIL, 0), s)
      | Some path \<Rightarrow>
          let creat = (flags AND JAVACALL_FILE_O_CREAT \<noteq> 0);
              trunc = (flags AND JAVACALL_FILE_O_TRUNC \<noteq> 0);
              mode = flags AND 0x03;
              (fd, s1) = os_open path creat trunc (mode \<noteq> JAVACALL_FILE_O_WRONLY)
                           (mode \<noteq> JAVACALL_FILE_O_RDONLY) s in
          if fd < 0 then ((JAVACALL_FAIL, 0), s1) else ((JAVACALL_OK, fd), s1))"

definition javacall_file_close :: "int \<Rightarrow> Os \<Rightarrow> javacall_result \<times> Os" where
  "javacall_file_close handle s =
     (let (rc, s1) = os_close handle s in (if rc = 0 then JAVACALL_OK else JAVACALL_FAIL, s1))"

definition javacall_file_read :: "int \<Rightarrow> nat \<Rightarrow> Os \<Rightarrow> jbyte list option \<times> Os" where
  "javacall_file_read handle sz s = os_read handle sz s"

definition javacall_file_write :: "int \<Rightarrow> jbyte list \<Rightarrow> Os \<Rightarrow> int \<times> Os" where
  "javacall_file_write handle buf s = os_write handle buf s"

definition javacall_file_delete :: "jchar list \<Rightarrow> Os \<Rightarrow> javacall_result \<times> Os" where
  "javacall_file_delete unicodeFileName s =
     (case javacall_UNICODEsToUtf8 unicodeFileName s of
        None \<Rightarrow> (JAVACALL_FAIL, s)
      | Some path \<Rightarrow>
          let (status, s1) = os_unlink path s in
          (if status = 0 then JAVACALL_OK else JAVACALL_FAIL, s1))"

definition javacall_file_truncate :: "int \<Rightarrow> int \<Rightarrow> Os \<Rightarrow> javacall_result \<times> Os" where
  "javacall_file_truncate handle sz s = (JAVACALL_OK, s)"

definition javacall_file_seek :: "int \<Rightarrow> int \<Rightarrow> int \<Rightarrow> Os \<Rightarrow> int \<times> Os" where
  "javacall_file_seek handle offset flag s =
     (let wh = (if flag = 0 then SEEK_SET else if flag = 1 then SEEK_CUR
                else if flag = 2 then SEEK_END else SEEK_SET)
      in os_lseek handle offset wh s)"

definition javacall_file_sizeofopenfile :: "int \<Rightarrow> Os \<Rightarrow> int \<times> Os" where
  "javacall_file_sizeofopenfile handle s =
     (let (mark, s1) = os_lseek handle 0 SEEK_CUR s in
      if mark < 0 then (-1, s1)
      else let (len, s2) = os_lseek handle 0 SEEK_END s1 in
           if len < 0 then (-1, s2)
           else let (status, s3) = os_lseek handle mark SEEK_SET s2 in
                (if status = 0 then len else -1, s3))"

definition javacall_file_sizeof :: "jchar list \<Rightarrow> Os \<Rightarrow> int \<times> Os" where
  "javacall_file_sizeof fileName s =
     (let ((rslt1, handle), s1) = javacall_file_open fileName 0 s in
      if rslt1 \<noteq> JAVACALL_OK then (-1, s1)
      else let (sz, s2) = javacall_file_sizeofopenfile handle s1;
               (_, s3) = javacall_file_close handle s2
           in (sz, s3))"

definition javacall_file_exist :: "jchar list \<Rightarrow> Os \<Rightarrow> javacall_result \<times> Os" where
  "javacall_file_exist fileName s =
     (case javacall_UNICODEsToUtf8 fileName s of
        None \<Rightarrow> (JAVACALL_FAIL, s)
      | Some path \<Rightarrow>
          let (st, s1) = os_stat path s in
          case st of
            None \<Rightarrow> (JAVACALL_FAIL, s1)
          | Some dir \<Rightarrow> (if \<not> dir then JAVACALL_OK else JAVACALL_FAIL, s1))"

definition javacall_file_flush :: "int \<Rightarrow> Os \<Rightarrow> javacall_result \<times> Os" where
  "javacall_file_flush handle s = (JAVACALL_OK, s)"

text \<open>\<^verbatim>\<open>sceIoRename\<close> is a call of the console's firmware.\<close>

definition javacall_file_rename ::
  "(path \<Rightarrow> path \<Rightarrow> Os \<Rightarrow> int \<times> Os) \<Rightarrow> jchar list \<Rightarrow> jchar list \<Rightarrow> Os \<Rightarrow> javacall_result \<times> Os" where
  "javacall_file_rename sceIoRename oldName newName s =
     (case javacall_UNICODEsToUtf8 oldName s of
        None \<Rightarrow> (JAVACALL_FAIL, s)
      | Some oldfn \<Rightarrow>
          (case javacall_UNICODEsToUtf8 newName s of
             None \<Rightarrow> (JAVACALL_FAIL, s)
           | Some newfn \<Rightarrow>
               let (status, s1) = sceIoRename oldfn newfn s in
               (if status = 0 then JAVACALL_OK else JAVACALL_FAIL, s1)))"

section \<open>The PCSL layer\<close>

text \<open>\<^verbatim>\<open>JAVACALL_OK\<close> is 0 and \<^verbatim>\<open>JAVACALL_FAIL\<close> is -1.\<close>

definition resultCode :: "javacall_result \<Rightarrow> int" where
  "resultCode r = (case r of JAVACALL_OK \<Rightarrow> 0 | JAVACALL_FAIL \<Rightarrow> -1)"

text \<open>\<^verbatim>\<open>pcsl_string_convert_to_utf16\<close> into a buffer of \<^verbatim>\<open>MAX_FILE_LEN + 1\<close> units.\<close>

definition fileNameUnits :: "pcsl_string \<Rightarrow> Os \<Rightarrow> jchar list option" where
  "fileNameUnits fileName s =
     (case fileName of
        None \<Rightarrow> None
      | Some cs \<Rightarrow> if length cs + 1 > pathMax s + 1 then None else Some cs)"

definition pcsl_file_open :: "pcsl_string \<Rightarrow> int \<Rightarrow> Os \<Rightarrow> (int \<times> int) \<times> Os" where
  "pcsl_file_open fileName flags s =
     (case fileNameUnits fileName s of
        None \<Rightarrow> ((-1, 0), s)
      | Some cs \<Rightarrow>
          let ((r, handle), s1) = javacall_file_open cs flags s in ((resultCode r, handle), s1))"

definition pcsl_file_close :: "int \<Rightarrow> Os \<Rightarrow> int \<times> Os" where
  "pcsl_file_close handle s = (let (r, s1) = javacall_file_close handle s in (resultCode r, s1))"

definition pcsl_file_read :: "int \<Rightarrow> nat \<Rightarrow> Os \<Rightarrow> jbyte list option \<times> Os" where
  "pcsl_file_read handle sz s = javacall_file_read handle sz s"

definition pcsl_file_write :: "int \<Rightarrow> jbyte list \<Rightarrow> Os \<Rightarrow> int \<times> Os" where
  "pcsl_file_write handle buffer s = javacall_file_write handle buffer s"

definition pcsl_file_unlink :: "pcsl_string \<Rightarrow> Os \<Rightarrow> int \<times> Os" where
  "pcsl_file_unlink fileName s =
     (case fileNameUnits fileName s of
        None \<Rightarrow> (-1, s)
      | Some cs \<Rightarrow> let (r, s1) = javacall_file_delete cs s in (resultCode r, s1))"

definition pcsl_file_truncate :: "int \<Rightarrow> int \<Rightarrow> Os \<Rightarrow> int \<times> Os" where
  "pcsl_file_truncate handle sz s =
     (let (r, s1) = javacall_file_truncate handle sz s in (resultCode r, s1))"

definition pcsl_file_seek :: "int \<Rightarrow> int \<Rightarrow> int \<Rightarrow> Os \<Rightarrow> int \<times> Os" where
  "pcsl_file_seek handle offset position s = javacall_file_seek handle offset position s"

definition pcsl_file_sizeofopenfile :: "int \<Rightarrow> Os \<Rightarrow> int \<times> Os" where
  "pcsl_file_sizeofopenfile handle s = javacall_file_sizeofopenfile handle s"

definition pcsl_file_sizeof :: "pcsl_string \<Rightarrow> Os \<Rightarrow> int \<times> Os" where
  "pcsl_file_sizeof fileName s =
     (case fileNameUnits fileName s of None \<Rightarrow> (-1, s) | Some cs \<Rightarrow> javacall_file_sizeof cs s)"

definition pcsl_file_exist :: "pcsl_string \<Rightarrow> Os \<Rightarrow> int \<times> Os" where
  "pcsl_file_exist fileName s =
     (case fileNameUnits fileName s of
        None \<Rightarrow> (-1, s)
      | Some cs \<Rightarrow>
          let (r, s1) = javacall_file_exist cs s in (if r = JAVACALL_OK then 1 else 0, s1))"

definition pcsl_file_commitwrite :: "int \<Rightarrow> Os \<Rightarrow> int \<times> Os" where
  "pcsl_file_commitwrite handle s = (0, s)"

definition pcsl_file_rename ::
  "(path \<Rightarrow> path \<Rightarrow> Os \<Rightarrow> int \<times> Os) \<Rightarrow> pcsl_string \<Rightarrow> pcsl_string \<Rightarrow> Os \<Rightarrow> int \<times> Os" where
  "pcsl_file_rename sceIoRename oldName newName s =
     (case fileNameUnits oldName s of
        None \<Rightarrow> (-1, s)
      | Some o' \<Rightarrow>
          (case fileNameUnits newName s of
             None \<Rightarrow> (-1, s)
           | Some n \<Rightarrow>
               let (r, s1) = javacall_file_rename sceIoRename o' n s in (resultCode r, s1)))"

definition pcsl_file_getusedspace :: "pcsl_string \<Rightarrow> int" where
  "pcsl_file_getusedspace dirName = 0"

section \<open>Facts\<close>

text \<open>From here on no call fails but for its arguments and the space.\<close>

definition quiet :: "Os \<Rightarrow> bool" where
  "quiet s \<longleftrightarrow> (\<forall>n \<ge> osCalls s. \<not> faults s n)"

text \<open>Content and position of a file open for reading and writing.\<close>

definition fileView :: "int \<Rightarrow> Os \<Rightarrow> (jbyte list \<times> nat) option" where
  "fileView h s = (case fds s h of
     None \<Rightarrow> None
   | Some f \<Rightarrow> if quiet s \<and> ofRead f \<and> ofWrite f then Some (inodes s (ofInode f), ofPos f) else None)"

lemma quiet_tick: "quiet s \<Longrightarrow> osTick s = (False, s\<lparr>osCalls := Suc (osCalls s)\<rparr>)"
  by (simp add: quiet_def osTick_def)

lemma quiet_Suc [simp]: "quiet s \<Longrightarrow> quiet (s\<lparr>osCalls := Suc (osCalls s)\<rparr>)"
  by (simp add: quiet_def)

lemma quiet_more [simp]:
  "quiet (s\<lparr>fds := a\<rparr>) = quiet s" "quiet (s\<lparr>names := b\<rparr>) = quiet s" "quiet (s\<lparr>inodes := c\<rparr>) = quiet s"
  "quiet (s\<lparr>freeSpace := d\<rparr>) = quiet s" "quiet (s\<lparr>nextFd := e\<rparr>) = quiet s"
  "quiet (s\<lparr>nextInode := g\<rparr>) = quiet s" "quiet (s\<lparr>isDirectory := j\<rparr>) = quiet s"
  by (simp_all add: quiet_def)

lemma fileViewD:
  assumes "fileView h s = Some (c, p)"
  obtains f where "fds s h = Some f" "quiet s" "ofRead f" "ofWrite f" "c = inodes s (ofInode f)"
    "p = ofPos f"
  using assms by (auto simp: fileView_def split: option.splits if_splits)

definition seekBase :: "whence \<Rightarrow> nat \<Rightarrow> nat \<Rightarrow> int" where
  "seekBase w p n = (case w of SEEK_SET \<Rightarrow> 0 | SEEK_CUR \<Rightarrow> int p | SEEK_END \<Rightarrow> int n)"

lemma seek_view:
  assumes "fileView h s = Some (c, p)" "0 \<le> seekBase w p (length c) + k"
  shows "\<exists>s'. os_lseek h k w s = (seekBase w p (length c) + k, s')
    \<and> fileView h s' = Some (c, nat (seekBase w p (length c) + k)) \<and> freeSpace s' = freeSpace s"
  using assms
  by (elim fileViewD) (cases w; simp add: os_lseek_def quiet_tick fileView_def seekBase_def Let_def)

lemma write_view:
  assumes "fileView h s = Some (c, p)" "length (spliceAt p bs c) \<le> length c + freeSpace s"
  shows "\<exists>s'. os_write h bs s = (int (length bs), s') \<and> fileView h s' = Some (spliceAt p bs c, p + length bs)
    \<and> length (spliceAt p bs c) + freeSpace s' = length c + freeSpace s"
proof -
  obtain f where f: "fds s h = Some f" "quiet s" "ofRead f" "ofWrite f" "c = inodes s (ofInode f)"
    "p = ofPos f" using assms(1) by (rule fileViewD)
  have fits: "bs \<noteq> [] \<Longrightarrow> p + length bs \<le> length c + freeSpace s"
    and grows: "length c \<le> length (spliceAt p bs c)"
    using assms(2) by (auto simp: length_splice_at split: if_splits)
  then have "min (length bs) (length c + freeSpace s - p) = length bs"
    by (cases "bs = []") auto
  with f assms(2) grows show ?thesis
    by (auto simp: os_write_def quiet_tick fileView_def Let_def)
qed

lemma read_view:
  assumes "fileView h s = Some (c, p)"
  shows "\<exists>s'. os_read h n s = (Some (take n (drop p c)), s')
    \<and> fileView h s' = Some (c, p + length (take n (drop p c))) \<and> freeSpace s' = freeSpace s"
  using assms by (elim fileViewD) (simp add: os_read_def quiet_tick fileView_def)

lemma low_byte: "(ucast (c AND 0xFF :: jchar) :: jbyte) = ucast c"
  by (rule word8_eqI, elim insertE emptyE; hypsubst) (simp_all add: bit_simps)

lemma latin1_unit:
  assumes "(c :: jchar) \<in> {1..255}"
  shows "ucast (ucast c :: jbyte) = c \<and> (ucast c :: jbyte) \<noteq> 0"
proof -
  have "unat c \<le> 255" using assms by (simp add: word_le_nat_alt)
  then have "ucast (ucast c :: jbyte) = c"
    by (intro word_unat_eq_iff [THEN iffD2]) (simp add: unsigned_ucast_eq unsigned_take_bit_eq take_bit_nat_eq_self_iff)
  moreover from this assms have "(ucast c :: jbyte) \<noteq> 0" by auto
  ultimately show ?thesis by simp
qed

lemma low_bytes_same:
  assumes "map (\<lambda>c. c AND 0xFF) u = map (\<lambda>c. c AND 0xFF) (v :: jchar list)"
  shows "javacall_UNICODEsToUtf8 u s = javacall_UNICODEsToUtf8 v s"
proof -
  have low: "map ucast w = (map ucast (map (\<lambda>c. c AND 0xFF) w) :: jbyte list)" for w :: "jchar list"
    by (simp add: low_byte)
  from assms have "length u = length v" by (rule map_eq_imp_length_eq)
  moreover have "(map ucast u :: jbyte list) = map ucast v"
    using assms low [of u] low [of v] by simp
  ultimately show ?thesis by (simp add: javacall_UNICODEsToUtf8_def)
qed

lemma latin1_name:
  assumes "set u \<subseteq> {1..255}" "javacall_UNICODEsToUtf8 u s = Some p"
  shows "map ucast p = u"
proof -
  have "takeWhile (\<lambda>b. b \<noteq> 0) (map ucast u) = (map ucast u :: jbyte list)"
    using assms(1) using latin1_unit by (fastforce simp: takeWhile_eq_all_conv)
  with assms(2) have "p = map ucast u" by (auto simp: javacall_UNICODEsToUtf8_def split: if_splits)
  then show ?thesis using assms(1) using latin1_unit by (auto intro!: map_idI)
qed

section \<open>Properties\<close>

text \<open>
  The size of an open file is only found at its start: with no failing call, at position 0
  the function gives the length of the content, at any other position -1; the position is kept.
\<close>

theorem size_only_at_start:
  assumes "fileView h s = Some (c, p)"
  shows "\<exists>s'. javacall_file_sizeofopenfile h s = (if p = 0 then int (length c) else -1, s')
    \<and> fileView h s' = Some (c, p) \<and> freeSpace s' = freeSpace s"
proof -
  obtain s1 where s1: "os_lseek h 0 SEEK_CUR s = (int p, s1)" "fileView h s1 = Some (c, p)"
    "freeSpace s1 = freeSpace s"
    using seek_view [OF assms, of SEEK_CUR 0] by (auto simp: seekBase_def)
  obtain s2 where s2: "os_lseek h 0 SEEK_END s1 = (int (length c), s2)"
    "fileView h s2 = Some (c, length c)" "freeSpace s2 = freeSpace s"
    using seek_view [OF s1(2), of SEEK_END 0] s1(3) by (auto simp: seekBase_def)
  obtain s3 where "os_lseek h (int p) SEEK_SET s2 = (int p, s3)" "fileView h s3 = Some (c, p)"
    "freeSpace s3 = freeSpace s"
    using seek_view [OF s2(2), of SEEK_SET "int p"] s2(3) by (auto simp: seekBase_def)
  with s1 s2 show ?thesis by (simp add: javacall_file_sizeofopenfile_def)
qed

definition sampleOs :: Os where
  "sampleOs = \<lparr>names = [[0x61] \<mapsto> 0], isDirectory = \<lambda>_. False, inodes = (\<lambda>_. [])(0 := [1, 2, 3]),
     fds = [5 \<mapsto> \<lparr>ofInode = 0, ofPos = 2, ofRead = True, ofWrite = True\<rparr>], nextInode = 1,
     nextFd = 6, freeSpace = 100, faults = \<lambda>n. n < 3, osCalls = 3, pathMax = 256\<rparr>"

lemma size_only_at_start_witness:
  "\<exists>s'. javacall_file_sizeofopenfile 5 sampleOs = (-1, s') \<and> fileView 5 s' = Some ([1, 2, 3], 2)"
  using size_only_at_start [of 5 sampleOs "[1, 2, 3]" 2]
  by (auto simp: fileView_def sampleOs_def quiet_def)

text \<open>
  File names lose their high bytes: names with the same low bytes open, delete and test
  the same file, and names of Latin-1 characters are kept apart.
\<close>

theorem file_names_low_byte:
  "(\<forall>u v fl. map (\<lambda>c. c AND 0xFF) u = map (\<lambda>c. c AND 0xFF) v \<longrightarrow>
      javacall_file_open u fl s = javacall_file_open v fl s
    \<and> javacall_file_delete u s = javacall_file_delete v s
    \<and> javacall_file_exist u s = javacall_file_exist v s)
   \<and> (\<forall>u v p. set u \<union> set v \<subseteq> {1..255} \<longrightarrow>
      javacall_UNICODEsToUtf8 u s = Some p \<and> javacall_UNICODEsToUtf8 v s = Some p \<longrightarrow> u = v)"
proof (intro conjI allI impI)
  fix u v :: "jchar list" and fl
  assume "map (\<lambda>c. c AND 0xFF) u = map (\<lambda>c. c AND 0xFF) v"
  then have "javacall_UNICODEsToUtf8 u s = javacall_UNICODEsToUtf8 v s" by (rule low_bytes_same)
  then show "javacall_file_open u fl s = javacall_file_open v fl s"
    "javacall_file_delete u s = javacall_file_delete v s"
    "javacall_file_exist u s = javacall_file_exist v s"
    by (simp_all add: javacall_file_open_def javacall_file_delete_def javacall_file_exist_def)
next
  fix u v :: "jchar list" and p
  assume "set u \<union> set v \<subseteq> {1..255}"
    "javacall_UNICODEsToUtf8 u s = Some p \<and> javacall_UNICODEsToUtf8 v s = Some p"
  then show "u = v" using latin1_name [of u s p] latin1_name [of v s p] by auto
qed

lemma file_names_low_byte_witness:
  "javacall_file_open [0x161] 0 sampleOs = javacall_file_open [0x61] 0 sampleOs
   \<and> snd (fst (javacall_file_open [0x61] 0 sampleOs)) = 6
   \<and> javacall_UNICODEsToUtf8 [0x61] sampleOs \<noteq> javacall_UNICODEsToUtf8 [0x62] sampleOs"
proof (intro conjI)
  note p = file_names_low_byte [of sampleOs]
  show "javacall_file_open [0x161] 0 sampleOs = javacall_file_open [0x61] 0 sampleOs"
    using p [THEN conjunct1, rule_format, of "[0x161]" "[0x61]" 0] by simp
  show "snd (fst (javacall_file_open [0x61] 0 sampleOs)) = 6"
    by (simp add: javacall_file_open_def javacall_UNICODEsToUtf8_def sampleOs_def os_open_def
        osTick_def JAVACALL_FILE_O_CREAT_def JAVACALL_FILE_O_TRUNC_def)
  show "javacall_UNICODEsToUtf8 [0x61] sampleOs \<noteq> javacall_UNICODEsToUtf8 [0x62] sampleOs"
    using p [THEN conjunct2, rule_format, of "[0x61]" "[0x62]" "[0x61]"]
    by (auto simp: javacall_UNICODEsToUtf8_def sampleOs_def)
qed

end
