(* ===== verification/Storage.thy ===== *)
theory Storage
  imports PosixFile ResourceLimit PcslString
begin

text \<open>
  The storage layer, \<^verbatim>\<open>midp/src/core/storage/reference/native/midpStorage.c\<close>: files opened within
  the file quota of the calling isolate \<^verbatim>\<open>cur\<close>, with an error text for every failure
  (\<^verbatim>\<open>ppszError\<close>; \<open>None\<close> is no error). Where an operation has an outer \<open>option\<close>, \<open>None\<close> is
  undefined behaviour of the C code. Memory allocation is an argument \<^verbatim>\<open>mem\<close>; what
  \<^verbatim>\<open>strerror(errno)\<close> returns is \<^verbatim>\<open>errnoText\<close>.
\<close>

section \<open>State and errors\<close>

datatype StorageError =
  OUT_OF_MEM_ERROR | NOT_EXIST_RENAME_ERROR | FILE_LIMIT_ERROR | STRING_CORRUPT_ERROR
| STORAGE_FULL | UNSPECIFIED_ERROR | ErrorText "jbyte list"

type_synonym error = "StorageError option"

definition MAX_STORAGE_NUM :: nat where
  "MAX_STORAGE_NUM = 2"

definition DEFAULT_TOTAL_SPACE :: int where
  "DEFAULT_TOTAL_SPACE = 4 * 1024 * 1024"

record StorageSys =
  os :: Os
  resources :: ResourceState
  totalSpace :: int
  sRoot :: "pcsl_string list"
  configRoot :: "pcsl_string list"
  storageInitDone :: bool
  errnoText :: "jbyte list option"

definition MAX_ERROR_LEN :: nat where
  "MAX_ERROR_LEN = 159"

text \<open>A C literal, and the contents of \<^verbatim>\<open>errorBuffer\<close> up to its terminating zero.\<close>

definition chars :: "string \<Rightarrow> jbyte list" where
  "chars s = map (\<lambda>c. word_of_nat (of_char c)) s"

definition strncat :: "jbyte list \<Rightarrow> jbyte list \<Rightarrow> nat \<Rightarrow> jbyte list" where
  "strncat buf s n = buf @ take n s"

definition getLastError :: "string \<Rightarrow> StorageSys \<Rightarrow> StorageError" where
  "getLastError pszFunction s =
     (case errnoText s of
        None \<Rightarrow> UNSPECIFIED_ERROR
      | Some temp \<Rightarrow>
          ErrorText (strncat (chars pszFunction @ chars '': '') temp
                       (MAX_ERROR_LEN - 2 - length (chars pszFunction))))"

definition storage_get_last_file_error :: "string \<Rightarrow> pcsl_string \<Rightarrow> StorageSys \<Rightarrow> StorageError" where
  "storage_get_last_file_error pszFunction filename_str s =
     (case errnoText s of
        None \<Rightarrow> UNSPECIFIED_ERROR
      | Some temp \<Rightarrow>
          let buf = chars pszFunction @ chars '': '';
              buf = strncat buf temp (MAX_ERROR_LEN - length buf);
              buf = strncat buf (chars '', '') (MAX_ERROR_LEN - length buf);
              charsLeft = MAX_ERROR_LEN - length buf
          in case filename_str of
               None \<Rightarrow> ErrorText (strncat buf (chars ''NULL'') charsLeft)
             | Some name \<Rightarrow>
                 let lim = (if charsLeft < length name then charsLeft else length name)
                 in ErrorText (buf @ map ucast (take lim name)))"

definition onOs :: "(Os \<Rightarrow> 'a \<times> Os) \<Rightarrow> StorageSys \<Rightarrow> 'a \<times> StorageSys" where
  "onOs f s = (let (r, o') = f (os s) in (r, s\<lparr>os := o'\<rparr>))"

section \<open>Roots and space\<close>

text \<open>
  \<^verbatim>\<open>mem k\<close>: whether the \<open>k\<close>-th append finds memory; \<^verbatim>\<open>fsep\<close>: the file separator; the home
  directories are what \<^verbatim>\<open>pcsl_string_from_chars\<close> makes of them, \<open>None\<close> when it fails.
\<close>

definition appendRoot ::
  "(nat \<Rightarrow> bool) \<Rightarrow> nat \<Rightarrow> jchar \<Rightarrow> jchar list \<Rightarrow> jchar list option \<Rightarrow> pcsl_string option" where
  "appendRoot mem k fsep dir home =
     (case home of
        None \<Rightarrow> None
      | Some root \<Rightarrow>
          if mem k \<and> mem (k + 1) \<and> mem (k + 2)
          then Some (Some (root @ [fsep] @ dir @ [fsep])) else None)"

definition APP_DIR :: "jchar list" where
  "APP_DIR = [0x61, 0x70, 0x70, 0x64, 0x62]"

definition CONFIG_SUBDIR :: "jchar list" where
  "CONFIG_SUBDIR = [0x6C, 0x69, 0x62]"

definition storageFinalize :: "StorageSys \<Rightarrow> StorageSys" where
  "storageFinalize s =
     s\<lparr>sRoot := replicate MAX_STORAGE_NUM None, configRoot := replicate MAX_STORAGE_NUM None,
       storageInitDone := False\<rparr>"

definition storageInitialize ::
  "(nat \<Rightarrow> bool) \<Rightarrow> jchar \<Rightarrow> jchar list option \<Rightarrow> jchar list option \<Rightarrow> StorageSys \<Rightarrow> int \<times> StorageSys" where
  "storageInitialize mem fsep config_home midp_home s =
     (if storageInitDone s then (0, s)
      else case appendRoot mem 0 fsep APP_DIR midp_home of
             None \<Rightarrow> (-1, storageFinalize s)
           | Some root \<Rightarrow>
               (case appendRoot mem 3 fsep CONFIG_SUBDIR config_home of
                  None \<Rightarrow> (-1, storageFinalize s)
                | Some croot \<Rightarrow>
                    (0, s\<lparr>sRoot := (sRoot s)[0 := root], configRoot := (configRoot s)[0 := croot],
                          storageInitDone := True\<rparr>)))"

definition storageSetTotalSpace :: "int \<Rightarrow> StorageSys \<Rightarrow> StorageSys" where
  "storageSetTotalSpace sp s = s\<lparr>totalSpace := sp\<rparr>"

definition INTERNAL_STORAGE_ID :: int where
  "INTERNAL_STORAGE_ID = 0"

definition storage_get_root :: "int \<Rightarrow> StorageSys \<Rightarrow> pcsl_string" where
  "storage_get_root storageId s = sRoot s ! (if storageId = INTERNAL_STORAGE_ID then 0 else 1)"

definition storage_get_config_root :: "int \<Rightarrow> StorageSys \<Rightarrow> pcsl_string" where
  "storage_get_config_root storageId s =
     configRoot s ! (if storageId = INTERNAL_STORAGE_ID then 0 else 1)"

definition storage_get_free_space :: "int \<Rightarrow> StorageSys \<Rightarrow> int" where
  "storage_get_free_space storageId s =
     (if storageId < 0 \<or> storageId \<ge> int MAX_STORAGE_NUM then 0
      else let usedSpace = pcsl_file_getusedspace (sRoot s ! nat storageId) in
           if usedSpace = -1 then 0
           else if totalSpace s > usedSpace then totalSpace s - usedSpace else 0)"

section \<open>Opening and closing\<close>

definition OPEN_READ :: int where "OPEN_READ = 1"
definition OPEN_WRITE :: int where "OPEN_WRITE = 2"
definition OPEN_READ_WRITE :: int where "OPEN_READ_WRITE = 3"
definition OPEN_READ_WRITE_TRUNCATE :: int where "OPEN_READ_WRITE_TRUNCATE = -3"

definition storage_file_exists :: "pcsl_string \<Rightarrow> StorageSys \<Rightarrow> bool \<times> StorageSys" where
  "storage_file_exists filename_str s =
     (let (r, s1) = onOs (pcsl_file_exist filename_str) s in (r > 0, s1))"

definition storage_open ::
  "int \<Rightarrow> pcsl_string \<Rightarrow> int \<Rightarrow> StorageSys \<Rightarrow> ((error \<times> int) \<times> StorageSys) option" where
  "storage_open cur filename_str ioMode s =
     (let (flags, s1) =
            (if OPEN_READ = ioMode then (JAVACALL_FILE_O_RDONLY, s)
             else let (ex, s0) = storage_file_exists filename_str s;
                      f1 = (if \<not> ex then JAVACALL_FILE_O_CREAT
                            else if OPEN_READ_WRITE_TRUNCATE = ioMode then JAVACALL_FILE_O_TRUNC
                            else 0);
                      f2 = (if OPEN_WRITE = ioMode then JAVACALL_FILE_O_WRONLY
                            else JAVACALL_FILE_O_RDWR)
                  in (f1 OR f2, s0))
      in do { (allowed, r1) \<leftarrow> midpCheckResourceLimit 0 1 cur FILE 1 (resources s1);
              let s2 = s1\<lparr>resources := r1\<rparr>;
              if \<not> allowed then Some ((Some FILE_LIMIT_ERROR, -1), s2)
              else let ((openStatus, handle), s3) = onOs (pcsl_file_open filename_str flags) s2 in
                   if openStatus = -1
                   then Some ((Some (storage_get_last_file_error ''storage_open()'' filename_str s3), -1), s3)
                   else do { (_, r2) \<leftarrow> midpIncResourceCount 0 1 cur FILE 1 (resources s3);
                             Some ((None, handle), s3\<lparr>resources := r2\<rparr>) } })"

definition storageClose :: "int \<Rightarrow> int \<Rightarrow> StorageSys \<Rightarrow> (error \<times> StorageSys) option" where
  "storageClose cur handle s =
     (let (status, s1) = onOs (pcsl_file_close handle) s;
          err = (if status < 0 then Some (getLastError ''storageClose()'' s1) else None)
      in do { (_, r) \<leftarrow> midpDecResourceCount 0 1 cur FILE 1 (resources s1);
              Some (err, s1\<lparr>resources := r\<rparr>) })"

section \<open>Data\<close>

text \<open>
  The bytes read with the returned count: -1 at the end of the file and for an error.
\<close>

definition storageRead :: "int \<Rightarrow> nat \<Rightarrow> StorageSys \<Rightarrow> (error \<times> int \<times> jbyte list) \<times> StorageSys" where
  "storageRead handle len s =
     (if len = 0 then ((None, 0, []), s)
      else let (bytesRead, s1) = onOs (pcsl_file_read handle len) s in
           case bytesRead of
             None \<Rightarrow> ((Some (getLastError ''storageRead()'' s1), -1, []), s1)
           | Some bs \<Rightarrow> ((None, if bs = [] then -1 else int (length bs), bs), s1))"

definition storageWrite :: "int \<Rightarrow> jbyte list \<Rightarrow> StorageSys \<Rightarrow> error \<times> StorageSys" where
  "storageWrite handle buffer s =
     (let (bytesWritten, s1) = onOs (pcsl_file_write handle buffer) s in
      if bytesWritten = -1 then (Some (getLastError ''storageWrite()'' s1), s1)
      else if bytesWritten \<noteq> int (length buffer) then (Some STORAGE_FULL, s1)
      else (None, s1))"

definition storageCommitWrite :: "int \<Rightarrow> StorageSys \<Rightarrow> error \<times> StorageSys" where
  "storageCommitWrite handle s =
     (let (status, s1) = onOs (pcsl_file_commitwrite handle) s in
      (if status < 0 then Some (getLastError ''storageCommit()'' s1) else None, s1))"

definition storagePosition :: "int \<Rightarrow> int \<Rightarrow> StorageSys \<Rightarrow> error \<times> StorageSys" where
  "storagePosition handle absolutePosition s =
     (let (newPosition, s1) = onOs (pcsl_file_seek handle absolutePosition 0) s in
      (if newPosition = -1 then Some (getLastError ''storagePosition()'' s1) else None, s1))"

definition storageRelativePosition :: "int \<Rightarrow> int \<Rightarrow> StorageSys \<Rightarrow> (error \<times> int) \<times> StorageSys" where
  "storageRelativePosition handle offset s =
     (let (newPosition, s1) = onOs (pcsl_file_seek handle offset 1) s in
      if newPosition = -1 then ((Some (getLastError ''storageRelativePosition()'' s1), -1), s1)
      else ((None, newPosition), s1))"

definition storageSizeOf :: "int \<Rightarrow> StorageSys \<Rightarrow> (error \<times> int) \<times> StorageSys" where
  "storageSizeOf handle s =
     (let (sz, s1) = onOs (pcsl_file_sizeofopenfile handle) s in
      ((if sz < 0 then Some (getLastError ''storageSizeOf()'' s1) else None, sz), s1))"

definition storageTruncate :: "int \<Rightarrow> int \<Rightarrow> StorageSys \<Rightarrow> error \<times> StorageSys" where
  "storageTruncate handle sz s =
     (let (rv, s1) = onOs (pcsl_file_truncate handle sz) s in
      (if rv = -1 then Some (getLastError ''storageTruncate()'' s1) else None, s1))"

section \<open>Deleting and renaming\<close>

definition storage_delete_file :: "pcsl_string \<Rightarrow> StorageSys \<Rightarrow> error \<times> StorageSys" where
  "storage_delete_file filename_str s =
     (let (status, s1) = onOs (pcsl_file_unlink filename_str) s in
      (if status < 0 then Some (storage_get_last_file_error ''storage_delete_file'' filename_str s1)
       else None, s1))"

text \<open>
  The copying loop; its value is the last \<^verbatim>\<open>status\<close>. A failed read makes the code write -1
  bytes, which is undefined.
\<close>

partial_function (option) copyLoop :: "int \<Rightarrow> int \<Rightarrow> Os \<Rightarrow> (int \<times> Os) option" where
  "copyLoop rd wd s =
     (case pcsl_file_read rd 512 s of
        (None, s1) \<Rightarrow> None
      | (Some buf, s1) \<Rightarrow>
          (case pcsl_file_write wd buf s1 of
             (status, s2) \<Rightarrow>
               if length buf > 0 \<and> status \<ge> 0 then copyLoop rd wd s2 else Some (status, s2)))"

definition copyFile :: "pcsl_string \<Rightarrow> pcsl_string \<Rightarrow> Os \<Rightarrow> (int \<times> Os) option" where
  "copyFile oldName newName s =
     (let ((status, rd), s1) = pcsl_file_open oldName JAVACALL_FILE_O_RDONLY s in
      if status = 0 then
        let ((status, wd), s2) =
              pcsl_file_open newName (JAVACALL_FILE_O_WRONLY OR JAVACALL_FILE_O_CREAT) s1 in
        if status = 0 then
          do { (status, s3) \<leftarrow> copyLoop rd wd s2;
               Some (status, snd (pcsl_file_close wd (snd (pcsl_file_close rd s3)))) }
        else Some (status, snd (pcsl_file_close rd s2))
      else Some (status, s1))"

definition storage_rename_file ::
  "pcsl_string \<Rightarrow> pcsl_string \<Rightarrow> StorageSys \<Rightarrow> (error \<times> StorageSys) option" where
  "storage_rename_file oldName newName s =
     (let (ex1, s1) = storage_file_exists oldName s;
          err1 = (if \<not> ex1 then Some NOT_EXIST_RENAME_ERROR else None);
          (ex2, s2) = storage_file_exists newName s1;
          (err, s3) = (if ex2 then storage_delete_file newName s2 else (err1, s2)) in
      if ex2 \<and> err \<noteq> None then Some (err, s3)
      else do { (status, o') \<leftarrow> copyFile oldName newName (os s3);
                let s4 = s3\<lparr>os := o'\<rparr>;
                if status < 0
                then Some (Some (storage_get_last_file_error ''storageRename'' newName s4), s4)
                else Some (None, s4) })"

section \<open>Strings in files\<close>

text \<open>The memory image of a \<^verbatim>\<open>jint\<close>, little endian as on the console, and the values read from memory.\<close>

definition jintBytes :: "int \<Rightarrow> jbyte list" where
  "jintBytes i = (let w = (word_of_int i :: 32 word) in
     [ucast w, ucast (drop_bit 8 w), ucast (drop_bit 16 w), ucast (drop_bit 24 w)])"

fun bytesJint :: "jbyte list \<Rightarrow> int" where
  "bytesJint [a, b, c, d] =
     sint (ucast a OR push_bit 8 (ucast b) OR push_bit 16 (ucast c) OR push_bit 24 (ucast d) :: 32 word)"
| "bytesJint _ = 0"

fun bytesJchars :: "jbyte list \<Rightarrow> jchar list" where
  "bytesJchars (a # b # bs) = (ucast a OR push_bit 8 (ucast b)) # bytesJchars bs"
| "bytesJchars _ = []"

text \<open>
  \<^verbatim>\<open>tempLen\<close> is 0 before the read, so bytes that were not read are zero. The result string is
  \<open>None\<close> when the code leaves \<^verbatim>\<open>*str\<close> unassigned; \<^verbatim>\<open>mem\<close> is the allocation of the buffer that is
  read into, \<^verbatim>\<open>mem2\<close> that of the string. The length that is written counts characters, and as many
  16-bit units follow.
\<close>

definition storage_read_utf16_string ::
  "bool \<Rightarrow> (int \<Rightarrow> bool) \<Rightarrow> int \<Rightarrow> StorageSys \<Rightarrow> (error \<times> PcslString option) \<times> StorageSys" where
  "storage_read_utf16_string mem mem2 handle s =
     (let ((err, _, bs), s1) = storageRead handle 4 s in
      if err \<noteq> None then ((err, None), s1)
      else
        let tempLen = bytesJint (take 4 (bs @ [0, 0, 0, 0])) in
        if tempLen < 0 then
          if 0 = tempLen then ((None, Some NULL_STRING), s1)
          else if -1 = tempLen then ((None, Some EMPTY_STRING), s1)
          else ((Some STRING_CORRUPT_ERROR, Some NULL_STRING), s1)
        else if \<not> mem then ((Some OUT_OF_MEM_ERROR, None), s1)
        else
          let ((err, bytesRead, cs), s2) = storageRead handle (nat tempLen * 2) s1 in
          if err \<noteq> None then ((err, None), s2)
          else if bytesRead \<noteq> tempLen * 2 then ((Some STRING_CORRUPT_ERROR, None), s2)
          else
            let (prc, str) =
                  pcsl_string_convert_from_utf16 mem2 (Some (bytesJchars cs)) tempLen (Some NULL_STRING) in
            if prc \<noteq> PCSL_STRING_OK
            then ((Some (if prc = PCSL_STRING_ENOMEM then OUT_OF_MEM_ERROR else STRING_CORRUPT_ERROR), str), s2)
            else ((None, str), s2))"

definition storage_write_utf16_string :: "int \<Rightarrow> PcslString \<Rightarrow> StorageSys \<Rightarrow> error \<times> StorageSys" where
  "storage_write_utf16_string handle str s =
     (let len = (if pcsl_string_is_null (Some str) then -1 else pcsl_string_length (Some str));
          (err, s1) = storageWrite handle (jintBytes len) s in
      if err = None \<and> len > 0 then
        (case pcsl_string_get_utf16_data (Some str) of
           None \<Rightarrow> (Some OUT_OF_MEM_ERROR, s1)
         | Some data \<Rightarrow> storageWrite handle (jcharBytes (take (nat len) data)) s1)
      else (err, s1))"

section \<open>Storage as a random-access file\<close>

definition storageView :: "int \<Rightarrow> StorageSys \<Rightarrow> (jbyte list \<times> nat) option" where
  "storageView h s = fileView h (os s)"

lemmas storage_ops = onOs_def storagePosition_def storageWrite_def storageRead_def pcsl_file_seek_def
  javacall_file_seek_def pcsl_file_write_def javacall_file_write_def pcsl_file_read_def
  javacall_file_read_def

interpretation ra: random_access "storagePosition h" "storageWrite h" "storageView h"
  "\<lambda>s. freeSpace (os s)" 0 "storageRead h" for h
proof unfold_locales
  fix s c p
  assume v: "storageView h s = Some (c, p)"
  {
    fix k :: int assume "0 \<le> k"
    with v seek_view [of h "os s" c p SEEK_SET k] show
      "\<exists>s'. storagePosition h k s = (None, s') \<and> storageView h s' = Some (c, nat k)
         \<and> freeSpace (os s') = freeSpace (os s)"
      by (auto simp: storage_ops storageView_def seekBase_def)
  }
  {
    fix bs assume "length (spliceAt p bs c) \<le> length c + freeSpace (os s)"
    with v write_view [of h "os s" c p bs] show
      "\<exists>s'. storageWrite h bs s = (None, s') \<and> storageView h s' = Some (spliceAt p bs c, p + length bs)
         \<and> length (spliceAt p bs c) + freeSpace (os s') = length c + freeSpace (os s)"
      by (auto simp: storage_ops storageView_def)
  }
  {
    fix n :: nat assume "0 < n"
    with v read_view [of h "os s" c p n] show
      "\<exists>s'. storageRead h n s = ((None,
           if take n (drop p c) = [] then -1 else int (length (take n (drop p c))), take n (drop p c)), s')
         \<and> storageView h s' = Some (c, p + length (take n (drop p c)))
         \<and> freeSpace (os s') = freeSpace (os s)"
      by (auto simp: storage_ops storageView_def)
  }
qed

section \<open>Facts about strings in files\<close>

lemma word_of_int_bytes:
  "(ucast (ucast w :: jbyte) OR push_bit 8 (ucast (ucast (drop_bit 8 w) :: jbyte))
    OR push_bit 16 (ucast (ucast (drop_bit 16 w) :: jbyte))
    OR push_bit 24 (ucast (ucast (drop_bit 24 w) :: jbyte)) :: 32 word) = w"
proof (rule bit_word_eqI)
  fix n :: nat assume "n < LENGTH(32)"
  then have "n < 8 \<or> (8 \<le> n \<and> n < 16) \<or> (16 \<le> n \<and> n < 24) \<or> (24 \<le> n \<and> n < 32)" by auto
  then show "bit (ucast (ucast w :: jbyte) OR push_bit 8 (ucast (ucast (drop_bit 8 w) :: jbyte))
    OR push_bit 16 (ucast (ucast (drop_bit 16 w) :: jbyte))
    OR push_bit 24 (ucast (ucast (drop_bit 24 w) :: jbyte)) :: 32 word) n = bit w n"
    by (elim disjE conjE) (auto simp: bit_simps)
qed

lemma jint_roundtrip: "- (2 ^ 31) \<le> i \<Longrightarrow> i < 2 ^ 31 \<Longrightarrow> bytesJint (jintBytes i) = i"
  by (simp add: jintBytes_def Let_def word_of_int_bytes signed_of_int signed_take_bit_int_eq_self)

lemma jchar_roundtrip: "bytesJchars (jcharBytes cs) = cs"
proof (induction cs)
  case (Cons c cs)
  have "(ucast (ucast c :: jbyte) OR push_bit 8 (ucast (ucast (drop_bit 8 c) :: jbyte)) :: jchar) = c"
    by (rule word16_eqI, elim insertE emptyE; hypsubst) (simp_all add: bit_simps)
  with Cons show ?case by (simp add: jcharBytes_def)
qed (simp add: jcharBytes_def)

lemma length_jintBytes [simp]: "length (jintBytes i) = 4"
  by (simp add: jintBytes_def Let_def)

lemma jintBytes_not_Nil [simp]: "jintBytes i \<noteq> []"
  by (simp add: jintBytes_def Let_def)

text \<open>The length and the bytes that \<^verbatim>\<open>storage_write_utf16_string\<close> writes.\<close>

definition writtenLength :: "PcslString \<Rightarrow> int" where
  "writtenLength str = (if pcsl_string_is_null (Some str) then -1 else pcsl_string_length (Some str))"

definition stringBytes :: "PcslString \<Rightarrow> jbyte list" where
  "stringBytes str = jintBytes (writtenLength str) @ jcharBytes (take (nat (writtenLength str)) (unitsOf str))"

lemma length_loop_ge:
  "0 \<le> k \<Longrightarrow> utf16LengthLoop cs k = -1 \<or> k + (if cs = [] then 0 else 1) \<le> utf16LengthLoop cs k"
proof (induction cs k rule: utf16LengthLoop.induct)
  case (2 c cs k)
  show ?case
  proof (cases "highHalf c")
    case True
    show ?thesis
    proof (cases cs)
      case (Cons l ds)
      with 2(1) [OF True Cons] 2(3) True show ?thesis
        by (cases "l < 0xDC00 \<or> l > 0xDFFF")
          (simp_all only: utf16LengthLoop.simps list.case if_True if_False,
            auto simp del: utf16LengthLoop.simps split: if_split_asm)
    qed (use 2(3) True in simp)
  next
    case False
    with 2(2) [OF False] 2(3) show ?thesis
      by (subst (1 2) utf16LengthLoop.simps) (auto simp del: utf16LengthLoop.simps split: if_split_asm)
  qed
qed simp

lemma written_length:
  assumes "pcslOk str"
  shows "if textOf str = None then writtenLength str = -1
    else writtenLength str = pcsl_string_length (Some str)
      \<and> (writtenLength str = -2 \<or> 0 \<le> writtenLength str \<and> writtenLength str \<le> int (length (unitsOf str)))"
  using assms
proof (cases rule: pcslOkE)
  case 1
  then show ?thesis by (simp add: writtenLength_def pcsl_string_is_null_def)
next
  case (2 t)
  then have w: "writtenLength str = utf16LengthLoop (t @ [0]) 0 - 1"
    "writtenLength str = pcsl_string_length (Some str)"
    by (simp_all add: writtenLength_def pcsl_string_is_null_def pcsl_string_length_def dataOf_def
        utf16_string_length_def)
  with string_length_le [OF assms 2(3)] length_loop_ge [of 0 "t @ [0]"] 2(3,4) show ?thesis by auto
qed

lemma write_string:
  assumes "storageView h s = Some (c, p)" "pcslOk str"
    "length (spliceAt p (stringBytes str) c) \<le> length c + freeSpace (os s)"
  shows "\<exists>s'. storage_write_utf16_string h str s = (None, s')
    \<and> storageView h s' = Some (spliceAt p (stringBytes str) c, p + length (stringBytes str))"
proof -
  define n where "n = writtenLength str"
  define d where "d = jcharBytes (take (nat n) (unitsOf str))"
  have bytes: "stringBytes str = jintBytes n @ d" by (simp add: stringBytes_def n_def d_def)
  have data: "pcsl_string_get_utf16_data (Some str) = Some (cellsOf str)" "take (nat n) (cellsOf str) = take (nat n) (unitsOf str)"
    if "n > 0"
    using assms(2) written_length [OF assms(2)] that
    by (auto elim!: pcslOkE simp: n_def pcsl_string_get_utf16_data_def dataOf_def)
  have d: "n \<le> 0 \<Longrightarrow> d = []" by (simp add: d_def jcharBytes_def)
  have "length (spliceAt p (jintBytes n) c) \<le> length (spliceAt p (stringBytes str) c)"
    by (auto simp: length_splice_at bytes)
  with assms(1,3) ra.write_here [OF assms(1), of "jintBytes n"] obtain s1 where s1:
    "storageWrite h (jintBytes n) s = (None, s1)"
    "storageView h s1 = Some (spliceAt p (jintBytes n) c, p + 4)"
    "length (spliceAt p (jintBytes n) c) + freeSpace (os s1) = length c + freeSpace (os s)"
    by auto
  have adj: "spliceAt (p + 4) d (spliceAt p (jintBytes n) c) = spliceAt p (stringBytes str) c"
    using splice_at_adjacent [of 0 p "jintBytes n" d c] by (simp add: bytes)
  note code = storage_write_utf16_string_def [folded writtenLength_def, of h str s, folded n_def]
  show ?thesis
  proof (cases "n > 0")
    case True
    have "length (spliceAt (p + 4) d (spliceAt p (jintBytes n) c))
        \<le> length (spliceAt p (jintBytes n) c) + freeSpace (os s1)"
      unfolding adj using assms(3) s1(3) by simp
    from ra.write_here [OF s1(2) this] obtain s2 where
      "storageWrite h d s1 = (None, s2)"
      "storageView h s2 = Some (spliceAt p (stringBytes str) c, p + 4 + length d)"
      unfolding adj by auto
    with True s1 data show ?thesis by (simp add: code bytes d_def)
  next
    case False
    with s1 d show ?thesis by (simp add: code bytes)
  qed
qed

text \<open>What comes back: the characters that were counted, taken for units.\<close>

definition readBack :: "PcslString \<Rightarrow> error \<Rightarrow> PcslString \<Rightarrow> bool" where
  "readBack str err r =
     (if textOf str = None then err = None \<and> r = EMPTY_STRING
      else if pcsl_string_length (Some str) < 0 then err = Some STRING_CORRUPT_ERROR \<and> r = NULL_STRING
      else err = None \<and> pcslOk r
        \<and> textOf r = Some (stripZeros (take (nat (pcsl_string_length (Some str))) (unitsOf str))))"

lemma read_string:
  assumes "storageView h s = Some (c, p)" "p + length (stringBytes str) \<le> length c"
    "take (length (stringBytes str)) (drop p c) = stringBytes str" "pcslOk str" "length (unitsOf str) < 2 ^ 31"
  shows "\<exists>err r s'. storage_read_utf16_string True (\<lambda>_. True) h s = ((err, Some r), s') \<and> readBack str err r"
proof -
  define n where "n = writtenLength str"
  define cs where "cs = take (nat n) (unitsOf str)"
  have bytes: "stringBytes str = jintBytes n @ jcharBytes cs" by (simp add: stringBytes_def n_def cs_def)
  have n: "n < 2 ^ 31" "- (2 ^ 31) \<le> n"
    using written_length [OF assms(4)] assms(5) by (auto simp: n_def split: if_split_asm)
  have four: "take 4 (drop p c) = take 4 (stringBytes str)"
    using arg_cong [OF assms(3), of "take 4"] by (simp add: min_def bytes)
  then have t: "take 4 (drop p c) = jintBytes n" by (simp add: bytes)
  from ra.read_here [OF assms(1), of 4] obtain s1 where s1:
    "storageRead h 4 s = ((None, 4, jintBytes n), s1)" "storageView h s1 = Some (c, p + 4)"
    unfolding t by auto
  have j: "bytesJint (take 4 (jintBytes n @ [0, 0, 0, 0])) = n"
    using jint_roundtrip [OF n(2,1)] by simp
  show ?thesis
  proof (cases "n < 0")
    case True
    with s1(1) j have "storage_read_utf16_string True (\<lambda>_. True) h s =
      ((if n = -1 then None else Some STRING_CORRUPT_ERROR, Some (if n = -1 then EMPTY_STRING else NULL_STRING)), s1)"
      by (simp add: storage_read_utf16_string_def del: take_append)
    moreover have "textOf str = None \<and> n = -1 \<or> textOf str \<noteq> None \<and> n = -2 \<and> pcsl_string_length (Some str) = -2"
      using written_length [OF assms(4)] True by (auto simp: n_def split: if_splits)
    ultimately show ?thesis by (auto simp: readBack_def)
  next
    case False
    with written_length [OF assms(4)] have w: "textOf str \<noteq> None" "n = pcsl_string_length (Some str)"
      "n \<le> int (length (unitsOf str))" by (auto simp: n_def split: if_splits)
    then have l: "int (length cs) = n" using False by (simp add: cs_def)
    have u: "take (2 * length cs) (drop (p + 4) c) = jcharBytes cs"
      using arg_cong [OF assms(3), of "drop 4"] by (simp add: bytes drop_take add.commute)
    obtain s2 where s2: "storageRead h (2 * length cs) s1 = ((None, 2 * n, jcharBytes cs), s2)"
    proof (cases "cs = []")
      case True
      then show ?thesis using s1(2) that [of s1] l by (simp add: storageRead_def jcharBytes_def)
    next
      case False
      then have "jcharBytes cs \<noteq> []" by (cases cs) (simp_all add: jcharBytes_def)
      with False l ra.read_here [OF s1(2), of "2 * length cs"] that show ?thesis unfolding u by auto
    qed
    have c: "pcsl_string_convert_from_utf16 (\<lambda>_. True) (Some cs) n (Some NULL_STRING)
        = (PCSL_STRING_OK, Some (heapString (stripZeros cs @ [0])))"
      using from_utf16_result [of "length cs" cs "\<lambda>_. True" NULL_STRING] l by simp
    have m: "nat n * 2 = 2 * length cs" "n * 2 = 2 * n" using l by simp_all
    have "storage_read_utf16_string True (\<lambda>_. True) h s = ((None, Some (heapString (stripZeros cs @ [0]))), s2)"
      using s1(1) s2(1) False
      by (simp add: storage_read_utf16_string_def j jchar_roundtrip m c del: take_append)
    with w False show ?thesis by (auto simp: readBack_def cs_def)
  qed
qed

section \<open>Facts about quotas\<close>

lemma onOs_resources [simp]: "onOs f s = (r, s') \<Longrightarrow> resources s' = resources s"
  by (auto simp: onOs_def split: prod.splits)

lemma open_result:
  assumes "quota_inv cur (resources s)"
  shows "\<exists>err hd s'. storage_open cur n m s = Some ((err, hd), s') \<and> quota_inv cur (resources s')
    \<and> holding 0 cur FILE (resources s') = holding 0 cur FILE (resources s) + (if err = None then 1 else 0)"
proof -
  obtain flags s1 where f: "(if OPEN_READ = m then (JAVACALL_FILE_O_RDONLY, s)
      else let (ex, s0) = storage_file_exists n s;
               f1 = (if \<not> ex then JAVACALL_FILE_O_CREAT
                     else if OPEN_READ_WRITE_TRUNCATE = m then JAVACALL_FILE_O_TRUNC else 0);
               f2 = (if OPEN_WRITE = m then JAVACALL_FILE_O_WRONLY else JAVACALL_FILE_O_RDWR)
           in (f1 OR f2, s0)) = (flags, s1)" (is "?flags = _")
    by (cases ?flags)
  then have r: "resources s1 = resources s"
    by (auto simp: storage_file_exists_def split: if_splits prod.splits)
  obtain b where b: "midpCheckResourceLimit 0 1 cur FILE 1 (resources s) = Some (b, resources s)"
    using fq.check_pure [OF assms(1)] by blast
  obtain st hd s3 where o: "onOs (pcsl_file_open n flags) (s1\<lparr>resources := resources s\<rparr>) = ((st, hd), s3)"
    by (metis prod.exhaust)
  from onOs_resources [OF o] have r3: "resources s3 = resources s" by simp
  note code = storage_open_def [of cur n m s, unfolded f] r b
  show ?thesis
  proof (cases b)
    case True
    show ?thesis
    proof (cases "st = -1")
      case True
      with \<open>b\<close> o r3 assms(1) show ?thesis by (simp add: code)
    next
      case False
      obtain q where
        "midpIncResourceCount 0 1 cur FILE 1 (resources s) = Some (True, q)" "quota_inv cur q"
        "holding 0 cur FILE q = holding 0 cur FILE (resources s) + 1"
        using fq.acquire_checked [OF assms(1), of FILE] b \<open>b\<close> by auto
      with \<open>b\<close> False o r3 show ?thesis by (simp add: code)
    qed
  next
    case False
    with assms(1) r show ?thesis by (simp add: code)
  qed
qed

lemma close_result:
  assumes "quota_inv cur (resources s)" "0 < holding 0 cur FILE (resources s)"
  shows "\<exists>s'. storageClose cur h s = Some (if fst (pcsl_file_close h (os s)) < 0
        then Some (getLastError ''storageClose()'' (snd (onOs (pcsl_file_close h) s))) else None, s')
    \<and> quota_inv cur (resources s')
    \<and> holding 0 cur FILE (resources s') = holding 0 cur FILE (resources s) - 1"
proof -
  obtain st s1 where c: "onOs (pcsl_file_close h) s = (st, s1)" by (metis prod.exhaust)
  moreover have "resources s1 = resources s" using c by simp
  moreover have "st = fst (pcsl_file_close h (os s))"
    using c by (auto simp: onOs_def split: prod.splits)
  moreover obtain q where "midpDecResourceCount 0 1 cur FILE 1 (resources s) = Some (True, q)"
    "quota_inv cur q" "holding 0 cur FILE q = holding 0 cur FILE (resources s) - 1"
    using fq.release_one [OF assms] by blast
  ultimately show ?thesis by (simp add: storageClose_def)
qed

section \<open>Facts about renaming\<close>

text \<open>The path the C library gets for a name.\<close>

definition pathOf :: "pcsl_string \<Rightarrow> Os \<Rightarrow> path option" where
  "pathOf n s = (case fileNameUnits n s of None \<Rightarrow> None | Some cs \<Rightarrow> javacall_UNICODEsToUtf8 cs s)"

lemma pathOfE:
  assumes "pathOf n s = Some q"
  obtains cs where "fileNameUnits n s = Some cs" "javacall_UNICODEsToUtf8 cs s = Some q"
  using assms by (auto simp: pathOf_def split: option.splits)

lemma pathOf_cong: "pathMax s' = pathMax s \<Longrightarrow> pathOf n s' = pathOf n s"
  by (cases n) (simp_all add: pathOf_def fileNameUnits_def javacall_UNICODEsToUtf8_def)

lemma exist_result:
  assumes "pathOf n s = Some q" "quiet s"
  shows "pcsl_file_exist n s
    = (if names s q \<noteq> None \<and> \<not> isDirectory s q then 1 else 0, s\<lparr>osCalls := Suc (osCalls s)\<rparr>)"
  using assms
  by (elim pathOfE) (simp add: pcsl_file_exist_def javacall_file_exist_def os_stat_def quiet_tick)

lemma unlink_result:
  assumes "pathOf n s = Some q" "quiet s" "names s q = Some i" "\<not> isDirectory s q"
  shows "pcsl_file_unlink n s = (0, s\<lparr>osCalls := Suc (osCalls s), names := (names s)(q := None),
    freeSpace := freeSpace s + length (inodes s i)\<rparr>)"
  using assms
  by (elim pathOfE)
    (simp add: pcsl_file_unlink_def javacall_file_delete_def os_unlink_def quiet_tick resultCode_def)

lemma open_missing:
  assumes "pathOf n s = Some q" "quiet s" "names s q = None"
  shows "pcsl_file_open n JAVACALL_FILE_O_RDONLY s = ((-1, 0), s\<lparr>osCalls := Suc (osCalls s)\<rparr>)"
  using assms
  by (elim pathOfE)
    (simp add: pcsl_file_open_def javacall_file_open_def os_open_def quiet_tick resultCode_def
      JAVACALL_FILE_O_RDONLY_def)

lemma open_existing:
  assumes "pathOf n s = Some q" "quiet s" "names s q = Some i" "\<not> isDirectory s q" "0 \<le> nextFd s"
  shows "pcsl_file_open n JAVACALL_FILE_O_RDONLY s = ((0, nextFd s), s\<lparr>osCalls := Suc (osCalls s),
    fds := (fds s)(nextFd s \<mapsto> \<lparr>ofInode = i, ofPos = 0, ofRead = True, ofWrite = False\<rparr>),
    nextFd := nextFd s + 1\<rparr>)"
  using assms
  by (elim pathOfE)
    (simp add: pcsl_file_open_def javacall_file_open_def os_open_def quiet_tick resultCode_def
      JAVACALL_FILE_O_RDONLY_def JAVACALL_FILE_O_WRONLY_def Let_def)

lemma open_new:
  assumes "pathOf n s = Some q" "quiet s" "names s q = None" "0 \<le> nextFd s"
  shows "pcsl_file_open n (JAVACALL_FILE_O_WRONLY OR JAVACALL_FILE_O_CREAT) s
    = ((0, nextFd s), s\<lparr>osCalls := Suc (osCalls s), names := (names s)(q \<mapsto> nextInode s),
    inodes := (inodes s)(nextInode s := []), nextInode := Suc (nextInode s),
    fds := (fds s)(nextFd s \<mapsto> \<lparr>ofInode = nextInode s, ofPos = 0, ofRead = False, ofWrite = True\<rparr>),
    nextFd := nextFd s + 1\<rparr>)"
  using assms
  by (elim pathOfE)
    (simp add: pcsl_file_open_def javacall_file_open_def os_open_def quiet_tick resultCode_def
      JAVACALL_FILE_O_RDONLY_def JAVACALL_FILE_O_WRONLY_def JAVACALL_FILE_O_CREAT_def
      JAVACALL_FILE_O_TRUNC_def Let_def)

lemma close_quiet:
  assumes "quiet s" "fds s h \<noteq> None"
  shows "pcsl_file_close h s = (0, s\<lparr>osCalls := Suc (osCalls s), fds := (fds s)(h := None)\<rparr>)"
  using assms
  by (simp add: pcsl_file_close_def javacall_file_close_def os_close_def quiet_tick resultCode_def)

lemma splice_append: "p = length c \<Longrightarrow> splice_at z p bs c = c @ bs"
  by (simp add: splice_at_def)

text \<open>Two descriptors in the middle of a copy of \<open>c\<close>.\<close>

definition copying :: "int \<Rightarrow> int \<Rightarrow> nat \<Rightarrow> nat \<Rightarrow> nat \<Rightarrow> jbyte list \<Rightarrow> Os \<Rightarrow> bool" where
  "copying rd wd i j p c s \<longleftrightarrow> quiet s \<and> rd \<noteq> wd \<and> i \<noteq> j \<and> p \<le> length c
     \<and> fds s rd = Some \<lparr>ofInode = i, ofPos = p, ofRead = True, ofWrite = False\<rparr>
     \<and> fds s wd = Some \<lparr>ofInode = j, ofPos = p, ofRead = False, ofWrite = True\<rparr>
     \<and> inodes s i = c \<and> inodes s j = take p c \<and> length c - p \<le> freeSpace s"

definition copied :: "int \<Rightarrow> int \<Rightarrow> nat \<Rightarrow> jbyte list \<Rightarrow> Os \<Rightarrow> Os \<Rightarrow> bool" where
  "copied rd wd j c s s' \<longleftrightarrow> quiet s' \<and> inodes s' = (inodes s)(j := c) \<and> names s' = names s
     \<and> isDirectory s' = isDirectory s \<and> (\<forall>h. h \<noteq> rd \<and> h \<noteq> wd \<longrightarrow> fds s' h = fds s h)
     \<and> fds s' rd \<noteq> None \<and> fds s' wd \<noteq> None"

lemma copy_step:
  assumes "copying rd wd i j p c s"
  shows "\<exists>s1 s2. pcsl_file_read rd 512 s = (Some (take 512 (drop p c)), s1)
    \<and> pcsl_file_write wd (take 512 (drop p c)) s1 = (int (length (take 512 (drop p c))), s2)
    \<and> copying rd wd i j (p + length (take 512 (drop p c))) c s2
    \<and> inodes s2 = (inodes s)(j := take (p + length (take 512 (drop p c))) c) \<and> names s2 = names s
    \<and> isDirectory s2 = isDirectory s \<and> (\<forall>h. h \<noteq> rd \<and> h \<noteq> wd \<longrightarrow> fds s2 h = fds s h)"
proof -
  define b where "b = take 512 (drop p c)"
  note c = assms [unfolded copying_def]
  have r: "pcsl_file_read rd 512 s = (Some b, s\<lparr>osCalls := Suc (osCalls s), fds := (fds s)
      (rd \<mapsto> \<lparr>ofInode = i, ofPos = p + length b, ofRead = True, ofWrite = False\<rparr>)\<rparr>)"
    (is "_ = (_, ?s1)")
    using c by (simp add: pcsl_file_read_def javacall_file_read_def os_read_def quiet_tick Let_def b_def)
  have len: "p + length b \<le> length c" using c by (auto simp: b_def)
  then have grown: "length (take (p + length b) c) = p + length b" by simp
  have l: "length (take p c) = p" using c by auto
  have app: "take p c @ b = take (p + length b) c" by (simp add: take_add min_def b_def)
  have fit: "min (length b) (length (take p c) + freeSpace s - p) = length b"
    using c l by (auto simp: b_def)
  have w: "pcsl_file_write wd b ?s1 = (int (length b), ?s1\<lparr>osCalls := Suc (Suc (osCalls s)),
      inodes := (inodes s)(j := take (p + length b) c),
      fds := (fds ?s1)(wd \<mapsto> \<lparr>ofInode = j, ofPos = p + length b, ofRead = False, ofWrite = True\<rparr>),
      freeSpace := freeSpace s - length b\<rparr>)" (is "_ = (_, ?s2)")
    using c fit app l len
    by (simp add: pcsl_file_write_def javacall_file_write_def os_write_def quiet_tick Let_def
        splice_append grown del: length_take)
  have "copying rd wd i j (p + length b) c ?s2"
    using c len by (auto simp: copying_def quiet_def)
  with r w show ?thesis unfolding b_def [symmetric] by (simp del: length_take)
qed

lemma copyLoop_copies:
  assumes "copying rd wd i j p c s"
  shows "\<exists>s'. copyLoop rd wd s = Some (0, s') \<and> copied rd wd j c s s'"
  using assms
proof (induction "length c - p" arbitrary: p s rule: less_induct)
  case less
  let ?b = "take 512 (drop p c)"
  obtain s1 s2 where st: "pcsl_file_read rd 512 s = (Some ?b, s1)"
    "pcsl_file_write wd ?b s1 = (int (length ?b), s2)" "copying rd wd i j (p + length ?b) c s2"
    "inodes s2 = (inodes s)(j := take (p + length ?b) c)" "names s2 = names s"
    "isDirectory s2 = isDirectory s" "\<forall>h. h \<noteq> rd \<and> h \<noteq> wd \<longrightarrow> fds s2 h = fds s h"
    using copy_step [OF less(2)] by blast
  have p: "p \<le> length c" using less(2) by (simp add: copying_def)
  show ?case
  proof (cases "p = length c")
    case True
    with st have "copyLoop rd wd s = Some (0, s2)" by (subst copyLoop.simps) simp
    moreover have "copied rd wd j c s s2" using st True by (auto simp: copied_def copying_def)
    ultimately show ?thesis by blast
  next
    case False
    with p have "0 < length ?b" by simp
    moreover have "length c - (p + length ?b) < length c - p" using False p by simp
    from less(1) [OF this st(3)] obtain s' where
      "copyLoop rd wd s2 = Some (0, s')" "copied rd wd j c s2 s'" by blast
    ultimately have "copyLoop rd wd s = Some (0, s')" using st by (subst copyLoop.simps) simp
    moreover have "copied rd wd j c s s'"
      using \<open>copied rd wd j c s2 s'\<close> st(4-7) by (simp add: copied_def)
    ultimately show ?thesis by blast
  qed
qed

lemma copyFile_copies:
  assumes "quiet s" "pathOf old s = Some po" "pathOf new s = Some pn" "po \<noteq> pn"
    "names s po = Some i" "\<not> isDirectory s po" "names s pn = None" "0 \<le> nextFd s"
    "i < nextInode s" "length (inodes s i) \<le> freeSpace s"
  shows "\<exists>s'. copyFile old new s = Some (0, s') \<and> names s' = (names s)(pn \<mapsto> nextInode s)
    \<and> inodes s' = (inodes s)(nextInode s := inodes s i)
    \<and> (\<forall>h. h \<noteq> nextFd s \<and> h \<noteq> nextFd s + 1 \<longrightarrow> fds s' h = fds s h)
    \<and> fds s' (nextFd s) = None \<and> fds s' (nextFd s + 1) = None"
proof -
  let ?rd = "nextFd s" and ?wd = "nextFd s + 1"
  obtain s1 where s1: "pcsl_file_open old JAVACALL_FILE_O_RDONLY s = ((0, ?rd), s1)"
    "s1 = s\<lparr>osCalls := Suc (osCalls s),
      fds := (fds s)(?rd \<mapsto> \<lparr>ofInode = i, ofPos = 0, ofRead = True, ofWrite = False\<rparr>),
      nextFd := ?wd\<rparr>"
    using open_existing [OF assms(2,1,5,6,8)] by simp
  have "pathOf new s1 = Some pn" using assms(3) s1(2) pathOf_cong [of s1 s new] by simp
  moreover have "quiet s1" "names s1 pn = None" "0 \<le> nextFd s1" using assms s1(2) by simp_all
  ultimately obtain s2 where s2: "pcsl_file_open new (JAVACALL_FILE_O_WRONLY OR JAVACALL_FILE_O_CREAT) s1
      = ((0, ?wd), s2)"
    "s2 = s1\<lparr>osCalls := Suc (osCalls s1), names := (names s1)(pn \<mapsto> nextInode s1),
      inodes := (inodes s1)(nextInode s1 := []), nextInode := Suc (nextInode s1),
      fds := (fds s1)(nextFd s1 \<mapsto> \<lparr>ofInode = nextInode s1, ofPos = 0, ofRead = False, ofWrite = True\<rparr>),
      nextFd := nextFd s1 + 1\<rparr>"
    using open_new [of new s1 pn] s1(2) by simp
  have "copying ?rd ?wd i (nextInode s) 0 (inodes s i) s2"
    using assms(1,9,10) s1(2) s2(2) by (simp add: copying_def quiet_def)
  from copyLoop_copies [OF this] obtain s3 where s3: "copyLoop ?rd ?wd s2 = Some (0, s3)"
    "copied ?rd ?wd (nextInode s) (inodes s i) s2 s3" by blast
  then have q: "quiet s3" "fds s3 ?rd \<noteq> None" "fds s3 ?wd \<noteq> None" by (simp_all add: copied_def)
  obtain s4 where s4: "pcsl_file_close ?rd s3 = (0, s4)"
    "s4 = s3\<lparr>osCalls := Suc (osCalls s3), fds := (fds s3)(?rd := None)\<rparr>"
    using close_quiet [OF q(1,2)] by simp
  have "quiet s4" "fds s4 ?wd \<noteq> None" using q s4(2) by simp_all
  from close_quiet [OF this] obtain s5 where s5: "pcsl_file_close ?wd s4 = (0, s5)"
    "s5 = s4\<lparr>osCalls := Suc (osCalls s4), fds := (fds s4)(?wd := None)\<rparr>" by simp
  have "copyFile old new s = Some (0, s5)"
    using s1(1) s2(1) s3(1) s4(1) s5(1) by (simp add: copyFile_def)
  moreover have "names s5 = (names s)(pn \<mapsto> nextInode s)"
    "inodes s5 = (inodes s)(nextInode s := inodes s i)"
    "\<forall>h. h \<noteq> ?rd \<and> h \<noteq> ?wd \<longrightarrow> fds s5 h = fds s h" "fds s5 ?rd = None" "fds s5 ?wd = None"
    using s3(2) s1(2) s2(2) s4(2) s5(2) by (simp_all add: copied_def)
  ultimately show ?thesis by blast
qed

section \<open>Properties\<close>

definition sampleStorage :: StorageSys where
  "sampleStorage = \<lparr>os = sampleOs, resources = startedResources, totalSpace = DEFAULT_TOTAL_SPACE,
     sRoot = [None, None], configRoot = [None, None], storageInitDone = True, errnoText = Some []\<rparr>"

lemma sample_facts:
  "storageView 5 sampleStorage = Some ([1, 2, 3], 2)" "quiet (os sampleStorage)"
  "pathOf (Some [0x61]) (os sampleStorage) = Some [0x61]"
  "pathOf (Some [0x62]) (os sampleStorage) = Some [0x62]"
  by (simp_all add: storageView_def fileView_def sampleStorage_def sampleOs_def quiet_def pathOf_def
      fileNameUnits_def javacall_UNICODEsToUtf8_def)

text \<open>
  C17. What is written to a file is read back: after positioning an open file at any \<open>k\<close> and
  writing \<open>bs\<close>, if there is space, the content is the old one with \<open>bs\<close> spliced in at \<open>k\<close>, the
  free space shrinks by the growth, and reading from \<open>k\<close> gives \<open>bs\<close>.
\<close>

theorem storage_write_then_read:
  assumes "storageView h s = Some (c, p)" "bs \<noteq> []"
    "length (spliceAt k bs c) \<le> length c + freeSpace (os s)"
  shows "\<exists>s1 s2 s3 s4. storagePosition h (int k) s = (None, s1) \<and> storageWrite h bs s1 = (None, s2)
    \<and> storageView h s2 = Some (spliceAt k bs c, k + length bs)
    \<and> length (spliceAt k bs c) + freeSpace (os s2) = length c + freeSpace (os s)
    \<and> storagePosition h (int k) s2 = (None, s3)
    \<and> storageRead h (length bs) s3 = ((None, int (length bs), bs), s4)"
  using ra.write_at [OF assms(1,3)] ra.read_back [OF assms(1,3,2)] by fastforce

lemma storage_write_then_read_witness:
  "\<exists>s1 s2 s3 s4. storagePosition 5 1 sampleStorage = (None, s1) \<and> storageWrite 5 [8, 9, 10] s1 = (None, s2)
    \<and> storageView 5 s2 = Some ([1, 8, 9, 10], 4) \<and> storagePosition 5 1 s2 = (None, s3)
    \<and> storageRead 5 3 s3 = ((None, 3, [8, 9, 10]), s4)"
proof -
  have "length (spliceAt 1 [8, 9, 10] [1, 2, 3]) \<le> length [1, 2, 3 :: jbyte] + freeSpace (os sampleStorage)"
    by (simp add: splice_at_def sampleStorage_def sampleOs_def)
  from storage_write_then_read [OF sample_facts(1) _ this] show ?thesis
    by (auto simp: splice_at_def eval_nat_numeral)
qed

text \<open>
  C18. The file quota of an isolate follows its open files: \<^verbatim>\<open>storage_open\<close> always returns, a
  file it opens costs one unit and a failure none; \<^verbatim>\<open>storageClose\<close> gives one unit back even
  when the close itself fails.
\<close>

theorem file_quota_follows_handles:
  assumes "quota_inv cur (resources s)"
  shows "(\<exists>err hd s'. storage_open cur n m s = Some ((err, hd), s') \<and> quota_inv cur (resources s')
      \<and> holding 0 cur FILE (resources s')
          = holding 0 cur FILE (resources s) + (if err = None then 1 else 0))
    \<and> (0 < holding 0 cur FILE (resources s) \<longrightarrow>
      (\<exists>err s'. storageClose cur h s = Some (err, s') \<and> quota_inv cur (resources s')
        \<and> holding 0 cur FILE (resources s') = holding 0 cur FILE (resources s) - 1
        \<and> (fst (pcsl_file_close h (os s)) < 0 \<longrightarrow> err \<noteq> None)))"
  using open_result [OF assms] close_result [OF assms] by fastforce

lemma file_quota_follows_handles_witness:
  "\<exists>err hd s'. storage_open 1 (Some [0x61]) OPEN_READ sampleStorage = Some ((err, hd), s')
    \<and> holding 0 1 FILE (resources s') = (if err = None then 1 else 0)
    \<and> (err = None \<longrightarrow> (\<exists>e s''. storageClose 1 hd s' = Some (e, s'')
         \<and> holding 0 1 FILE (resources s'') = 0))"
proof -
  have "quota_inv 1 (resources sampleStorage)" "holding 0 1 FILE (resources sampleStorage) = 0"
    using started_facts(2,4) by (simp_all add: sampleStorage_def)
  with file_quota_follows_handles [of 1 sampleStorage "Some [0x61]" OPEN_READ] obtain err hd s' where
    o: "storage_open 1 (Some [0x61]) OPEN_READ sampleStorage = Some ((err, hd), s')"
    "quota_inv 1 (resources s')" "holding 0 1 FILE (resources s') = (if err = None then 1 else 0)"
    by auto
  show ?thesis
  proof (cases "err = None")
    case True
    with o file_quota_follows_handles [OF o(2), of None OPEN_READ hd] show ?thesis by auto
  next
    case False
    with o show ?thesis by auto
  qed
qed

text \<open>
  C19. Renaming a file that does not exist destroys the target: with no failing call, if the old
  name is free and the new one names a file, \<^verbatim>\<open>storage_rename_file\<close> reports an error and the
  new name is free too.
\<close>

theorem rename_missing_loses_target:
  assumes "quiet (os s)" "pathOf old (os s) = Some po" "pathOf new (os s) = Some pn"
    "names (os s) po = None" "names (os s) pn = Some i" "\<not> isDirectory (os s) pn"
  shows "\<exists>e s'. storage_rename_file old new s = Some (Some e, s')
    \<and> names (os s') = (names (os s))(pn := None)"
proof -
  let ?o = "os s"
  let ?o1 = "?o\<lparr>osCalls := Suc (osCalls ?o)\<rparr>"
  let ?o2 = "?o1\<lparr>osCalls := Suc (osCalls ?o1)\<rparr>"
  let ?o3 = "?o2\<lparr>osCalls := Suc (osCalls ?o2), names := (names ?o2)(pn := None),
    freeSpace := freeSpace ?o2 + length (inodes ?o2 i)\<rparr>"
  have p: "pathOf new ?o1 = Some pn" "pathOf new ?o2 = Some pn" "pathOf old ?o3 = Some po"
    using assms(2,3) pathOf_cong [of ?o1 ?o new] pathOf_cong [of ?o2 ?o new]
      pathOf_cong [of ?o3 ?o old] by simp_all
  have q: "quiet ?o1" "quiet ?o2" "quiet ?o3" using assms(1) by (simp_all add: quiet_def)
  have e1: "pcsl_file_exist old ?o = (0, ?o1)" using exist_result [OF assms(2,1)] assms(4) by simp
  have e2: "pcsl_file_exist new ?o1 = (1, ?o2)" using exist_result [OF p(1) q(1)] assms(5,6) by simp
  have d: "pcsl_file_unlink new ?o2 = (0, ?o3)" using unlink_result [OF p(2) q(2)] assms(5,6) by simp
  have "names ?o3 po = None" using assms(4) by simp
  from open_missing [OF p(3) q(3) this] obtain o4 where
    o4: "pcsl_file_open old JAVACALL_FILE_O_RDONLY ?o3 = ((-1, 0), o4)" "names o4 = names ?o3" by simp
  have "copyFile old new ?o3 = Some (-1, o4)" using o4(1) by (simp add: copyFile_def)
  with e1 e2 d have "storage_rename_file old new s = Some (Some
      (storage_get_last_file_error ''storageRename'' new (s\<lparr>os := o4\<rparr>)), s\<lparr>os := o4\<rparr>)"
    by (simp add: storage_rename_file_def storage_file_exists_def storage_delete_file_def onOs_def
        Let_def)
  with o4(2) show ?thesis by simp
qed

lemma rename_missing_loses_target_witness:
  "\<exists>e s'. storage_rename_file (Some [0x62]) (Some [0x61]) sampleStorage = Some (Some e, s')
    \<and> names (os sampleStorage) [0x61] = Some 0 \<and> names (os s') [0x61] = None"
  using rename_missing_loses_target [OF sample_facts(2,4,3), of 0]
  by (auto simp: sampleStorage_def sampleOs_def)

text \<open>
  C20. Renaming copies: with no failing call and enough space, \<^verbatim>\<open>storage_rename_file\<close> returns
  without error, the new name has the whole content in a file of its own, the old name still
  has its file, and no descriptor stays open.
\<close>

theorem rename_copies:
  assumes "quiet (os s)" "pathOf old (os s) = Some po" "pathOf new (os s) = Some pn" "po \<noteq> pn"
    "names (os s) po = Some i" "\<not> isDirectory (os s) po" "names (os s) pn = None" "0 \<le> nextFd (os s)"
    "i < nextInode (os s)" "length (inodes (os s) i) \<le> freeSpace (os s)"
  shows "\<exists>s'. storage_rename_file old new s = Some (None, s')
    \<and> names (os s') = (names (os s))(pn \<mapsto> nextInode (os s))
    \<and> inodes (os s') = (inodes (os s))(nextInode (os s) := inodes (os s) i)
    \<and> (\<forall>h. fds (os s') h \<noteq> None \<longrightarrow> fds (os s') h = fds (os s) h)"
proof -
  let ?o = "os s"
  let ?o1 = "?o\<lparr>osCalls := Suc (osCalls ?o)\<rparr>"
  let ?o2 = "?o1\<lparr>osCalls := Suc (osCalls ?o1)\<rparr>"
  have p: "pathOf new ?o1 = Some pn" "pathOf old ?o2 = Some po" "pathOf new ?o2 = Some pn"
    using assms(2,3) pathOf_cong [of ?o1 ?o new] pathOf_cong [of ?o2 ?o new]
      pathOf_cong [of ?o2 ?o old] by simp_all
  have q: "quiet ?o1" "quiet ?o2" using assms(1) by (simp_all add: quiet_def)
  have e1: "pcsl_file_exist old ?o = (1, ?o1)" using exist_result [OF assms(2,1)] assms(5,6) by simp
  have e2: "pcsl_file_exist new ?o1 = (0, ?o2)" using exist_result [OF p(1) q(1)] assms(7) by simp
  obtain o' where o': "copyFile old new ?o2 = Some (0, o')"
    "names o' = (names ?o)(pn \<mapsto> nextInode ?o)" "inodes o' = (inodes ?o)(nextInode ?o := inodes ?o i)"
    "\<forall>h. h \<noteq> nextFd ?o \<and> h \<noteq> nextFd ?o + 1 \<longrightarrow> fds o' h = fds ?o h"
    "fds o' (nextFd ?o) = None" "fds o' (nextFd ?o + 1) = None"
    using copyFile_copies [OF q(2) p(2,3) assms(4), of i] assms(5-10) by auto
  have "storage_rename_file old new s = Some (None, s\<lparr>os := o'\<rparr>)"
    using e1 e2 o'(1)
    by (simp add: storage_rename_file_def storage_file_exists_def onOs_def)
  moreover have "\<forall>h. fds o' h \<noteq> None \<longrightarrow> fds o' h = fds ?o h" using o'(4-6) by metis
  ultimately show ?thesis using o'(2,3) by simp
qed

lemma rename_copies_witness:
  "\<exists>s'. storage_rename_file (Some [0x61]) (Some [0x62]) sampleStorage = Some (None, s')
    \<and> names (os s') [0x62] = Some 1 \<and> inodes (os s') 1 = [1, 2, 3] \<and> names (os s') [0x61] = Some 0"
  using rename_copies [OF sample_facts(2,3,4), of 0]
  by (auto simp: sampleStorage_def sampleOs_def)

text \<open>
  Strings in files: a string that is written at a position and read back from there is the same
  only if it has no pair of surrogates and no zeros at its end. The length counts characters, so
  as many units are lost at the end as there are pairs; with an unpaired half the length is -2 and
  the file is corrupt; the NULL string comes back as the empty one.
\<close>

theorem string_in_file:
  assumes "storageView h s = Some (c, p)" "pcslOk str" "length (unitsOf str) < 2 ^ 31"
    "length (spliceAt p (stringBytes str) c) \<le> length c + freeSpace (os s)"
  shows "\<exists>s1 s2 err r s3. storage_write_utf16_string h str s = (None, s1)
    \<and> storagePosition h (int p) s1 = (None, s2)
    \<and> storage_read_utf16_string True (\<lambda>_. True) h s2 = ((err, Some r), s3) \<and> readBack str err r"
proof -
  let ?c = "spliceAt p (stringBytes str) c"
  obtain s1 where s1: "storage_write_utf16_string h str s = (None, s1)"
    "storageView h s1 = Some (?c, p + length (stringBytes str))"
    using write_string [OF assms(1,2,4)] by blast
  obtain s2 where s2: "storagePosition h (int p) s1 = (None, s2)" "storageView h s2 = Some (?c, p)"
    using ra.seek_to [OF s1(2), of "int p"] by auto
  have "stringBytes str \<noteq> []" by (simp add: stringBytes_def)
  then have "p + length (stringBytes str) \<le> length ?c" by (simp add: length_splice_at)
  moreover have "take (length (stringBytes str)) (drop p ?c) = stringBytes str"
    using take_drop_splice_at [of p p "length (stringBytes str)" "stringBytes str" 0 c] by simp
  ultimately show ?thesis using read_string [OF s2(2) _ _ assms(2,3)] s1(1) s2(1) by blast
qed

text \<open>A pair of surrogates and a letter: the letter is lost.\<close>

lemma string_in_file_witness:
  "\<exists>s1 s2 r s3. storage_write_utf16_string 5 (heapString [0xD800, 0xDC00, 0x41, 0]) sampleStorage = (None, s1)
    \<and> storagePosition 5 2 s1 = (None, s2)
    \<and> storage_read_utf16_string True (\<lambda>_. True) 5 s2 = ((None, Some r), s3)
    \<and> textOf r = Some [0xD800, 0xDC00]"
proof -
  let ?s = "heapString [0xD800, 0xDC00, 0x41, 0]"
  have ok: "pcslOk ?s" "textOf ?s = Some [0xD800, 0xDC00, 0x41]"
    using ok_heap(1,2) [of "[0xD800, 0xDC00, 0x41]"] by simp_all
  then have u: "unitsOf ?s = [0xD800, 0xDC00, 0x41]" by (simp add: unitsOf_def)
  have l: "pcsl_string_length (Some ?s) = 2"
    by (simp add: pcsl_string_length_def dataOf_def utf16_string_length_def)
  have w: "writtenLength ?s = 2" using l by (simp add: writtenLength_def pcsl_string_is_null_def)
  have "length (spliceAt 2 (stringBytes ?s) [1, 2, 3]) \<le> length [1, 2, 3 :: jbyte] + freeSpace (os sampleStorage)"
    unfolding stringBytes_def w u by (simp add: length_splice_at sampleStorage_def sampleOs_def)
  from string_in_file [OF sample_facts(1) ok(1) _ this] u show ?thesis
    by (auto simp: readBack_def ok(2) l stripZeros_def)
qed

end
