(* ===== verification/FileCache.thy ===== *)
theory FileCache
  imports Storage
begin

text \<open>
  The write cache of record store files,
  \<^verbatim>\<open>midp/src/rms/record_store/file_based/native/midp_file_cache.c\<close>: one open file may have a
  list of blocks not yet written, a position and a size. \<^verbatim>\<open>mem n\<close> says whether an allocation
  of \<open>n\<close> bytes succeeds; \<^verbatim>\<open>property\<close> is the value of the property \<^verbatim>\<open>RMS_CACHE_LIMIT\<close>, 0 when it
  is missing.
\<close>

section \<open>State\<close>

record MidpFileCacheBlock =
  bPosition :: nat
  bData :: "jbyte list"

abbreviation bLength :: "MidpFileCacheBlock \<Rightarrow> nat" where
  "bLength b \<equiv> length (bData b)"

record MidpFileCache =
  cHandle :: int
  cSize :: int
  cStorageId :: int
  cachedPosition :: nat
  cachedFileSize :: int
  cachedAvailableSpace :: int
  cBlocks :: "MidpFileCacheBlock list"

record CacheSys =
  storage :: StorageSys
  mFileCache :: "MidpFileCache option"

text \<open>\<^verbatim>\<open>sizeof(MidpFileCacheBlock)\<close>: a pointer and two \<^verbatim>\<open>long\<close>s.\<close>

definition blockHeader :: nat where
  "blockHeader = 12"

definition RMS_CACHE_LIMIT :: int where
  "RMS_CACHE_LIMIT = 81920"

definition UNINITIALIZED_CACHED_VALUE :: int where
  "UNINITIALIZED_CACHED_VALUE = -1"

definition onStorage :: "(StorageSys \<Rightarrow> 'a \<times> StorageSys) \<Rightarrow> CacheSys \<Rightarrow> 'a \<times> CacheSys" where
  "onStorage f s = (let (r, s') = f (storage s) in (r, s\<lparr>storage := s'\<rparr>))"

definition isCached :: "int \<Rightarrow> CacheSys \<Rightarrow> bool" where
  "isCached handle s = (case mFileCache s of None \<Rightarrow> False | Some c \<Rightarrow> cHandle c = handle)"

definition updCache :: "(MidpFileCache \<Rightarrow> MidpFileCache) \<Rightarrow> CacheSys \<Rightarrow> CacheSys" where
  "updCache f s = s\<lparr>mFileCache := map_option f (mFileCache s)\<rparr>"

section \<open>Regions\<close>

definition is_overlap :: "nat \<Rightarrow> nat \<Rightarrow> nat \<Rightarrow> nat \<Rightarrow> bool" where
  "is_overlap x1 s1 x2 s2 = (if x1 \<le> x2 then x2 < x1 + s1 else x1 < x2 + s2)"

definition is_include :: "nat \<Rightarrow> nat \<Rightarrow> nat \<Rightarrow> nat \<Rightarrow> bool" where
  "is_include x1 s1 x2 s2 \<longleftrightarrow> x1 \<le> x2 \<and> x1 + s1 \<ge> x2 + s2"

section \<open>Sizes\<close>

definition midp_init_cached_free_space :: "CacheSys \<Rightarrow> CacheSys" where
  "midp_init_cached_free_space s =
     updCache (\<lambda>c. c\<lparr>cachedAvailableSpace := storage_get_free_space (cStorageId c) (storage s)\<rparr>) s"

definition updateCachedSizes :: "nat \<Rightarrow> CacheSys \<Rightarrow> CacheSys" where
  "updateCachedSizes lengthWritten s =
     updCache (\<lambda>c.
       let pos = cachedPosition c + lengthWritten;
           avail = (if cachedAvailableSpace c = UNINITIALIZED_CACHED_VALUE
                    then storage_get_free_space (cStorageId c) (storage s)
                    else cachedAvailableSpace c)
       in if int pos > cachedFileSize c
          then c\<lparr>cachedPosition := pos,
                 cachedAvailableSpace := avail - (int pos - cachedFileSize c),
                 cachedFileSize := int pos\<rparr>
          else c\<lparr>cachedPosition := pos\<rparr>) s"

section \<open>Flushing\<close>

text \<open>The adjacent blocks copied to the write buffer after \<open>run\<close>, from position \<open>startPos\<close>.\<close>

fun takeRun :: "nat \<Rightarrow> nat \<Rightarrow> jbyte list \<Rightarrow> MidpFileCacheBlock list
    \<Rightarrow> jbyte list \<times> MidpFileCacheBlock list" where
  "takeRun bufsize startPos run [] = (run, [])"
| "takeRun bufsize startPos run (b # bs) =
     (if bPosition b = startPos + length run \<and> length run + bLength b < bufsize
      then takeRun bufsize startPos (run @ bData b) bs
      else (run, b # bs))"

lemma takeRun_shorter: "takeRun n p run bs = (run', q) \<Longrightarrow> length q \<le> length bs"
  by (induction n p run bs rule: takeRun.induct) (auto split: if_splits)

text \<open>
  The loop over the blocks; its state is what is left of them and the error, if any. The
  freed bytes are those of the blocks between \<^verbatim>\<open>b\<close> and \<^verbatim>\<open>q\<close>.
\<close>

definition freedBytes :: "MidpFileCacheBlock list \<Rightarrow> MidpFileCacheBlock list \<Rightarrow> int" where
  "freedBytes bs q =
     (\<Sum>b \<leftarrow> take (length bs - length q) bs. int (bLength b) + int blockHeader)"

function flushBlocks :: "bool \<Rightarrow> nat \<Rightarrow> int \<Rightarrow> MidpFileCacheBlock list \<Rightarrow> int \<Rightarrow> StorageSys
    \<Rightarrow> error \<times> MidpFileCacheBlock list \<times> int \<times> StorageSys" where
  "flushBlocks buf bufsize handle [] sz s = (None, [], sz, s)"
| "flushBlocks buf bufsize handle (b # bs) sz s =
     (let (run, q) =
            (if buf \<and> (case bs of [] \<Rightarrow> False
                       | n # _ \<Rightarrow> bPosition n = bPosition b + bLength b
                                 \<and> bLength b + bLength n < bufsize)
             then takeRun bufsize (bPosition b) (bData b) bs else (bData b, bs));
          (err, s1) = storagePosition handle (int (bPosition b)) s in
      if err \<noteq> None then (err, b # bs, sz, s1)
      else let (err, s2) = storageWrite handle run s1 in
           if err \<noteq> None then (err, b # bs, sz, s2)
           else flushBlocks buf bufsize handle q (sz - freedBytes (b # bs) q) s2)"
  by pat_completeness auto

termination flushBlocks
proof (relation "measure (\<lambda>(buf, bufsize, handle, bs, sz, s). length bs)", goal_cases)
  case (2 buf bufsize handle b bs sz s x run q)
  then show ?case using takeRun_shorter [of bufsize "bPosition b" "bData b" bs run q]
    by (auto split: if_splits)
qed simp

definition midp_file_cache_flush_using_buffer ::
  "int \<Rightarrow> bool \<Rightarrow> nat \<Rightarrow> MidpFileCache \<Rightarrow> CacheSys \<Rightarrow> error \<times> CacheSys" where
  "midp_file_cache_flush_using_buffer handle buf bufsize c s =
     (let (err, bs, sz, st) = flushBlocks buf bufsize handle (cBlocks c) (cSize c) (storage s);
          s1 = s\<lparr>storage := st, mFileCache := Some (c\<lparr>cBlocks := bs, cSize := sz\<rparr>)\<rparr> in
      if err \<noteq> None then (err, s1) else onStorage (storageCommitWrite handle) s1)"

text \<open>The largest of the sizes \<open>n\<close>, \<open>n / 2\<close>, ... for which there is memory.\<close>

fun allocBuffer :: "(nat \<Rightarrow> bool) \<Rightarrow> nat \<Rightarrow> nat option" where
  "allocBuffer mem bufsize =
     (if mem bufsize then Some bufsize
      else if bufsize > 4 * blockHeader then allocBuffer mem (bufsize div 2)
      else None)"

declare allocBuffer.simps [simp del]

definition midp_file_cache_flush :: "(nat \<Rightarrow> bool) \<Rightarrow> int \<Rightarrow> CacheSys \<Rightarrow> error \<times> CacheSys" where
  "midp_file_cache_flush mem handle s =
     (case mFileCache s of
        None \<Rightarrow> (None, s)
      | Some c \<Rightarrow>
          if cHandle c \<noteq> handle \<or> cBlocks c = [] then (None, s)
          else case allocBuffer mem (nat (cSize c)) of
                 Some bufsize \<Rightarrow> midp_file_cache_flush_using_buffer handle True bufsize c s
               | None \<Rightarrow> midp_file_cache_flush_using_buffer handle False 0 c s)"

definition midp_file_cache_finalize :: "(nat \<Rightarrow> bool) \<Rightarrow> bool \<Rightarrow> CacheSys \<Rightarrow> error \<times> CacheSys" where
  "midp_file_cache_finalize mem stayOpen s =
     (case mFileCache s of
        None \<Rightarrow> (None, s)
      | Some c \<Rightarrow>
          let (err, s1) = midp_file_cache_flush mem (cHandle c) s;
              (err, s2) = (if err = None \<and> stayOpen
                           then onStorage (storagePosition (cHandle c) (int (cachedPosition c))) s1
                           else (err, s1))
          in (err, s2\<lparr>mFileCache := None\<rparr>))"

section \<open>Opening and closing\<close>

text \<open>\<open>None\<close> when the cache record cannot be allocated: it is written through \<^verbatim>\<open>NULL\<close>.\<close>

definition midp_file_cache_open :: "(nat \<Rightarrow> bool) \<Rightarrow> nat \<Rightarrow> int \<Rightarrow> int \<Rightarrow> pcsl_string \<Rightarrow> int \<Rightarrow> CacheSys
    \<Rightarrow> ((error \<times> int) \<times> CacheSys) option" where
  "midp_file_cache_open mem cacheBytes cur storageId filename ioMode s =
     do { ((err, h), st) \<leftarrow> storage_open cur filename ioMode (storage s);
          let s1 = s\<lparr>storage := st\<rparr>;
          if err \<noteq> None then Some ((err, h), s1)
          else case mFileCache s of
                 None \<Rightarrow>
                   if \<not> mem cacheBytes then None
                   else let ((err, sz), s2) = onStorage (storageSizeOf h) s1 in
                        Some ((err, h), s2\<lparr>mFileCache := Some
                          \<lparr>cHandle = h, cSize = 0, cStorageId = storageId, cachedPosition = 0,
                           cachedFileSize = sz, cachedAvailableSpace = UNINITIALIZED_CACHED_VALUE,
                           cBlocks = []\<rparr>\<rparr>)
               | Some _ \<Rightarrow>
                   let (err, s2) = midp_file_cache_finalize mem True s1 in Some ((err, h), s2) }"

definition midp_file_cache_close :: "(nat \<Rightarrow> bool) \<Rightarrow> int \<Rightarrow> int \<Rightarrow> CacheSys
    \<Rightarrow> (error \<times> CacheSys) option" where
  "midp_file_cache_close mem cur handle s =
     (let (errTmp, s1) = (if isCached handle s then midp_file_cache_finalize mem False s
                          else (None, s))
      in do { (err, st) \<leftarrow> storageClose cur handle (storage s1);
              Some (if err = None then errTmp else err, s1\<lparr>storage := st\<rparr>) })"

definition midp_file_cache_seek :: "int \<Rightarrow> int \<Rightarrow> CacheSys \<Rightarrow> error \<times> CacheSys" where
  "midp_file_cache_seek handle position s =
     (if position \<ge> 0 \<and> isCached handle s
      then (None, updCache (\<lambda>c. c\<lparr>cachedPosition := nat position\<rparr>) s)
      else onStorage (storagePosition handle position) s)"

section \<open>Writing\<close>

text \<open>
  Where the scan of the blocks ends: in block \<open>k\<close>, which includes the region, at a partial
  overlap, or without overlap after \<open>k\<close> blocks.
\<close>

datatype Scan = Inside nat | Partial | Between nat

fun scanBlocks :: "MidpFileCacheBlock list \<Rightarrow> nat \<Rightarrow> nat \<Rightarrow> nat \<Rightarrow> Scan" where
  "scanBlocks [] pos len k = Between k"
| "scanBlocks (b # bs) pos len k =
     (if is_overlap (bPosition b) (bLength b) pos len
      then if is_include (bPosition b) (bLength b) pos len then Inside k else Partial
      else if pos + len \<le> bPosition b then Between k
      else scanBlocks bs pos len (Suc k))"

definition uncachedWrite :: "int \<Rightarrow> jbyte list \<Rightarrow> CacheSys \<Rightarrow> error \<times> CacheSys" where
  "uncachedWrite handle buffer s =
     (case mFileCache s of
        None \<Rightarrow> (None, s)
      | Some c \<Rightarrow>
          let (err, s1) = onStorage (storagePosition handle (int (cachedPosition c))) s in
          if err \<noteq> None then (err, s1)
          else let (err, s2) = onStorage (storageWrite handle buffer) s1 in
               (err, if err = None then updateCachedSizes (length buffer) s2 else s2))"

text \<open>\<open>n > (unsigned) limit\<close>.\<close>

definition overLimit :: "int \<Rightarrow> int \<Rightarrow> bool" where
  "overLimit n limit \<longleftrightarrow> n > uint (word_of_int limit :: 32 word)"

text \<open>The part of the function after the scan; \<open>k\<close> blocks come before the new one.\<close>

definition cacheNewBlock :: "(nat \<Rightarrow> bool) \<Rightarrow> int \<Rightarrow> int \<Rightarrow> jbyte list \<Rightarrow> nat \<Rightarrow> error \<Rightarrow> CacheSys
    \<Rightarrow> error \<times> CacheSys" where
  "cacheNewBlock mem limit handle buffer k err s =
     (let bytes = int (blockHeader + length buffer) in
      if overLimit bytes limit then uncachedWrite handle buffer s
      else
        let full = (case mFileCache s of None \<Rightarrow> False | Some c \<Rightarrow> overLimit (cSize c + bytes) limit);
            ((err, s1), k) = (if full then (midp_file_cache_flush mem handle s, 0) else ((err, s), k))
        in if \<not> mem (blockHeader + length buffer) then uncachedWrite handle buffer s1
           else (err, updateCachedSizes (length buffer) (updCache (\<lambda>c.
                  c\<lparr>cBlocks := take k (cBlocks c)
                       @ \<lparr>bPosition = cachedPosition c, bData = buffer\<rparr> # drop k (cBlocks c),
                    cSize := cSize c + bytes\<rparr>) s1)))"

definition midp_file_cache_write :: "(nat \<Rightarrow> bool) \<Rightarrow> int \<Rightarrow> int \<Rightarrow> jbyte list \<Rightarrow> CacheSys
    \<Rightarrow> error \<times> CacheSys" where
  "midp_file_cache_write mem property handle buffer s =
     (let rmsCacheLimit = (if 0 = property then RMS_CACHE_LIMIT else property) in
      if buffer = [] then (None, s)
      else if \<not> isCached handle s then onStorage (storageWrite handle buffer) s
      else case mFileCache s of None \<Rightarrow> (None, s) | Some c \<Rightarrow>
        (case scanBlocks (cBlocks c) (cachedPosition c) (length buffer) 0 of
           Inside k \<Rightarrow>
             (None, updateCachedSizes (length buffer) (updCache (\<lambda>c. c\<lparr>cBlocks :=
                (cBlocks c)[k := (cBlocks c ! k)\<lparr>bData :=
                   splice_at 0 (cachedPosition c - bPosition (cBlocks c ! k)) buffer
                     (bData (cBlocks c ! k))\<rparr>]\<rparr>) s))
         | Partial \<Rightarrow>
             let (err, s1) = midp_file_cache_flush mem handle s in
             cacheNewBlock mem rmsCacheLimit handle buffer 0 err s1
         | Between k \<Rightarrow> cacheNewBlock mem rmsCacheLimit handle buffer k None s))"

section \<open>Reading\<close>

definition readFile :: "int \<Rightarrow> nat \<Rightarrow> MidpFileCache \<Rightarrow> CacheSys \<Rightarrow> (error \<times> int \<times> jbyte list) \<times> CacheSys" where
  "readFile handle len c s =
     (let (err, s1) = onStorage (storagePosition handle (int (cachedPosition c))) s in
      if err \<noteq> None then ((err, 0, []), s1)
      else let ((err, l, bs), s2) = onStorage (storageRead handle len) s1 in
           ((err, l, bs),
            if err = None then updCache (\<lambda>c. c\<lparr>cachedPosition := cachedPosition c + len\<rparr>) s2 else s2))"

definition midp_file_cache_read :: "(nat \<Rightarrow> bool) \<Rightarrow> int \<Rightarrow> nat \<Rightarrow> CacheSys
    \<Rightarrow> (error \<times> int \<times> jbyte list) \<times> CacheSys" where
  "midp_file_cache_read mem handle len s =
     (if len = 0 then ((None, 0, []), s)
      else if \<not> isCached handle s then onStorage (storageRead handle len) s
      else case mFileCache s of None \<Rightarrow> ((None, 0, []), s) | Some c \<Rightarrow>
        (case scanBlocks (cBlocks c) (cachedPosition c) len 0 of
           Inside k \<Rightarrow>
             ((None, int len,
               take len (drop (cachedPosition c - bPosition (cBlocks c ! k)) (bData (cBlocks c ! k)))),
              updCache (\<lambda>c. c\<lparr>cachedPosition := cachedPosition c + len\<rparr>) s)
         | Partial \<Rightarrow> readFile handle len c (snd (midp_file_cache_flush mem handle s))
         | Between _ \<Rightarrow> readFile handle len c s))"

section \<open>Space and size\<close>

definition midp_file_cache_available_space :: "(nat \<Rightarrow> bool) \<Rightarrow> int \<Rightarrow> int \<Rightarrow> CacheSys
    \<Rightarrow> (error \<times> int) \<times> CacheSys" where
  "midp_file_cache_available_space mem handle storageId s =
     (case mFileCache s of
        None \<Rightarrow> ((None, storage_get_free_space storageId (storage s)), s)
      | Some c \<Rightarrow>
          let (err, s1) =
                (if cHandle c \<noteq> handle
                 then let (e, t) = midp_file_cache_flush mem (cHandle c) s in
                      (e, updCache (\<lambda>c. c\<lparr>cStorageId := storageId,
                            cachedAvailableSpace := UNINITIALIZED_CACHED_VALUE\<rparr>) t)
                 else (None, s));
              s2 = (if map_option cachedAvailableSpace (mFileCache s1) = Some UNINITIALIZED_CACHED_VALUE
                    then midp_init_cached_free_space s1 else s1)
          in ((err, case mFileCache s2 of None \<Rightarrow> 0 | Some c \<Rightarrow> cachedAvailableSpace c), s2))"

definition midp_file_cache_sizeof :: "int \<Rightarrow> CacheSys \<Rightarrow> (error \<times> int) \<times> CacheSys" where
  "midp_file_cache_sizeof handle s =
     (case mFileCache s of
        None \<Rightarrow> onStorage (storageSizeOf handle) s
      | Some c \<Rightarrow> if cHandle c \<noteq> handle then onStorage (storageSizeOf handle) s
                  else ((None, cachedFileSize c), s))"

definition midp_file_cache_truncate :: "(nat \<Rightarrow> bool) \<Rightarrow> int \<Rightarrow> int \<Rightarrow> CacheSys \<Rightarrow> error \<times> CacheSys" where
  "midp_file_cache_truncate mem handle sz s =
     (let (err, s1) = midp_file_cache_flush mem handle s in
      if err \<noteq> None then (err, s1)
      else let (err, s2) = onStorage (storageTruncate handle sz) s1 in
           (err, if err \<noteq> None then s2
                 else updCache (\<lambda>c.
                   if cHandle c \<noteq> handle
                   then c\<lparr>cachedAvailableSpace := UNINITIALIZED_CACHED_VALUE\<rparr>
                   else if cachedAvailableSpace c \<noteq> UNINITIALIZED_CACHED_VALUE
                        then c\<lparr>cachedAvailableSpace := cachedAvailableSpace c + cachedFileSize c - sz,
                               cachedFileSize := sz\<rparr>
                        else c) s2))"

section \<open>Facts about blocks\<close>

abbreviation blockWrite :: "MidpFileCacheBlock \<Rightarrow> nat \<times> jbyte list" where
  "blockWrite b \<equiv> (bPosition b, bData b)"

abbreviation applyBlocks :: "MidpFileCacheBlock list \<Rightarrow> jbyte list \<Rightarrow> jbyte list" where
  "applyBlocks bs \<equiv> splice_all 0 (map blockWrite bs)"

text \<open>In the order of their positions, disjoint and not empty.\<close>

definition blocks_ok :: "MidpFileCacheBlock list \<Rightarrow> bool" where
  "blocks_ok bs \<longleftrightarrow> sorted_wrt (\<lambda>a b. bPosition a + bLength a \<le> bPosition b) bs
     \<and> (\<forall>b \<in> set bs. bData b \<noteq> [])"

definition blocksSize :: "MidpFileCacheBlock list \<Rightarrow> int" where
  "blocksSize bs = (\<Sum>b \<leftarrow> bs. int (bLength b) + int blockHeader)"

lemma blocksSize_append [simp]: "blocksSize (us @ bs) = blocksSize us + blocksSize bs"
  by (simp add: blocksSize_def)

lemma blocksSize_simps [simp]:
  "blocksSize [] = 0" "blocksSize (b # bs) = int (bLength b) + int blockHeader + blocksSize bs"
  by (simp_all add: blocksSize_def)

lemma overlap_iff:
  "\<lbrakk>0 < s1; 0 < s2\<rbrakk> \<Longrightarrow> is_overlap x1 s1 x2 s2 \<longleftrightarrow> x1 < x2 + s2 \<and> x2 < x1 + s1"
  by (auto simp: is_overlap_def)

lemma blocks_ok_append:
  "blocks_ok (us @ bs) \<longleftrightarrow> blocks_ok us \<and> blocks_ok bs
     \<and> (\<forall>a \<in> set us. \<forall>b \<in> set bs. bPosition a + bLength a \<le> bPosition b)"
  by (auto simp: blocks_ok_def sorted_wrt_append)

lemma blocks_ok_Cons:
  "blocks_ok (b # bs) \<longleftrightarrow> bData b \<noteq> [] \<and> blocks_ok bs
     \<and> (\<forall>c \<in> set bs. bPosition b + bLength b \<le> bPosition c)"
  by (auto simp: blocks_ok_def)

lemma scan_between:
  assumes "scanBlocks bs pos len j = Between k" "blocks_ok bs" "0 < len"
  shows "j \<le> k \<and> (\<forall>b \<in> set (take (k - j) bs). bPosition b + bLength b \<le> pos)
    \<and> (\<forall>b \<in> set (drop (k - j) bs). pos + len \<le> bPosition b)"
  using assms
proof (induction bs pos len j rule: scanBlocks.induct)
  case (2 b bs pos len j)
  have b: "0 < bLength b" "blocks_ok bs" "\<forall>c \<in> set bs. bPosition b + bLength b \<le> bPosition c"
    using 2(3) by (auto simp: blocks_ok_Cons)
  have no: "\<not> is_overlap (bPosition b) (bLength b) pos len" using 2(2) by (auto split: if_splits)
  then have apart: "pos + len \<le> bPosition b \<or> bPosition b + bLength b \<le> pos"
    using overlap_iff [OF b(1) 2(4)] by auto
  show ?case
  proof (cases "pos + len \<le> bPosition b")
    case True
    then have "k = j" using 2(2) no by simp
    with True b(3) show ?thesis by force
  next
    case False
    with 2(2) no have "scanBlocks bs pos len (Suc j) = Between k" by simp
    from 2(1) [OF no False this b(2) 2(4)] obtain i where "k = Suc (j + i)" and
      i: "\<forall>b \<in> set (take i bs). bPosition b + bLength b \<le> pos"
      "\<forall>b \<in> set (drop i bs). pos + len \<le> bPosition b"
      by (metis add_Suc diff_add_inverse le_Suc_ex)
    then have "k - j = Suc i" by simp
    with i apart False \<open>k = Suc (j + i)\<close> show ?thesis by simp
  qed
qed simp

lemma scan_inside:
  "scanBlocks bs pos len j = Inside k \<Longrightarrow> j \<le> k \<and> k - j < length bs
     \<and> bPosition (bs ! (k - j)) \<le> pos
     \<and> pos + len \<le> bPosition (bs ! (k - j)) + bLength (bs ! (k - j))"
proof (induction bs pos len j rule: scanBlocks.induct)
  case (2 b bs pos len j)
  show ?case
  proof (cases "is_overlap (bPosition b) (bLength b) pos len")
    case True
    with 2(2) show ?thesis by (auto simp: is_include_def split: if_splits)
  next
    case False
    with 2(2) have "\<not> pos + len \<le> bPosition b" "scanBlocks bs pos len (Suc j) = Inside k"
      by (auto split: if_splits)
    from 2(1) [OF False this] show ?thesis by (auto simp: nth_Cons' Suc_le_eq)
  qed
qed simp

lemma scan_partial:
  "\<lbrakk>scanBlocks bs pos len j = Partial; blocks_ok bs; 0 < len\<rbrakk>
    \<Longrightarrow> \<exists>b \<in> set bs. pos < bPosition b + bLength b"
proof (induction bs pos len j rule: scanBlocks.induct)
  case (2 b bs pos len j)
  then show ?case by (auto simp: blocks_ok_Cons overlap_iff split: if_splits)
qed simp

text \<open>A new write among the blocks acts like a write after all of them.\<close>

lemma apply_insert:
  assumes "\<forall>b \<in> set (drop k bs). pos + length buf \<le> bPosition b"
  shows "applyBlocks (take k bs @ \<lparr>bPosition = pos, bData = buf\<rparr> # drop k bs) d
    = splice_at 0 pos buf (applyBlocks bs d)"
proof -
  have "applyBlocks bs d = applyBlocks (drop k bs) (applyBlocks (take k bs) d)"
    using splice_all_append [of 0 "map blockWrite (take k bs)" "map blockWrite (drop k bs)" d]
    by (simp flip: map_append)
  moreover have "applyBlocks (drop k bs) (splice_at 0 pos buf (applyBlocks (take k bs) d))
      = splice_at 0 pos buf (applyBlocks (drop k bs) (applyBlocks (take k bs) d))"
    by (rule splice_all_commute) (use assms in auto)
  ultimately show ?thesis by (simp add: splice_all_append)
qed

lemma apply_inside:
  assumes "blocks_ok bs" "k < length bs" "bPosition (bs ! k) \<le> pos"
    "pos + length buf \<le> bPosition (bs ! k) + bLength (bs ! k)"
  shows "applyBlocks (bs[k := (bs ! k)\<lparr>bData :=
      splice_at 0 (pos - bPosition (bs ! k)) buf (bData (bs ! k))\<rparr>]) d
    = splice_at 0 pos buf (applyBlocks bs d)"
proof -
  define us b ws where "us = take k bs" and "b = bs ! k" and "ws = drop (Suc k) bs"
  have bs: "bs = us @ b # ws" unfolding us_def b_def ws_def by (rule id_take_nth_drop [OF assms(2)])
  have upd: "bs[k := x] = us @ x # ws" for x
    unfolding us_def ws_def by (rule upd_conv_take_nth_drop [OF assms(2)])
  have "\<forall>c \<in> set ws. bPosition b + bLength b \<le> bPosition c"
    using assms(1) unfolding bs by (simp add: blocks_ok_append blocks_ok_Cons)
  then have "applyBlocks ws (splice_at 0 pos buf e) = splice_at 0 pos buf (applyBlocks ws e)" for e
    by (intro splice_all_commute) (use assms(4) b_def in auto)
  moreover have "splice_at 0 (bPosition b) (splice_at 0 (pos - bPosition b) buf (bData b)) e
      = splice_at 0 pos buf (splice_at 0 (bPosition b) (bData b) e)" for e
    using splice_at_inside [of "bPosition b" pos buf "bData b" 0 e] assms(3,4) by (simp add: b_def)
  ultimately show ?thesis
    unfolding upd b_def [symmetric] by (subst bs) (simp add: splice_all_append)
qed

lemma apply_before:
  assumes "\<forall>b \<in> set bs. pos + length buf \<le> bPosition b \<or> bPosition b + bLength b \<le> pos"
  shows "applyBlocks bs (splice_at 0 pos buf d) = splice_at 0 pos buf (applyBlocks bs d)"
  by (rule splice_all_commute) (use assms in auto)

lemma ok_insert:
  assumes "blocks_ok bs" "buf \<noteq> []" "\<forall>b \<in> set (take k bs). bPosition b + bLength b \<le> pos"
    "\<forall>b \<in> set (drop k bs). pos + length buf \<le> bPosition b"
  shows "blocks_ok (take k bs @ \<lparr>bPosition = pos, bData = buf\<rparr> # drop k bs)"
proof -
  have "blocks_ok (take k bs @ drop k bs)" using assms(1) by simp
  then show ?thesis using assms(2-4) unfolding blocks_ok_append
    by (simp add: blocks_ok_append blocks_ok_Cons)
qed

lemma ok_inside:
  assumes "blocks_ok bs" "k < length bs" "length d = bLength (bs ! k)"
  shows "blocks_ok (bs[k := (bs ! k)\<lparr>bData := d\<rparr>])"
    "blocksSize (bs[k := (bs ! k)\<lparr>bData := d\<rparr>]) = blocksSize bs"
proof -
  define us b ws where "us = take k bs" and "b = bs ! k" and "ws = drop (Suc k) bs"
  have bs: "bs = us @ b # ws" unfolding us_def b_def ws_def by (rule id_take_nth_drop [OF assms(2)])
  have upd: "bs[k := x] = us @ x # ws" for x
    unfolding us_def ws_def by (rule upd_conv_take_nth_drop [OF assms(2)])
  have d: "length d = bLength b" using assms(3) by (simp add: b_def)
  have "blocks_ok (us @ b # ws)" using assms(1) bs by simp
  moreover from this d have "d \<noteq> []" by (auto simp: blocks_ok_append blocks_ok_Cons)
  ultimately show "blocks_ok (bs[k := (bs ! k)\<lparr>bData := d\<rparr>])" using d
    unfolding upd b_def [symmetric] by (simp add: blocks_ok_append blocks_ok_Cons)
  show "blocksSize (bs[k := (bs ! k)\<lparr>bData := d\<rparr>]) = blocksSize bs" using d
    unfolding upd b_def [symmetric] by (subst bs) simp
qed

section \<open>Facts about flushing\<close>

lemma takeRun_apply:
  assumes "takeRun n p run bs = (run', q)"
  shows "(\<exists>us. bs = us @ q) \<and> applyBlocks bs (splice_at 0 p run d) = applyBlocks q (splice_at 0 p run' d)"
  using assms
proof (induction n p run bs rule: takeRun.induct)
  case (2 n p run b bs)
  show ?case
  proof (cases "bPosition b = p + length run \<and> length run + bLength b < n")
    case True
    with 2 have "(\<exists>us. bs = us @ q)
        \<and> applyBlocks bs (splice_at 0 p (run @ bData b) d) = applyBlocks q (splice_at 0 p run' d)"
      by simp
    with True show ?thesis using splice_at_adjacent [of 0 p run "bData b" d]
      by (auto intro: exI [of _ "b # _"])
  next
    case False
    with 2(2) show ?thesis by simp
  qed
qed simp

lemma freed_suffix: "freedBytes (us @ q) q = blocksSize us"
  by (simp add: freedBytes_def blocksSize_def)

lemma flushBlocks_result:
  assumes "storageView h s = Some (d, p)" "length (applyBlocks bs d) \<le> length d + freeSpace (os s)"
  shows "\<exists>s' p'. flushBlocks buf n h bs sz s = (None, [], sz - blocksSize bs, s')
    \<and> storageView h s' = Some (applyBlocks bs d, p')
    \<and> length (applyBlocks bs d) + freeSpace (os s') = length d + freeSpace (os s)"
  using assms
proof (induction buf n h bs sz s arbitrary: d p rule: flushBlocks.induct)
  case (1 buf n h sz s)
  then show ?case by simp
next
  case (2 buf n h b bs sz s)
  define rq where "rq = (if buf \<and> (case bs of [] \<Rightarrow> False
      | m # _ \<Rightarrow> bPosition m = bPosition b + bLength b \<and> bLength b + bLength m < n)
    then takeRun n (bPosition b) (bData b) bs else (bData b, bs))"
  obtain run q where rq: "rq = (run, q)" by (cases rq)
  have "(\<exists>us. bs = us @ q)
      \<and> applyBlocks bs (splice_at 0 (bPosition b) (bData b) d) = applyBlocks q (splice_at 0 (bPosition b) run d)"
  proof (cases "rq = (bData b, bs)")
    case True
    with rq show ?thesis by simp
  next
    case False
    with rq have "takeRun n (bPosition b) (bData b) bs = (run, q)"
      by (auto simp: rq_def split: if_splits)
    then show ?thesis by (rule takeRun_apply)
  qed
  then obtain us where us: "bs = us @ q"
    and app: "applyBlocks (b # bs) d = applyBlocks q (splice_at 0 (bPosition b) run d)" by auto
  have "length (splice_at 0 (bPosition b) run d) \<le> length (applyBlocks (b # bs) d)"
    unfolding app by (rule length_splice_all)
  with 2(3) have "length (splice_at 0 (bPosition b) run d) \<le> length d + freeSpace (os s)" by simp
  from ra.write_at [OF 2(2) this] obtain s1 s2 where w:
    "storagePosition h (int (bPosition b)) s = (None, s1)" "storageWrite h run s1 = (None, s2)"
    "storageView h s2 = Some (splice_at 0 (bPosition b) run d, bPosition b + length run)"
    "length (splice_at 0 (bPosition b) run d) + freeSpace (os s2) = length d + freeSpace (os s)" by blast
  have "length (applyBlocks q (splice_at 0 (bPosition b) run d))
      \<le> length (splice_at 0 (bPosition b) run d) + freeSpace (os s2)"
    using 2(3) w(4) app by simp
  from 2(1) [OF refl rq [unfolded rq_def, symmetric] refl w(1) [symmetric] _ refl w(2) [symmetric] _ w(3) this]
  obtain s' p' where "flushBlocks buf n h q (sz - freedBytes (b # bs) q) s2
      = (None, [], sz - freedBytes (b # bs) q - blocksSize q, s')"
    "storageView h s' = Some (applyBlocks q (splice_at 0 (bPosition b) run d), p')"
    "length (applyBlocks q (splice_at 0 (bPosition b) run d)) + freeSpace (os s')
      = length (splice_at 0 (bPosition b) run d) + freeSpace (os s2)" by auto
  moreover have "freedBytes (b # bs) q = blocksSize (b # us)"
    using freed_suffix [of "b # us" q] us by simp
  moreover have "flushBlocks buf n h (b # bs) sz s = flushBlocks buf n h q (sz - freedBytes (b # bs) q) s2"
    unfolding flushBlocks.simps(2) rq_def [symmetric] rq by (simp add: w(1,2))
  ultimately show ?case unfolding app using w(4) us by simp
qed

section \<open>A cached file\<close>

text \<open>
  The cache holds the file of \<open>h\<close>: \<open>d\<close> is what the disk has, and the cached blocks fit there.
\<close>

definition caches :: "int \<Rightarrow> CacheSys \<Rightarrow> MidpFileCache \<Rightarrow> jbyte list \<Rightarrow> bool" where
  "caches h s c d \<longleftrightarrow> mFileCache s = Some c \<and> cHandle c = h \<and> blocks_ok (cBlocks c)
     \<and> cSize c = blocksSize (cBlocks c) \<and> (\<exists>p. storageView h (storage s) = Some (d, p))
     \<and> cachedFileSize c = int (length (applyBlocks (cBlocks c) d))
     \<and> length (applyBlocks (cBlocks c) d) \<le> length d + freeSpace (os (storage s))"

lemma cachesD:
  assumes "caches h s c d"
  shows "mFileCache s = Some c" "cHandle c = h" "blocks_ok (cBlocks c)"
    "cSize c = blocksSize (cBlocks c)" "\<exists>p. storageView h (storage s) = Some (d, p)"
    "cachedFileSize c = int (length (applyBlocks (cBlocks c) d))"
    "length (applyBlocks (cBlocks c) d) \<le> length d + freeSpace (os (storage s))" "isCached h s"
  using assms by (auto simp: caches_def isCached_def)

text \<open>The content the program sees, and its position; the bytes it may still grow by.\<close>

definition diskContent :: "int \<Rightarrow> CacheSys \<Rightarrow> jbyte list" where
  "diskContent h s = (case storageView h (storage s) of None \<Rightarrow> [] | Some (d, _) \<Rightarrow> d)"

definition cacheView :: "int \<Rightarrow> CacheSys \<Rightarrow> (jbyte list \<times> nat) option" where
  "cacheView h s = (case mFileCache s of None \<Rightarrow> None | Some c \<Rightarrow>
     if caches h s c (diskContent h s)
     then Some (applyBlocks (cBlocks c) (diskContent h s), cachedPosition c) else None)"

definition cacheSpace :: "int \<Rightarrow> CacheSys \<Rightarrow> nat" where
  "cacheSpace h s = (case mFileCache s of None \<Rightarrow> 0 | Some c \<Rightarrow>
     length (diskContent h s) + freeSpace (os (storage s))
       - length (applyBlocks (cBlocks c) (diskContent h s)))"

lemma caches_disk: "caches h s c d \<Longrightarrow> diskContent h s = d"
  by (auto simp: caches_def diskContent_def)

lemma cacheView_iff:
  "cacheView h s = Some (x, p) \<longleftrightarrow>
     (\<exists>c d. caches h s c d \<and> x = applyBlocks (cBlocks c) d \<and> p = cachedPosition c)"
  (is "?l \<longleftrightarrow> ?r")
proof
  assume ?l
  then show ?r by (auto simp: cacheView_def split: option.splits if_splits)
next
  assume ?r
  then obtain c d where c: "caches h s c d" "x = applyBlocks (cBlocks c) d" "p = cachedPosition c" by blast
  then show ?l using cachesD(1) [OF c(1)] caches_disk [OF c(1)] by (simp add: cacheView_def)
qed

lemma cacheView_I:
  "\<lbrakk>caches h s c d; applyBlocks (cBlocks c) d = x; cachedPosition c = p\<rbrakk> \<Longrightarrow> cacheView h s = Some (x, p)"
  by (auto simp: cacheView_iff)

lemma cacheSpace_eq:
  "caches h s c d \<Longrightarrow> cacheSpace h s + length (applyBlocks (cBlocks c) d)
     = length d + freeSpace (os (storage s))"
  using cachesD(1,7) [of h s c d] caches_disk [of h s c d] by (simp add: cacheSpace_def)

lemma commit_ok [simp]: "onStorage (storageCommitWrite h) s = (None, s)"
  by (simp add: onStorage_def storageCommitWrite_def onOs_def pcsl_file_commitwrite_def)

text \<open>Flushing writes everything and changes nothing the program sees.\<close>

lemma flush_result:
  assumes "caches h s c d"
  shows "\<exists>s'. midp_file_cache_flush mem h s = (None, s')
    \<and> caches h s' (c\<lparr>cBlocks := [], cSize := 0\<rparr>) (applyBlocks (cBlocks c) d)
    \<and> length (applyBlocks (cBlocks c) d) + freeSpace (os (storage s'))
      = length d + freeSpace (os (storage s))"
proof (cases "cBlocks c = []")
  case True
  note f = cachesD [OF assms]
  have "c\<lparr>cBlocks := [], cSize := 0\<rparr> = c" using True f(4) by simp
  with True assms f(1,2) show ?thesis by (auto simp: midp_file_cache_flush_def)
next
  case False
  note f = cachesD [OF assms]
  obtain p where p: "storageView h (storage s) = Some (d, p)" using f(5) by blast
  have *: "\<exists>s'. midp_file_cache_flush_using_buffer h buf n c s = (None, s')
      \<and> caches h s' (c\<lparr>cBlocks := [], cSize := 0\<rparr>) (applyBlocks (cBlocks c) d)
      \<and> length (applyBlocks (cBlocks c) d) + freeSpace (os (storage s'))
        = length d + freeSpace (os (storage s))" for buf n
  proof -
    obtain st p' where st: "flushBlocks buf n h (cBlocks c) (cSize c) (storage s) = (None, [], 0, st)"
      "storageView h st = Some (applyBlocks (cBlocks c) d, p')"
      "length (applyBlocks (cBlocks c) d) + freeSpace (os st) = length d + freeSpace (os (storage s))"
      using flushBlocks_result [OF p f(7), of buf n "cSize c"] f(4) by auto
    let ?s = "s\<lparr>storage := st, mFileCache := Some (c\<lparr>cBlocks := [], cSize := 0\<rparr>)\<rparr>"
    have "midp_file_cache_flush_using_buffer h buf n c s = (None, ?s)"
      using st(1) by (simp add: midp_file_cache_flush_using_buffer_def)
    moreover have "caches h ?s (c\<lparr>cBlocks := [], cSize := 0\<rparr>) (applyBlocks (cBlocks c) d)"
      using st(2) f(2,6) by (simp add: caches_def blocks_ok_def)
    ultimately show ?thesis using st(3) by auto
  qed
  show ?thesis using f(1,2) False * [of True] * [of False 0]
    by (auto simp: midp_file_cache_flush_def split: option.splits)
qed

text \<open>A write that reached the disk or the blocks is completed by \<^verbatim>\<open>updateCachedSizes\<close>.\<close>

lemma update_sizes:
  assumes "mFileCache s = Some c" "cHandle c = h" "blocks_ok (cBlocks c)"
    "cSize c = blocksSize (cBlocks c)" "storageView h (storage s) = Some (d, p)"
    "applyBlocks (cBlocks c) d = splice_at 0 (cachedPosition c) buf x" "buf \<noteq> []"
    "cachedFileSize c = int (length x)"
    "length (applyBlocks (cBlocks c) d) \<le> length d + freeSpace (os (storage s))"
  shows "\<exists>c'. caches h (updateCachedSizes (length buf) s) c' d
    \<and> cachedPosition c' = cachedPosition c + length buf \<and> cBlocks c' = cBlocks c
    \<and> storage (updateCachedSizes (length buf) s) = storage s"
  using assms
  by (auto simp: updateCachedSizes_def updCache_def caches_def Let_def length_splice_at)

text \<open>A region on the disk or touching a block; others are gaps the cache does not know.\<close>

definition readable :: "nat \<Rightarrow> nat \<Rightarrow> MidpFileCache \<Rightarrow> jbyte list \<Rightarrow> bool" where
  "readable p n c d \<longleftrightarrow> p + n \<le> length d
     \<or> (\<exists>b \<in> set (cBlocks c). bPosition b < p + n \<and> p < bPosition b + bLength b)"

lemma uncached_result:
  assumes "caches h s c d" "buf \<noteq> []"
    "\<forall>b \<in> set (cBlocks c). cachedPosition c + length buf \<le> bPosition b
        \<or> bPosition b + bLength b \<le> cachedPosition c"
    "length (splice_at 0 (cachedPosition c) buf (applyBlocks (cBlocks c) d))
      \<le> length d + freeSpace (os (storage s))"
  shows "\<exists>s' c' d'. uncachedWrite h buf s = (None, s') \<and> caches h s' c' d'
    \<and> applyBlocks (cBlocks c') d' = splice_at 0 (cachedPosition c) buf (applyBlocks (cBlocks c) d)
    \<and> cachedPosition c' = cachedPosition c + length buf
    \<and> length d' + freeSpace (os (storage s')) = length d + freeSpace (os (storage s))
    \<and> readable (cachedPosition c) (length buf) c' d'"
proof -
  note f = cachesD [OF assms(1)]
  let ?d = "splice_at 0 (cachedPosition c) buf d"
  have app: "applyBlocks (cBlocks c) ?d = splice_at 0 (cachedPosition c) buf (applyBlocks (cBlocks c) d)"
    using assms(3) by (intro apply_before) auto
  have "length ?d \<le> length (applyBlocks (cBlocks c) ?d)" by (rule length_splice_all)
  with assms(4) app have room: "length ?d \<le> length d + freeSpace (os (storage s))" by simp
  obtain p where "storageView h (storage s) = Some (d, p)" using f(5) by blast
  from ra.write_at [OF this room] obtain st1 st2 where w:
    "storagePosition h (int (cachedPosition c)) (storage s) = (None, st1)"
    "storageWrite h buf st1 = (None, st2)" "storageView h st2 = Some (?d, cachedPosition c + length buf)"
    "length ?d + freeSpace (os st2) = length d + freeSpace (os (storage s))" by blast
  let ?s = "s\<lparr>storage := st2\<rparr>"
  have u: "uncachedWrite h buf s = (None, updateCachedSizes (length buf) ?s)"
    using f(1) w(1,2) by (simp add: uncachedWrite_def onStorage_def)
  have "\<exists>c'. caches h (updateCachedSizes (length buf) ?s) c' ?d
      \<and> cachedPosition c' = cachedPosition c + length buf \<and> cBlocks c' = cBlocks c
      \<and> storage (updateCachedSizes (length buf) ?s) = storage ?s"
    by (rule update_sizes) (use f w assms(2,4) app in simp_all)
  moreover have "readable (cachedPosition c) (length buf) c' ?d" for c'
    using assms(2) by (simp add: readable_def length_splice_at)
  ultimately show ?thesis using u app w(4) by fastforce
qed

lemma new_block_result:
  assumes "caches h s c d" "buf \<noteq> []"
    "\<forall>b \<in> set (take k (cBlocks c)). bPosition b + bLength b \<le> cachedPosition c"
    "\<forall>b \<in> set (drop k (cBlocks c)). cachedPosition c + length buf \<le> bPosition b"
    "length (splice_at 0 (cachedPosition c) buf (applyBlocks (cBlocks c) d))
      \<le> length d + freeSpace (os (storage s))"
  shows "\<exists>s' c' d'. cacheNewBlock mem limit h buf k None s = (None, s') \<and> caches h s' c' d'
    \<and> applyBlocks (cBlocks c') d' = splice_at 0 (cachedPosition c) buf (applyBlocks (cBlocks c) d)
    \<and> cachedPosition c' = cachedPosition c + length buf
    \<and> length d' + freeSpace (os (storage s')) = length d + freeSpace (os (storage s))
    \<and> readable (cachedPosition c) (length buf) c' d'"
proof -
  have apart: "\<forall>b \<in> set (cBlocks c). cachedPosition c + length buf \<le> bPosition b
      \<or> bPosition b + bLength b \<le> cachedPosition c"
    using assms(3,4) set_take_disj_set_drop_if_distinct [of "cBlocks c"]
    by (metis append_take_drop_id Un_iff set_append)
  text \<open>The insertion, from any state whose blocks leave the region free.\<close>
  have insert: "\<exists>s' c' d'. updateCachedSizes (length buf) (updCache (\<lambda>c. c\<lparr>cBlocks := take k (cBlocks c)
          @ \<lparr>bPosition = cachedPosition c, bData = buf\<rparr> # drop k (cBlocks c),
          cSize := cSize c + int (blockHeader + length buf)\<rparr>) s) = s' \<and> caches h s' c' d'
      \<and> applyBlocks (cBlocks c') d' = splice_at 0 (cachedPosition c) buf (applyBlocks (cBlocks c) d)
      \<and> cachedPosition c' = cachedPosition c + length buf
      \<and> length d' + freeSpace (os (storage s')) = length d + freeSpace (os (storage s))
      \<and> readable (cachedPosition c) (length buf) c' d'"
    if c: "caches h s c d"
      "\<forall>b \<in> set (take k (cBlocks c)). bPosition b + bLength b \<le> cachedPosition c"
      "\<forall>b \<in> set (drop k (cBlocks c)). cachedPosition c + length buf \<le> bPosition b"
      "length (splice_at 0 (cachedPosition c) buf (applyBlocks (cBlocks c) d))
        \<le> length d + freeSpace (os (storage s))"
    for s :: CacheSys and c d k
  proof -
    note f = cachesD [OF c(1)]
    define bs where "bs = take k (cBlocks c) @ \<lparr>bPosition = cachedPosition c, bData = buf\<rparr> # drop k (cBlocks c)"
    define c1 where "c1 = c\<lparr>cBlocks := bs, cSize := cSize c + int (blockHeader + length buf)\<rparr>"
    let ?s = "s\<lparr>mFileCache := Some c1\<rparr>"
    have app: "applyBlocks bs d = splice_at 0 (cachedPosition c) buf (applyBlocks (cBlocks c) d)"
      unfolding bs_def using c(3) by (rule apply_insert)
    have ok: "blocks_ok bs" unfolding bs_def using f(3) assms(2) c(2,3) by (rule ok_insert)
    have "blocksSize (cBlocks c) = blocksSize (take k (cBlocks c)) + blocksSize (drop k (cBlocks c))"
      by (metis append_take_drop_id blocksSize_append)
    then have sz: "cSize c1 = blocksSize bs" using f(4) by (simp add: c1_def bs_def)
    obtain p where p: "storageView h (storage s) = Some (d, p)" using f(5) by blast
    have "\<exists>c'. caches h (updateCachedSizes (length buf) ?s) c' d
        \<and> cachedPosition c' = cachedPosition c1 + length buf \<and> cBlocks c' = cBlocks c1
        \<and> storage (updateCachedSizes (length buf) ?s) = storage ?s"
      by (rule update_sizes [where x = "applyBlocks (cBlocks c) d" and p = p])
        (use f(2,6) ok sz p app assms(2) c(4) in \<open>simp_all add: c1_def\<close>)
    then obtain c' where c': "caches h (updateCachedSizes (length buf) ?s) c' d"
      "cachedPosition c' = cachedPosition c + length buf" "cBlocks c' = bs"
      "storage (updateCachedSizes (length buf) ?s) = storage s" by (auto simp: c1_def)
    have e: "updCache (\<lambda>c. c\<lparr>cBlocks := take k (cBlocks c)
          @ \<lparr>bPosition = cachedPosition c, bData = buf\<rparr> # drop k (cBlocks c),
          cSize := cSize c + int (blockHeader + length buf)\<rparr>) s = ?s"
      using f(1) by (simp add: updCache_def c1_def bs_def)
    have "\<lparr>bPosition = cachedPosition c, bData = buf\<rparr> \<in> set bs" by (simp add: bs_def)
    then have r: "readable (cachedPosition c) (length buf) c' d"
      unfolding readable_def c'(3) using assms(2) by (intro disjI2 bexI) simp_all
    show ?thesis unfolding e
      by (rule exI [of _ "updateCachedSizes (length buf) ?s"], rule exI [of _ c'], rule exI [of _ d])
        (simp add: c' app r)
  qed
  let ?bytes = "int (blockHeader + length buf)"
  show ?thesis
  proof (cases "overLimit ?bytes limit")
    case True
    then show ?thesis using uncached_result [OF assms(1,2) apart assms(5)]
      by (simp add: cacheNewBlock_def Let_def)
  next
    case small: False
    show ?thesis
    proof (cases "overLimit (cSize c + ?bytes) limit")
      case True
      obtain s1 where s1: "midp_file_cache_flush mem h s = (None, s1)"
        "caches h s1 (c\<lparr>cBlocks := [], cSize := 0\<rparr>) (applyBlocks (cBlocks c) d)"
        "length (applyBlocks (cBlocks c) d) + freeSpace (os (storage s1))
          = length d + freeSpace (os (storage s))"
        using flush_result [OF assms(1)] by blast
      show ?thesis
        using insert [OF s1(2), of 0] uncached_result [OF s1(2) assms(2)] assms(5) s1 small True
          cachesD(1) [OF assms(1)]
        by (simp add: cacheNewBlock_def Let_def)
    next
      case False
      then show ?thesis
        using insert [OF assms(1,3,4,5)] uncached_result [OF assms(1,2) apart assms(5)] small
          cachesD(1) [OF assms(1)]
        by (simp add: cacheNewBlock_def Let_def)
    qed
  qed
qed

lemma inside_result:
  assumes "caches h s c d" "buf \<noteq> []" "k < length (cBlocks c)"
    "bPosition (cBlocks c ! k) \<le> cachedPosition c"
    "cachedPosition c + length buf \<le> bPosition (cBlocks c ! k) + bLength (cBlocks c ! k)"
    "length (splice_at 0 (cachedPosition c) buf (applyBlocks (cBlocks c) d))
      \<le> length d + freeSpace (os (storage s))"
  shows "\<exists>s' c'. updateCachedSizes (length buf) (updCache (\<lambda>c. c\<lparr>cBlocks :=
      (cBlocks c)[k := (cBlocks c ! k)\<lparr>bData := splice_at 0 (cachedPosition c - bPosition (cBlocks c ! k)) buf
         (bData (cBlocks c ! k))\<rparr>]\<rparr>) s) = s' \<and> caches h s' c' d
    \<and> applyBlocks (cBlocks c') d = splice_at 0 (cachedPosition c) buf (applyBlocks (cBlocks c) d)
    \<and> cachedPosition c' = cachedPosition c + length buf \<and> storage s' = storage s
    \<and> readable (cachedPosition c) (length buf) c' d"
proof -
  note f = cachesD [OF assms(1)]
  define bd where "bd = splice_at 0 (cachedPosition c - bPosition (cBlocks c ! k)) buf (bData (cBlocks c ! k))"
  define bs where "bs = (cBlocks c)[k := (cBlocks c ! k)\<lparr>bData := bd\<rparr>]"
  let ?s = "s\<lparr>mFileCache := Some (c\<lparr>cBlocks := bs\<rparr>)\<rparr>"
  have len: "length bd = bLength (cBlocks c ! k)"
    unfolding bd_def length_splice_at using assms(2,4,5) by (auto simp: max_def)
  have app: "applyBlocks bs d = splice_at 0 (cachedPosition c) buf (applyBlocks (cBlocks c) d)"
    unfolding bs_def bd_def using f(3) assms(3-5) by (rule apply_inside)
  have ok: "blocks_ok bs" "blocksSize bs = blocksSize (cBlocks c)"
    unfolding bs_def using f(3) assms(3) len by (rule ok_inside)+
  obtain p where p: "storageView h (storage s) = Some (d, p)" using f(5) by blast
  have "\<exists>c'. caches h (updateCachedSizes (length buf) ?s) c' d
      \<and> cachedPosition c' = cachedPosition (c\<lparr>cBlocks := bs\<rparr>) + length buf \<and> cBlocks c' = cBlocks (c\<lparr>cBlocks := bs\<rparr>)
      \<and> storage (updateCachedSizes (length buf) ?s) = storage ?s"
    by (rule update_sizes [where x = "applyBlocks (cBlocks c) d" and p = p])
      (use f(2,4,6) ok p app assms(2,6) in simp_all)
  then obtain c' where c': "caches h (updateCachedSizes (length buf) ?s) c' d"
    "cachedPosition c' = cachedPosition c + length buf" "cBlocks c' = bs"
    "storage (updateCachedSizes (length buf) ?s) = storage s" by auto
  have e: "updCache (\<lambda>c. c\<lparr>cBlocks :=
      (cBlocks c)[k := (cBlocks c ! k)\<lparr>bData := splice_at 0 (cachedPosition c - bPosition (cBlocks c ! k)) buf
         (bData (cBlocks c ! k))\<rparr>]\<rparr>) s = ?s"
    using f(1) by (simp add: updCache_def bs_def bd_def)
  have "(cBlocks c ! k)\<lparr>bData := bd\<rparr> \<in> set bs"
    unfolding bs_def using assms(3) by (rule set_update_memI)
  moreover have "0 < length buf" using assms(2) by simp
  ultimately have r: "readable (cachedPosition c) (length buf) c' d"
    unfolding readable_def c'(3) using assms(4,5) len
    by (intro disjI2 bexI) (simp_all del: length_greater_0_conv)
  show ?thesis unfolding e
    by (rule exI [of _ "updateCachedSizes (length buf) ?s"], rule exI [of _ c']) (simp add: c' app r)
qed

lemma cache_write_result:
  assumes "caches h s c d"
    "length (splice_at 0 (cachedPosition c) buf (applyBlocks (cBlocks c) d))
      \<le> length d + freeSpace (os (storage s))"
  shows "\<exists>s' c' d'. midp_file_cache_write mem prp h buf s = (None, s') \<and> caches h s' c' d'
    \<and> applyBlocks (cBlocks c') d' = splice_at 0 (cachedPosition c) buf (applyBlocks (cBlocks c) d)
    \<and> cachedPosition c' = cachedPosition c + length buf
    \<and> length d' + freeSpace (os (storage s')) = length d + freeSpace (os (storage s))
    \<and> (buf \<noteq> [] \<longrightarrow> readable (cachedPosition c) (length buf) c' d')"
proof (cases "buf = []")
  case True
  then show ?thesis using assms(1) by (auto simp: midp_file_cache_write_def)
next
  case False
  note f = cachesD [OF assms(1)]
  define limit where "limit = (if 0 = prp then RMS_CACHE_LIMIT else prp)"
  have len: "0 < length buf" using False by simp
  show ?thesis
  proof (cases "scanBlocks (cBlocks c) (cachedPosition c) (length buf) 0")
    case (Inside k)
    from scan_inside [OF this] inside_result [OF assms(1) False, of k] assms(2) Inside f(1,8) False
    show ?thesis by (fastforce simp: midp_file_cache_write_def)
  next
    case Partial
    obtain s1 where s1: "midp_file_cache_flush mem h s = (None, s1)"
      "caches h s1 (c\<lparr>cBlocks := [], cSize := 0\<rparr>) (applyBlocks (cBlocks c) d)"
      "length (applyBlocks (cBlocks c) d) + freeSpace (os (storage s1))
        = length d + freeSpace (os (storage s))"
      using flush_result [OF assms(1)] by blast
    from new_block_result [OF s1(2) False, of 0 mem limit] assms(2) s1(3)
    obtain s' c' d' where "cacheNewBlock mem limit h buf 0 None s1 = (None, s')" "caches h s' c' d'"
      "applyBlocks (cBlocks c') d' = splice_at 0 (cachedPosition c) buf (applyBlocks (cBlocks c) d)"
      "cachedPosition c' = cachedPosition c + length buf"
      "length d' + freeSpace (os (storage s'))
        = length (applyBlocks (cBlocks c) d) + freeSpace (os (storage s1))"
      "readable (cachedPosition c) (length buf) c' d'" by auto
    moreover from this(1) have "midp_file_cache_write mem prp h buf s = (None, s')"
      using False f(1,8) Partial s1(1) limit_def by (simp add: midp_file_cache_write_def)
    ultimately show ?thesis using s1(3) by auto
  next
    case (Between k)
    from scan_between [OF this f(3) len] have "\<forall>b \<in> set (take k (cBlocks c)).
        bPosition b + bLength b \<le> cachedPosition c"
      "\<forall>b \<in> set (drop k (cBlocks c)). cachedPosition c + length buf \<le> bPosition b" by simp_all
    from new_block_result [OF assms(1) False this assms(2), of mem limit] False f(1,8) Between
    show ?thesis by (simp add: midp_file_cache_write_def limit_def)
  qed
qed

text \<open>The cached file is written like a file without cache.\<close>

interpretation fc: positioned_writes "midp_file_cache_seek h" "midp_file_cache_write mem prp h"
  "cacheView h" "cacheSpace h" 0 for h mem prp
proof unfold_locales
  fix s c p
  assume v: "cacheView h s = Some (c, p)"
  then obtain mc d where mc: "caches h s mc d" "c = applyBlocks (cBlocks mc) d" "p = cachedPosition mc"
    by (auto simp: cacheView_iff)
  note f = cachesD [OF mc(1)]
  {
    fix k :: int assume k: "0 \<le> k"
    let ?s = "s\<lparr>mFileCache := Some (mc\<lparr>cachedPosition := nat k\<rparr>)\<rparr>"
    have "midp_file_cache_seek h k s = (None, ?s)"
      using k f(1,8) by (simp add: midp_file_cache_seek_def updCache_def)
    moreover have c: "caches h ?s (mc\<lparr>cachedPosition := nat k\<rparr>) d"
      using mc(1) by (simp add: caches_def)
    ultimately show "\<exists>s'. midp_file_cache_seek h k s = (None, s') \<and> cacheView h s' = Some (c, nat k)
        \<and> cacheSpace h s' = cacheSpace h s"
      using cacheView_I [OF c, of c "nat k"] cacheSpace_eq [OF c] cacheSpace_eq [OF mc(1)] mc(2) by simp
  }
  {
    fix bs assume "length (splice_at 0 p bs c) \<le> length c + cacheSpace h s"
    then have "length (splice_at 0 (cachedPosition mc) bs (applyBlocks (cBlocks mc) d))
        \<le> length d + freeSpace (os (storage s))"
      using cacheSpace_eq [OF mc(1)] mc(2,3) by simp
    from cache_write_result [OF mc(1) this, of mem prp] obtain s' c' d' where
      w: "midp_file_cache_write mem prp h bs s = (None, s')" "caches h s' c' d'"
      "applyBlocks (cBlocks c') d' = splice_at 0 p bs c" "cachedPosition c' = p + length bs"
      "length d' + freeSpace (os (storage s')) = length d + freeSpace (os (storage s))"
      using mc(2,3) by blast
    show "\<exists>s'. midp_file_cache_write mem prp h bs s = (None, s')
        \<and> cacheView h s' = Some (splice_at 0 p bs c, p + length bs)
        \<and> length (splice_at 0 p bs c) + cacheSpace h s' = length c + cacheSpace h s"
      using w(1) cacheView_I [OF w(2,3,4)] cacheSpace_eq [OF w(2)] cacheSpace_eq [OF mc(1)] w(3,5) mc(2)
      by simp
  }
qed

lemma read_file_result:
  assumes "caches h s c d" "0 < n"
  shows "\<exists>s'. readFile h n c s = ((None,
        if take n (drop (cachedPosition c) d) = [] then -1 else int (length (take n (drop (cachedPosition c) d))),
        take n (drop (cachedPosition c) d)), s')
    \<and> caches h s' (c\<lparr>cachedPosition := cachedPosition c + n\<rparr>) d
    \<and> freeSpace (os (storage s')) = freeSpace (os (storage s))"
proof -
  note f = cachesD [OF assms(1)]
  obtain p where "storageView h (storage s) = Some (d, p)" using f(5) by blast
  from ra.read_at [OF this assms(2)] obtain s1 s2 where r:
    "storagePosition h (int (cachedPosition c)) (storage s) = (None, s1)"
    "storageRead h n s1 = ((None, if take n (drop (cachedPosition c) d) = [] then -1
        else int (length (take n (drop (cachedPosition c) d))), take n (drop (cachedPosition c) d)), s2)"
    "storageView h s2 = Some (d, cachedPosition c + length (take n (drop (cachedPosition c) d)))"
    "freeSpace (os s2) = freeSpace (os (storage s))" by blast
  let ?s = "s\<lparr>storage := s2, mFileCache := Some (c\<lparr>cachedPosition := cachedPosition c + n\<rparr>)\<rparr>"
  have "readFile h n c s = ((None, if take n (drop (cachedPosition c) d) = [] then -1
        else int (length (take n (drop (cachedPosition c) d))), take n (drop (cachedPosition c) d)), ?s)"
    using r(1,2) f(1) by (simp add: readFile_def onStorage_def updCache_def del: take_eq_Nil take_eq_Nil2)
  moreover have "caches h ?s (c\<lparr>cachedPosition := cachedPosition c + n\<rparr>) d"
    using r(3,4) f(2-4,6,7) by (simp add: caches_def)
  ultimately show ?thesis using r(4) by auto
qed

lemma apply_read_inside:
  assumes "blocks_ok bs" "k < length bs" "bPosition (bs ! k) \<le> pos"
    "pos + n \<le> bPosition (bs ! k) + bLength (bs ! k)"
  shows "take n (drop pos (applyBlocks bs d)) = take n (drop (pos - bPosition (bs ! k)) (bData (bs ! k)))"
proof -
  define us b ws where "us = take k bs" and "b = bs ! k" and "ws = drop (Suc k) bs"
  have bs: "bs = us @ b # ws" unfolding us_def b_def ws_def by (rule id_take_nth_drop [OF assms(2)])
  let ?e = "splice_at 0 (bPosition b) (bData b) (applyBlocks us d)"
  have "bData b \<noteq> []" using assms(1) unfolding bs by (simp add: blocks_ok_append blocks_ok_Cons)
  then have "pos + n \<le> length ?e" using assms(3,4) by (simp add: length_splice_at b_def)
  moreover have "\<forall>c \<in> set ws. pos + n \<le> bPosition c"
    using assms(1,4) b_def unfolding bs by (force simp: blocks_ok_append blocks_ok_Cons)
  ultimately have "take n (drop pos (applyBlocks ws ?e)) = take n (drop pos ?e)"
    by (intro take_drop_splice_all_outside) auto
  also have "\<dots> = take n (drop (pos - bPosition b) (bData b))"
    using assms(3,4) by (intro take_drop_splice_at) (simp_all add: b_def)
  finally show ?thesis unfolding b_def [symmetric] by (subst bs) (simp add: splice_all_append)
qed

lemma block_within:
  assumes "b \<in> set bs" "bData b \<noteq> []"
  shows "bPosition b + bLength b \<le> length (applyBlocks bs d)"
proof -
  obtain us ws where bs: "bs = us @ b # ws" using assms(1) by (auto simp: in_set_conv_decomp)
  have "bPosition b + bLength b \<le> length (splice_at 0 (bPosition b) (bData b) (applyBlocks us d))"
    using assms(2) by (simp add: length_splice_at)
  also have "\<dots> \<le> length (applyBlocks ws (splice_at 0 (bPosition b) (bData b) (applyBlocks us d)))"
    by (rule length_splice_all)
  finally show ?thesis by (simp add: bs splice_all_append)
qed

lemma cache_read_result:
  assumes "caches h s c d" "0 < n" "readable (cachedPosition c) n c d"
  shows "\<exists>s' c' d'. midp_file_cache_read mem h n s
      = ((None, int (length (take n (drop (cachedPosition c) (applyBlocks (cBlocks c) d)))),
          take n (drop (cachedPosition c) (applyBlocks (cBlocks c) d))), s')
    \<and> caches h s' c' d' \<and> applyBlocks (cBlocks c') d' = applyBlocks (cBlocks c) d
    \<and> cachedPosition c' = cachedPosition c + n
    \<and> length d' + freeSpace (os (storage s')) = length d + freeSpace (os (storage s))"
proof -
  note f = cachesD [OF assms(1)]
  let ?x = "applyBlocks (cBlocks c) d"
  have ne: "\<forall>b \<in> set (cBlocks c). bData b \<noteq> []" using f(3) by (simp add: blocks_ok_def)
  show ?thesis
  proof (cases "scanBlocks (cBlocks c) (cachedPosition c) n 0")
    case (Inside k)
    from scan_inside [OF this] have k: "k < length (cBlocks c)"
      "bPosition (cBlocks c ! k) \<le> cachedPosition c"
      "cachedPosition c + n \<le> bPosition (cBlocks c ! k) + bLength (cBlocks c ! k)" by simp_all
    let ?s = "s\<lparr>mFileCache := Some (c\<lparr>cachedPosition := cachedPosition c + n\<rparr>)\<rparr>"
    have b: "take n (drop (cachedPosition c) ?x)
        = take n (drop (cachedPosition c - bPosition (cBlocks c ! k)) (bData (cBlocks c ! k)))"
      using f(3) k by (rule apply_read_inside)
    moreover have "length (take n (drop (cachedPosition c) ?x)) = n"
      unfolding b using k(2,3) by simp
    ultimately have "midp_file_cache_read mem h n s
        = ((None, int (length (take n (drop (cachedPosition c) ?x))), take n (drop (cachedPosition c) ?x)), ?s)"
      using Inside f(1,8) assms(2) by (simp add: midp_file_cache_read_def updCache_def)
    moreover have "caches h ?s (c\<lparr>cachedPosition := cachedPosition c + n\<rparr>) d"
      using assms(1) by (simp add: caches_def)
    ultimately show ?thesis
      by (rule_tac x = ?s in exI, rule_tac x = "c\<lparr>cachedPosition := cachedPosition c + n\<rparr>" in exI) auto
  next
    case Partial
    let ?c = "c\<lparr>cBlocks := [], cSize := 0\<rparr>"
    obtain s1 where s1: "midp_file_cache_flush mem h s = (None, s1)" "caches h s1 ?c ?x"
      "length ?x + freeSpace (os (storage s1)) = length d + freeSpace (os (storage s))"
      using flush_result [OF assms(1)] by blast
    obtain b where "b \<in> set (cBlocks c)" "cachedPosition c < bPosition b + bLength b"
      using scan_partial [OF Partial f(3) assms(2)] by blast
    with block_within [of b "cBlocks c" d] ne have "cachedPosition c < length ?x" by fastforce
    then have ex: "take n (drop (cachedPosition c) ?x) \<noteq> []" using assms(2) by simp
    have "readFile h n c s1 = readFile h n ?c s1" by (simp add: readFile_def)
    with read_file_result [OF s1(2) assms(2)] ex obtain s' where s': "readFile h n c s1
        = ((None, int (length (take n (drop (cachedPosition c) ?x))), take n (drop (cachedPosition c) ?x)), s')"
      "caches h s' (?c\<lparr>cachedPosition := cachedPosition c + n\<rparr>) ?x"
      "freeSpace (os (storage s')) = freeSpace (os (storage s1))"
      by auto
    have "midp_file_cache_read mem h n s = readFile h n c s1"
      using Partial f(1,8) s1(1) assms(2) by (simp add: midp_file_cache_read_def)
    with s' s1(3) show ?thesis
      by (rule_tac x = s' in exI, rule_tac x = "?c\<lparr>cachedPosition := cachedPosition c + n\<rparr>" in exI) auto
  next
    case (Between k)
    from scan_between [OF this f(3) assms(2)] have apart: "\<forall>b \<in> set (cBlocks c).
        cachedPosition c + n \<le> bPosition b \<or> bPosition b + bLength b \<le> cachedPosition c"
      by (metis Un_iff append_take_drop_id diff_zero set_append)
    with assms(3) have in_disk: "cachedPosition c + n \<le> length d"
      by (force simp: readable_def)
    have same: "take n (drop (cachedPosition c) ?x) = take n (drop (cachedPosition c) d)"
      using apart in_disk by (intro take_drop_splice_all_outside) auto
    have "take n (drop (cachedPosition c) d) \<noteq> []" using in_disk assms(2) by simp
    with read_file_result [OF assms(1,2)] same obtain s' where s': "readFile h n c s
        = ((None, int (length (take n (drop (cachedPosition c) ?x))), take n (drop (cachedPosition c) ?x)), s')"
      "caches h s' (c\<lparr>cachedPosition := cachedPosition c + n\<rparr>) d"
      "freeSpace (os (storage s')) = freeSpace (os (storage s))"
      by auto
    have "midp_file_cache_read mem h n s = readFile h n c s"
      using Between f(1,8) assms(2) by (simp add: midp_file_cache_read_def)
    with s' show ?thesis
      by (rule_tac x = s' in exI, rule_tac x = "c\<lparr>cachedPosition := cachedPosition c + n\<rparr>" in exI) auto
  qed
qed

section \<open>Properties\<close>

definition sampleCache :: CacheSys where
  "sampleCache = \<lparr>storage = sampleStorage, mFileCache = Some \<lparr>cHandle = 5, cSize = 14, cStorageId = 0,
     cachedPosition = 1, cachedFileSize = 4, cachedAvailableSpace = 10,
     cBlocks = [\<lparr>bPosition = 2, bData = [8, 9]\<rparr>]\<rparr>\<rparr>"

lemma sample_caches:
  "caches 5 sampleCache (the (mFileCache sampleCache)) [1, 2, 3]"
  using sample_facts(1)
  by (simp add: caches_def sampleCache_def blocks_ok_def blockHeader_def splice_at_def)
    (simp add: sampleStorage_def sampleOs_def)

lemma sample_view: "cacheView 5 sampleCache = Some ([1, 2, 8, 9], 1)"
  using cacheView_I [OF sample_caches, of "[1, 2, 8, 9]" 1]
  by (simp add: sampleCache_def splice_at_def eval_nat_numeral)

lemma sample_space: "cacheSpace 5 sampleCache = 99" "freeSpace (os sampleStorage) = 100"
proof -
  show f: "freeSpace (os sampleStorage) = 100" by (simp add: sampleStorage_def sampleOs_def)
  show "cacheSpace 5 sampleCache = 99"
    using cacheSpace_eq [OF sample_caches] f
    by (simp add: sampleCache_def splice_at_def)
qed


text \<open>Positioned writes through the cache, and directly, up to the first error.\<close>

fun cacheWrites :: "(nat \<Rightarrow> bool) \<Rightarrow> int \<Rightarrow> int \<Rightarrow> (nat \<times> jbyte list) list \<Rightarrow> CacheSys \<Rightarrow> error \<times> CacheSys" where
  "cacheWrites mem prp h [] s = (None, s)"
| "cacheWrites mem prp h ((k, bs) # ws) s =
     (case midp_file_cache_seek h (int k) s of
        (Some e, s1) \<Rightarrow> (Some e, s1)
      | (None, s1) \<Rightarrow>
          (case midp_file_cache_write mem prp h bs s1 of
             (Some e, s2) \<Rightarrow> (Some e, s2) | (None, s2) \<Rightarrow> cacheWrites mem prp h ws s2))"

fun storageWrites :: "int \<Rightarrow> (nat \<times> jbyte list) list \<Rightarrow> StorageSys \<Rightarrow> error \<times> StorageSys" where
  "storageWrites h [] s = (None, s)"
| "storageWrites h ((k, bs) # ws) s =
     (case storagePosition h (int k) s of
        (Some e, s1) \<Rightarrow> (Some e, s1)
      | (None, s1) \<Rightarrow>
          (case storageWrite h bs s1 of
             (Some e, s2) \<Rightarrow> (Some e, s2) | (None, s2) \<Rightarrow> storageWrites h ws s2))"

lemma writes_all:
  "cacheWrites mem prp h ws s = fc.write_all h mem prp ws s" "storageWrites h ws t = ra.write_all h ws t"
  by (induction ws arbitrary: s t) (auto split: prod.splits option.splits)

text \<open>
  C21. The cache is transparent: whatever memory there is and whatever limit, a sequence of
  positioned writes through the cache followed by a flush leaves on the disk what the same
  writes leave when made directly to a file of the same content; the cache is empty then, and
  its size and the program's view agree with the disk.
\<close>

theorem cache_transparent:
  assumes "cacheView h s = Some (x, p)" "storageView g t = Some (x, q)"
    "length (splice_all 0 ws x) \<le> length x + cacheSpace h s"
    "length (splice_all 0 ws x) \<le> length x + freeSpace (os t)"
  shows "\<exists>s1 s2 t1. cacheWrites mem prp h ws s = (None, s1) \<and> midp_file_cache_flush mem h s1 = (None, s2)
    \<and> storageWrites g ws t = (None, t1)
    \<and> map_option fst (storageView h (storage s2)) = map_option fst (storageView g t1)
    \<and> map_option fst (cacheView h s2) = map_option fst (storageView g t1)
    \<and> map_option cBlocks (mFileCache s2) = Some []
    \<and> midp_file_cache_sizeof h s2 = ((None, int (length (splice_all 0 ws x))), s2)"
proof -
  obtain s1 p1 where s1: "fc.write_all h mem prp ws s = (None, s1)"
    "cacheView h s1 = Some (splice_all 0 ws x, p1)"
    using fc.write_all_splices [OF assms(1,3), of mem prp] by blast
  obtain t1 q1 where t1: "ra.write_all g ws t = (None, t1)"
    "storageView g t1 = Some (splice_all 0 ws x, q1)"
    using ra.write_all_splices [OF assms(2,4)] by blast
  obtain c d where c: "caches h s1 c d" "splice_all 0 ws x = applyBlocks (cBlocks c) d"
    using s1(2) by (auto simp: cacheView_iff)
  obtain s2 where s2: "midp_file_cache_flush mem h s1 = (None, s2)"
    "caches h s2 (c\<lparr>cBlocks := [], cSize := 0\<rparr>) (splice_all 0 ws x)"
    using flush_result [OF c(1)] c(2) by auto
  note f = cachesD [OF s2(2)]
  have "cacheView h s2 = Some (splice_all 0 ws x, cachedPosition c)"
    using s2(2) by (rule cacheView_I) simp_all
  with s1(1) t1 s2(1) f(1,2,5,6) show ?thesis
    unfolding writes_all by (auto simp: midp_file_cache_sizeof_def)
qed

lemma cache_transparent_witness:
  "\<exists>s0 s1 s2 t1. midp_file_cache_flush (\<lambda>_. True) 5 sampleCache = (None, s0)
    \<and> cacheWrites (\<lambda>_. True) 0 5 [(1, [7, 7]), (3, [5, 6])] sampleCache = (None, s1)
    \<and> midp_file_cache_flush (\<lambda>_. True) 5 s1 = (None, s2)
    \<and> storageWrites 5 [(1, [7, 7]), (3, [5, 6])] (storage s0) = (None, t1)
    \<and> map_option fst (storageView 5 (storage s2)) = map_option fst (storageView 5 t1)"
proof -
  have l: "length (splice_all 0 [(1, [7, 7]), (3, [5, 6])] [1, 2, 8, 9 :: jbyte]) = 5"
    by (simp add: splice_at_def)
  obtain s0 where s0: "midp_file_cache_flush (\<lambda>_. True) 5 sampleCache = (None, s0)"
    "caches 5 s0 (the (mFileCache sampleCache)\<lparr>cBlocks := [], cSize := 0\<rparr>) [1, 2, 8, 9]"
    "4 + freeSpace (os (storage s0)) = 103"
    using flush_result [OF sample_caches] sample_space(2)
    by (auto simp: sampleCache_def splice_at_def eval_nat_numeral)
  then obtain q where "storageView 5 (storage s0) = Some ([1, 2, 8, 9], q)"
    using cachesD(5) by blast
  from cache_transparent [OF sample_view this, of "[(1, [7, 7]), (3, [5, 6])]" "\<lambda>_. True" 0] s0(3)
  show ?thesis unfolding l sample_space using s0(1)
    by (simp del: cacheWrites.simps storageWrites.simps) blast
qed

text \<open>
  C22. What is written through the cache is read back through it: after seeking to \<open>k\<close> and
  writing \<open>bs\<close>, seeking to \<open>k\<close> again and reading as many bytes gives \<open>bs\<close>, wherever the write went
  (a new block, an old one, the disk), and the content is the old one with \<open>bs\<close> spliced in.
\<close>

theorem cached_write_then_read:
  assumes "cacheView h s = Some (x, p)" "bs \<noteq> []"
    "length (splice_at 0 k bs x) \<le> length x + cacheSpace h s"
  shows "\<exists>s1 s2 s3 s4. midp_file_cache_seek h (int k) s = (None, s1)
    \<and> midp_file_cache_write mem prp h bs s1 = (None, s2)
    \<and> cacheView h s2 = Some (splice_at 0 k bs x, k + length bs)
    \<and> midp_file_cache_seek h (int k) s2 = (None, s3)
    \<and> midp_file_cache_read mem h (length bs) s3 = ((None, int (length bs), bs), s4)
    \<and> cacheView h s4 = Some (splice_at 0 k bs x, k + length bs)"
proof -
  have seek: "\<exists>s'. midp_file_cache_seek h (int k) s = (None, s')
      \<and> caches h s' (c\<lparr>cachedPosition := k\<rparr>) d \<and> storage s' = storage s"
    if "caches h s c d" for s c d
    using cachesD(1,8) [OF that] that
    by (simp add: midp_file_cache_seek_def updCache_def caches_def)
  obtain c d where c: "caches h s c d" "x = applyBlocks (cBlocks c) d"
    using assms(1) by (auto simp: cacheView_iff)
  obtain s1 where s1: "midp_file_cache_seek h (int k) s = (None, s1)"
    "caches h s1 (c\<lparr>cachedPosition := k\<rparr>) d" "storage s1 = storage s" using seek [OF c(1)] by blast
  have "length (splice_at 0 k bs x) \<le> length d + freeSpace (os (storage s1))"
    using assms(3) cacheSpace_eq [OF c(1)] c(2) s1(3) by simp
  with cache_write_result [OF s1(2), of bs mem prp] assms(2) c(2) obtain s2 c2 d2 where
    s2: "midp_file_cache_write mem prp h bs s1 = (None, s2)" "caches h s2 c2 d2"
    "applyBlocks (cBlocks c2) d2 = splice_at 0 k bs x" "cachedPosition c2 = k + length bs"
    "readable k (length bs) c2 d2" by auto
  obtain s3 where s3: "midp_file_cache_seek h (int k) s2 = (None, s3)"
    "caches h s3 (c2\<lparr>cachedPosition := k\<rparr>) d2" using seek [OF s2(2)] by blast
  have "readable k (length bs) (c2\<lparr>cachedPosition := k\<rparr>) d2" using s2(5) by (simp add: readable_def)
  moreover have "0 < length bs" using assms(2) by simp
  ultimately obtain s4 c4 d4 where s4: "midp_file_cache_read mem h (length bs) s3
      = ((None, int (length (take (length bs) (drop k (splice_at 0 k bs x)))),
         take (length bs) (drop k (splice_at 0 k bs x))), s4)" "caches h s4 c4 d4"
    "applyBlocks (cBlocks c4) d4 = splice_at 0 k bs x" "cachedPosition c4 = k + length bs"
    using cache_read_result [OF s3(2), of "length bs" mem] s2(3) by auto
  moreover have "take (length bs) (drop k (splice_at 0 k bs x)) = bs"
    using take_drop_splice_at [of k k "length bs" bs 0 x] by simp
  ultimately show ?thesis
    using s1(1) s2(1) s3(1) cacheView_I [OF s2(2,3,4)] cacheView_I [OF s4(2,3,4)] by auto
qed

lemma cached_write_then_read_witness:
  "\<exists>s1 s2 s3 s4. midp_file_cache_seek 5 (int 3) sampleCache = (None, s1)
    \<and> midp_file_cache_write (\<lambda>_. False) 0 5 [6, 7] s1 = (None, s2)
    \<and> midp_file_cache_seek 5 (int 3) s2 = (None, s3)
    \<and> midp_file_cache_read (\<lambda>_. False) 5 (length [6, 7 :: jbyte]) s3 = ((None, 2, [6, 7]), s4)"
proof -
  have "length (splice_at 0 3 [6, 7] [1, 2, 8, 9 :: jbyte]) \<le> length [1, 2, 8, 9 :: jbyte] + cacheSpace 5 sampleCache"
    by (simp add: splice_at_def sample_space)
  from cached_write_then_read [OF sample_view _ this, of "\<lambda>_. False" 0] show ?thesis by auto
qed

text \<open>
  A short read moves the position too far: reading \<open>n\<close> bytes of a cached file with no
  pending blocks returns what there is, yet the position advances by \<open>n\<close> even when nothing was
  read, so that a following write leaves a gap.
\<close>

theorem short_read_overshoots:
  assumes "cacheView h s = Some (x, p)" "map_option cBlocks (mFileCache s) = Some []" "0 < n"
  shows "\<exists>s'. midp_file_cache_read mem h n s
      = ((None, if length x \<le> p then -1 else int (min n (length x - p)), take n (drop p x)), s')
    \<and> cacheView h s' = Some (x, p + n)"
proof -
  obtain c d where c: "caches h s c d" "x = applyBlocks (cBlocks c) d" "p = cachedPosition c"
    using assms(1) by (auto simp: cacheView_iff)
  note f = cachesD [OF c(1)]
  have b: "cBlocks c = []" using assms(2) f(1) by simp
  with c have x: "d = x" by simp
  obtain s' where s': "readFile h n c s = ((None, if take n (drop p x) = [] then -1
      else int (length (take n (drop p x))), take n (drop p x)), s')"
    "caches h s' (c\<lparr>cachedPosition := p + n\<rparr>) x"
    using read_file_result [OF c(1) assms(3)] c(3) x by auto
  have "midp_file_cache_read mem h n s = readFile h n c s"
    using f(1,8) b assms(3) by (simp add: midp_file_cache_read_def)
  with s' show ?thesis using cacheView_I [OF s'(2), of x "p + n"] b assms(3)
    by (auto simp: min.commute)
qed

lemma short_read_overshoots_witness:
  "\<exists>s s'. cacheView 5 s = Some ([1, 2, 3], 1)
    \<and> midp_file_cache_read (\<lambda>_. True) 5 10 s = ((None, 2, [2, 3]), s')
    \<and> cacheView 5 s' = Some ([1, 2, 3], 11)"
proof -
  let ?c = "\<lparr>cHandle = 5, cSize = 0, cStorageId = 0, cachedPosition = 1, cachedFileSize = 3,
    cachedAvailableSpace = 10, cBlocks = []\<rparr>"
  let ?s = "\<lparr>storage = sampleStorage, mFileCache = Some ?c\<rparr>"
  have "caches 5 ?s ?c [1, 2, 3]"
    using sample_facts(1) by (simp add: caches_def blocks_ok_def)
  then have v: "cacheView 5 ?s = Some ([1, 2, 3], 1)" by (rule cacheView_I) simp_all
  then show ?thesis using short_read_overshoots [OF v, of 10 "\<lambda>_. True"] by auto
qed

text \<open>
  Truncating a cached file truncates nothing: the flush succeeds, the disk keeps the whole
  content, and the reported size becomes the requested one exactly when the available space had
  been asked for before.
\<close>

theorem truncate_keeps_content:
  assumes "cacheView h s = Some (x, p)"
  shows "\<exists>s'. midp_file_cache_truncate mem h n s = (None, s') \<and> diskContent h s' = x
    \<and> fst (midp_file_cache_sizeof h s')
      = (None, if map_option cachedAvailableSpace (mFileCache s) = Some UNINITIALIZED_CACHED_VALUE
               then int (length x) else n)"
proof -
  obtain c d where c: "caches h s c d" "x = applyBlocks (cBlocks c) d"
    using assms(1) by (auto simp: cacheView_iff)
  obtain s1 where s1: "midp_file_cache_flush mem h s = (None, s1)"
    "caches h s1 (c\<lparr>cBlocks := [], cSize := 0\<rparr>) x" using flush_result [OF c(1)] c(2) by blast
  have t: "onStorage (storageTruncate h n) s1 = (None, s1)"
    by (simp add: onStorage_def storageTruncate_def onOs_def pcsl_file_truncate_def
        javacall_file_truncate_def resultCode_def)
  note f = cachesD [OF s1(2)]
  have disk: "diskContent h (updCache g s1) = x" for g
    using caches_disk [OF s1(2)] by (simp add: updCache_def diskContent_def)
  show ?thesis
    using s1(1) t f(1,2,6) disk cachesD(1) [OF c(1)]
    by (simp add: midp_file_cache_truncate_def midp_file_cache_sizeof_def updCache_def)
qed

lemma truncate_keeps_content_witness:
  "\<exists>s'. midp_file_cache_truncate (\<lambda>_. True) 5 2 sampleCache = (None, s')
    \<and> diskContent 5 s' = [1, 2, 8, 9] \<and> fst (midp_file_cache_sizeof 5 s') = (None, 2)"
  using truncate_keeps_content [OF sample_view, of "\<lambda>_. True" 2]
  by (simp add: sampleCache_def UNINITIALIZED_CACHED_VALUE_def)

end
