(* ===== verification/Directory.thy ===== *)
theory Directory
  imports Storage PcslString
begin

text \<open>
  Listing directories: the port of the console, \<^verbatim>\<open>javacall/implementation/psp_mips/common/dir.c\<close>,
  the iterator over it in \<^verbatim>\<open>pcsl/file/javacall/pcsl_file.c\<close> and its use by the storage layer.
  \<^verbatim>\<open>readdir\<close> is the operating system: for a directory that can be opened the names and
  directory marks that successive calls of the system function of this name return. A
  \<^verbatim>\<open>DIR\<close> is the list of those not yet read.
\<close>

section \<open>The port\<close>

type_synonym Dirent = "jbyte list \<times> bool"

definition javacall_get_file_separator :: jchar where
  "javacall_get_file_separator = 0x2F"

definition javacall_dir_open ::
  "(path \<Rightarrow> Dirent list option) \<Rightarrow> jchar list \<Rightarrow> Os \<Rightarrow> Dirent list option" where
  "javacall_dir_open readdir path s =
     (case javacall_UNICODEsToUtf8 path s of None \<Rightarrow> None | Some szPath \<Rightarrow> readdir szPath)"

definition javacall_dir_get_next :: "Os \<Rightarrow> Dirent list \<Rightarrow> jchar list option \<times> Dirent list" where
  "javacall_dir_get_next s handle =
     (case handle of
        [] \<Rightarrow> (None, [])
      | (d_name, isdir) # rest \<Rightarrow>
          if int (length d_name) \<ge> int (pathMax s) - 1 then (None, rest)
          else (Some (map ucast d_name @ (if isdir then [0x2F] else [])), rest))"

definition javacall_dir_get_free_space_for_java :: int where
  "javacall_dir_get_free_space_for_java = 0"

definition javacall_dir_get_root_path :: "int \<Rightarrow> javacall_result \<times> jchar list \<times> int" where
  "javacall_dir_get_root_path rootPathLen =
     (let root = [0x2E]; len = int (length root) in
      if rootPathLen < len then (JAVACALL_FAIL, [], rootPathLen) else (JAVACALL_OK, root, len))"

definition javacall_dir_is_secure_storage :: "jchar list \<Rightarrow> bool" where
  "javacall_dir_is_secure_storage classPath = False"

section \<open>The iterator\<close>

definition pcsl_file_getfileseparator :: jchar where
  "pcsl_file_getfileseparator = javacall_get_file_separator"

definition pcsl_file_getpathseparator :: jchar where
  "pcsl_file_getpathseparator = 0x3A"

definition pcsl_file_getfreespace :: int where
  "pcsl_file_getfreespace = javacall_dir_get_free_space_for_java"

definition pcsl_file_openfilelist ::
  "(int \<Rightarrow> bool) \<Rightarrow> (path \<Rightarrow> Dirent list option) \<Rightarrow> PcslString \<Rightarrow> Os \<Rightarrow> Dirent list option" where
  "pcsl_file_openfilelist mem readdir string s =
     (let pathLen = pcsl_string_last_index_of (Some string) (uint pcsl_file_getfileseparator);
          (status, path) =
            (if pathLen \<le> 0
             then pcsl_string_convert_from_utf8 mem (mem 4) (Some [0x2E]) 1 (Some NULL_STRING)
             else pcsl_string_substring mem (Some string) 0 (pathLen + 1) (Some NULL_STRING)) in
      if status \<noteq> PCSL_STRING_OK then None
      else case pcsl_string_convert_to_utf16 path (Some (replicate (pathMax s + 1) 0)) of
             (PCSL_STRING_OK, Some converted_length, Some utf16_dirName) \<Rightarrow>
               javacall_dir_open readdir (take (nat converted_length) utf16_dirName) s
           | _ \<Rightarrow> None)"

text \<open>The loop over the entries up to the first match.\<close>

fun nextMatch :: "(int \<Rightarrow> bool) \<Rightarrow> Os \<Rightarrow> PcslString option \<Rightarrow> Dirent list
    \<Rightarrow> jchar list option \<times> Dirent list" where
  "nextMatch mem s pfx [] = (None, [])"
| "nextMatch mem s pfx (d # ds) =
     (case javacall_dir_get_next s (d # ds) of
        (None, rest) \<Rightarrow> (None, rest)
      | (Some tmp, rest) \<Rightarrow>
          let (status, match) =
                pcsl_string_convert_from_utf16 mem (Some tmp) (int (length tmp)) (Some NULL_STRING) in
          if status \<noteq> PCSL_STRING_OK then (None, rest)
          else if pcsl_string_starts_with match pfx then (Some tmp, rest)
          else nextMatch mem s pfx ds)"

lemma nextMatch_length: "nextMatch mem s pfx ds = (Some tmp, rest) \<Longrightarrow> length rest < length ds"
  by (induction ds) (auto simp: javacall_dir_get_next_def less_Suc_eq split: if_splits prod.splits)

definition pcsl_file_getnextentry ::
  "(int \<Rightarrow> bool) \<Rightarrow> Os \<Rightarrow> Dirent list \<Rightarrow> PcslString \<Rightarrow> PcslString option \<times> Dirent list" where
  "pcsl_file_getnextentry mem s handle string =
     (let pathLen = pcsl_string_last_index_of (Some string) (uint pcsl_file_getfileseparator);
          pathLen = (if pathLen < 0 then -1 else pathLen);
          (status, pfx) = pcsl_string_substring mem (Some string) (pathLen + 1)
             (pcsl_string_length (Some string)) (Some NULL_STRING) in
      if status \<noteq> PCSL_STRING_OK then (None, handle)
      else case nextMatch mem s pfx handle of
             (None, rest) \<Rightarrow> (None, rest)
           | (Some tmp, rest) \<Rightarrow>
               let (status, result) = pcsl_string_substring mem (Some string) 0 (pathLen + 1)
                     (Some NULL_STRING) in
               if status = PCSL_STRING_OK
               then (case pcsl_string_append_buf mem result (Some tmp) (int (length tmp)) of
                       Some (PCSL_STRING_OK, r) \<Rightarrow> (r, rest)
                     | _ \<Rightarrow> (None, rest))
               else (None, rest))"

lemma getnextentry_length:
  "pcsl_file_getnextentry mem s handle string = (Some r, rest) \<Longrightarrow> length rest < length handle"
  by (auto simp: pcsl_file_getnextentry_def Let_def dest: nextMatch_length
      split: if_splits prod.splits option.splits pcsl_string_status.splits)

section \<open>The storage layer\<close>

definition storage_open_file_iterator ::
  "(int \<Rightarrow> bool) \<Rightarrow> (path \<Rightarrow> Dirent list option) \<Rightarrow> PcslString \<Rightarrow> StorageSys \<Rightarrow> Dirent list option" where
  "storage_open_file_iterator mem readdir string_str s =
     pcsl_file_openfilelist mem readdir string_str (os s)"

definition storage_get_next_file_in_iterator ::
  "(int \<Rightarrow> bool) \<Rightarrow> PcslString \<Rightarrow> Dirent list \<Rightarrow> StorageSys \<Rightarrow> PcslString option \<times> Dirent list" where
  "storage_get_next_file_in_iterator mem string_str handle s =
     pcsl_file_getnextentry mem (os s) handle string_str"

definition storageGetFileSeparator :: jchar where
  "storageGetFileSeparator = pcsl_file_getfileseparator"

end
