(* ===== verification/RecordStore.thy ===== *)
theory RecordStore
  imports FileCache Directory
begin

text \<open>
  Record stores, \<^verbatim>\<open>midp/src/rms/record_store/file_based/native/rms.c\<close>: the files of a suite's
  record stores and the list of locks of the open ones, with the file names of
  \<^verbatim>\<open>midp/src/ams/suitestore/recordstore_api/reference/native/suitestore_rms.c\<close>. Where an operation
  has an outer \<open>option\<close>, \<open>None\<close> is undefined behaviour of the C code.
\<close>

section \<open>State\<close>

record LockNode =
  lSuiteId :: int
  lName :: PcslString
  lHandle :: int

record RmsSys =
  cacheSys :: CacheSys
  lockFileList :: "LockNode list"

datatype RmsError = FILE_LOCK_ERROR | StorageFailure StorageError

type_synonym rms_error = "RmsError option"

text \<open>
  What the operations take from their surroundings: the status of \<^verbatim>\<open>read_suites_data\<close> and the
  suites it loads (suite and storage identifiers), whether allocations succeed (of strings and
  buffers, of lock nodes, of the cache), the calling isolate, the cache limit and the system's
  directories.
\<close>

record RmsEnv =
  readSuites :: int
  suitesData :: "(int \<times> int) list"
  strMem :: "int \<Rightarrow> bool"
  nodeMem :: bool
  cacheMem :: "nat \<Rightarrow> bool"
  cacheRecord :: nat
  isolate :: int
  cacheLimit :: int
  readdir :: "path \<Rightarrow> Dirent list option"

definition DB_EXTENSION_INDEX :: int where "DB_EXTENSION_INDEX = 0"
definition IDX_EXTENSION_INDEX :: int where "IDX_EXTENSION_INDEX = 1"
definition MIDP_RMS_DB_EXT :: int where "MIDP_RMS_DB_EXT = 0"
definition MIDP_RMS_IDX_EXT :: int where "MIDP_RMS_IDX_EXT = 1"

definition DB_EXTENSION :: PcslString where
  "DB_EXTENSION = \<lparr>sData = Some [0x2E, 0x64, 0x62, 0], sLength = 4, sFlags = 0\<rparr>"

definition IDX_EXTENSION :: PcslString where
  "IDX_EXTENSION = \<lparr>sData = Some [0x2E, 0x69, 0x64, 0x78, 0], sLength = 5, sFlags = 0\<rparr>"

definition OUT_OF_MEM_LEN :: int where "OUT_OF_MEM_LEN = -30"
definition ALL_OK :: int where "ALL_OK = 0"
definition NOT_FOUND :: int where "NOT_FOUND = -6"
definition OUT_OF_MEMORY :: int where "OUT_OF_MEMORY = -2"
definition BAD_PARAMS :: int where "BAD_PARAMS = -12"
definition MIDP_ERROR_NONE :: int where "MIDP_ERROR_NONE = 0"
definition MIDP_ERROR_FOREIGN :: int where "MIDP_ERROR_FOREIGN = 1"
definition MIDP_ERROR_ILLEGAL_ARGUMENT :: int where "MIDP_ERROR_ILLEGAL_ARGUMENT = 2"
definition INTERNAL_SUITE_ID :: int where "INTERNAL_SUITE_ID = -1"

definition onCache :: "(CacheSys \<Rightarrow> 'a \<times> CacheSys) \<Rightarrow> RmsSys \<Rightarrow> 'a \<times> RmsSys" where
  "onCache f s = (let (r, c) = f (cacheSys s) in (r, s\<lparr>cacheSys := c\<rparr>))"

section \<open>Suites\<close>

definition get_suite_data :: "(int \<times> int) list \<Rightarrow> int \<Rightarrow> (int \<times> int) option" where
  "get_suite_data suites suiteId = find (\<lambda>(i, _). i = suiteId) suites"

definition midp_suite_get_suite_storage :: "RmsEnv \<Rightarrow> int \<Rightarrow> int \<times> int" where
  "midp_suite_get_suite_storage e suiteId =
     (if suiteId = INTERNAL_SUITE_ID then (ALL_OK, INTERNAL_STORAGE_ID)
      else if readSuites e \<noteq> ALL_OK then (readSuites e, -1)
      else case get_suite_data (suitesData e) suiteId of
             Some (_, st) \<Rightarrow> (ALL_OK, st)
           | None \<Rightarrow> (NOT_FOUND, -1))"

definition hexDigit :: "32 word \<Rightarrow> jchar" where
  "hexDigit v = [0x30, 0x31, 0x32, 0x33, 0x34, 0x35, 0x36, 0x37, 0x38, 0x39,
     0x41, 0x42, 0x43, 0x44, 0x45, 0x46] ! unat (v AND 15)"

definition midp_suiteid2pcsl_string :: "int \<Rightarrow> PcslString" where
  "midp_suiteid2pcsl_string v =
     (let w = (word_of_int v :: 32 word) in
      \<lparr>sData = Some (map (\<lambda>i. hexDigit (drop_bit (4 * i) w)) [7, 6, 5, 4, 3, 2, 1, 0] @ [0]),
       sLength = 9, sFlags = 0\<rparr>)"

section \<open>File names\<close>

definition fromText :: "pcsl_string \<Rightarrow> PcslString" where
  "fromText t = (case t of None \<Rightarrow> NULL_STRING | Some cs \<Rightarrow> heapString (cs @ [0]))"

text \<open>Consecutive appends to a string, up to the first failure.\<close>

fun appendAll :: "(int \<Rightarrow> bool) \<Rightarrow> PcslString \<Rightarrow> PcslString list \<Rightarrow> PcslString option option" where
  "appendAll mem dst [] = Some (Some dst)"
| "appendAll mem dst (s # ss) =
     (case pcsl_string_append mem (Some dst) (Some s) of
        Some (PCSL_STRING_OK, Some r) \<Rightarrow> appendAll mem r ss
      | None \<Rightarrow> None
      | _ \<Rightarrow> Some None)"

definition midp_suite_get_rms_filename ::
  "(int \<Rightarrow> bool) \<Rightarrow> pcsl_string \<Rightarrow> int \<Rightarrow> int \<Rightarrow> PcslString \<Rightarrow> (int \<times> PcslString) option" where
  "midp_suite_get_rms_filename mem root suiteId extension pResourceName =
     do { rms \<leftarrow>
            (if pcsl_string_length (Some pResourceName) > 0 then
               if extension \<noteq> MIDP_RMS_IDX_EXT \<and> extension \<noteq> MIDP_RMS_DB_EXT
               then Some (Inl BAD_PARAMS)
               else
                 let ext = (if MIDP_RMS_IDX_EXT = extension then IDX_EXTENSION else DB_EXTENSION) in
                 do { (rc, r) \<leftarrow> pcsl_string_append_escaped_ascii mem (Some NULL_STRING) (Some pResourceName);
                      if rc \<noteq> PCSL_STRING_OK then Some (Inl OUT_OF_MEMORY)
                      else do { (rc, r) \<leftarrow> pcsl_string_append mem r (Some ext);
                                if rc \<noteq> PCSL_STRING_OK then Some (Inl OUT_OF_MEMORY)
                                else Some (Inr (the r)) } }
             else Some (Inr NULL_STRING));
          case rms of
            Inl err \<Rightarrow> Some (err, NULL_STRING)
          | Inr rmsFileName \<Rightarrow>
              do { p \<leftarrow> appendAll mem NULL_STRING
                          [fromText root, midp_suiteid2pcsl_string suiteId, rmsFileName];
                   Some (case p of None \<Rightarrow> (OUT_OF_MEMORY, NULL_STRING)
                                 | Some returnPath \<Rightarrow> (ALL_OK, returnPath)) } }"

definition rmsdb_get_unique_id_path ::
  "RmsEnv \<Rightarrow> StorageSys \<Rightarrow> int \<Rightarrow> int \<Rightarrow> PcslString \<Rightarrow> int \<Rightarrow> (int \<times> PcslString) option" where
  "rmsdb_get_unique_id_path e s suiteId storageId name extension =
     (if pcsl_string_is_null (Some name) then Some (MIDP_ERROR_ILLEGAL_ARGUMENT, NULL_STRING)
      else do { (midpErr, res_path) \<leftarrow>
                  midp_suite_get_rms_filename (strMem e) (storage_get_root storageId s) suiteId
                    (if extension = IDX_EXTENSION_INDEX then MIDP_RMS_IDX_EXT else MIDP_RMS_DB_EXT) name;
                if midpErr \<noteq> MIDP_ERROR_NONE then Some (midpErr, res_path)
                else if pcsl_string_is_null (Some res_path) then
                  let (pcslErr, temp) = pcsl_string_cat (strMem e) (Some (fromText (storage_get_root storageId s)))
                        (Some (midp_suiteid2pcsl_string suiteId)) (Some NULL_STRING) in
                  if pcslErr \<noteq> PCSL_STRING_OK \<or> pcsl_string_is_null temp
                  then Some (MIDP_ERROR_FOREIGN, res_path)
                  else
                    let (pcslErr, r) = pcsl_string_cat (strMem e) temp (Some name) (Some res_path) in
                    if PCSL_STRING_OK \<noteq> pcslErr then Some (MIDP_ERROR_FOREIGN, the r)
                    else Some (MIDP_ERROR_NONE, the r)
                else Some (MIDP_ERROR_NONE, res_path) })"

section \<open>Locks\<close>

definition findLockById :: "int \<Rightarrow> PcslString \<Rightarrow> LockNode list \<Rightarrow> LockNode option" where
  "findLockById suiteId name_str locks =
     find (\<lambda>n. lSuiteId n = suiteId \<and> pcsl_string_equals (Some (lName n)) (Some name_str)) locks"

definition recordStoreCreateLock :: "RmsEnv \<Rightarrow> int \<Rightarrow> PcslString \<Rightarrow> int \<Rightarrow> RmsSys \<Rightarrow> int \<times> RmsSys" where
  "recordStoreCreateLock e suiteId name_str handle s =
     (if \<not> nodeMem e then (OUT_OF_MEM_LEN, s)
      else
        let (_, name) = pcsl_string_dup (strMem e) (Some name_str) (Some NULL_STRING) in
        if pcsl_string_is_null name then (OUT_OF_MEM_LEN, s)
        else (0, s\<lparr>lockFileList :=
                 \<lparr>lSuiteId = suiteId, lName = the name, lHandle = handle\<rparr> # lockFileList s\<rparr>))"

text \<open>The first node with the handle is unlinked, at the head or behind it.\<close>

fun unlinkNode :: "int \<Rightarrow> LockNode list \<Rightarrow> LockNode list" where
  "unlinkNode handle [] = []"
| "unlinkNode handle (n # ns) = (if lHandle n = handle then ns else n # unlinkNode handle ns)"

definition recordStoreDeleteLock :: "int \<Rightarrow> RmsSys \<Rightarrow> RmsSys" where
  "recordStoreDeleteLock handle s =
     (if lockFileList s = [] then s else s\<lparr>lockFileList := unlinkNode handle (lockFileList s)\<rparr>)"

section \<open>Opening, closing and deleting\<close>

definition rmsdb_record_store_exists ::
  "RmsEnv \<Rightarrow> int \<Rightarrow> PcslString \<Rightarrow> int \<Rightarrow> RmsSys \<Rightarrow> (bool \<times> RmsSys) option" where
  "rmsdb_record_store_exists e suiteId name extension s =
     (let (status, storageId) = midp_suite_get_suite_storage e suiteId in
      if status \<noteq> ALL_OK then Some (False, s)
      else do { (err, filename) \<leftarrow>
                  rmsdb_get_unique_id_path e (storage (cacheSys s)) suiteId storageId name extension;
                if MIDP_ERROR_NONE \<noteq> err then Some (False, s)
                else if pcsl_string_is_null (Some filename) then Some (False, s)
                else Some (onCache (onStorage (storage_file_exists (textOf filename))) s) })"

definition rmsdb_record_store_delete ::
  "RmsEnv \<Rightarrow> int \<Rightarrow> PcslString \<Rightarrow> int \<Rightarrow> RmsSys \<Rightarrow> ((rms_error \<times> int) \<times> RmsSys) option" where
  "rmsdb_record_store_delete e suiteId name_str extension s =
     (if extension = DB_EXTENSION_INDEX \<and> findLockById suiteId name_str (lockFileList s) \<noteq> None
      then Some ((Some FILE_LOCK_ERROR, -1), s)
      else
        let (status, storageId) = midp_suite_get_suite_storage e suiteId in
        if status \<noteq> ALL_OK then Some ((None, 0), s)
        else do { (err, filename_str) \<leftarrow>
                    rmsdb_get_unique_id_path e (storage (cacheSys s)) suiteId storageId name_str extension;
                  if MIDP_ERROR_NONE \<noteq> err then Some ((None, -2), s)
                  else
                    let (pszError, s1) =
                          onCache (onStorage (storage_delete_file (textOf filename_str))) s in
                    Some ((map_option StorageFailure pszError, if pszError \<noteq> None then 0 else 1), s1) })"

definition rmsdb_record_store_open ::
  "RmsEnv \<Rightarrow> int \<Rightarrow> PcslString \<Rightarrow> int \<Rightarrow> RmsSys \<Rightarrow> ((rms_error \<times> int) \<times> RmsSys) option" where
  "rmsdb_record_store_open e suiteId name_str extension s =
     (let addflag = (extension = DB_EXTENSION_INDEX \<and> lockFileList s \<noteq> []) in
      if addflag \<and> findLockById suiteId name_str (lockFileList s) \<noteq> None
      then Some ((Some FILE_LOCK_ERROR, -2), s)
      else
        let (status, storageId) = midp_suite_get_suite_storage e suiteId in
        if status \<noteq> ALL_OK then Some ((None, 0), s)
        else do { (err, filename_str) \<leftarrow>
                    rmsdb_get_unique_id_path e (storage (cacheSys s)) suiteId storageId name_str extension;
                  if MIDP_ERROR_NONE \<noteq> err then Some ((None, -1), s)
                  else do {
                    ((pszError, handle), c) \<leftarrow> midp_file_cache_open (cacheMem e) (cacheRecord e)
                        (isolate e) storageId (textOf filename_str) OPEN_READ_WRITE (cacheSys s);
                    let s1 = s\<lparr>cacheSys := c\<rparr>;
                    if pszError \<noteq> None then Some ((map_option StorageFailure pszError, -1), s1)
                    else if extension = DB_EXTENSION_INDEX \<and> (lockFileList s1 = [] \<or> addflag) then
                      let (r, s2) = recordStoreCreateLock e suiteId name_str handle s1 in
                      if r \<noteq> 0 then Some ((None, -1), s2) else Some ((None, handle), s2)
                    else Some ((None, handle), s1) } })"

definition recordStoreClose :: "RmsEnv \<Rightarrow> int \<Rightarrow> RmsSys \<Rightarrow> (rms_error \<times> RmsSys) option" where
  "recordStoreClose e handle s =
     do { (pszError, c) \<leftarrow> midp_file_cache_close (cacheMem e) (isolate e) handle (cacheSys s);
          let s1 = s\<lparr>cacheSys := c\<rparr>;
          if pszError \<noteq> None then Some (map_option StorageFailure pszError, s1)
          else Some (None, recordStoreDeleteLock handle s1) }"

section \<open>Data of an open store\<close>

definition rmsError :: "error \<times> RmsSys \<Rightarrow> rms_error \<times> RmsSys" where
  "rmsError p = (map_option StorageFailure (fst p), snd p)"

definition recordStoreSetPosition :: "int \<Rightarrow> int \<Rightarrow> RmsSys \<Rightarrow> rms_error \<times> RmsSys" where
  "recordStoreSetPosition handle pos s = rmsError (onCache (midp_file_cache_seek handle pos) s)"

definition recordStoreWrite :: "RmsEnv \<Rightarrow> int \<Rightarrow> jbyte list \<Rightarrow> RmsSys \<Rightarrow> rms_error \<times> RmsSys" where
  "recordStoreWrite e handle buffer s =
     rmsError (onCache (midp_file_cache_write (cacheMem e) (cacheLimit e) handle buffer) s)"

definition recordStoreCommitWrite :: "RmsEnv \<Rightarrow> int \<Rightarrow> RmsSys \<Rightarrow> rms_error \<times> RmsSys" where
  "recordStoreCommitWrite e handle s = rmsError (onCache (midp_file_cache_flush (cacheMem e) handle) s)"

definition recordStoreRead ::
  "RmsEnv \<Rightarrow> int \<Rightarrow> nat \<Rightarrow> RmsSys \<Rightarrow> (rms_error \<times> int \<times> jbyte list) \<times> RmsSys" where
  "recordStoreRead e handle len s =
     (let ((err, n, bs), s1) = onCache (midp_file_cache_read (cacheMem e) handle len) s in
      ((map_option StorageFailure err, n, bs), s1))"

definition recordStoreTruncate :: "RmsEnv \<Rightarrow> int \<Rightarrow> int \<Rightarrow> RmsSys \<Rightarrow> rms_error \<times> RmsSys" where
  "recordStoreTruncate e handle sz s = rmsError (onCache (midp_file_cache_truncate (cacheMem e) handle sz) s)"

definition recordStoreSizeOf :: "int \<Rightarrow> RmsSys \<Rightarrow> (rms_error \<times> int) \<times> RmsSys" where
  "recordStoreSizeOf handle s =
     (let ((err, n), s1) = onCache (midp_file_cache_sizeof handle) s in
      ((map_option StorageFailure err, n), s1))"

definition LONG_MAX :: int where
  "LONG_MAX = 2 ^ 31 - 1"

definition rmsdb_get_record_store_space_available :: "RmsEnv \<Rightarrow> int \<Rightarrow> int \<Rightarrow> RmsSys \<Rightarrow> int \<times> RmsSys" where
  "rmsdb_get_record_store_space_available e handle suiteId s =
     (let (status, storageId) = midp_suite_get_suite_storage e suiteId in
      if status \<noteq> ALL_OK then (0, s)
      else
        let ((_, availSpace), s1) = onCache (midp_file_cache_available_space (cacheMem e) handle storageId) s in
        (if availSpace \<le> LONG_MAX then availSpace else LONG_MAX, s1))"

definition rmsdb_get_new_record_store_space_available :: "RmsEnv \<Rightarrow> int \<Rightarrow> RmsSys \<Rightarrow> int \<times> RmsSys" where
  "rmsdb_get_new_record_store_space_available e suiteId s =
     rmsdb_get_record_store_space_available e (-1) suiteId s"

section \<open>The stores of a suite\<close>

function countStores :: "RmsEnv \<Rightarrow> PcslString \<Rightarrow> StorageSys \<Rightarrow> Dirent list \<Rightarrow> int \<Rightarrow> int" where
  "countStores e root s handle numberOfStores =
     (case storage_get_next_file_in_iterator (strMem e) root handle s of
        (None, _) \<Rightarrow> numberOfStores
      | (Some filename, rest) \<Rightarrow>
          countStores e root s rest
            (if pcsl_string_ends_with (Some filename) (Some DB_EXTENSION)
             then numberOfStores + 1 else numberOfStores))"
  by pat_completeness auto
termination
  by (relation "measure (\<lambda>(e, root, s, handle, n). length handle)")
    (auto simp: storage_get_next_file_in_iterator_def dest: getnextentry_length [OF sym])

declare countStores.simps [simp del]

definition rmsdb_get_number_of_record_stores_int :: "RmsEnv \<Rightarrow> PcslString \<Rightarrow> StorageSys \<Rightarrow> int" where
  "rmsdb_get_number_of_record_stores_int e root s =
     (case storage_open_file_iterator (strMem e) (readdir e) root s of
        None \<Rightarrow> OUT_OF_MEM_LEN
      | Some handle \<Rightarrow> countStores e root s handle 0)"

text \<open>The root of a suite's files: the name for an empty resource and no extension.\<close>

definition rmsdb_get_number_of_record_stores :: "RmsEnv \<Rightarrow> int \<Rightarrow> StorageSys \<Rightarrow> int option" where
  "rmsdb_get_number_of_record_stores e suiteId s =
     (let (status, storageId) = midp_suite_get_suite_storage e suiteId in
      if status \<noteq> ALL_OK then Some OUT_OF_MEM_LEN
      else do { (status, root) \<leftarrow> midp_suite_get_rms_filename (strMem e) (storage_get_root storageId s)
                                   suiteId (-1) EMPTY_STRING;
                if status \<noteq> ALL_OK then Some OUT_OF_MEM_LEN
                else if sData root = None then Some 0
                else Some (rmsdb_get_number_of_record_stores_int e root s) })"

text \<open>The inverse of \<^verbatim>\<open>pcsl_string_append_escaped_ascii\<close>; \<open>None\<close> for a read behind the text.\<close>

definition escaped_ascii_to_unicode :: "(int \<Rightarrow> bool) \<Rightarrow> PcslString \<Rightarrow> PcslString stored option" where
  "escaped_ascii_to_unicode mem str =
     (let str_len = pcsl_string_utf16_length (Some str) in
      if \<not> mem (str_len * 2) then Some (PCSL_STRING_ENOMEM, Some NULL_STRING)
      else do { result_data \<leftarrow> unescapeLoop (take (nat str_len) (cellsOf str)) 0 [];
                let (st, r) = pcsl_string_convert_from_utf16 mem (Some result_data)
                      (int (length result_data)) (Some NULL_STRING);
                Some (if PCSL_STRING_OK \<noteq> st then PCSL_STRING_ENOMEM else PCSL_STRING_OK, r) })"

text \<open>The main loop: the names found, or with the status of the conversion that failed, if one did.\<close>

function listLoop :: "RmsEnv \<Rightarrow> PcslString \<Rightarrow> StorageSys \<Rightarrow> int \<Rightarrow> Dirent list \<Rightarrow> PcslString list
    \<Rightarrow> (pcsl_string_status \<times> PcslString list) option" where
  "listLoop e root s numberOfStores handle found =
     (case storage_get_next_file_in_iterator (strMem e) root handle s of
        (None, _) \<Rightarrow> Some (PCSL_STRING_OK, found)
      | (Some filename, rest) \<Rightarrow>
          if pcsl_string_ends_with (Some filename) (Some DB_EXTENSION) then
            let (s_errc, ascii_name) = pcsl_string_substring (strMem e) (Some filename)
                  (pcsl_string_length (Some root))
                  (pcsl_string_length (Some filename) - pcsl_string_length (Some DB_EXTENSION))
                  (Some NULL_STRING) in
            if PCSL_STRING_OK \<noteq> s_errc then Some (s_errc, found)
            else do { (s_errc, name) \<leftarrow> escaped_ascii_to_unicode (strMem e) (the ascii_name);
                      if PCSL_STRING_OK \<noteq> s_errc then Some (s_errc, found)
                      else
                        let found' = found @ [the name] in
                        if int (length found') = numberOfStores then Some (PCSL_STRING_OK, found')
                        else listLoop e root s numberOfStores rest found' }
          else if int (length found) = numberOfStores then Some (PCSL_STRING_OK, found)
          else listLoop e root s numberOfStores rest found)"
  by pat_completeness auto
termination
  by (relation "measure (\<lambda>(e, root, s, n, handle, found). length handle)")
    (auto simp: storage_get_next_file_in_iterator_def dest: getnextentry_length [OF sym])

declare listLoop.simps [simp del]

definition rmsdb_get_record_store_list ::
  "RmsEnv \<Rightarrow> int \<Rightarrow> StorageSys \<Rightarrow> (int \<times> PcslString list) option" where
  "rmsdb_get_record_store_list e suiteId s =
     (let (status, storageId) = midp_suite_get_suite_storage e suiteId in
      if status \<noteq> ALL_OK then Some (OUT_OF_MEM_LEN, [])
      else do { (status, root) \<leftarrow> midp_suite_get_rms_filename (strMem e) (storage_get_root storageId s)
                                   suiteId (-1) EMPTY_STRING;
                if status \<noteq> ALL_OK then Some (OUT_OF_MEM_LEN, [])
                else if pcsl_string_is_null (Some root) then Some (0, [])
                else
                  let numberOfStores = rmsdb_get_number_of_record_stores_int e root s in
                  if numberOfStores \<le> 0 then Some (numberOfStores, [])
                  else if \<not> strMem e (numberOfStores * 12) then Some (OUT_OF_MEM_LEN, [])
                  else case storage_open_file_iterator (strMem e) (readdir e) root s of
                         None \<Rightarrow> Some (OUT_OF_MEM_LEN, [])
                       | Some handle \<Rightarrow>
                           do { (s_errc, found) \<leftarrow> listLoop e root s numberOfStores handle [];
                                if s_errc \<noteq> PCSL_STRING_OK then Some (OUT_OF_MEM_LEN, [])
                                else Some (numberOfStores,
                                       found @ replicate (nat numberOfStores - length found) NULL_STRING) } })"

section \<open>All stores of a suite\<close>

fun removeLoop :: "RmsEnv \<Rightarrow> int \<Rightarrow> PcslString list \<Rightarrow> RmsSys \<Rightarrow> (int \<times> RmsSys) option" where
  "removeLoop e suiteId [] s = Some (1, s)"
| "removeLoop e suiteId (n # ns) s =
     do { ((_, r), s1) \<leftarrow> rmsdb_record_store_delete e suiteId n DB_EXTENSION_INDEX s;
          if r \<le> 0 then Some (0, s1)
          else do { (_, s2) \<leftarrow> rmsdb_record_store_delete e suiteId n IDX_EXTENSION_INDEX s1;
                    removeLoop e suiteId ns s2 } }"

text \<open>\<^verbatim>\<open>initOk\<close>: whether \<^verbatim>\<open>midpInit(LIST_LEVEL)\<close> returns 0.\<close>

definition rmsdb_remove_record_stores_for_suite ::
  "RmsEnv \<Rightarrow> bool \<Rightarrow> int \<Rightarrow> RmsSys \<Rightarrow> (int \<times> RmsSys) option" where
  "rmsdb_remove_record_stores_for_suite e initOk suiteId s =
     (if \<not> initOk then Some (0, s)
      else do { (numberOfNames, pNames) \<leftarrow> rmsdb_get_record_store_list e suiteId (storage (cacheSys s));
                if numberOfNames = OUT_OF_MEM_LEN then Some (0, s)
                else if numberOfNames \<le> 0 then Some (1, s)
                else removeLoop e suiteId pNames s })"

definition rmsdb_suite_has_rms_data :: "RmsEnv \<Rightarrow> bool \<Rightarrow> int \<Rightarrow> RmsSys \<Rightarrow> bool option" where
  "rmsdb_suite_has_rms_data e initOk suiteId s =
     (if \<not> initOk then Some False
      else do { n \<leftarrow> rmsdb_get_number_of_record_stores e suiteId (storage (cacheSys s)); Some (n > 0) })"

fun sizeLoop :: "RmsEnv \<Rightarrow> int \<Rightarrow> PcslString list \<Rightarrow> int \<Rightarrow> RmsSys \<Rightarrow> (int \<times> RmsSys) option" where
  "sizeLoop e suiteId [] bytesUsed s = Some (bytesUsed, s)"
| "sizeLoop e suiteId (n # ns) bytesUsed s =
     do { ((pszError, handle), s1) \<leftarrow> rmsdb_record_store_open e suiteId n DB_EXTENSION_INDEX s;
          if pszError \<noteq> None then Some (bytesUsed, s1)
          else if handle = -1 then Some (bytesUsed, s1)
          else
            let ((pszError, sz), s2) = recordStoreSizeOf handle s1 in
            do { (_, s3) \<leftarrow> recordStoreClose e handle s2;
                 if pszError \<noteq> None then Some (bytesUsed + sz, s3)
                 else sizeLoop e suiteId ns (bytesUsed + sz) s3 } }"

definition rmsdb_get_rms_storage_size :: "RmsEnv \<Rightarrow> int \<Rightarrow> RmsSys \<Rightarrow> (int \<times> RmsSys) option" where
  "rmsdb_get_rms_storage_size e suiteId s =
     do { (numberOfNames, pNames) \<leftarrow> rmsdb_get_record_store_list e suiteId (storage (cacheSys s));
          if numberOfNames = OUT_OF_MEM_LEN then Some (OUT_OF_MEM_LEN, s)
          else if numberOfNames = 0 then Some (0, s)
          else sizeLoop e suiteId pNames 0 s }"

section \<open>Exclusive locks\<close>

text \<open>The steps: the operations with any surroundings, the names being well-formed strings.\<close>

inductive rmsStep :: "RmsSys \<Rightarrow> RmsSys \<Rightarrow> bool" where
  open_store: "pcslOk name \<Longrightarrow> rmsdb_record_store_open e i name ext s = Some (r, s') \<Longrightarrow> rmsStep s s'"
| close_store: "recordStoreClose e h s = Some (err, s') \<Longrightarrow> rmsStep s s'"
| delete_store: "rmsdb_record_store_delete e i name ext s = Some (r, s') \<Longrightarrow> rmsStep s s'"
| exists_store: "rmsdb_record_store_exists e i name ext s = Some (b, s') \<Longrightarrow> rmsStep s s'"
| position: "recordStoreSetPosition h k s = (err, s') \<Longrightarrow> rmsStep s s'"
| write_store: "recordStoreWrite e h bs s = (err, s') \<Longrightarrow> rmsStep s s'"
| commit: "recordStoreCommitWrite e h s = (err, s') \<Longrightarrow> rmsStep s s'"
| read_store: "recordStoreRead e h n s = (res, s') \<Longrightarrow> rmsStep s s'"
| truncate: "recordStoreTruncate e h sz s = (err, s') \<Longrightarrow> rmsStep s s'"
| size_of: "recordStoreSizeOf h s = (res, s') \<Longrightarrow> rmsStep s s'"
| space: "rmsdb_get_record_store_space_available e h i s = (n, s') \<Longrightarrow> rmsStep s s'"

inductive rmsReachable :: "RmsSys \<Rightarrow> bool" where
  start: "lockFileList s = [] \<Longrightarrow> rmsReachable s"
| step: "rmsReachable s \<Longrightarrow> rmsStep s s' \<Longrightarrow> rmsReachable s'"

definition lockKey :: "LockNode \<Rightarrow> int \<times> pcsl_string" where
  "lockKey n = (lSuiteId n, textOf (lName n))"

definition locksOk :: "LockNode list \<Rightarrow> bool" where
  "locksOk ns \<longleftrightarrow> distinct (map lockKey ns) \<and> (\<forall>n \<in> set ns. pcslOk (lName n) \<and> textOf (lName n) \<noteq> None)"

lemma find_lock:
  assumes "locksOk ns" "pcslOk name"
  shows "findLockById i name ns = find (\<lambda>n. lockKey n = (i, textOf name)) ns"
proof -
  have "find (\<lambda>n. lSuiteId n = i \<and> pcsl_string_equals (Some (lName n)) (Some name)) ns
      = find (\<lambda>n. lockKey n = (i, textOf name)) ns"
    using assms(1)
    by (intro find_cong) (auto simp: locksOk_def lockKey_def equals_refines [OF _ assms(2)])
  then show ?thesis by (simp add: findLockById_def)
qed

lemma find_lock_None:
  "locksOk ns \<Longrightarrow> pcslOk name \<Longrightarrow> findLockById i name ns = None \<longleftrightarrow> (i, textOf name) \<notin> lockKey ` set ns"
  by (simp add: find_lock find_None_iff image_iff) (metis (no_types, lifting))

lemma create_lock_ok:
  assumes "locksOk (lockFileList s)" "pcslOk name" "(i, textOf name) \<notin> lockKey ` set (lockFileList s)"
  shows "locksOk (lockFileList (snd (recordStoreCreateLock e i name h s)))"
proof -
  obtain st r where d: "pcsl_string_dup (strMem e) (Some name) (Some NULL_STRING) = (st, Some r)" "pcslOk r"
    "st = PCSL_STRING_OK \<longrightarrow> textOf r = textOf name"
    using dup_result [OF assms(2)] by (metis prod.collapse)
  have "textOf r = textOf name" if "\<not> pcsl_string_is_null (Some r)"
    using that d(3) dup_fails [OF assms(2) d(1)] by (auto simp: pcsl_string_is_null_def)
  moreover have "textOf r \<noteq> None" if "\<not> pcsl_string_is_null (Some r)"
    using that by (auto simp: pcsl_string_is_null_def textOf_def)
  ultimately show ?thesis using assms d
    by (auto simp: recordStoreCreateLock_def locksOk_def lockKey_def)
qed

lemma unlink_set: "set (unlinkNode h ns) \<subseteq> set ns"
  by (induction ns) auto

lemma unlink_ok: "locksOk ns \<Longrightarrow> locksOk (unlinkNode h ns)"
proof -
  assume ok: "locksOk ns"
  have "distinct (map lockKey ms) \<Longrightarrow> distinct (map lockKey (unlinkNode h ms))" for ms
    using unlink_set by (induction ms) auto
  with ok unlink_set show ?thesis unfolding locksOk_def by blast
qed

lemma onCache_locks: "onCache f s = (r, s') \<Longrightarrow> lockFileList s' = lockFileList s"
  by (auto simp: onCache_def split: prod.splits)

lemma snd_onCache [simp]: "lockFileList (snd (onCache f s)) = lockFileList s"
  using onCache_locks [of f s] by (metis prod.collapse)

lemma open_locks:
  assumes "locksOk (lockFileList s)" "pcslOk name"
    "rmsdb_record_store_open e i name ext s = Some (r, s')"
  shows "locksOk (lockFileList s')"
proof -
  have free: "(i, textOf name) \<notin> lockKey ` set (lockFileList s)"
    if "findLockById i name (lockFileList s) = None \<or> lockFileList s = []"
    using that find_lock_None [OF assms(1,2)] by auto
  have new: "locksOk (lockFileList s')"
    if "recordStoreCreateLock e i name h t = (a, s')" "lockFileList t = lockFileList s"
      "findLockById i name (lockFileList s) = None \<or> lockFileList s = []" for h t a
    using create_lock_ok [of t name i e h] that assms(1,2) free [OF that(3)] by simp
  show ?thesis
    using assms(1,3) unfolding rmsdb_record_store_open_def Let_def
    by (auto split: if_splits prod.splits bind_splits) (rule new, assumption, simp, simp)+
qed

lemma step_locks:
  assumes "rmsStep s s'" "locksOk (lockFileList s)"
  shows "locksOk (lockFileList s')"
  using assms
proof cases
  case (open_store name e i ext r)
  with assms(2) open_locks show ?thesis by blast
next
  case (close_store e h err)
  with assms(2) unlink_ok show ?thesis
    by (auto simp: recordStoreClose_def recordStoreDeleteLock_def Let_def
        split: bind_splits if_splits prod.splits dest!: onCache_locks)
next
  case (delete_store e i name ext r)
  with assms(2) show ?thesis
    by (auto simp: rmsdb_record_store_delete_def Let_def split: bind_splits if_splits prod.splits dest!: onCache_locks)
next
  case (exists_store e i name ext b)
  with assms(2) show ?thesis
    by (auto simp: rmsdb_record_store_exists_def Let_def split: bind_splits if_splits prod.splits dest!: onCache_locks)
qed (use assms(2) in \<open>auto simp: recordStoreSetPosition_def recordStoreWrite_def recordStoreCommitWrite_def
    recordStoreRead_def recordStoreTruncate_def recordStoreSizeOf_def rmsError_def
    rmsdb_get_record_store_space_available_def Let_def split: prod.splits if_splits dest!: onCache_locks\<close>)

lemma reachable_locks: "rmsReachable s \<Longrightarrow> locksOk (lockFileList s)"
  by (induction rule: rmsReachable.induct) (auto simp: locksOk_def dest: step_locks)

section \<open>Names of the files\<close>

definition suiteHex :: "int \<Rightarrow> jchar list" where
  "suiteHex i = map (\<lambda>k. hexDigit (drop_bit (4 * k) (word_of_int i))) [7, 6, 5, 4, 3, 2, 1, 0]"

definition extUnits :: "int \<Rightarrow> jchar list" where
  "extUnits ext = (if ext = IDX_EXTENSION_INDEX then [0x2E, 0x69, 0x64, 0x78] else [0x2E, 0x64, 0x62])"

text \<open>What follows the root in the name of a store's file.\<close>

definition storeFile :: "int \<Rightarrow> jchar list \<Rightarrow> int \<Rightarrow> jchar list" where
  "storeFile i t ext = suiteHex i @ concat (map escapeChar (t @ [0])) @ extUnits ext"

lemma literal_texts [simp]:
  "pcslOk DB_EXTENSION" "textOf DB_EXTENSION = Some [0x2E, 0x64, 0x62]" "unitsOf DB_EXTENSION = [0x2E, 0x64, 0x62]"
  "pcslOk IDX_EXTENSION" "textOf IDX_EXTENSION = Some [0x2E, 0x69, 0x64, 0x78]"
  "unitsOf IDX_EXTENSION = [0x2E, 0x69, 0x64, 0x78]"
  "pcslOk (midp_suiteid2pcsl_string i)" "textOf (midp_suiteid2pcsl_string i) = Some (suiteHex i)"
  "unitsOf (midp_suiteid2pcsl_string i) = suiteHex i"
  "pcslOk (fromText t)" "textOf (fromText t) = t" "unitsOf NULL_STRING = []" "unitsOf EMPTY_STRING = []"
  by (simp_all add: DB_EXTENSION_def IDX_EXTENSION_def midp_suiteid2pcsl_string_def suiteHex_def fromText_def
      pcslOk_def[of "\<lparr>sData = Some _, sLength = _, sFlags = _\<rparr>"] textOf_def[of "\<lparr>sData = Some _, sLength = _, sFlags = _\<rparr>"]
      unitsOf_def Let_def split: option.split)

lemma append_text:
  assumes "\<And>n. mem n" "pcslOk d" "pcslOk s"
  shows "\<exists>r. pcsl_string_append mem (Some d) (Some s) = Some (PCSL_STRING_OK, Some r) \<and> pcslOk r
    \<and> textOf r = Some (unitsOf d @ unitsOf s)"
proof (cases "unitsOf d = [] \<and> unitsOf s = []")
  case True
  then show ?thesis by (auto simp: append_result [OF assms(2,3)] cat_result [OF assms(2,3)])
next
  case False
  then show ?thesis using assms(1) by (simp add: append_result [OF assms(2,3)] cat_result [OF assms(2,3)])
qed

lemma append_all_result:
  assumes "\<And>n. mem n" "pcslOk d" "list_all pcslOk ss" "ss \<noteq> []"
  shows "\<exists>r. appendAll mem d ss = Some (Some r) \<and> pcslOk r \<and> textOf r = Some (unitsOf d @ concat (map unitsOf ss))"
  using assms(2-)
proof (induction ss arbitrary: d)
  case (Cons s ss)
  have s: "pcslOk s" using Cons.prems by simp
  obtain r where r: "pcsl_string_append mem (Some d) (Some s) = Some (PCSL_STRING_OK, Some r)" "pcslOk r"
    "textOf r = Some (unitsOf d @ unitsOf s)"
    using append_text [of mem d s] assms(1) Cons.prems(1) s by blast
  have u: "unitsOf r = unitsOf d @ unitsOf s" using r(3) by (simp add: unitsOf_def)
  show ?case
  proof (cases "ss = []")
    case True
    with r show ?thesis by simp
  next
    case False
    with Cons.IH [OF r(2)] Cons.prems r(1) u show ?thesis by auto
  qed
qed simp

lemma rms_filename_result:
  assumes "\<And>n. mem n" "pcslOk name" "textOf name = Some t"
    "ext = MIDP_RMS_DB_EXT \<or> ext = MIDP_RMS_IDX_EXT \<or> pcsl_string_length (Some name) \<le> 0"
  shows "\<exists>r. midp_suite_get_rms_filename mem (Some R) i ext name = Some (ALL_OK, r) \<and> pcslOk r
    \<and> textOf r = Some (R @ (if pcsl_string_length (Some name) > 0 then storeFile i t ext else suiteHex i))"
proof -
  have u: "unitsOf (fromText (Some R)) = R" by (simp add: unitsOf_def)
  have tail: "\<exists>r. appendAll mem NULL_STRING [fromText (Some R), midp_suiteid2pcsl_string i, f]
      = Some (Some r) \<and> pcslOk r \<and> textOf r = Some (R @ suiteHex i @ unitsOf f)" if "pcslOk f" for f
    using append_all_result [of mem NULL_STRING "[fromText (Some R), midp_suiteid2pcsl_string i, f]"]
      that u assms(1) by simp
  show ?thesis
  proof (cases "pcsl_string_length (Some name) > 0")
    case True
    let ?ext = "if MIDP_RMS_IDX_EXT = ext then IDX_EXTENSION else DB_EXTENSION"
    obtain r where r: "pcsl_string_append_escaped_ascii mem (Some NULL_STRING) (Some name)
        = Some (PCSL_STRING_OK, Some r)" "pcslOk r" "textOf r = Some (concat (map escapeChar (t @ [0])))"
      using append_escaped_result [of NULL_STRING name t mem] assms(1-3) True by auto
    have ur: "unitsOf r = concat (map escapeChar (t @ [0]))" using r(3) by (simp add: unitsOf_def)
    have x: "pcslOk ?ext" "unitsOf ?ext = extUnits ext"
      by (auto simp: extUnits_def MIDP_RMS_IDX_EXT_def IDX_EXTENSION_INDEX_def)
    obtain f where f: "pcsl_string_append mem (Some r) (Some ?ext) = Some (PCSL_STRING_OK, Some f)" "pcslOk f"
      "textOf f = Some (unitsOf r @ unitsOf ?ext)"
      using append_text [of mem r ?ext] assms(1) r(2) x(1) by blast
    have "unitsOf f = concat (map escapeChar (t @ [0])) @ extUnits ext"
      using f(3) ur x(2) by (simp add: unitsOf_def)
    with tail [OF f(2)] True r(1) f(1) assms(4) show ?thesis
      by (auto simp: midp_suite_get_rms_filename_def storeFile_def)
  next
    case False
    with tail [of NULL_STRING] show ?thesis by (auto simp: midp_suite_get_rms_filename_def)
  qed
qed

lemma unique_path_result:
  assumes "\<And>n. strMem e n" "pcslOk name" "textOf name = Some t" "storage_get_root st s = Some R"
  shows "\<exists>r. rmsdb_get_unique_id_path e s i st name ext = Some (MIDP_ERROR_NONE, r) \<and> pcslOk r
    \<and> textOf r = Some (R @ (if pcsl_string_length (Some name) > 0 then storeFile i t ext else suiteHex i))"
proof -
  let ?ext = "if ext = IDX_EXTENSION_INDEX then MIDP_RMS_IDX_EXT else MIDP_RMS_DB_EXT"
  have x: "storeFile i t ?ext = storeFile i t ext"
    by (simp add: storeFile_def extUnits_def MIDP_RMS_IDX_EXT_def IDX_EXTENSION_INDEX_def MIDP_RMS_DB_EXT_def)
  have ext: "?ext = MIDP_RMS_DB_EXT \<or> ?ext = MIDP_RMS_IDX_EXT \<or> pcsl_string_length (Some name) \<le> 0" by simp
  obtain r where r: "midp_suite_get_rms_filename (strMem e) (Some R) i ?ext name = Some (ALL_OK, r)" "pcslOk r"
    "textOf r = Some (R @ (if pcsl_string_length (Some name) > 0 then storeFile i t ext else suiteHex i))"
    using rms_filename_result [of "strMem e" name t ?ext R i, OF assms(1-3) ext] unfolding x by blast
  moreover have "\<not> pcsl_string_is_null (Some r)" "\<not> pcsl_string_is_null (Some name)"
    using r(3) assms(3) by (auto simp: textOf_def pcsl_string_is_null_def split: if_splits)
  ultimately show ?thesis
    using assms(4) by (simp add: rmsdb_get_unique_id_path_def ALL_OK_def MIDP_ERROR_NONE_def)
qed

section \<open>Different stores, different files\<close>

lemma hex_digit_inj:
  assumes "lowerCase (hexDigit v) = lowerCase (hexDigit w)"
  shows "v AND 15 = w AND 15"
proof -
  define cs :: "jchar list" where "cs = [0x30, 0x31, 0x32, 0x33, 0x34, 0x35, 0x36, 0x37, 0x38, 0x39,
     0x41, 0x42, 0x43, 0x44, 0x45, 0x46]"
  have "distinct (map lowerCase cs)" "length cs = 16" by (simp_all add: lowerCase_def cs_def)
  moreover have l: "unat (x AND 15) < 16" for x :: "32 word"
    using word_and_le1 [of x 15] by (simp add: word_le_nat_alt)
  moreover have "hexDigit x = cs ! unat (x AND 15)" for x by (simp add: hexDigit_def cs_def)
  ultimately have "unat (v AND 15) = unat (w AND 15)"
    using assms nth_eq_iff_index_eq [of "map lowerCase cs" "unat (v AND 15)" "unat (w AND 15)"] by simp
  then show ?thesis by (rule word_unat_eq_iff [THEN iffD2])
qed

lemma suite_hex_inj:
  assumes "map lowerCase (suiteHex i) = map lowerCase (suiteHex j)"
    "- (2 ^ 31) \<le> i" "i < 2 ^ 31" "- (2 ^ 31) \<le> j" "j < 2 ^ 31"
  shows "i = j"
proof -
  let ?v = "word_of_int i :: 32 word" and ?w = "word_of_int j :: 32 word"
  have nib: "drop_bit (4 * k) ?v AND 15 = drop_bit (4 * k) ?w AND 15" if "k < 8" for k
  proof -
    have "k \<in> set [7, 6, 5, 4, 3, 2, 1, 0]" using that by auto
    with assms(1) have "lowerCase (hexDigit (drop_bit (4 * k) ?v)) = lowerCase (hexDigit (drop_bit (4 * k) ?w))"
      unfolding suiteHex_def map_map comp_def map_eq_conv by blast
    then show ?thesis by (rule hex_digit_inj)
  qed
  have "?v = ?w"
  proof (rule bit_word_eqI)
    fix n assume n: "n < LENGTH(32)"
    define k where "k = n div 4"
    define m where "m = n mod 4"
    have nk: "n = 4 * k + m" "m < 4" "k < 8" using n by (auto simp: k_def m_def)
    have "bit (drop_bit (4 * k) ?v AND 15) m = bit (drop_bit (4 * k) ?w AND 15) m" using nib [OF nk(3)] by simp
    moreover have "bit (15 :: 32 word) m" using nk(2) by (auto simp: less_Suc_eq numeral_eq_Suc)
    ultimately show "bit ?v n = bit ?w n" unfolding nk(1) by (simp add: bit_and_iff bit_drop_bit_eq)
  qed
  then have "sint ?v = sint ?w" by simp
  with assms(2-) show ?thesis by (simp add: signed_of_int signed_take_bit_int_eq_self)
qed

lemma escape_no_dot: "list_all (\<lambda>c. c \<noteq> 0x2E) (map lowerCase (concat (map escapeChar t)))"
proof -
  have "lowerCase c \<noteq> 0x2E" if "fileNameChar c" for c
    using that by (auto simp: fileNameChar_def lowerCase_def word_le_def word_uint_eq_iff uint_word_ariths
        split: if_splits)
  with escape_fileName [of t] show ?thesis by (auto simp: list_all_iff)
qed

lemma split_dot:
  assumes "list_all (\<lambda>c. c \<noteq> d) xs" "list_all (\<lambda>c. c \<noteq> d) ys" "xs @ d # us = ys @ d # vs"
  shows "xs = ys" "us = vs"
proof -
  have "takeWhile (\<lambda>c. c \<noteq> d) (xs @ d # us) = xs" "takeWhile (\<lambda>c. c \<noteq> d) (ys @ d # vs) = ys"
    using assms(1,2) by (simp_all add: list_all_iff takeWhile_append2)
  with assms(3) show "xs = ys" "us = vs" by auto
qed

lemma store_file_inj:
  assumes "map lowerCase (storeFile i t x) = map lowerCase (storeFile j u y)"
    "- (2 ^ 31) \<le> i" "i < 2 ^ 31" "- (2 ^ 31) \<le> j" "j < 2 ^ 31"
    "x \<in> {DB_EXTENSION_INDEX, IDX_EXTENSION_INDEX}" "y \<in> {DB_EXTENSION_INDEX, IDX_EXTENSION_INDEX}"
  shows "i = j \<and> t = u \<and> x = y"
proof -
  let ?e = "\<lambda>t. map lowerCase (concat (map escapeChar (t @ [0])))"
  have l: "length (suiteHex i) = length (suiteHex j)" by (simp add: suiteHex_def)
  from assms(1) l have h: "map lowerCase (suiteHex i) = map lowerCase (suiteHex j)"
    and r: "?e t @ map lowerCase (extUnits x) = ?e u @ map lowerCase (extUnits y)"
    by (simp_all add: storeFile_def)
  have ext: "map lowerCase (extUnits z) = 0x2E # (if z = IDX_EXTENSION_INDEX then [0x69, 0x64, 0x78] else [0x64, 0x62])" for z
    by (simp add: extUnits_def lowerCase_def)
  have "?e t = ?e u" "(if x = IDX_EXTENSION_INDEX then [0x69, 0x64, 0x78] else [0x64, 0x62])
      = (if y = IDX_EXTENSION_INDEX then [0x69, 0x64, 0x78] else [0x64, 0x62 :: jchar])"
    using split_dot [OF escape_no_dot escape_no_dot r [unfolded ext]] by blast+
  then have "t @ [0] = u @ [0]" "x = y"
    using escape_lower_inj [of "t @ [0]" "u @ [0]"] assms(6,7)
    by (auto simp: DB_EXTENSION_INDEX_def IDX_EXTENSION_INDEX_def split: if_splits)
  with suite_hex_inj [OF h assms(2-5)] show ?thesis by simp
qed

end
