(* ===== verification/RecordList.thy ===== *)
theory RecordList
  imports RecordStore
begin

text \<open>
  What \<^verbatim>\<open>rms.c\<close> promises: listing recovers the names of a suite's stores from the files of its
  directory, opening takes exactly one lock, one descriptor and one unit of the file quota, and
  locked stores are neither opened nor deleted.
\<close>

section \<open>Listing\<close>

text \<open>The units of an entry's name, and when the port returns them.\<close>

definition entryUnits :: "Dirent \<Rightarrow> jchar list" where
  "entryUnits d = map ucast (fst d) @ (if snd d then [0x2F] else [])"

definition entryOk :: "Os \<Rightarrow> Dirent \<Rightarrow> bool" where
  "entryOk s d \<longleftrightarrow> 0 \<notin> set (fst d) \<and> Suc (length (fst d)) < pathMax s"

lemma strip_no_zero: "0 \<notin> set xs \<Longrightarrow> stripZeros xs = xs"
  by (cases "xs = []") (simp add: stripZeros_def, rule stripZeros_last, auto dest: last_in_set)

lemma entry_strip: "entryOk s d \<Longrightarrow> stripZeros (entryUnits d) = entryUnits d"
proof (rule strip_no_zero)
  assume ok: "entryOk s d"
  have "0 = (ucast b :: jchar) \<longleftrightarrow> b = 0" for b :: jbyte
  proof -
    have "uint (ucast b :: jchar) = uint b" by (rule uint_up_ucast) (simp add: is_up)
    then show ?thesis by (auto simp: word_uint_eq_iff)
  qed
  with ok show "0 \<notin> set (entryUnits d)" by (auto simp: entryOk_def entryUnits_def image_iff)
qed

lemma next_match:
  assumes "\<And>n. mem n" "list_all (entryOk s) ds" "pcslOk p" "textOf p = Some t"
  shows "nextMatch mem s (Some p) ds =
    (case dropWhile (\<lambda>d. \<not> prefix t (entryUnits d)) ds of
       [] \<Rightarrow> (None, []) | d # rest \<Rightarrow> (Some (entryUnits d), rest))"
  using assms(2)
proof (induction ds)
  case (Cons d ds)
  have g: "javacall_dir_get_next s (d # ds) = (Some (entryUnits d), ds)"
    using Cons.prems by (cases d) (auto simp: javacall_dir_get_next_def entryUnits_def entryOk_def)
  have st: "stripZeros (entryUnits d) = entryUnits d" using Cons.prems entry_strip [of s d] by simp
  have c: "pcsl_string_convert_from_utf16 mem (Some (entryUnits d)) (int (length (entryUnits d)))
      (Some NULL_STRING) = (PCSL_STRING_OK, Some (heapString (entryUnits d @ [0])))"
    using from_utf16_result [of "length (entryUnits d)" "entryUnits d" mem NULL_STRING] assms(1) st by simp
  have m: "pcsl_string_starts_with (Some (heapString (entryUnits d @ [0]))) (Some p)
      \<longleftrightarrow> prefix t (entryUnits d)"
    using starts_refines [OF _ assms(3), of "heapString (entryUnits d @ [0])"] assms(4)
    by (simp add: unitsOf_def)
  from Cons g c m show ?case by simp
qed simp

lemma find_last:
  assumes "i < n" "P i" "\<And>j. i < j \<Longrightarrow> j < n \<Longrightarrow> \<not> P j"
  shows "find P (rev [0..<n]) = Some i"
  using assms
proof (induction n)
  case (Suc n)
  then show ?case by (cases "i = n") auto
qed simp

text \<open>The root of a suite's files ends with the directory's separator and the identifier.\<close>

lemma last_separator:
  assumes "pcslOk p" "textOf p = Some (D @ [0x2F] @ h)" "0x2F \<notin> set h"
  shows "pcsl_string_last_index_of (Some p) 0x2F = int (length D)"
proof -
  have p: "sData p = Some (D @ [0x2F] @ h @ [0])" "sLength p = int (length D + length h) + 2"
    "cellsOf p = D @ [0x2F] @ h @ [0]"
    using assms(1,2) by (auto elim!: pcslOkE)
  have "find (\<lambda>i. uint (cellsOf p ! i) = 0x2F) (rev [0..<length D + length h + 2]) = Some (length D)"
  proof (rule find_last)
    fix j assume j: "length D < j" "j < length D + length h + 2"
    define k where "k = j - Suc (length D)"
    have k: "j = length D + Suc k" "k < Suc (length h)" using j by (simp_all add: k_def)
    then have "cellsOf p ! j = (h @ [0]) ! k" by (simp add: p(3) nth_append)
    also have "\<dots> \<noteq> 0x2F" using assms(3) k(2) by (cases "k = length h") (auto simp: nth_append in_set_conv_nth)
    finally have "cellsOf p ! j \<noteq> 0x2F" .
    then show "\<not> uint (cellsOf p ! j) = 0x2F" by (simp add: word_uint_eq_iff)
  qed (simp_all add: p(3) nth_append)
  then show ?thesis
    by (simp add: pcsl_string_last_index_of_def pcsl_string_last_index_of_from_def p(1,2) searchIn_def
        IS_BMP_CODE_POINT_def IS_SURROGATE_CODE_POINT_def Let_def nat_add_distrib)
qed

lemma next_entry:
  assumes "\<And>n. mem n" "list_all (entryOk s) ds" "pcslOk p" "textOf p = Some (D @ [0x2F] @ h)"
    "0x2F \<notin> set h" "list_all (\<lambda>c. \<not> highHalf c) (D @ [0x2F] @ h)"
  shows "pcsl_file_getnextentry mem s ds p =
    (case dropWhile (\<lambda>d. \<not> prefix h (entryUnits d)) ds of
       [] \<Rightarrow> (None, [])
     | d # rest \<Rightarrow> (Some (heapString (D @ [0x2F] @ entryUnits d @ [0])), rest))"
proof -
  let ?t = "D @ [0x2F] @ h"
  have last: "pcsl_string_last_index_of (Some p) (uint pcsl_file_getfileseparator) = int (length D)"
    using last_separator [OF assms(3-5)] by (simp add: pcsl_file_getfileseparator_def javacall_get_file_separator_def)
  have len: "pcsl_string_length (Some p) = int (length ?t)" using length_plain [OF assms(3,4,6)] .
  obtain x where x: "pcsl_string_substring mem (Some p) (int (length D) + 1) (int (length ?t)) (Some NULL_STRING)
      = (PCSL_STRING_OK, Some x)" "pcslOk x" "textOf x = Some h"
    using substring_result [of p ?t mem "Suc (length D)" "length ?t" NULL_STRING] assms(1,3,4,6)
    by (auto simp: add.commute)
  obtain y where y: "pcsl_string_substring mem (Some p) 0 (int (length D) + 1) (Some NULL_STRING)
      = (PCSL_STRING_OK, Some y)" "pcslOk y" "textOf y = Some (D @ [0x2F])"
    using substring_result [of p ?t mem 0 "Suc (length D)" NULL_STRING] assms(1,3,4,6)
    by (auto simp: add.commute)
  have uy: "unitsOf y = D @ [0x2F]" using y(3) by (simp add: unitsOf_def)
  have app: "pcsl_string_append_buf mem (Some y) (Some (entryUnits d)) (int (length (entryUnits d)))
      = Some (PCSL_STRING_OK, Some (heapString (D @ [0x2F] @ entryUnits d @ [0])))" if "entryOk s d" for d
    using assms(1) y(2) uy entry_strip [OF that]
    by (simp add: pcsl_string_append_buf_def from_utf16_result append_result cat_result unitsOf_def)
  show ?thesis
  proof (cases "dropWhile (\<lambda>d. \<not> prefix h (entryUnits d)) ds")
    case Nil
    have "nextMatch mem s (Some x) ds = (None, [])"
      using next_match [of mem s ds x h] assms(1,2) x(2,3) unfolding Nil by simp
    then show ?thesis
      using x(1) len unfolding Nil
      by (simp add: pcsl_file_getnextentry_def last Let_def del: of_nat_add length_append)
  next
    case (Cons d rest)
    have "d \<in> set (dropWhile (\<lambda>d. \<not> prefix h (entryUnits d)) ds)" unfolding Cons by simp
    then have "d \<in> set ds" by (rule set_dropWhileD)
    with assms(2) have ok: "entryOk s d" by (simp add: list_all_iff)
    have "nextMatch mem s (Some x) ds = (Some (entryUnits d), rest)"
      using next_match [of mem s ds x h] assms(1,2) x(2,3) unfolding Cons by simp
    then show ?thesis
      using x(1) y(1) len app [OF ok] unfolding Cons
      by (simp add: pcsl_file_getnextentry_def last Let_def del: of_nat_add length_append)
  qed
qed

lemma open_list:
  assumes "\<And>n. mem n" "pcslOk p" "textOf p = Some (D @ [0x2F] @ h)" "0x2F \<notin> set h" "D \<noteq> []"
    "list_all (\<lambda>c. \<not> highHalf c) (D @ [0x2F] @ h)" "length D + 1 < pathMax s"
  shows "pcsl_file_openfilelist mem rd p s = rd (takeWhile (\<lambda>b. b \<noteq> 0) (map ucast (D @ [0x2F])))"
proof -
  have last: "pcsl_string_last_index_of (Some p) (uint pcsl_file_getfileseparator) = int (length D)"
    using last_separator [OF assms(2-4)] by (simp add: pcsl_file_getfileseparator_def javacall_get_file_separator_def)
  obtain y where y: "pcsl_string_substring mem (Some p) 0 (int (length D) + 1) (Some NULL_STRING)
      = (PCSL_STRING_OK, Some y)" "pcslOk y" "textOf y = Some (D @ [0x2F])"
    using substring_result [of p "D @ [0x2F] @ h" mem 0 "Suc (length D)" NULL_STRING] assms(1-3,6)
    by (auto simp: add.commute)
  have c: "sData y = Some (D @ [0x2F, 0])" "cellsOf y = D @ [0x2F, 0]" "sLength y = int (length D) + 2"
    using y(2,3) by (auto elim!: pcslOkE)
  have "nat (int (length D) + 2 - 1) = Suc (length D)" by simp
  then show ?thesis
    using assms(5,7) y(1) c
    by (simp add: pcsl_file_openfilelist_def last Let_def pcsl_string_convert_to_utf16_def
        javacall_dir_open_def javacall_UNICODEsToUtf8_def)
qed

text \<open>
  What a directory holds: files of the suite's stores, and other entries, among them the suite's
  own files: they are not to look like one of its data files, with its identifier at the start and
  \<^verbatim>\<open>.db\<close> at the end. All names fit the path limit, for an entry that does not ends the listing.
\<close>

datatype StoreEntry = StoreEntry "jchar list" int | OtherEntry Dirent

fun direntOf :: "int \<Rightarrow> StoreEntry \<Rightarrow> Dirent" where
  "direntOf i (StoreEntry t ext) = (map ucast (storeFile i t ext), False)"
| "direntOf i (OtherEntry d) = d"

fun storeNames :: "StoreEntry list \<Rightarrow> jchar list list" where
  "storeNames [] = []"
| "storeNames (StoreEntry t ext # es) = (if ext = DB_EXTENSION_INDEX then t # storeNames es else storeNames es)"
| "storeNames (OtherEntry d # es) = storeNames es"

definition storeEntryOk :: "Os \<Rightarrow> int \<Rightarrow> StoreEntry \<Rightarrow> bool" where
  "storeEntryOk s i x \<longleftrightarrow> entryOk s (direntOf i x) \<and>
     (case x of
        StoreEntry t ext \<Rightarrow> t \<noteq> [] \<and> last t \<noteq> 0 \<and> ext \<in> {DB_EXTENSION_INDEX, IDX_EXTENSION_INDEX}
      | OtherEntry d \<Rightarrow> \<not> (prefix (suiteHex i) (entryUnits d) \<and> suffix [0x2E, 0x64, 0x62] (entryUnits d)))"

lemma hex_digit_range: "hexDigit v \<in> set [0x30, 0x31, 0x32, 0x33, 0x34, 0x35, 0x36, 0x37, 0x38, 0x39,
     0x41, 0x42, 0x43, 0x44, 0x45, 0x46]"
proof -
  have "unat (v AND 15) < 16" using word_and_le1 [of v 15] by (simp add: word_le_nat_alt)
  then show ?thesis unfolding hexDigit_def by (intro nth_mem) simp
qed

lemma suite_hex_range: "c \<in> set (suiteHex i) \<Longrightarrow> 0x30 \<le> uint c \<and> uint c \<le> 0x46"
proof -
  have "0x30 \<le> uint (hexDigit v) \<and> uint (hexDigit v) \<le> 0x46" for v
    using hex_digit_range [of v] by auto
  then show "c \<in> set (suiteHex i) \<Longrightarrow> 0x30 \<le> uint c \<and> uint c \<le> 0x46"
    unfolding suiteHex_def set_map by blast
qed

lemma suite_hex_plain: "0x2F \<notin> set (suiteHex i)" "list_all (\<lambda>c. \<not> highHalf c) (suiteHex i)"
  using suite_hex_range [of _ i] by (fastforce simp: list_all_iff word_le_def)+

lemma store_file_ascii: "list_all (\<lambda>c. uint c < 256) (storeFile i t ext)"
proof -
  have "uint c < 256" if "fileNameChar c" for c
    using that by (auto simp: fileNameChar_def word_le_def)
  then have "list_all (\<lambda>c. uint c < 256) (concat (map escapeChar (t @ [0])))"
    using escape_fileName [of "t @ [0]"] by (auto simp: list_all_iff)
  moreover have "list_all (\<lambda>c. uint c < 256) (suiteHex i)"
    using suite_hex_range [of _ i] by (fastforce simp: list_all_iff)
  moreover have "list_all (\<lambda>c. uint c < 256) (extUnits ext)" by (simp add: extUnits_def)
  ultimately show ?thesis by (simp add: storeFile_def)
qed

lemma entry_units_store [simp]: "entryUnits (direntOf i (StoreEntry t ext)) = storeFile i t ext"
proof -
  have "(ucast (ucast c :: jbyte) :: jchar) = c" if "uint c < 256" for c :: jchar
    using that by (simp add: word_uint_eq_iff unsigned_ucast_eq unsigned_take_bit_eq take_bit_int_eq_self)
  with store_file_ascii [of i t ext] show ?thesis
    by (auto simp: entryUnits_def list_all_iff intro!: map_idI)
qed

text \<open>The directory \<open>D\<close> and identifier \<open>i\<close> of a root string, with memory for every string.\<close>

definition suiteRoot :: "RmsEnv \<Rightarrow> PcslString \<Rightarrow> jchar list \<Rightarrow> int \<Rightarrow> bool" where
  "suiteRoot e root D i \<longleftrightarrow> (\<forall>n. strMem e n) \<and> pcslOk root \<and> textOf root = Some (D @ [0x2F] @ suiteHex i)
     \<and> list_all (\<lambda>c. \<not> highHalf c) (D @ [0x2F] @ suiteHex i)"

lemma suiteRootD:
  assumes "suiteRoot e root D i"
  shows "strMem e n" "pcslOk root" "textOf root = Some (D @ [0x2F] @ suiteHex i)"
    "list_all (\<lambda>c. \<not> highHalf c) (D @ [0x2F] @ suiteHex i)"
  using assms by (simp_all add: suiteRoot_def)

lemma next_in:
  assumes "suiteRoot e root D i" "list_all (entryOk (os s)) ds"
  shows "storage_get_next_file_in_iterator (strMem e) root ds s =
    (case dropWhile (\<lambda>d. \<not> prefix (suiteHex i) (entryUnits d)) ds of
       [] \<Rightarrow> (None, [])
     | d # rest \<Rightarrow> (Some (heapString (D @ [0x2F] @ entryUnits d @ [0])), rest))"
  unfolding storage_get_next_file_in_iterator_def
  by (rule next_entry) (use assms suiteRootD [OF assms(1)] suite_hex_plain(1) in auto)

lemma next_other:
  assumes "suiteRoot e root D i" "list_all (entryOk (os s)) (d # ds)" "\<not> prefix (suiteHex i) (entryUnits d)"
  shows "storage_get_next_file_in_iterator (strMem e) root (d # ds) s
    = storage_get_next_file_in_iterator (strMem e) root ds s"
  using next_in [OF assms(1,2)] next_in [OF assms(1), of s ds] assms(2,3) by simp

lemma next_listed:
  assumes "suiteRoot e root D i" "list_all (entryOk (os s)) (d # ds)" "prefix (suiteHex i) (entryUnits d)"
  shows "storage_get_next_file_in_iterator (strMem e) root (d # ds) s
    = (Some (heapString (D @ [0x2F] @ entryUnits d @ [0])), ds)"
  using next_in [OF assms(1,2)] assms(3) by simp

lemma next_store:
  assumes "suiteRoot e root D i" "list_all (entryOk (os s)) (direntOf i (StoreEntry t ext) # ds)"
  shows "storage_get_next_file_in_iterator (strMem e) root (direntOf i (StoreEntry t ext) # ds) s
    = (Some (heapString (D @ [0x2F] @ storeFile i t ext @ [0])), ds)"
  using next_in [OF assms(1,2)] by (simp add: storeFile_def del: direntOf.simps)

lemma is_db:
  "pcsl_string_ends_with (Some (heapString (D @ [0x2F] @ storeFile i t ext @ [0]))) (Some DB_EXTENSION)
     \<longleftrightarrow> ext \<noteq> IDX_EXTENSION_INDEX"
proof -
  let ?h = "heapString (D @ [0x2F] @ storeFile i t ext @ [0])"
  have ok: "pcslOk ?h" "textOf ?h = Some (D @ [0x2F] @ storeFile i t ext)"
    using ok_heap(1,2) [of "D @ [0x2F] @ storeFile i t ext"] by simp_all
  have "suffix [0x2E, 0x64, 0x62] (D @ [0x2F] @ storeFile i t ext) \<longleftrightarrow> ext \<noteq> IDX_EXTENSION_INDEX"
    by (auto simp: storeFile_def extUnits_def suffix_def append_eq_append_conv2 Cons_eq_append_conv)
  then show ?thesis using ends_refines [OF ok(1), of DB_EXTENSION] ok(2) by (simp add: unitsOf_def)
qed

text \<open>Another entry of the suite that the iterator returns is no data file.\<close>

lemma other_not_db:
  assumes "prefix (suiteHex i) u" "\<not> suffix [0x2E, 0x64, 0x62] u"
  shows "\<not> pcsl_string_ends_with (Some (heapString (D @ [0x2F] @ u @ [0]))) (Some DB_EXTENSION)"
proof -
  let ?h = "heapString (D @ [0x2F] @ u @ [0])"
  have ok: "pcslOk ?h" "textOf ?h = Some (D @ [0x2F] @ u)"
    using ok_heap(1,2) [of "D @ [0x2F] @ u"] by simp_all
  have l: "length [0x2E, 0x64, 0x62 :: jchar] \<le> length u"
    using prefix_length_le [OF assms(1)] by (simp add: suiteHex_def)
  have "\<not> suffix [0x2E, 0x64, 0x62] (D @ [0x2F] @ u)"
  proof
    assume "suffix [0x2E, 0x64, 0x62] (D @ [0x2F] @ u)"
    moreover have "suffix u (D @ [0x2F] @ u)" by (auto simp: suffix_def)
    ultimately have "suffix [0x2E, 0x64, 0x62] u" using l by (rule suffix_length_suffix)
    with assms(2) show False ..
  qed
  then show ?thesis using ends_refines [OF ok(1), of DB_EXTENSION] ok(2) by (simp add: unitsOf_def)
qed

lemma recovers_name:
  assumes "suiteRoot e root D i" "t \<noteq> []" "last t \<noteq> 0"
  shows "\<exists>x. pcsl_string_substring (strMem e) (Some (heapString (D @ [0x2F] @ storeFile i t ext @ [0])))
      (pcsl_string_length (Some root))
      (pcsl_string_length (Some (heapString (D @ [0x2F] @ storeFile i t ext @ [0])))
        - int (length (extUnits ext))) (Some NULL_STRING) = (PCSL_STRING_OK, Some x)
    \<and> escaped_ascii_to_unicode (strMem e) x = Some (PCSL_STRING_OK, Some (heapString (t @ [0])))"
proof -
  note memory = suiteRootD(1) [OF assms(1)] and root = suiteRootD(2,3) [OF assms(1)]
    and plain = suiteRootD(4) [OF assms(1)]
  let ?e = "concat (map escapeChar (t @ [0]))"
  let ?f = "D @ [0x2F] @ suiteHex i @ ?e @ extUnits ext"
  let ?h = "heapString (?f @ [0])"
  have h: "pcslOk ?h" "textOf ?h = Some ?f" by (rule ok_heap)+
  have "fileNameChar c \<Longrightarrow> \<not> highHalf c" for c by (auto simp: fileNameChar_def word_le_def)
  then have "list_all (\<lambda>c. \<not> highHalf c) ?e" using escape_fileName [of "t @ [0]"] unfolding list_all_iff by blast
  then have p: "list_all (\<lambda>c. \<not> highHalf c) ?f" using plain by (simp add: extUnits_def)
  have l: "pcsl_string_length (Some root) = int (length D + 1 + length (suiteHex i))"
    "pcsl_string_length (Some ?h) = int (length ?f)"
    using length_plain [OF root plain] length_plain [OF h p] by simp_all
  obtain x where x: "pcsl_string_substring (strMem e) (Some ?h) (int (length D + 1 + length (suiteHex i)))
      (int (length ?f - length (extUnits ext))) (Some NULL_STRING) = (PCSL_STRING_OK, Some x)" "pcslOk x" "textOf x = Some ?e"
    using substring_result [OF h p, of "strMem e" "length D + 1 + length (suiteHex i)"
        "length ?f - length (extUnits ext)" NULL_STRING] memory by auto
  have c: "sData x = Some (?e @ [0])" "cellsOf x = ?e @ [0]" "sLength x = int (length ?e) + 1"
    using x(2,3) by (auto elim!: pcslOkE)
  have un: "unescapeLoop ?e 0 [] = Some (t @ [0])" using fname.dec_enc [of "t @ [0]"] by simp
  have st: "stripZeros (t @ [0]) = t" using assms(2,3) stripZeros_last [of t] by (simp add: stripZeros_def)
  have "escaped_ascii_to_unicode (strMem e) x = Some (PCSL_STRING_OK, Some (heapString (t @ [0])))"
    using from_utf16_result [of "length (t @ [0])" "t @ [0]" "strMem e" NULL_STRING] memory st un c
    by (simp add: escaped_ascii_to_unicode_def pcsl_string_utf16_length_def del: concat_append map_append)
  moreover have "pcsl_string_length (Some ?h) - int (length (extUnits ext))
      = int (length ?f - length (extUnits ext))" unfolding l(2) by simp
  moreover have "D @ [0x2F] @ storeFile i t ext @ [0] = ?f @ [0]" by (simp add: storeFile_def)
  ultimately show ?thesis using x(1) l(1) by (simp only:) blast
qed

lemma count_stores:
  assumes "suiteRoot e root D i" "list_all (storeEntryOk (os s) i) es"
  shows "countStores e root s (map (direntOf i) es) n = n + int (length (storeNames es))"
  using assms(2)
proof (induction es arbitrary: n)
  case Nil
  then show ?case using next_in [OF assms(1), of s "[]"] by (simp add: countStores.simps)
next
  case (Cons x es)
  have ok: "list_all (entryOk (os s)) (map (direntOf i) (x # es))"
    using Cons.prems by (auto simp: storeEntryOk_def list_all_iff)
  show ?case
  proof (cases x)
    case (StoreEntry t ext)
    then have "ext = DB_EXTENSION_INDEX \<longleftrightarrow> ext \<noteq> IDX_EXTENSION_INDEX"
      using Cons.prems by (auto simp: storeEntryOk_def DB_EXTENSION_INDEX_def IDX_EXTENSION_INDEX_def)
    then show ?thesis
      using next_store [OF assms(1), of s t ext "map (direntOf i) es"] ok Cons.IH Cons.prems StoreEntry is_db
      by (subst countStores.simps) simp
  next
    case (OtherEntry d)
    have "countStores e root s (map (direntOf i) (x # es)) n = countStores e root s (map (direntOf i) es) n"
    proof (cases "prefix (suiteHex i) (entryUnits d)")
      case True
      with OtherEntry Cons.prems have "\<not> suffix [0x2E, 0x64, 0x62] (entryUnits d)" by (simp add: storeEntryOk_def)
      with other_not_db [OF True] next_listed [OF assms(1) _ True, of s "map (direntOf i) es"] ok OtherEntry show ?thesis
        by (subst (1) countStores.simps) simp
    next
      case False
      with OtherEntry have "storage_get_next_file_in_iterator (strMem e) root (map (direntOf i) (x # es)) s
          = storage_get_next_file_in_iterator (strMem e) root (map (direntOf i) es) s"
        using next_other [OF assms(1), of s d "map (direntOf i) es"] ok by simp
      then show ?thesis by (subst (1 2) countStores.simps) simp
    qed
    with Cons OtherEntry show ?thesis by simp
  qed
qed

lemma list_loop:
  assumes "suiteRoot e root D i" "list_all (storeEntryOk (os s) i) es"
    "N = int (length found + length (storeNames es))"
  shows "listLoop e root s N (map (direntOf i) es) found
    = Some (PCSL_STRING_OK, found @ map (\<lambda>t. heapString (t @ [0])) (storeNames es))"
  using assms(2,3)
proof (induction es arbitrary: found)
  case Nil
  then show ?case using next_in [OF assms(1), of s "[]"] by (subst listLoop.simps) simp
next
  case (Cons x es)
  have ok: "list_all (entryOk (os s)) (map (direntOf i) (x # es))"
    using Cons.prems by (auto simp: storeEntryOk_def list_all_iff)
  show ?case
  proof (cases x)
    case (OtherEntry d)
    have sn: "storeNames (x # es) = storeNames es" using OtherEntry by simp
    show ?thesis
    proof (cases "prefix (suiteHex i) (entryUnits d)")
      case True
      with OtherEntry Cons.prems have "\<not> suffix [0x2E, 0x64, 0x62] (entryUnits d)" by (simp add: storeEntryOk_def)
      with other_not_db [OF True] next_listed [OF assms(1) _ True, of s "map (direntOf i) es"] ok OtherEntry
      have step: "listLoop e root s N (map (direntOf i) (x # es)) found =
          (if int (length found) = N then Some (PCSL_STRING_OK, found)
           else listLoop e root s N (map (direntOf i) es) found)"
        by (subst listLoop.simps) simp
      show ?thesis
      proof (cases "int (length found) = N")
        case True
        with Cons.prems(2) sn have "storeNames es = []" by simp
        with True step sn show ?thesis by simp
      next
        case False
        with Cons step sn show ?thesis by simp
      qed
    next
      case False
      with OtherEntry have "storage_get_next_file_in_iterator (strMem e) root (map (direntOf i) (x # es)) s
          = storage_get_next_file_in_iterator (strMem e) root (map (direntOf i) es) s"
        using next_other [OF assms(1), of s d "map (direntOf i) es"] ok by simp
      then have "listLoop e root s N (map (direntOf i) (x # es)) found = listLoop e root s N (map (direntOf i) es) found"
        by (subst (1 2) listLoop.simps) simp
      with Cons sn show ?thesis by simp
    qed
  next
    case (StoreEntry t ext)
    let ?f = "heapString (D @ [0x2F] @ storeFile i t ext @ [0])"
    have nx: "storage_get_next_file_in_iterator (strMem e) root (map (direntOf i) (x # es)) s
        = (Some ?f, map (direntOf i) es)"
      using next_store [OF assms(1), of s t ext "map (direntOf i) es"] ok StoreEntry by simp
    have t: "t \<noteq> []" "last t \<noteq> 0" "ext = DB_EXTENSION_INDEX \<or> ext = IDX_EXTENSION_INDEX"
      using Cons.prems StoreEntry by (auto simp: storeEntryOk_def)
    show ?thesis
    proof (cases "ext = DB_EXTENSION_INDEX")
      case True
      then have db: "pcsl_string_ends_with (Some ?f) (Some DB_EXTENSION)" "length (extUnits ext) = 3"
        using is_db by (simp_all add: DB_EXTENSION_INDEX_def IDX_EXTENSION_INDEX_def extUnits_def)
      have "pcsl_string_length (Some DB_EXTENSION) = 3"
        using length_plain [of DB_EXTENSION "[0x2E, 0x64, 0x62]"] by simp
      with db(2) recovers_name [OF assms(1) t(1,2), of ext] obtain y where y:
        "pcsl_string_substring (strMem e) (Some ?f) (pcsl_string_length (Some root))
          (pcsl_string_length (Some ?f) - pcsl_string_length (Some DB_EXTENSION)) (Some NULL_STRING)
          = (PCSL_STRING_OK, Some y)"
        "escaped_ascii_to_unicode (strMem e) y = Some (PCSL_STRING_OK, Some (heapString (t @ [0])))" by auto
      let ?found = "found @ [heapString (t @ [0])]"
      have step: "listLoop e root s N (map (direntOf i) (x # es)) found =
          (if int (length ?found) = N then Some (PCSL_STRING_OK, ?found)
           else listLoop e root s N (map (direntOf i) es) ?found)"
        using nx db(1) y by (subst listLoop.simps) simp
      have sn: "storeNames (x # es) = t # storeNames es" using StoreEntry True by simp
      show ?thesis
      proof (cases "int (length ?found) = N")
        case True
        with Cons.prems(2) sn have "storeNames es = []" by simp
        with True step sn show ?thesis by simp
      next
        case False
        with Cons step sn show ?thesis by simp
      qed
    next
      case False
      with t(3) have db: "\<not> pcsl_string_ends_with (Some ?f) (Some DB_EXTENSION)" using is_db by blast
      have step: "listLoop e root s N (map (direntOf i) (x # es)) found =
          (if int (length found) = N then Some (PCSL_STRING_OK, found)
           else listLoop e root s N (map (direntOf i) es) found)"
        using nx db by (subst listLoop.simps) simp
      have sn: "storeNames (x # es) = storeNames es" using StoreEntry False by simp
      show ?thesis
      proof (cases "int (length found) = N")
        case True
        with Cons.prems(2) sn have "storeNames es = []" by simp
        with True step sn show ?thesis by simp
      next
        case False
        with Cons step sn show ?thesis by simp
      qed
    qed
  qed
qed

section \<open>An open that succeeds\<close>

lemma storage_open_ok:
  assumes "quiet (os s)" "pathOf n (os s) = Some q" "\<not> isDirectory (os s) q" "0 \<le> nextFd (os s)"
    "quota_inv cur (resources s)" "midpCheckResourceLimit 0 1 cur FILE 1 (resources s) = Some (True, resources s)"
  shows "\<exists>s' cont. storage_open cur n OPEN_READ_WRITE s = Some ((None, nextFd (os s)), s')
    \<and> holding 0 cur FILE (resources s') = holding 0 cur FILE (resources s) + 1
    \<and> fileView (nextFd (os s)) (os s') = Some (cont, 0)"
proof -
  let ?s1 = "os s\<lparr>osCalls := Suc (osCalls (os s))\<rparr>"
  let ?ex = "names (os s) q \<noteq> None"
  have ex: "storage_file_exists n s = (?ex, s\<lparr>os := ?s1\<rparr>)"
    using exist_result [OF assms(2,1)] assms(3) by (simp add: storage_file_exists_def onOs_def)
  have p1: "pathOf n ?s1 = Some q" using assms(2) pathOf_cong [of ?s1 "os s" n] by simp
  have q2: "quiet ?s1" "quiet (os s\<lparr>osCalls := Suc (Suc (osCalls (os s)))\<rparr>)"
    using quiet_Suc [OF assms(1)] quiet_Suc [OF quiet_Suc [OF assms(1)]] by simp_all
  let ?flags = "(if \<not> ?ex then JAVACALL_FILE_O_CREAT else 0) OR JAVACALL_FILE_O_RDWR"
  have "\<exists>s2 cont. pcsl_file_open n ?flags ?s1 = ((0, nextFd (os s)), s2) \<and> fileView (nextFd (os s)) s2 = Some (cont, 0)"
    using p1 q2 assms(1,3,4)
    by (elim pathOfE) (auto simp: pcsl_file_open_def javacall_file_open_def os_open_def quiet_tick resultCode_def
        JAVACALL_FILE_O_RDONLY_def JAVACALL_FILE_O_WRONLY_def JAVACALL_FILE_O_CREAT_def JAVACALL_FILE_O_RDWR_def
        JAVACALL_FILE_O_TRUNC_def Let_def fileView_def)
  then obtain s2 cont where o: "pcsl_file_open n ?flags ?s1 = ((0, nextFd (os s)), s2)"
    "fileView (nextFd (os s)) s2 = Some (cont, 0)" by blast
  obtain r where r: "midpIncResourceCount 0 1 cur FILE 1 (resources s) = Some (True, r)"
    "holding 0 cur FILE r = holding 0 cur FILE (resources s) + 1"
    using fq.acquire_checked [OF assms(5), of FILE] assms(6) by auto
  have m: "OPEN_READ_WRITE \<noteq> OPEN_READ" "OPEN_READ_WRITE \<noteq> OPEN_READ_WRITE_TRUNCATE"
    "OPEN_READ_WRITE \<noteq> OPEN_WRITE"
    by (simp_all add: OPEN_READ_WRITE_def OPEN_READ_def OPEN_READ_WRITE_TRUNCATE_def OPEN_WRITE_def)
  have "storage_open cur n OPEN_READ_WRITE s = Some ((None, nextFd (os s)), s\<lparr>os := s2, resources := r\<rparr>)"
    using ex o(1) r(1) assms(6) m by (auto simp: storage_open_def onOs_def Let_def)
  with r(2) o(2) show ?thesis by auto
qed

lemma cache_open_ok:
  assumes "quiet (os (storage c))" "pathOf n (os (storage c)) = Some q" "\<not> isDirectory (os (storage c)) q"
    "0 \<le> nextFd (os (storage c))" "quota_inv cur (resources (storage c))"
    "midpCheckResourceLimit 0 1 cur FILE 1 (resources (storage c)) = Some (True, resources (storage c))"
    "mFileCache c = None" "mem cacheBytes"
  shows "\<exists>c'. midp_file_cache_open mem cacheBytes cur st n OPEN_READ_WRITE c
      = Some ((None, nextFd (os (storage c))), c')
    \<and> holding 0 cur FILE (resources (storage c')) = holding 0 cur FILE (resources (storage c)) + 1
    \<and> fds (os (storage c')) (nextFd (os (storage c))) \<noteq> None"
proof -
  let ?h = "nextFd (os (storage c))"
  obtain s' cont where s': "storage_open cur n OPEN_READ_WRITE (storage c) = Some ((None, ?h), s')"
    "holding 0 cur FILE (resources s') = holding 0 cur FILE (resources (storage c)) + 1"
    "fileView ?h (os s') = Some (cont, 0)"
    using storage_open_ok [OF assms(1-6)] by blast
  obtain o2 where o2: "javacall_file_sizeofopenfile ?h (os s') = (int (length cont), o2)"
    "fileView ?h o2 = Some (cont, 0)"
    using size_only_at_start [OF s'(3)] by auto
  have "storageSizeOf ?h s' = ((None, int (length cont)), s'\<lparr>os := o2\<rparr>)"
    using o2(1) by (simp add: storageSizeOf_def onOs_def pcsl_file_sizeofopenfile_def)
  moreover have "fds o2 ?h \<noteq> None" using o2(2) by (auto elim: fileViewD)
  ultimately show ?thesis
    using s'(1,2) assms(7,8) by (simp add: midp_file_cache_open_def onStorage_def Let_def)
qed

text \<open>What opening the store \<open>t\<close> of suite \<open>i\<close> needs, apart from the memory for its lock.\<close>

definition openable :: "RmsEnv \<Rightarrow> int \<Rightarrow> PcslString \<Rightarrow> RmsSys \<Rightarrow> bool" where
  "openable e i name s \<longleftrightarrow> (\<forall>n. strMem e n) \<and> cacheMem e (cacheRecord e)
     \<and> pcslOk name \<and> pcsl_string_length (Some name) > 0
     \<and> findLockById i name (lockFileList s) = None \<and> mFileCache (cacheSys s) = None
     \<and> (let (status, st) = midp_suite_get_suite_storage e i; f = storage (cacheSys s) in
        status = ALL_OK \<and> quiet (os f) \<and> 0 \<le> nextFd (os f) \<and> quota_inv (isolate e) (resources f)
        \<and> midpCheckResourceLimit 0 1 (isolate e) FILE 1 (resources f) = Some (True, resources f)
        \<and> (case storage_get_root st f of
             None \<Rightarrow> False
           | Some R \<Rightarrow>
               (case pathOf (Some (R @ storeFile i (unitsOf name) DB_EXTENSION_INDEX)) (os f) of
                  None \<Rightarrow> False | Some q \<Rightarrow> \<not> isDirectory (os f) q)))"

lemma open_store:
  assumes "openable e i name s"
  shows "\<exists>c n. holding 0 (isolate e) FILE (resources (storage c))
        = holding 0 (isolate e) FILE (resources (storage (cacheSys s))) + 1
    \<and> fds (os (storage c)) (nextFd (os (storage (cacheSys s)))) \<noteq> None
    \<and> textOf (lName n) = textOf name \<and> lSuiteId n = i \<and> lHandle n = nextFd (os (storage (cacheSys s)))
    \<and> (\<forall>b. rmsdb_record_store_open (e\<lparr>nodeMem := b\<rparr>) i name DB_EXTENSION_INDEX s =
        Some ((None, if b then lHandle n else -1),
          s\<lparr>cacheSys := c, lockFileList := (if b then [n] else []) @ lockFileList s\<rparr>))"
proof -
  define f where "f = storage (cacheSys s)"
  obtain status st where st: "midp_suite_get_suite_storage e i = (status, st)" by fastforce
  have a: "strMem e n" for n using assms by (simp add: openable_def)
  have b: "cacheMem e (cacheRecord e)" "pcslOk name" "pcsl_string_length (Some name) > 0"
    "findLockById i name (lockFileList s) = None" "mFileCache (cacheSys s) = None" "status = ALL_OK"
    "quiet (os f)" "0 \<le> nextFd (os f)" "quota_inv (isolate e) (resources f)"
    "midpCheckResourceLimit 0 1 (isolate e) FILE 1 (resources f) = Some (True, resources f)"
    using assms by (simp_all add: openable_def st f_def Let_def)
  obtain R q where R: "storage_get_root st f = Some R"
    "pathOf (Some (R @ storeFile i (unitsOf name) DB_EXTENSION_INDEX)) (os f) = Some q" "\<not> isDirectory (os f) q"
    using assms by (auto simp: openable_def st f_def Let_def split: option.splits)
  obtain t where t: "textOf name = Some t" "unitsOf name = t"
    using b(2,3) by (cases rule: pcslOkE) (auto simp: pcsl_string_length_def dataOf_def)
  obtain r where r: "rmsdb_get_unique_id_path e f i st name DB_EXTENSION_INDEX = Some (MIDP_ERROR_NONE, r)"
    "textOf r = Some (R @ storeFile i t DB_EXTENSION_INDEX)"
    using unique_path_result [of e name t st f R i DB_EXTENSION_INDEX] a b(2,3) t(1) R(1) by auto
  obtain c where c: "midp_file_cache_open (cacheMem e) (cacheRecord e) (isolate e) st (textOf r) OPEN_READ_WRITE (cacheSys s)
      = Some ((None, nextFd (os f)), c)"
    "holding 0 (isolate e) FILE (resources (storage c)) = holding 0 (isolate e) FILE (resources f) + 1"
    "fds (os (storage c)) (nextFd (os f)) \<noteq> None"
    using cache_open_ok [of "cacheSys s" "textOf r" q "isolate e" "cacheMem e" "cacheRecord e" st] b R r(2) t(2)
    by (auto simp: f_def)
  obtain x where x: "pcsl_string_dup (strMem e) (Some name) (Some NULL_STRING) = (PCSL_STRING_OK, Some x)"
    "textOf x = textOf name" "\<not> pcsl_string_is_null (Some x)"
  proof -
    from dup_result [OF b(2)] a obtain x where
      "pcsl_string_dup (strMem e) (Some name) (Some NULL_STRING) = (PCSL_STRING_OK, Some x)" "textOf x = textOf name"
      by (metis prod.collapse)
    moreover from this t have "\<not> pcsl_string_is_null (Some x)" by (auto simp: textOf_def pcsl_string_is_null_def)
    ultimately show thesis by (rule that)
  qed
  let ?n = "\<lparr>lSuiteId = i, lName = x, lHandle = nextFd (os f)\<rparr>"
  have lock: "recordStoreCreateLock (e\<lparr>nodeMem := bb\<rparr>) i name h u =
      (if bb then (0, u\<lparr>lockFileList := \<lparr>lSuiteId = i, lName = x, lHandle = h\<rparr> # lockFileList u\<rparr>)
       else (OUT_OF_MEM_LEN, u))" for bb h u
    using x by (simp add: recordStoreCreateLock_def)
  have fld: "readSuites (e\<lparr>nodeMem := bb\<rparr>) = readSuites e" "suitesData (e\<lparr>nodeMem := bb\<rparr>) = suitesData e"
    "strMem (e\<lparr>nodeMem := bb\<rparr>) = strMem e" for bb by simp_all
  have nm: "midp_suite_get_suite_storage (e\<lparr>nodeMem := bb\<rparr>) i = midp_suite_get_suite_storage e i"
    "rmsdb_get_unique_id_path (e\<lparr>nodeMem := bb\<rparr>) = rmsdb_get_unique_id_path e" for bb
    unfolding midp_suite_get_suite_storage_def rmsdb_get_unique_id_path_def fld by (rule refl)+
  have env: "midp_suite_get_suite_storage (e\<lparr>nodeMem := bb\<rparr>) i = (ALL_OK, st)"
    "rmsdb_get_unique_id_path (e\<lparr>nodeMem := bb\<rparr>) f i st name DB_EXTENSION_INDEX = Some (MIDP_ERROR_NONE, r)" for bb
    using st b(6) r(1) nm by simp_all
  have "rmsdb_record_store_open (e\<lparr>nodeMem := bb\<rparr>) i name DB_EXTENSION_INDEX s =
      Some ((None, if bb then lHandle ?n else -1),
        s\<lparr>cacheSys := c, lockFileList := (if bb then [?n] else []) @ lockFileList s\<rparr>)" for bb
    using env(1) env(2) [unfolded f_def] c(1) b(4) lock
    by (cases "lockFileList s = []") (simp_all add: rmsdb_record_store_open_def OUT_OF_MEM_LEN_def)
  with c(2,3) x(2) show ?thesis by (intro exI [of _ c] exI [of _ ?n]) (simp add: f_def)
qed

lemma store_file_nonzero: "0 \<notin> set (storeFile i t ext)"
proof -
  have "\<not> fileNameChar 0" by (simp add: fileNameChar_def)
  then have "0 \<notin> set (concat (map escapeChar (t @ [0])))"
    using escape_fileName [of "t @ [0]"] unfolding list_all_iff by blast
  moreover have "0 \<notin> set (suiteHex i)" using suite_hex_range [of 0 i] by auto
  ultimately show ?thesis by (simp add: storeFile_def extUnits_def del: map_append concat_append)
qed

section \<open>Properties\<close>

definition sampleEnv :: RmsEnv where
  "sampleEnv = \<lparr>readSuites = ALL_OK, suitesData = [(7, 0)], strMem = (\<lambda>_. True), nodeMem = True, cacheMem = (\<lambda>_. True),
     cacheRecord = 24, isolate = 1, cacheLimit = RMS_CACHE_LIMIT,
     readdir = (\<lambda>p. if p = [0x6D, 0x2F]
        then Some (map (direntOf 7) [StoreEntry [0x61] 0, OtherEntry ([0x30, 0x30, 0x30, 0x30, 0x30, 0x30, 0x30, 0x37, 0x2E, 0x6A, 0x61, 0x72], False), StoreEntry [0x61] 1,
               StoreEntry [0x41, 0x20AC] 0])
        else None)\<rparr>"

definition sampleRms :: RmsSys where
  "sampleRms = \<lparr>cacheSys = \<lparr>storage = sampleStorage\<lparr>sRoot := [Some [0x6D, 0x2F], None]\<rparr>, mFileCache = None\<rparr>,
     lockFileList = []\<rparr>"

definition sampleName :: PcslString where
  "sampleName = heapString [0x61, 0]"

lemma sample_name: "pcslOk sampleName" "textOf sampleName = Some [0x61]" "unitsOf sampleName = [0x61]"
  "pcsl_string_length (Some sampleName) = 1"
proof -
  have "[0x61, 0] = [0x61] @ [0 :: jchar]" by simp
  then show n: "pcslOk sampleName" "textOf sampleName = Some [0x61]" unfolding sampleName_def by (metis ok_heap)+
  then show "unitsOf sampleName = [0x61]" by (simp add: unitsOf_def)
  show "pcsl_string_length (Some sampleName) = 1"
    using length_plain [OF n] by (simp add: word_le_def)
qed

lemma sample_suite: "midp_suite_get_suite_storage sampleEnv 7 = (ALL_OK, 0)"
  by (simp add: midp_suite_get_suite_storage_def sampleEnv_def get_suite_data_def INTERNAL_SUITE_ID_def)

lemma sample_root: "storage_get_root 0 (storage (cacheSys sampleRms)) = Some [0x6D, 0x2F]"
  by (simp add: sampleRms_def storage_get_root_def INTERNAL_STORAGE_ID_def)

lemma sample_suite_hex: "suiteHex 7 = [0x30, 0x30, 0x30, 0x30, 0x30, 0x30, 0x30, 0x37]"
  by (simp add: suiteHex_def hexDigit_def)

lemma sample_file: "storeFile 7 [0x61] 0 = [0x30, 0x30, 0x30, 0x30, 0x30, 0x30, 0x30, 0x37, 0x61, 0x25, 0x30, 0x30, 0x30, 0x30, 0x2E, 0x64, 0x62]"
  by (simp add: storeFile_def sample_suite_hex extUnits_def IDX_EXTENSION_INDEX_def, code_simp)

lemma sample_openable: "openable sampleEnv 7 sampleName sampleRms"
  unfolding openable_def sample_suite
  using sample_name started_facts(2) started_check sample_file sample_root sample_facts(2)
  by (simp add: sampleRms_def sampleEnv_def DB_EXTENSION_INDEX_def findLockById_def sampleStorage_def)
    (simp add: sampleOs_def pathOf_def fileNameUnits_def javacall_UNICODEsToUtf8_def)

text \<open>
  C23. Locks are exclusive: in every reachable state no two locks are for the same suite and name,
  and a locked store can neither be opened again nor deleted, with any string of that name: both
  operations report the lock and change nothing.
\<close>

theorem stores_locked_exclusively:
  assumes "rmsReachable s"
  shows "distinct (map lockKey (lockFileList s))
    \<and> (\<forall>n \<in> set (lockFileList s). \<forall>e name. pcslOk name \<and> textOf name = textOf (lName n) \<longrightarrow>
         rmsdb_record_store_open e (lSuiteId n) name DB_EXTENSION_INDEX s = Some ((Some FILE_LOCK_ERROR, -2), s)
       \<and> rmsdb_record_store_delete e (lSuiteId n) name DB_EXTENSION_INDEX s = Some ((Some FILE_LOCK_ERROR, -1), s))"
proof -
  have ok: "locksOk (lockFileList s)" using assms by (rule reachable_locks)
  have "findLockById (lSuiteId n) name (lockFileList s) \<noteq> None" "lockFileList s \<noteq> []"
    if "n \<in> set (lockFileList s)" "pcslOk name" "textOf name = textOf (lName n)" for n name
    using find_lock_None [OF ok that(2), of "lSuiteId n"] that(1,3) by (force simp: lockKey_def)+
  moreover have "rmsdb_record_store_open e i name DB_EXTENSION_INDEX s = Some ((Some FILE_LOCK_ERROR, -2), s)"
    "rmsdb_record_store_delete e i name DB_EXTENSION_INDEX s = Some ((Some FILE_LOCK_ERROR, -1), s)"
    if "findLockById i name (lockFileList s) \<noteq> None" "lockFileList s \<noteq> []" for e i name
    using that by (simp_all add: rmsdb_record_store_open_def rmsdb_record_store_delete_def Let_def)
  ultimately show ?thesis using ok unfolding locksOk_def by blast
qed

lemma stores_locked_exclusively_witness:
  "\<exists>s n. rmsReachable s \<and> lockFileList s = [n] \<and> lSuiteId n = 7
    \<and> rmsdb_record_store_open sampleEnv 7 sampleName DB_EXTENSION_INDEX s = Some ((Some FILE_LOCK_ERROR, -2), s)"
proof -
  from open_store [OF sample_openable] obtain c n where n: "textOf (lName n) = textOf sampleName" "lSuiteId n = 7"
    "rmsdb_record_store_open (sampleEnv\<lparr>nodeMem := True\<rparr>) 7 sampleName DB_EXTENSION_INDEX sampleRms =
        Some ((None, lHandle n), sampleRms\<lparr>cacheSys := c, lockFileList := [n]\<rparr>)"
    by (auto simp: sampleRms_def)
  let ?s = "sampleRms\<lparr>cacheSys := c, lockFileList := [n]\<rparr>"
  have "rmsReachable sampleRms" by (rule rmsReachable.start) (simp add: sampleRms_def)
  then have r: "rmsReachable ?s"
    by (rule rmsReachable.step) (rule rmsStep.open_store [OF sample_name(1) n(3)])
  from stores_locked_exclusively [OF r] n(1,2) sample_name(1)
  have "rmsdb_record_store_open sampleEnv 7 sampleName DB_EXTENSION_INDEX ?s = Some ((Some FILE_LOCK_ERROR, -2), ?s)"
    by simp
  with r n(2) show ?thesis by (intro exI [of _ ?s] exI [of _ n]) simp
qed

text \<open>
  C24. A failed lock leaks the open file: where opening a store needs only the memory for its lock,
  it returns the handle and enters the lock if there is memory; if there is none, it returns -1
  without an error string and enters no lock, but the descriptor stays open and the unit of the
  file quota stays taken. For a suite without a storage it returns handle 0, also without an error,
  unless it is asked for the data file of a store that is locked: the locks are looked at first.
\<close>

theorem failed_lock_leaks_file:
  assumes "openable e i name s"
  shows "\<exists>c n. holding 0 (isolate e) FILE (resources (storage c))
        = holding 0 (isolate e) FILE (resources (storage (cacheSys s))) + 1
    \<and> fds (os (storage c)) (lHandle n) \<noteq> None \<and> lockKey n = (i, textOf name)
    \<and> rmsdb_record_store_open (e\<lparr>nodeMem := True\<rparr>) i name DB_EXTENSION_INDEX s =
        Some ((None, lHandle n), s\<lparr>cacheSys := c, lockFileList := n # lockFileList s\<rparr>)
    \<and> rmsdb_record_store_open (e\<lparr>nodeMem := False\<rparr>) i name DB_EXTENSION_INDEX s =
        Some ((None, -1), s\<lparr>cacheSys := c\<rparr>)
    \<and> (\<forall>e' j x. fst (midp_suite_get_suite_storage e' j) \<noteq> ALL_OK \<longrightarrow>
         rmsdb_record_store_open e' j name x s =
           (if x = DB_EXTENSION_INDEX \<and> findLockById j name (lockFileList s) \<noteq> None
            then Some ((Some FILE_LOCK_ERROR, -2), s) else Some ((None, 0), s)))"
proof -
  have none: "rmsdb_record_store_open e' j name x s =
      (if x = DB_EXTENSION_INDEX \<and> findLockById j name (lockFileList s) \<noteq> None
       then Some ((Some FILE_LOCK_ERROR, -2), s) else Some ((None, 0), s))"
    if "fst (midp_suite_get_suite_storage e' j) \<noteq> ALL_OK" for e' j x
    using that
    by (cases "midp_suite_get_suite_storage e' j") (auto simp: rmsdb_record_store_open_def findLockById_def)
  obtain c n where n: "holding 0 (isolate e) FILE (resources (storage c))
        = holding 0 (isolate e) FILE (resources (storage (cacheSys s))) + 1"
    "fds (os (storage c)) (nextFd (os (storage (cacheSys s)))) \<noteq> None" "lSuiteId n = i" "textOf (lName n) = textOf name"
    "lHandle n = nextFd (os (storage (cacheSys s)))"
    and o: "\<forall>b. rmsdb_record_store_open (e\<lparr>nodeMem := b\<rparr>) i name DB_EXTENSION_INDEX s =
        Some ((None, if b then lHandle n else -1),
          s\<lparr>cacheSys := c, lockFileList := (if b then [n] else []) @ lockFileList s\<rparr>)"
    using open_store [OF assms] by blast
  have "lockKey n = (i, textOf name)" using n(3,4) by (simp add: lockKey_def)
  then show ?thesis
    using n(1,2,5) none spec [OF o, of True] spec [OF o, of False] by (intro exI [of _ c] exI [of _ n]) simp
qed

lemma failed_lock_leaks_file_witness:
  "\<exists>s'. rmsdb_record_store_open (sampleEnv\<lparr>nodeMem := False\<rparr>) 7 sampleName DB_EXTENSION_INDEX sampleRms
        = Some ((None, -1), s')
    \<and> holding 0 1 FILE (resources (storage (cacheSys s'))) = 1 \<and> lockFileList s' = []"
proof -
  have "holding 0 1 FILE (resources (storage (cacheSys sampleRms))) = 0" "isolate sampleEnv = 1"
    using started_facts(4) by (simp_all add: sampleRms_def sampleStorage_def sampleEnv_def)
  with failed_lock_leaks_file [OF sample_openable] show ?thesis by (auto simp: sampleRms_def)
qed

text \<open>
  C25. Stores have files of their own: for well-formed names that are not empty, the paths of two
  files differ, even when the case of letters is ignored, unless suite, name and extension are
  the same.
\<close>

theorem store_files_distinct:
  assumes "\<forall>n. strMem e n" "pcslOk a" "pcsl_string_length (Some a) > 0" "pcslOk b" "pcsl_string_length (Some b) > 0"
    "storage_get_root st s = Some R"
    "- (2 ^ 31) \<le> i" "i < 2 ^ 31" "- (2 ^ 31) \<le> j" "j < 2 ^ 31"
    "x \<in> {DB_EXTENSION_INDEX, IDX_EXTENSION_INDEX}" "y \<in> {DB_EXTENSION_INDEX, IDX_EXTENSION_INDEX}"
  shows "\<exists>p q. rmsdb_get_unique_id_path e s i st a x = Some (MIDP_ERROR_NONE, p)
    \<and> rmsdb_get_unique_id_path e s j st b y = Some (MIDP_ERROR_NONE, q)
    \<and> (map lowerCase (unitsOf p) = map lowerCase (unitsOf q) \<longrightarrow> i = j \<and> textOf a = textOf b \<and> x = y)"
proof -
  have t: "textOf n = Some (unitsOf n)" if "pcslOk n" "pcsl_string_length (Some n) > 0" for n
    using that by (cases rule: pcslOkE) (auto simp: pcsl_string_length_def dataOf_def)
  have "\<exists>p. rmsdb_get_unique_id_path e s k st n z = Some (MIDP_ERROR_NONE, p)
      \<and> unitsOf p = R @ storeFile k (unitsOf n) z" if "pcslOk n" "pcsl_string_length (Some n) > 0" for k n z
  proof -
    note n = that
    obtain p where p: "rmsdb_get_unique_id_path e s k st n z = Some (MIDP_ERROR_NONE, p)"
      "textOf p = Some (R @ storeFile k (unitsOf n) z)"
      using unique_path_result [OF _ n(1) t [OF n] assms(6), of e k z] assms(1) n(2) by auto
    moreover from p(2) have "unitsOf p = R @ storeFile k (unitsOf n) z" by (simp add: unitsOf_def)
    ultimately show ?thesis by blast
  qed
  note path = this
  obtain p q where pq: "rmsdb_get_unique_id_path e s i st a x = Some (MIDP_ERROR_NONE, p)" "unitsOf p = R @ storeFile i (unitsOf a) x"
    "rmsdb_get_unique_id_path e s j st b y = Some (MIDP_ERROR_NONE, q)" "unitsOf q = R @ storeFile j (unitsOf b) y"
    using path [OF assms(2,3), of i x] path [OF assms(4,5), of j y] by blast
  have "i = j \<and> unitsOf a = unitsOf b \<and> x = y" if "map lowerCase (unitsOf p) = map lowerCase (unitsOf q)"
    using store_file_inj [OF _ assms(7-12), of "unitsOf a" "unitsOf b"] that by (simp add: pq)
  with pq(1,3) t [OF assms(2,3)] t [OF assms(4,5)] show ?thesis by (intro exI [of _ p] exI [of _ q]) simp
qed

lemma store_files_distinct_witness:
  "\<exists>p q. rmsdb_get_unique_id_path sampleEnv (storage (cacheSys sampleRms)) 7 0 sampleName DB_EXTENSION_INDEX
        = Some (MIDP_ERROR_NONE, p)
    \<and> rmsdb_get_unique_id_path sampleEnv (storage (cacheSys sampleRms)) 7 0 sampleName IDX_EXTENSION_INDEX
        = Some (MIDP_ERROR_NONE, q) \<and> unitsOf p \<noteq> unitsOf q"
  using store_files_distinct [of sampleEnv sampleName sampleName 0 "storage (cacheSys sampleRms)" "[0x6D, 0x2F]" 7 7
      DB_EXTENSION_INDEX IDX_EXTENSION_INDEX] sample_name sample_root
  by (auto simp: sampleEnv_def DB_EXTENSION_INDEX_def IDX_EXTENSION_INDEX_def)

text \<open>
  C26. Listing recovers the names: from a directory with files of the suite's stores, in any order
  and mixed with other entries, \<^verbatim>\<open>rmsdb_get_record_store_list\<close> returns the name of every store that
  has a data file, in the order of the directory, and \<^verbatim>\<open>rmsdb_get_number_of_record_stores\<close> their
  number. The other entries may be other suites' files or this one's, such as its \<^verbatim>\<open>.jar\<close>; none may
  have both the suite's identifier at its start and \<^verbatim>\<open>.db\<close> at its end, and all names are to fit the
  path limit of the port.
\<close>

theorem list_recovers_names:
  assumes "midp_suite_get_suite_storage e i = (ALL_OK, st)" "storage_get_root st s = Some (D @ [0x2F])"
    "D \<noteq> []" "list_all (\<lambda>c. \<not> highHalf c) D" "length D + 1 < pathMax (os s)" "\<forall>n. strMem e n"
    "readdir e (takeWhile (\<lambda>b. b \<noteq> 0) (map ucast (D @ [0x2F]))) = Some (map (direntOf i) es)"
    "list_all (storeEntryOk (os s) i) es"
  shows "rmsdb_get_record_store_list e i s
      = Some (int (length (storeNames es)), map (\<lambda>t. heapString (t @ [0])) (storeNames es))
    \<and> rmsdb_get_number_of_record_stores e i s = Some (int (length (storeNames es)))"
proof -
  have e: "pcslOk EMPTY_STRING" "textOf EMPTY_STRING = Some []" "pcsl_string_length (Some EMPTY_STRING) = 0"
    using length_plain [of EMPTY_STRING "[]"] by simp_all
  obtain root where root: "midp_suite_get_rms_filename (strMem e) (storage_get_root st s) i (-1) EMPTY_STRING
      = Some (ALL_OK, root)" "pcslOk root" "textOf root = Some (D @ [0x2F] @ suiteHex i)"
    using rms_filename_result [of "strMem e" EMPTY_STRING "[]" "-1" "D @ [0x2F]" i] assms(2,6) e by auto
  have sr: "suiteRoot e root D i"
    using assms(4,6) root(2,3) suite_hex_plain(2) by (simp add: suiteRoot_def)
  have opn: "storage_open_file_iterator (strMem e) (readdir e) root s = Some (map (direntOf i) es)"
    using open_list [OF suiteRootD(1) [OF sr] root(2,3) suite_hex_plain(1) assms(3) suiteRootD(4) [OF sr] assms(5)] assms(7)
    by (simp add: storage_open_file_iterator_def)
  have num: "rmsdb_get_number_of_record_stores_int e root s = int (length (storeNames es))"
    using count_stores [OF sr assms(8), of 0] opn by (simp add: rmsdb_get_number_of_record_stores_int_def)
  have nn: "sData root \<noteq> None" "\<not> pcsl_string_is_null (Some root)"
    using root(3) by (auto simp: textOf_def pcsl_string_is_null_def)
  have "listLoop e root s (int (length (storeNames es))) (map (direntOf i) es) []
      = Some (PCSL_STRING_OK, map (\<lambda>t. heapString (t @ [0])) (storeNames es))"
    using list_loop [OF sr assms(8), of "int (length (storeNames es))" "[]"] by simp
  moreover have "map (\<lambda>t. heapString (t @ [0])) (storeNames es) = []" if "storeNames es = []" using that by simp
  ultimately show ?thesis
    using assms(1,6) root(1) num nn opn
    by (simp add: rmsdb_get_record_store_list_def rmsdb_get_number_of_record_stores_def Let_def)
qed

lemma list_recovers_names_witness:
  "rmsdb_get_record_store_list sampleEnv 7 (storage (cacheSys sampleRms))
    = Some (2, [heapString [0x61, 0], heapString [0x41, 0x20AC, 0]])"
proof -
  let ?es = "[StoreEntry [0x61] 0, OtherEntry ([0x30, 0x30, 0x30, 0x30, 0x30, 0x30, 0x30, 0x37, 0x2E, 0x6A, 0x61, 0x72], False), StoreEntry [0x61] 1, StoreEntry [0x41, 0x20AC] 0]"
  let ?s = "storage (cacheSys sampleRms)"
  have p: "pathMax (os ?s) = 256" by (simp add: sampleRms_def sampleStorage_def sampleOs_def)
  have l: "length (storeFile 7 t x) \<le> 5 * length t + 17" for t x
    using length_escape [of "t @ [0]"] by (simp add: storeFile_def extUnits_def suiteHex_def del: map_append concat_append)
  have z: "0 \<notin> set (fst (direntOf 7 (StoreEntry t x)))" for t x
  proof -
    have "(ucast c :: jbyte) \<noteq> 0" if "c \<in> set (storeFile 7 t x)" for c
    proof -
      have "uint c < 256" "c \<noteq> 0" using store_file_ascii [of 7 t x] store_file_nonzero [of 7 t x] that
        by (auto simp: list_all_iff)
      then show ?thesis by (simp add: word_uint_eq_iff unsigned_ucast_eq unsigned_take_bit_eq take_bit_int_eq_self)
    qed
    then show ?thesis by force
  qed
  have ok: "list_all (storeEntryOk (os ?s) 7) ?es"
    using l [of "[0x61]" 0] l [of "[0x61]" 1] l [of "[0x41, 0x20AC]" 0] z [of "[0x61]" 0] z [of "[0x61]" 1] z [of "[0x41, 0x20AC]" 0]
    by (simp add: storeEntryOk_def entryOk_def p sample_suite_hex entryUnits_def DB_EXTENSION_INDEX_def
        IDX_EXTENSION_INDEX_def suffix_to_prefix)
  have rd: "readdir sampleEnv (takeWhile (\<lambda>b. b \<noteq> 0) (map ucast ([0x6D] @ [0x2F :: jchar]))) = Some (map (direntOf 7) ?es)"
    by (simp add: sampleEnv_def)
  have m: "\<forall>n. strMem sampleEnv n" by (simp add: sampleEnv_def)
  show ?thesis
    using list_recovers_names [OF sample_suite _ _ _ _ m rd ok] sample_root p
    by (simp add: DB_EXTENSION_INDEX_def word_le_def)
qed

end
