(* ===== verification/Memory.thy ===== *)
theory Memory
  imports Interfaces
begin

text \<open>
  The memory pool of PCSL, \<^verbatim>\<open>pcsl/memory/heap/pcsl_memory.c\<close>, as built without
  \<^verbatim>\<open>PCSL_DEBUG\<close>: one chunk of memory split into blocks, each behind a header of 8 bytes. The
  headers (\<open>hdrs\<close>) and the bytes of the blocks (\<open>cells\<close>) are kept apart, by address. Addresses
  and block sizes are numbers: in a well-formed pool no sum of the walks over the blocks
  exceeds the end of the pool; the two computations that do wrap around, rounding up a
  request and the product in \<^verbatim>\<open>calloc\<close>, have their \<open>mod 2 ^ 32\<close>. \<^verbatim>\<open>NULL\<close> is 0.
\<close>

section \<open>State\<close>

record PcslMemHdr =
  hMagic :: nat
  hFree :: nat
  hSize :: nat

type_synonym hdrs = "nat \<Rightarrow> PcslMemHdr"

record PcslMem =
  pHdrs :: hdrs
  pCells :: "nat \<Rightarrow> jbyte"
  PcslMemory :: nat
  PcslMemoryStart :: nat
  PcslMemoryEnd :: nat

definition sizeofHdr :: nat where
  "sizeofHdr = 8"

definition DEFAULT_POOL_SIZE :: int where
  "DEFAULT_POOL_SIZE = 8 * 1280 * 1024 + 1024 * 1024"

definition MAGIC :: nat where
  "MAGIC = 0xCAFE"

section \<open>Initialisation\<close>

function alignPtr :: "nat \<Rightarrow> nat" where
  "alignPtr p = (if p mod 4 \<noteq> 0 then alignPtr (p + 1) else p)"
  by pat_completeness auto

lemma align_step: "(n :: nat) mod 4 \<noteq> 0 \<Longrightarrow> (4 - (n + 1) mod 4) mod 4 < (4 - n mod 4) mod 4"
proof -
  assume "n mod 4 \<noteq> 0"
  moreover have "n mod 4 < 4" by simp
  ultimately consider "n mod 4 = 1" | "n mod 4 = 2" | "n mod 4 = 3" by linarith
  then show ?thesis by cases (simp_all add: mod_Suc)
qed

termination alignPtr
  by (relation "measure (\<lambda>p. (4 - p mod 4) mod 4)") (use align_step in auto)

declare alignPtr.simps [simp del]

text \<open>\<^verbatim>\<open>heapPort\<close>: the address and size the port grants for a size, address 0 if none.\<close>

definition pcsl_mem_initialize_impl0 ::
  "(int \<Rightarrow> nat \<times> int) \<Rightarrow> nat \<Rightarrow> int \<Rightarrow> PcslMem \<Rightarrow> int \<times> PcslMem" where
  "pcsl_mem_initialize_impl0 heapPort startAddr sz m =
     (if PcslMemoryStart m \<noteq> 0 then (0, m)
      else
        let sz = (if sz \<le> 0 then DEFAULT_POOL_SIZE else sz);
            (mem, sz) = (if startAddr \<noteq> 0 then (startAddr, sz) else heapPort sz) in
        if mem = 0 then (-1, m\<lparr>PcslMemory := 0\<rparr>)
        else
          let start = alignPtr mem;
              hdr = \<lparr>hMagic = MAGIC, hFree = 1,
                     hSize = nat ((int mem - int start + sz - int sizeofHdr) mod 2 ^ 32)\<rparr>
          in (0, m\<lparr>PcslMemory := mem, PcslMemoryStart := start,
                   PcslMemoryEnd := nat (int mem + sz - int sizeofHdr),
                   pHdrs := (pHdrs m)(start := hdr)\<rparr>))"

section \<open>Allocating\<close>

text \<open>The rounding loop, on \<^verbatim>\<open>unsigned int\<close>.\<close>

function alignUp :: "nat \<Rightarrow> nat" where
  "alignUp n = (if n mod 4 \<noteq> 0 then alignUp ((n + 1) mod 2 ^ 32) else n)"
  by pat_completeness auto

termination alignUp
proof (relation "measure (\<lambda>n. (4 - n mod 4) mod 4)", goal_cases)
  case (2 n)
  have "(n + 1) mod 2 ^ 32 mod 4 = (n + 1) mod (4 :: nat)" by (rule mod_mod_cancel) simp
  with align_step [OF 2] show ?case by (simp only: in_measure)
qed simp

declare alignUp.simps [simp del]

function coalesce :: "nat \<Rightarrow> nat \<Rightarrow> hdrs \<Rightarrow> hdrs" where
  "coalesce e p h =
     (if hFree (h p) = 1 then
        let temp = p + hSize (h p) + sizeofHdr in
        if temp < e \<and> hFree (h temp) = 1 \<and> hMagic (h temp) = MAGIC
        then coalesce e p (h(p := (h p)\<lparr>hSize := hSize (h p) + hSize (h temp) + sizeofHdr\<rparr>))
        else h
      else h)"
  by pat_completeness auto

termination coalesce
  by (relation "measure (\<lambda>(e, p, h). e - (p + hSize (h p)))") (auto simp: sizeofHdr_def)

declare coalesce.simps [simp del]

text \<open>Taking the block at \<open>p\<close>, split when the rest is worth it.\<close>

definition takeBlock :: "nat \<Rightarrow> nat \<Rightarrow> hdrs \<Rightarrow> hdrs" where
  "takeBlock n p h =
     (if hSize (h p) > n + sizeofHdr + 4
      then h(p + n + sizeofHdr := (h (p + n + sizeofHdr))
               \<lparr>hMagic := MAGIC, hFree := 1, hSize := hSize (h p) - n - sizeofHdr\<rparr>,
             p := (h p)\<lparr>hSize := n, hFree := 0\<rparr>)
      else h(p := (h p)\<lparr>hFree := 0\<rparr>))"

function mallocLoop :: "nat \<Rightarrow> nat \<Rightarrow> nat \<Rightarrow> hdrs \<Rightarrow> nat \<times> hdrs" where
  "mallocLoop e n p h =
     (if p < e then
        if hMagic (h p) \<noteq> MAGIC then (0, h)
        else
          let h1 = coalesce e p h in
          if hFree (h1 p) = 1 \<and> hSize (h1 p) \<ge> n then (p + sizeofHdr, takeBlock n p h1)
          else mallocLoop e n (p + hSize (h1 p) + sizeofHdr) h1
      else (0, h))"
  by pat_completeness auto

termination mallocLoop
  by (relation "measure (\<lambda>(e, n, p, h). e - p)") (auto simp: sizeofHdr_def)

declare mallocLoop.simps [simp del]

definition pcsl_mem_malloc_impl0 :: "nat \<Rightarrow> PcslMem \<Rightarrow> nat \<times> PcslMem" where
  "pcsl_mem_malloc_impl0 sz m =
     (let (loc, h) = mallocLoop (PcslMemoryEnd m) (alignUp sz) (PcslMemoryStart m) (pHdrs m)
      in (loc, m\<lparr>pHdrs := h\<rparr>))"

text \<open>\<^verbatim>\<open>memset\<close>, \<^verbatim>\<open>memcpy\<close> and \<^verbatim>\<open>strcpy\<close> on the cells.\<close>

definition setCells :: "nat \<Rightarrow> jbyte list \<Rightarrow> (nat \<Rightarrow> jbyte) \<Rightarrow> nat \<Rightarrow> jbyte" where
  "setCells p bs c = (\<lambda>a. if p \<le> a \<and> a < p + length bs then bs ! (a - p) else c a)"

definition getCells :: "nat \<Rightarrow> nat \<Rightarrow> (nat \<Rightarrow> jbyte) \<Rightarrow> jbyte list" where
  "getCells p n c = map c [p..<p + n]"

definition pcsl_mem_calloc_impl0 :: "nat \<Rightarrow> nat \<Rightarrow> PcslMem \<Rightarrow> nat \<times> PcslMem" where
  "pcsl_mem_calloc_impl0 nelem elsize m =
     (let bytes = nelem * elsize mod 2 ^ 32;
          (loc, m1) = pcsl_mem_malloc_impl0 bytes m in
      if loc \<noteq> 0
      then (loc, m1\<lparr>pCells := setCells loc (replicate bytes 0) (pCells m1)\<rparr>)
      else (loc, m1))"

text \<open>The argument of \<^verbatim>\<open>strdup\<close> is the string without its terminating zero.\<close>

definition pcsl_mem_strdup_impl0 :: "jbyte list \<Rightarrow> PcslMem \<Rightarrow> nat \<times> PcslMem" where
  "pcsl_mem_strdup_impl0 s1 m =
     (let (p, m1) = pcsl_mem_malloc_impl0 (length s1 + 1) m in
      if p \<noteq> 0 then (p, m1\<lparr>pCells := setCells p (s1 @ [0]) (pCells m1)\<rparr>) else (p, m1))"

section \<open>Freeing\<close>

definition pcsl_mem_free_impl0 :: "nat \<Rightarrow> PcslMem \<Rightarrow> PcslMem" where
  "pcsl_mem_free_impl0 ptr m =
     (if ptr = 0 then m
      else if ptr > PcslMemoryEnd m \<or> ptr < PcslMemoryStart m then m
      else let q = ptr - sizeofHdr; hdr = pHdrs m q in
           if hMagic hdr \<noteq> MAGIC then m
           else if hFree hdr \<noteq> 0 then m
           else m\<lparr>pHdrs := (pHdrs m)(q := hdr\<lparr>hFree := 1\<rparr>)\<rparr>)"

definition pcsl_mem_realloc_impl0 :: "nat \<Rightarrow> nat \<Rightarrow> PcslMem \<Rightarrow> nat \<times> PcslMem" where
  "pcsl_mem_realloc_impl0 ptr sz m =
     (if ptr = 0 then pcsl_mem_malloc_impl0 sz m
      else let memHdr = ptr - sizeofHdr; old = hSize (pHdrs m memHdr) in
           if old = sz then (ptr, m)
           else if sz = 0 then (0, pcsl_mem_free_impl0 ptr m)
           else
             let (newPtr, m1) = pcsl_mem_malloc_impl0 sz m in
             if newPtr = 0 then (0, m1)
             else let old1 = hSize (pHdrs m1 memHdr);
                      k = (if old1 < sz then old1 else sz);
                      m2 = m1\<lparr>pCells := setCells newPtr (getCells ptr k (pCells m1)) (pCells m1)\<rparr>
                  in (newPtr, pcsl_mem_free_impl0 ptr m2))"

section \<open>Walks over the blocks\<close>

function endLoop :: "nat \<Rightarrow> nat \<Rightarrow> int \<Rightarrow> int \<Rightarrow> PcslMem \<Rightarrow> int \<times> int \<times> int \<times> PcslMem" where
  "endLoop e p cnt sz m =
     (if p < e then
        let hdr = pHdrs m p in
        if hMagic hdr \<noteq> MAGIC then (-1, cnt, sz, m)
        else if hFree hdr \<noteq> 1
             then endLoop e (p + hSize hdr + sizeofHdr) (cnt + 1) (sz + int (hSize hdr))
                    (pcsl_mem_free_impl0 (p + sizeofHdr) m)
             else endLoop e (p + hSize hdr + sizeofHdr) cnt sz m
      else (cnt, cnt, sz, m))"
  by pat_completeness auto

termination endLoop
  by (relation "measure (\<lambda>(e, p, cnt, sz, m). e - p)") (auto simp: sizeofHdr_def)

declare endLoop.simps [simp del]

text \<open>The result, \<^verbatim>\<open>*count\<close> and \<^verbatim>\<open>*size\<close>.\<close>

definition pcsl_end_memory :: "PcslMem \<Rightarrow> int \<times> int \<times> int \<times> PcslMem" where
  "pcsl_end_memory m = endLoop (PcslMemoryEnd m) (PcslMemoryStart m) 0 0 m"

definition pcsl_mem_finalize_impl0 :: "PcslMem \<Rightarrow> PcslMem" where
  "pcsl_mem_finalize_impl0 m =
     (let (_, _, _, m1) = pcsl_end_memory m
      in m1\<lparr>PcslMemory := 0, PcslMemoryStart := 0, PcslMemoryEnd := 0\<rparr>)"

definition pcsl_mem_get_total_heap_impl0 :: "PcslMem \<Rightarrow> int" where
  "pcsl_mem_get_total_heap_impl0 m = int (PcslMemoryEnd m) - int (PcslMemoryStart m)"

function usedLoop :: "nat \<Rightarrow> nat \<Rightarrow> hdrs \<Rightarrow> int \<Rightarrow> int" where
  "usedLoop e p h sz =
     (if p < e
      then usedLoop e (p + hSize (h p) + sizeofHdr) h
             (if hFree (h p) \<noteq> 1 then sz + int (hSize (h p)) else sz)
      else sz)"
  by pat_completeness auto

termination usedLoop
  by (relation "measure (\<lambda>(e, p, h, sz). e - p)") (auto simp: sizeofHdr_def)

declare usedLoop.simps [simp del]

definition pcsl_mem_get_free_heap_impl0 :: "PcslMem \<Rightarrow> int" where
  "pcsl_mem_get_free_heap_impl0 m =
     pcsl_mem_get_total_heap_impl0 m
       - usedLoop (PcslMemoryEnd m) (PcslMemoryStart m) (pHdrs m) 0"

function dumpLoop :: "nat \<Rightarrow> nat \<Rightarrow> hdrs \<Rightarrow> int \<Rightarrow> int" where
  "dumpLoop e p h k =
     (if p < e then
        if hMagic (h p) \<noteq> MAGIC then -1
        else dumpLoop e (p + hSize (h p) + sizeofHdr) h (if hFree (h p) \<noteq> 1 then k + 1 else k)
      else k)"
  by pat_completeness auto

termination dumpLoop
  by (relation "measure (\<lambda>(e, p, h, k). e - p)") (auto simp: sizeofHdr_def)

declare dumpLoop.simps [simp del]

definition pcsl_mem_malloc_dump_impl0 :: "PcslMem \<Rightarrow> int" where
  "pcsl_mem_malloc_dump_impl0 m = dumpLoop (PcslMemoryEnd m) (PcslMemoryStart m) (pHdrs m) 0"

section \<open>The pool as a list of blocks\<close>

text \<open>
  A block is its size and whether it is free; \<open>e\<close> is \<^verbatim>\<open>PcslMemoryEnd\<close>, a header before the end
  of the pool.
\<close>

type_synonym block = "nat \<times> bool"

fun chain :: "hdrs \<Rightarrow> nat \<Rightarrow> block list \<Rightarrow> nat \<Rightarrow> bool" where
  "chain h p [] e \<longleftrightarrow> p = e + 8"
| "chain h p ((s, f) # bs) e \<longleftrightarrow>
     h p = \<lparr>hMagic = MAGIC, hFree = (if f then 1 else 0), hSize = s\<rparr> \<and> 4 dvd p \<and> 4 dvd s \<and> p + 8 \<le> e
     \<and> chain h (p + s + 8) bs e"

text \<open>The blocks in use, by address and size.\<close>

fun liveBlocks :: "nat \<Rightarrow> block list \<Rightarrow> (nat \<times> nat) set" where
  "liveBlocks p [] = {}"
| "liveBlocks p ((s, f) # bs) = (if f then {} else {(p + 8, s)}) \<union> liveBlocks (p + s + 8) bs"

fun mergeRun :: "nat \<Rightarrow> block list \<Rightarrow> nat \<times> block list" where
  "mergeRun s ((t, True) # bs) = mergeRun (s + t + 8) bs"
| "mergeRun s bs = (s, bs)"

lemma mergeRun_shorter: "mergeRun s bs = (s', bs') \<Longrightarrow> length bs' \<le> length bs"
  by (induction s bs rule: mergeRun.induct) auto

text \<open>First fit, joining the free blocks passed on the way.\<close>

function absMalloc :: "nat \<Rightarrow> nat \<Rightarrow> block list \<Rightarrow> nat \<times> block list" where
  "absMalloc n p [] = (0, [])"
| "absMalloc n p ((s, f) # bs) =
     (if \<not> f then let (l, bs') = absMalloc n (p + s + 8) bs in (l, (s, f) # bs')
      else let (s', bs') = mergeRun s bs in
           if s' \<ge> n
           then (p + 8, if s' > n + 12 then (n, False) # (s' - n - 8, True) # bs' else (s', False) # bs')
           else let (l, bs'') = absMalloc n (p + s' + 8) bs' in (l, (s', True) # bs''))"
  by pat_completeness auto

termination absMalloc
  by (relation "measure (\<lambda>(n, p, bs). length bs)") (auto simp: less_Suc_eq_le intro: mergeRun_shorter [OF sym])

lemma chain_end: "chain h p bs e \<Longrightarrow> p \<le> e + 8"
  by (induction h p bs e rule: chain.induct) auto

lemma chain_cong: "(\<And>q. p \<le> q \<Longrightarrow> h' q = h q) \<Longrightarrow> chain h' p bs e = chain h p bs e"
proof (induction h p bs e rule: chain.induct)
  case (2 h p s f bs e)
  then have "chain h' (p + s + 8) bs e = chain h (p + s + 8) bs e" by simp
  with 2(2) [of p] show ?case by simp
qed simp

lemma chain_upd [simp]: "q < p \<Longrightarrow> chain (h(q := x)) p bs e = chain h p bs e"
  by (rule chain_cong) auto

lemma coalesce_result:
  assumes "chain h p ((s, True) # bs) e" "mergeRun s bs = (s', bs')"
  shows "coalesce e p h = h(p := \<lparr>hMagic = MAGIC, hFree = 1, hSize = s'\<rparr>)
    \<and> chain (h(p := \<lparr>hMagic = MAGIC, hFree = 1, hSize = s'\<rparr>)) p ((s', True) # bs') e"
  using assms
proof (induction s bs arbitrary: h rule: mergeRun.induct, goal_cases)
  case (1 s t bs h)
  let ?h = "h(p := \<lparr>hMagic = MAGIC, hFree = 1, hSize = s + t + 8\<rparr>)"
  have "chain ?h p ((s + t + 8, True) # bs) e" using 1(2) by (simp add: ac_simps)
  moreover have "mergeRun (s + t + 8) bs = (s', bs')" using 1(3) by simp
  ultimately have "coalesce e p ?h = ?h(p := \<lparr>hMagic = MAGIC, hFree = 1, hSize = s'\<rparr>)
    \<and> chain (?h(p := \<lparr>hMagic = MAGIC, hFree = 1, hSize = s'\<rparr>)) p ((s', True) # bs') e" by (rule 1(1))
  moreover have "coalesce e p h = coalesce e p ?h"
    using 1(2) by (subst coalesce.simps) (simp add: sizeofHdr_def Let_def)
  ultimately show ?case by (simp only: fun_upd_upd)
next
  case (2 s h)
  then have "h = h(p := \<lparr>hMagic = MAGIC, hFree = 1, hSize = s\<rparr>)" by (simp add: fun_eq_iff)
  moreover have "coalesce e p h = h"
    using 2 by (subst coalesce.simps) (simp add: sizeofHdr_def)
  ultimately show ?case using 2 by simp
next
  case (3 s t bs h)
  then have "h = h(p := \<lparr>hMagic = MAGIC, hFree = 1, hSize = s\<rparr>)" by (simp add: fun_eq_iff)
  moreover have "coalesce e p h = h"
    using 3 by (subst coalesce.simps) (simp add: sizeofHdr_def)
  ultimately show ?case using 3 by auto
qed

text \<open>The code's loop implements the first fit on the list.\<close>

lemma mallocLoop_result:
  assumes "chain h p bs e" "4 dvd n"
  shows "\<exists>h'. mallocLoop e n p h = (fst (absMalloc n p bs), h')
    \<and> chain h' p (snd (absMalloc n p bs)) e \<and> (\<forall>q < p. h' q = h q)"
  using assms
proof (induction n p bs arbitrary: h rule: absMalloc.induct)
  case (1 n p)
  then show ?case by (subst mallocLoop.simps) simp
next
  case (2 n p s f bs)
  note c = 2(3)
  show ?case
  proof (cases f)
    case False
    have m: "mallocLoop e n p h = mallocLoop e n (p + s + 8) h"
      using c False by (subst mallocLoop.simps) (simp add: coalesce.simps sizeofHdr_def)
    from c have "chain h (p + s + 8) bs e" by simp
    with 2(1) 2(4) False obtain h' where h': "mallocLoop e n (p + s + 8) h
        = (fst (absMalloc n (p + s + 8) bs), h')"
      "chain h' (p + s + 8) (snd (absMalloc n (p + s + 8) bs)) e" "\<forall>q < p + s + 8. h' q = h q"
      by blast
    with c False m show ?thesis by (auto simp: case_prod_beta)
  next
    case True
    obtain s' bs' where mr: "mergeRun s bs = (s', bs')" by (cases "mergeRun s bs")
    let ?h = "h(p := \<lparr>hMagic = MAGIC, hFree = 1, hSize = s'\<rparr>)"
    have co: "coalesce e p h = ?h" "chain ?h p ((s', True) # bs') e"
      using coalesce_result [of h p s bs e s' bs'] c True mr by simp_all
    show ?thesis
    proof (cases "n \<le> s'")
      case fit: True
      have m: "mallocLoop e n p h = (p + 8, takeBlock n p ?h)"
        using c True co(1) fit by (subst mallocLoop.simps) (simp add: sizeofHdr_def)
      have "chain (takeBlock n p ?h) p
          (if s' > n + 12 then (n, False) # (s' - n - 8, True) # bs' else (s', False) # bs') e"
      proof (cases "s' > n + 12")
        case split: True
        have "p + s' + 8 \<le> e + 8" using chain_end [of ?h "p + s' + 8" bs' e] co(2) by simp
        moreover have "4 dvd s'" "4 dvd n"
          using co(2) 2(4) by simp_all
        ultimately have "p + n + 8 + 8 \<le> e" using split by presburger
        moreover have "4 dvd p + n + 8" using co(2) 2(4) by (intro dvd_add) simp_all
        moreover have "4 dvd s' - n - 8" using co(2) 2(4) by (simp add: dvd_diff_nat)
        moreover have "chain (takeBlock n p ?h) (p + s' + 8) bs' e"
          using co(2) split by (simp add: takeBlock_def sizeofHdr_def)
        ultimately show ?thesis using split co(2) 2(4)
          by (simp add: takeBlock_def sizeofHdr_def)
      next
        case False
        then show ?thesis using co(2) by (simp add: takeBlock_def sizeofHdr_def)
      qed
      moreover have "\<forall>q < p. takeBlock n p ?h q = h q" by (simp add: takeBlock_def sizeofHdr_def)
      ultimately show ?thesis using m True mr fit by simp
    next
      case False
      have m: "mallocLoop e n p h = mallocLoop e n (p + s' + 8) ?h"
        using c True co(1) False by (subst mallocLoop.simps) (simp add: sizeofHdr_def)
      have rest: "chain ?h (p + s' + 8) bs' e" using co(2) by simp
      obtain h' where
        h': "mallocLoop e n (p + s' + 8) ?h = (fst (absMalloc n (p + s' + 8) bs'), h')"
        "chain h' (p + s' + 8) (snd (absMalloc n (p + s' + 8) bs')) e"
        "\<forall>q < p + s' + 8. h' q = ?h q"
        using 2(2) [OF _ mr [symmetric] refl _ rest 2(4)] True False by blast
      with c True co(2) m mr False show ?thesis by (auto simp: case_prod_beta)
    qed
  qed
qed

text \<open>Reading the blocks off the headers.\<close>

function blocksFrom :: "nat \<Rightarrow> nat \<Rightarrow> hdrs \<Rightarrow> block list" where
  "blocksFrom e p h =
     (if p < e then (hSize (h p), hFree (h p) = 1) # blocksFrom e (p + hSize (h p) + 8) h else [])"
  by pat_completeness auto

termination blocksFrom
  by (relation "measure (\<lambda>(e, p, h). e - p)") auto

declare blocksFrom.simps [simp del]

lemma blocksFrom_chain: "chain h p bs e \<Longrightarrow> blocksFrom e p h = bs"
proof (induction h p bs e rule: chain.induct)
  case (1 h p e)
  then show ?case by (subst blocksFrom.simps) simp
next
  case (2 h p s f bs e)
  then show ?case by (subst blocksFrom.simps) simp
qed

definition blocks :: "PcslMem \<Rightarrow> block list" where
  "blocks m = blocksFrom (PcslMemoryEnd m) (PcslMemoryStart m) (pHdrs m)"

definition live :: "PcslMem \<Rightarrow> (nat \<times> nat) set" where
  "live m = liveBlocks (PcslMemoryStart m) (blocks m)"

definition pool_ok :: "PcslMem \<Rightarrow> bool" where
  "pool_ok m \<longleftrightarrow> 0 < PcslMemoryStart m
     \<and> chain (pHdrs m) (PcslMemoryStart m) (blocks m) (PcslMemoryEnd m)"

lemma pool_okI:
  assumes "0 < PcslMemoryStart m" "chain (pHdrs m) (PcslMemoryStart m) bs (PcslMemoryEnd m)"
  shows "pool_ok m" "blocks m = bs"
  using assms blocksFrom_chain [OF assms(2)] by (simp_all add: pool_ok_def blocks_def)

section \<open>Facts about blocks\<close>

lemma live_range: "(q, l) \<in> liveBlocks p bs \<Longrightarrow> p + 8 \<le> q"
  by (induction p bs rule: liveBlocks.induct) (auto split: if_splits)

lemma live_within: "\<lbrakk>chain h p bs e; (q, l) \<in> liveBlocks p bs\<rbrakk> \<Longrightarrow> q + l \<le> e + 8 \<and> q \<le> e \<and> 4 dvd q"
proof (induction h p bs e rule: chain.induct)
  case (2 h p s f bs e)
  then have "p + s + 8 \<le> e + 8" using chain_end [of h "p + s + 8" bs e] by simp
  with 2 show ?case by (auto split: if_splits)
qed simp

lemma live_apart:
  "\<lbrakk>(q, l) \<in> liveBlocks p bs; (q', l') \<in> liveBlocks p bs; (q, l) \<noteq> (q', l')\<rbrakk>
    \<Longrightarrow> q + l + 8 \<le> q' \<or> q' + l' + 8 \<le> q"
proof (induction p bs rule: liveBlocks.induct)
  case (2 p s f bs)
  then show ?case
    using live_range [of q l "p + s + 8" bs] live_range [of q' l' "p + s + 8" bs]
    by (auto split: if_splits)
qed simp

lemma mergeRun_live: "mergeRun s bs = (s', bs') \<Longrightarrow> liveBlocks (p + s + 8) bs = liveBlocks (p + s' + 8) bs'"
  by (induction s bs rule: mergeRun.induct) (auto simp: ac_simps)

lemma absMalloc_live:
  "absMalloc n p bs = (l, bs') \<Longrightarrow>
     (l = 0 \<and> liveBlocks p bs' = liveBlocks p bs)
   \<or> (p + 8 \<le> l \<and> (\<exists>k \<ge> n. k \<le> n + 12 \<and> (l, k) \<notin> liveBlocks p bs
        \<and> liveBlocks p bs' = insert (l, k) (liveBlocks p bs)))"
proof (induction n p bs arbitrary: l bs' rule: absMalloc.induct)
  case (1 n p)
  then show ?case by simp
next
  case (2 n p s f bs)
  show ?case
  proof (cases f)
    case False
    obtain ws where w: "absMalloc n (p + s + 8) bs = (l, ws)" "bs' = (s, False) # ws"
      using 2(3) False by (auto split: prod.splits)
    from 2(1) [OF _ w(1)] False w(2) show ?thesis by auto
  next
    case True
    obtain s' cs where mr: "mergeRun s bs = (s', cs)" by (cases "mergeRun s bs")
    have lv: "liveBlocks p ((s, f) # bs) = liveBlocks (p + s' + 8) cs"
      using mergeRun_live [OF mr] True by simp
    have fresh: "(p + 8, k) \<notin> liveBlocks (p + s' + 8) cs" for k
      using live_range [of "p + 8" k "p + s' + 8" cs] by auto
    show ?thesis
    proof (cases "n \<le> s'")
      case True
      show ?thesis
      proof (cases "s' > n + 12")
        case split: True
        then have "p + n + 8 + (s' - n - 8) + 8 = p + s' + 8" by simp
        then have "liveBlocks p bs' = insert (p + 8, n) (liveBlocks (p + s' + 8) cs)"
          using 2(3) \<open>f\<close> mr True split by (auto simp: ac_simps)
        moreover have "l = p + 8" using 2(3) \<open>f\<close> mr True by simp
        ultimately show ?thesis using fresh lv by auto
      next
        case False
        then show ?thesis using 2(3) \<open>f\<close> mr True fresh lv by auto
      qed
    next
      case False
      obtain ws where w: "absMalloc n (p + s' + 8) cs = (l, ws)" "bs' = (s', True) # ws"
        using 2(3) False \<open>f\<close> mr by (auto split: prod.splits)
      from 2(2) [OF _ mr [symmetric] refl False w(1)] \<open>f\<close> w(2) lv show ?thesis by auto
    qed
  qed
qed

text \<open>All free neighbours joined.\<close>

function compact :: "block list \<Rightarrow> block list" where
  "compact [] = []"
| "compact ((s, f) # bs) =
     (if f then let (s', bs') = mergeRun s bs in (s', True) # compact bs' else (s, f) # compact bs)"
  by pat_completeness auto

termination compact
  by (relation "measure length") (auto simp: less_Suc_eq_le intro: mergeRun_shorter [OF sym])

lemma absMalloc_fails:
  "fst (absMalloc n p bs) = 0 \<longleftrightarrow> (\<forall>s. (s, True) \<in> set (compact bs) \<longrightarrow> s < n)"
proof (induction n p bs rule: absMalloc.induct)
  case (2 n p s f bs)
  show ?case
  proof (cases f)
    case False
    with 2(1) show ?thesis by (auto simp: case_prod_beta)
  next
    case True
    obtain s' cs where mr: "mergeRun s bs = (s', cs)" by (cases "mergeRun s bs")
    show ?thesis
    proof (cases "n \<le> s'")
      case fit: True
      then show ?thesis using True mr by auto
    next
      case False
      with 2(2) [OF _ mr [symmetric] refl] True mr show ?thesis by (auto simp: case_prod_beta)
    qed
  qed
qed simp

lemma mergeRun_all:
  "\<lbrakk>chain h p bs e; \<forall>b \<in> set bs. snd b; q + s + 8 = p\<rbrakk> \<Longrightarrow> mergeRun s bs = (e - q, [])"
proof (induction h p bs e arbitrary: s rule: chain.induct)
  case (2 h p t f bs e)
  then have "mergeRun (s + t + 8) bs = (e - q, [])" by (intro 2(1)) (simp_all add: ac_simps)
  with 2(3) show ?case by simp
qed auto

lemma live_empty: "liveBlocks p bs = {} \<longleftrightarrow> (\<forall>b \<in> set bs. snd b)"
  by (induction p bs rule: liveBlocks.induct) auto

lemma free_chain:
  assumes "chain h p bs e" "(q, k) \<in> liveBlocks p bs"
  shows "h (q - 8) = \<lparr>hMagic = MAGIC, hFree = 0, hSize = k\<rparr>
    \<and> (\<exists>bs'. chain (h(q - 8 := \<lparr>hMagic = MAGIC, hFree = 1, hSize = k\<rparr>)) p bs' e
         \<and> liveBlocks p bs' = liveBlocks p bs - {(q, k)})"
  using assms
proof (induction h p bs e rule: chain.induct)
  case (2 h p s f bs e)
  show ?case
  proof (cases "\<not> f \<and> (q, k) = (p + 8, s)")
    case True
    have "(p + 8, s) \<notin> liveBlocks (p + s + 8) bs"
      using live_range [of "p + 8" s "p + s + 8" bs] by auto
    with True 2(2) show ?thesis
      by (intro conjI exI [of _ "(s, True) # bs"]) (simp_all del: fun_upd_apply add: fun_upd_same)
  next
    case False
    with 2(3) have q: "(q, k) \<in> liveBlocks (p + s + 8) bs" by (auto split: if_splits)
    define g where "g = h(q - 8 := \<lparr>hMagic = MAGIC, hFree = 1, hSize = k\<rparr>)"
    have c: "chain h (p + s + 8) bs e" using 2(2) by simp
    from 2(1) [OF c q] obtain bs' where bs': "chain g (p + s + 8) bs' e"
      "liveBlocks (p + s + 8) bs' = liveBlocks (p + s + 8) bs - {(q, k)}"
      "h (q - 8) = \<lparr>hMagic = MAGIC, hFree = 0, hSize = k\<rparr>"
      unfolding g_def by blast
    have "q - 8 \<noteq> p" using live_range [OF q] by simp
    then have "g p = h p" by (simp add: g_def)
    with 2(2) bs'(1) have "chain g p ((s, f) # bs') e" by simp
    moreover have "liveBlocks p ((s, f) # bs') = liveBlocks p ((s, f) # bs) - {(q, k)}"
      using bs'(2) False by auto
    ultimately show ?thesis using bs'(3) unfolding g_def by blast
  qed
qed simp

section \<open>Facts about the operations\<close>

lemma alignUp_dvd: "4 dvd alignUp n"
  by (induction n rule: alignUp.induct) (subst alignUp.simps, auto)

lemma alignUp_step: "n < 2 ^ 32 - 1 \<Longrightarrow> alignUp n = (if n mod 4 \<noteq> 0 then alignUp (Suc n) else n)"
  by (subst alignUp.simps) simp

lemma alignUp_small:
  assumes "n \<le> 2 ^ 32 - 4"
  shows "n \<le> alignUp n \<and> alignUp n < n + 4"
proof (cases "n mod 4 = 0")
  case True
  with alignUp_step [of n] assms show ?thesis by simp
next
  case False
  then have "n \<noteq> 2 ^ 32 - 4" by auto
  with assms have n: "n < 2 ^ 32 - 4" by linarith
  have "n < 2 ^ 32 - 1" "Suc n < 2 ^ 32 - 1" "Suc (Suc n) < 2 ^ 32 - 1" "Suc (Suc (Suc n)) < 2 ^ 32 - 1"
    using n by linarith+
  note st = this [THEN alignUp_step]
  have "n mod 4 < 4" by simp
  with False consider "n mod 4 = 1" | "n mod 4 = 2" | "n mod 4 = 3" by linarith
  then show ?thesis by cases (simp_all add: st mod_Suc)
qed

lemma alignUp_wraps: "\<lbrakk>2 ^ 32 - 4 < n; n < 2 ^ 32\<rbrakk> \<Longrightarrow> alignUp n = 0"
proof -
  assume "2 ^ 32 - 4 < n" "n < 2 ^ 32"
  then consider "n = 4294967293" | "n = 4294967294" | "n = 4294967295" by fastforce
  moreover have z: "alignUp 0 = 0" by (subst alignUp.simps) simp
  moreover have a: "alignUp 4294967295 = 0" by (subst alignUp.simps) (simp add: z)
  moreover have b: "alignUp 4294967294 = 0" by (subst alignUp.simps) (simp add: a)
  moreover have c: "alignUp 4294967293 = 0" by (subst alignUp.simps) (simp add: b)
  ultimately show ?thesis by cases simp_all
qed

lemma malloc_result:
  assumes "pool_ok m" "pcsl_mem_malloc_impl0 sz m = (l, m')"
  shows "pool_ok m'" "pCells m' = pCells m" "PcslMemoryStart m' = PcslMemoryStart m"
    "PcslMemoryEnd m' = PcslMemoryEnd m"
    "absMalloc (alignUp sz) (PcslMemoryStart m) (blocks m) = (l, blocks m')"
proof -
  let ?s = "PcslMemoryStart m" and ?e = "PcslMemoryEnd m"
  have c: "chain (pHdrs m) ?s (blocks m) ?e" "0 < ?s" using assms(1) by (auto simp: pool_ok_def)
  obtain h where h: "mallocLoop ?e (alignUp sz) ?s (pHdrs m) = (fst (absMalloc (alignUp sz) ?s (blocks m)), h)"
    "chain h ?s (snd (absMalloc (alignUp sz) ?s (blocks m))) ?e"
    using mallocLoop_result [OF c(1) alignUp_dvd] by blast
  then have m': "l = fst (absMalloc (alignUp sz) ?s (blocks m))" "m' = m\<lparr>pHdrs := h\<rparr>"
    using assms(2) by (simp_all add: pcsl_mem_malloc_impl0_def)
  then show "pCells m' = pCells m" "PcslMemoryStart m' = ?s" "PcslMemoryEnd m' = ?e" by simp_all
  have *: "0 < PcslMemoryStart m'" "chain (pHdrs m') (PcslMemoryStart m')
      (snd (absMalloc (alignUp sz) ?s (blocks m))) (PcslMemoryEnd m')" using h(2) c(2) m'(2) by simp_all
  show "pool_ok m'" using * by (rule pool_okI)
  show "absMalloc (alignUp sz) ?s (blocks m) = (l, blocks m')"
    using pool_okI(2) [OF *] m'(1) by simp
qed

lemma malloc_live:
  assumes "pool_ok m" "pcsl_mem_malloc_impl0 sz m = (l, m')"
  shows "(l = 0 \<and> live m' = live m)
    \<or> (l \<noteq> 0 \<and> (\<exists>k \<ge> alignUp sz. k \<le> alignUp sz + 12 \<and> (l, k) \<notin> live m \<and> live m' = insert (l, k) (live m)))"
  using absMalloc_live [OF malloc_result(5) [OF assms]] malloc_result(3) [OF assms]
  by (auto simp: live_def)

lemma pool_free_result:
  assumes "pool_ok m" "(p, k) \<in> live m"
  shows "pcsl_mem_free_impl0 p m = m\<lparr>pHdrs := (pHdrs m)(p - 8 := \<lparr>hMagic = MAGIC, hFree = 1, hSize = k\<rparr>)\<rparr>"
    "pool_ok (pcsl_mem_free_impl0 p m)" "live (pcsl_mem_free_impl0 p m) = live m - {(p, k)}"
    "pHdrs m (p - 8) = \<lparr>hMagic = MAGIC, hFree = 0, hSize = k\<rparr>"
proof -
  let ?s = "PcslMemoryStart m" and ?e = "PcslMemoryEnd m"
  have c: "chain (pHdrs m) ?s (blocks m) ?e" "0 < ?s" using assms(1) by (auto simp: pool_ok_def)
  have l: "(p, k) \<in> liveBlocks ?s (blocks m)" using assms(2) by (simp add: live_def)
  show h: "pHdrs m (p - 8) = \<lparr>hMagic = MAGIC, hFree = 0, hSize = k\<rparr>"
    using free_chain [OF c(1) l] by blast
  from free_chain [OF c(1) l] obtain bs where
    bs: "chain ((pHdrs m)(p - 8 := \<lparr>hMagic = MAGIC, hFree = 1, hSize = k\<rparr>)) ?s bs ?e"
    "liveBlocks ?s bs = liveBlocks ?s (blocks m) - {(p, k)}" by blast
  have "?s + 8 \<le> p" "p \<le> ?e" using live_range [OF l] live_within [OF c(1) l] by auto
  with h show f: "pcsl_mem_free_impl0 p m
      = m\<lparr>pHdrs := (pHdrs m)(p - 8 := \<lparr>hMagic = MAGIC, hFree = 1, hSize = k\<rparr>)\<rparr>"
    by (simp add: pcsl_mem_free_impl0_def sizeofHdr_def)
  have *: "0 < PcslMemoryStart (pcsl_mem_free_impl0 p m)"
    "chain (pHdrs (pcsl_mem_free_impl0 p m)) (PcslMemoryStart (pcsl_mem_free_impl0 p m)) bs
      (PcslMemoryEnd (pcsl_mem_free_impl0 p m))" unfolding f using bs(1) c(2) by simp_all
  show "pool_ok (pcsl_mem_free_impl0 p m)" using * by (rule pool_okI)
  show "live (pcsl_mem_free_impl0 p m) = live m - {(p, k)}"
    using pool_okI(2) [OF *] bs(2) by (simp add: live_def f)
qed

lemma live_facts:
  assumes "pool_ok m" "(p, k) \<in> live m"
  shows "PcslMemoryStart m + 8 \<le> p" "p + k \<le> PcslMemoryEnd m + 8" "4 dvd p"
  using assms live_range [of p k] live_within [of _ _ _ _ p k] by (auto simp: live_def pool_ok_def)

interpretation pool: heap pcsl_mem_malloc_impl0 pcsl_mem_free_impl0 live pool_ok "2 ^ 32 - 4"
proof unfold_locales
  fix s s' n p k q l
  assume ok: "pool_ok s"
  {
    assume "n \<le> 2 ^ 32 - 4" "pcsl_mem_malloc_impl0 n s = (p, s')" "p \<noteq> 0"
    with malloc_live [OF ok, of n p s'] malloc_result(1) [OF ok, of n p s'] alignUp_small [of n]
    show "pool_ok s' \<and> (\<exists>k \<ge> n. (p, k) \<notin> live s \<and> live s' = insert (p, k) (live s))"
      by (meson le_trans)
  }
  {
    assume "pcsl_mem_malloc_impl0 n s = (0, s')"
    with malloc_live [OF ok, of n 0 s'] malloc_result(1) [OF ok, of n 0 s']
    show "pool_ok s' \<and> live s' = live s" by simp
  }
  {
    assume "(p, k) \<in> live s"
    with pool_free_result [OF ok this] show "pool_ok (pcsl_mem_free_impl0 p s)
      \<and> live (pcsl_mem_free_impl0 p s) = live s - {(p, k)}" by simp
  }
  {
    assume "(p, k) \<in> live s" "(q, l) \<in> live s" "(p, k) \<noteq> (q, l)"
    with live_apart [of p k "PcslMemoryStart s" "blocks s" q l] show "p + k < q \<or> q + l < p"
      by (auto simp: live_def)
  }
qed

definition usedBlocks :: "block list \<Rightarrow> block list" where
  "usedBlocks bs = filter (\<lambda>b. \<not> snd b) bs"

lemma usedBlocks_simps [simp]:
  "usedBlocks [] = []" "usedBlocks ((s, f) # bs) = (if f then usedBlocks bs else (s, f) # usedBlocks bs)"
  by (simp_all add: usedBlocks_def)

lemma endLoop_result:
  assumes "chain (pHdrs m) p bs e" "e = PcslMemoryEnd m" "PcslMemoryStart m \<le> p" "0 < p"
  shows "\<exists>h. endLoop e p c sz m = (c + int (length (usedBlocks bs)),
        c + int (length (usedBlocks bs)),
        sz + (\<Sum>b \<leftarrow> usedBlocks bs. int (fst b)), m\<lparr>pHdrs := h\<rparr>)
    \<and> chain h p (map (\<lambda>b. (fst b, True)) bs) e \<and> (\<forall>q < p. h q = pHdrs m q)"
  using assms
proof (induction bs arbitrary: p c sz m)
  case Nil
  then show ?case
    by (intro exI [of _ "pHdrs m"]) (subst endLoop.simps, simp)
next
  case (Cons b bs)
  obtain s f where b: "b = (s, f)" by (cases b)
  let ?h1 = "if f then pHdrs m else (pHdrs m)(p := \<lparr>hMagic = MAGIC, hFree = 1, hSize = s\<rparr>)"
  let ?m1 = "m\<lparr>pHdrs := ?h1\<rparr>"
  have hp: "pHdrs m p = \<lparr>hMagic = MAGIC, hFree = (if f then 1 else 0), hSize = s\<rparr>" "p + 8 \<le> e"
    "4 dvd p" "4 dvd s" and rest: "chain (pHdrs m) (p + s + 8) bs e" using Cons(2) b by simp_all
  have "pcsl_mem_free_impl0 (p + 8) m = ?m1" if "\<not> f"
    using that hp Cons(3,4) by (simp add: pcsl_mem_free_impl0_def sizeofHdr_def)
  then have st: "endLoop e p c sz m = endLoop e (p + s + 8) (if f then c else c + 1)
      (if f then sz else sz + int s) ?m1"
    using hp by (subst endLoop.simps) (simp add: sizeofHdr_def)
  have "chain (pHdrs ?m1) (p + s + 8) bs e" using rest by simp
  from Cons(1) [OF this, of "if f then c else c + 1" "if f then sz else sz + int s"] Cons(3-5)
  obtain h where h: "endLoop e (p + s + 8) (if f then c else c + 1) (if f then sz else sz + int s) ?m1
      = ((if f then c else c + 1) + int (length (usedBlocks bs)),
         (if f then c else c + 1) + int (length (usedBlocks bs)),
         (if f then sz else sz + int s) + (\<Sum>b \<leftarrow> usedBlocks bs. int (fst b)), ?m1\<lparr>pHdrs := h\<rparr>)"
    "chain h (p + s + 8) (map (\<lambda>b. (fst b, True)) bs) e" "\<forall>q < p + s + 8. h q = ?h1 q" by auto
  have "h p = \<lparr>hMagic = MAGIC, hFree = 1, hSize = s\<rparr>" using h(3) hp(1) by simp
  moreover have "\<forall>q < p. h q = pHdrs m q" using h(3) by simp
  ultimately show ?case using h(1,2) st b hp(2-4) by (intro exI [of _ h]) simp
qed

lemma live_sums:
  "finite (liveBlocks p bs) \<and> card (liveBlocks p bs) = length (usedBlocks bs)
    \<and> (\<Sum>(q, k) \<in> liveBlocks p bs. int k) = (\<Sum>b \<leftarrow> usedBlocks bs. int (fst b))"
proof (induction p bs rule: liveBlocks.induct)
  case (2 p s f bs)
  have "(p + 8, k) \<notin> liveBlocks (p + s + 8) bs" for k
    using live_range [of "p + 8" k "p + s + 8" bs] by auto
  with 2 show ?case by simp
qed simp

lemma whole_pool:
  assumes "pool_ok m" "live m = {}" "PcslMemoryStart m \<noteq> PcslMemoryEnd m + 8"
  shows "compact (blocks m) = [(PcslMemoryEnd m - PcslMemoryStart m, True)]"
proof -
  have c: "chain (pHdrs m) (PcslMemoryStart m) (blocks m) (PcslMemoryEnd m)"
    using assms(1) by (simp add: pool_ok_def)
  have f: "\<forall>b \<in> set (blocks m). snd b" using assms(2) live_empty by (simp add: live_def)
  obtain s bs where b: "blocks m = (s, True) # bs"
    using c f assms(3) by (cases "blocks m") auto
  with c have "chain (pHdrs m) (PcslMemoryStart m + s + 8) bs (PcslMemoryEnd m)" by simp
  from mergeRun_all [OF this _ refl] f b show ?thesis by simp
qed

lemma getCells_eq: "getCells p n c = getCells q n d \<longleftrightarrow> (\<forall>i < n. c (p + i) = d (q + i))"
  by (auto simp: getCells_def list_eq_iff_nth_eq)

lemma getCells_setCells_same: "length bs = n \<Longrightarrow> getCells p n (setCells p bs c) = bs"
  by (auto simp: getCells_def setCells_def intro!: nth_equalityI)

lemma getCells_setCells_apart:
  "q + n \<le> p \<or> p + length bs \<le> q \<Longrightarrow> getCells q n (setCells p bs c) = getCells q n c"
  by (auto simp: getCells_eq setCells_def)

section \<open>A pool\<close>

lemma initialize_ok:
  assumes "PcslMemoryStart m = 0" "0 < a" "4 dvd a" "4 dvd sz" "16 \<le> sz" "sz < 2 ^ 32"
    "pcsl_mem_initialize_impl0 prt a (int sz) m = (r, m')"
  shows "r = 0 \<and> pool_ok m' \<and> blocks m' = [(sz - 8, True)] \<and> live m' = {}
    \<and> PcslMemoryStart m' = a \<and> PcslMemoryEnd m' = a + sz - 8"
proof -
  have al: "alignPtr a = a" using assms(3) by (subst alignPtr.simps) auto
  have "(int sz - 8) mod 2 ^ 32 = int sz - 8" using assms(5,6) by (intro mod_pos_pos_trivial) simp_all
  moreover have "nat (int sz - 8) = sz - 8" by linarith
  moreover have "nat (int a + int sz - 8) = a + sz - 8" by simp
  ultimately have m': "r = 0" "m' = m\<lparr>PcslMemory := a, PcslMemoryStart := a, PcslMemoryEnd := a + sz - 8,
      pHdrs := (pHdrs m)(a := \<lparr>hMagic = MAGIC, hFree = 1, hSize = sz - 8\<rparr>)\<rparr>"
    using assms(1,2,5,7) al by (simp_all add: pcsl_mem_initialize_impl0_def sizeofHdr_def)
  have "4 dvd sz - 8" using assms(4) by (simp add: dvd_diff_nat)
  then have "chain (pHdrs m') (PcslMemoryStart m') [(sz - 8, True)] (PcslMemoryEnd m')"
    "0 < PcslMemoryStart m'" using assms(2,3,5) m'(2) by simp_all
  from pool_okI [OF this(2,1)] m' show ?thesis by (simp add: live_def)
qed

definition noPool :: PcslMem where
  "noPool = \<lparr>pHdrs = \<lambda>_. \<lparr>hMagic = 0, hFree = 0, hSize = 0\<rparr>, pCells = \<lambda>a. word_of_nat a,
     PcslMemory = 0, PcslMemoryStart = 0, PcslMemoryEnd = 0\<rparr>"

definition samplePool :: PcslMem where
  "samplePool = snd (pcsl_mem_initialize_impl0 (\<lambda>n. (0, 0)) 1000 100 noPool)"

lemma sample_pool: "pool_ok samplePool" "blocks samplePool = [(92, True)]" "live samplePool = {}"
  "PcslMemoryStart samplePool = 1000" "PcslMemoryEnd samplePool = 1092"
proof -
  obtain r where "pcsl_mem_initialize_impl0 (\<lambda>n. (0, 0)) 1000 (int 100) noPool = (r, samplePool)"
    unfolding samplePool_def by (cases "pcsl_mem_initialize_impl0 (\<lambda>n. (0, 0)) 1000 100 noPool") simp
  from initialize_ok [OF _ _ _ _ _ _ this] have "pool_ok samplePool \<and> blocks samplePool = [(92, True)]
    \<and> live samplePool = {} \<and> PcslMemoryStart samplePool = 1000 \<and> PcslMemoryEnd samplePool = 1092"
    by (simp add: noPool_def)
  then show "pool_ok samplePool" "blocks samplePool = [(92, True)]" "live samplePool = {}"
    "PcslMemoryStart samplePool = 1000" "PcslMemoryEnd samplePool = 1092" by simp_all
qed

lemma align_samples: "alignUp 0 = 0" "alignUp 10 = 12" "alignUp 12 = 12" "alignUp 20 = 20"
proof -
  show "alignUp 0 = 0" "alignUp 12 = 12" "alignUp 20 = 20" by (subst alignUp.simps, simp)+
  then have "alignUp 11 = 12" by (subst alignUp.simps) simp
  then show "alignUp 10 = 12" by (subst alignUp.simps) simp
qed

text \<open>The sample pool after the request of 10 bytes.\<close>

lemma sample_malloc:
  "fst (pcsl_mem_malloc_impl0 10 samplePool) = 1008"
  "blocks (snd (pcsl_mem_malloc_impl0 10 samplePool)) = [(12, False), (72, True)]"
  "live (snd (pcsl_mem_malloc_impl0 10 samplePool)) = {(1008, 12)}"
  "pool_ok (snd (pcsl_mem_malloc_impl0 10 samplePool))"
proof -
  obtain l m where m: "pcsl_mem_malloc_impl0 10 samplePool = (l, m)"
    by (cases "pcsl_mem_malloc_impl0 10 samplePool")
  note r = malloc_result [OF sample_pool(1) m]
  have "l = 1008 \<and> blocks m = [(12, False), (72, True)]"
    using r(5) sample_pool(2,4) align_samples(2) by simp
  then show "fst (pcsl_mem_malloc_impl0 10 samplePool) = 1008"
    "blocks (snd (pcsl_mem_malloc_impl0 10 samplePool)) = [(12, False), (72, True)]"
    "live (snd (pcsl_mem_malloc_impl0 10 samplePool)) = {(1008, 12)}"
    "pool_ok (snd (pcsl_mem_malloc_impl0 10 samplePool))"
    using m r(1,3) sample_pool(4) by (simp_all add: live_def)
qed

section \<open>Properties\<close>

text \<open>
  C27. Allocation is sound and complete: in a well-formed pool a request of at most
  \<open>2 ^ 32 - 4\<close> bytes gives an aligned block of at least that size, at most 15 bytes larger, inside
  the pool, a header apart from every block in use, and leaves the other blocks and all bytes
  alone; it fails exactly when no run of adjacent free blocks has the rounded size.
\<close>

theorem malloc_contract:
  assumes "pool_ok m" "sz \<le> 2 ^ 32 - 4" "pcsl_mem_malloc_impl0 sz m = (l, m')"
  shows "pool_ok m' \<and> pCells m' = pCells m
    \<and> (l = 0 \<longleftrightarrow> (\<forall>s. (s, True) \<in> set (compact (blocks m)) \<longrightarrow> s < alignUp sz))
    \<and> (if l = 0 then live m' = live m
       else 4 dvd l \<and> PcslMemoryStart m + 8 \<le> l
         \<and> (\<exists>k. sz \<le> k \<and> k \<le> sz + 15 \<and> l + k \<le> PcslMemoryEnd m + 8
              \<and> live m' = insert (l, k) (live m)
              \<and> (\<forall>(q, j) \<in> live m. l + k + 8 \<le> q \<or> q + j + 8 \<le> l)))"
proof -
  note r = malloc_result [OF assms(1,3)]
  have "l = 0 \<longleftrightarrow> (\<forall>s. (s, True) \<in> set (compact (blocks m)) \<longrightarrow> s < alignUp sz)"
    using absMalloc_fails [of "alignUp sz" "PcslMemoryStart m" "blocks m"] r(5) by simp
  moreover have "4 dvd l \<and> PcslMemoryStart m + 8 \<le> l
         \<and> (\<exists>k. sz \<le> k \<and> k \<le> sz + 15 \<and> l + k \<le> PcslMemoryEnd m + 8
              \<and> live m' = insert (l, k) (live m)
              \<and> (\<forall>(q, j) \<in> live m. l + k + 8 \<le> q \<or> q + j + 8 \<le> l))" if nz: "l \<noteq> 0"
  proof -
    obtain k where k: "alignUp sz \<le> k" "k \<le> alignUp sz + 12" "(l, k) \<notin> live m"
      "live m' = insert (l, k) (live m)"
      using malloc_live [OF assms(1,3)] nz by auto
    have "\<forall>(q, j) \<in> live m. l + k + 8 \<le> q \<or> q + j + 8 \<le> l"
      using live_apart [of l k "PcslMemoryStart m'" "blocks m'"] k(3,4) by (force simp: live_def)
    with live_facts [OF r(1), of l k] k r(3,4) alignUp_small [OF assms(2)] show ?thesis
      by (intro conjI exI [of _ k]) auto
  qed
  ultimately show ?thesis
    using r(1,2) malloc_live [OF assms(1,3)] by auto
qed

lemma malloc_contract_witness:
  "\<exists>l m'. pcsl_mem_malloc_impl0 20 (snd (pcsl_mem_malloc_impl0 10 samplePool)) = (l, m')
    \<and> pool_ok m' \<and> l \<noteq> 0 \<and> (\<exists>k. 20 \<le> k \<and> live m' = {(l, k), (1008, 12)} \<and> 1020 + 8 \<le> l)"
proof -
  let ?m = "snd (pcsl_mem_malloc_impl0 10 samplePool)"
  obtain l m' where m': "pcsl_mem_malloc_impl0 20 ?m = (l, m')" by (cases "pcsl_mem_malloc_impl0 20 ?m")
  have st: "PcslMemoryStart ?m = 1000"
    using malloc_result(3) [OF sample_pool(1)] sample_pool(4) by (metis prod.collapse)
  have "compact (blocks ?m) = [(12, False), (72, True)]" by (simp add: sample_malloc(2))
  with malloc_contract [OF sample_malloc(4) _ m'] st show ?thesis
    unfolding m' sample_malloc(3) align_samples(4) by fastforce
qed

text \<open>
  C28. Freeing gives back exactly the block: it leaves the bytes and all other blocks alone,
  freeing the same pointer again, \<^verbatim>\<open>NULL\<close> or a pointer outside the pool does nothing, and a
  block allocated and freed at once leaves the same blocks in use.
\<close>

theorem free_contract:
  assumes "pool_ok m" "(p, k) \<in> live m"
  shows "pool_ok (pcsl_mem_free_impl0 p m) \<and> live (pcsl_mem_free_impl0 p m) = live m - {(p, k)}
    \<and> pCells (pcsl_mem_free_impl0 p m) = pCells m
    \<and> pcsl_mem_free_impl0 p (pcsl_mem_free_impl0 p m) = pcsl_mem_free_impl0 p m
    \<and> (\<forall>q. q < PcslMemoryStart m \<or> PcslMemoryEnd m < q \<longrightarrow> pcsl_mem_free_impl0 q m = m)
    \<and> (\<forall>n l m'. n \<le> 2 ^ 32 - 4 \<and> pcsl_mem_malloc_impl0 n m = (l, m') \<and> l \<noteq> 0
          \<longrightarrow> live (pcsl_mem_free_impl0 l m') = live m)"
proof -
  note f = pool_free_result [OF assms]
  have "pcsl_mem_free_impl0 p (pcsl_mem_free_impl0 p m) = pcsl_mem_free_impl0 p m"
    unfolding f(1) by (simp add: pcsl_mem_free_impl0_def sizeofHdr_def Let_def)
  moreover have "pCells (pcsl_mem_free_impl0 p m) = pCells m" unfolding f(1) by simp
  moreover have "\<forall>q. q < PcslMemoryStart m \<or> PcslMemoryEnd m < q \<longrightarrow> pcsl_mem_free_impl0 q m = m"
    by (auto simp: pcsl_mem_free_impl0_def)
  ultimately show ?thesis using f(2,3) pool.alloc_release [OF assms(1)] by blast
qed

lemma free_contract_witness:
  "live (pcsl_mem_free_impl0 1008 (snd (pcsl_mem_malloc_impl0 10 samplePool))) = {}"
  using free_contract [OF sample_malloc(4), of 1008 12] sample_malloc(3) by simp

text \<open>
  C29. Ending the pool frees every leak: \<^verbatim>\<open>pcsl_end_memory\<close> reports the number and total size of
  the blocks in use and frees them all, after which a request succeeds exactly when its rounded
  size is at most the size of the pool.
\<close>

theorem end_memory_frees_all:
  assumes "pool_ok m" "PcslMemoryStart m \<le> PcslMemoryEnd m"
  shows "\<exists>m'. pcsl_end_memory m = (int (card (live m)), int (card (live m)), \<Sum>(q, k) \<in> live m. int k, m')
    \<and> pool_ok m' \<and> live m' = {}
    \<and> (\<forall>n. fst (pcsl_mem_malloc_impl0 n m') \<noteq> 0
          \<longleftrightarrow> int (alignUp n) \<le> pcsl_mem_get_total_heap_impl0 m)"
proof -
  let ?s = "PcslMemoryStart m" and ?e = "PcslMemoryEnd m"
  have c: "chain (pHdrs m) ?s (blocks m) ?e" "0 < ?s" using assms(1) by (auto simp: pool_ok_def)
  obtain h where h: "pcsl_end_memory m = (int (length (usedBlocks (blocks m))),
      int (length (usedBlocks (blocks m))),
      \<Sum>b \<leftarrow> usedBlocks (blocks m). int (fst b), m\<lparr>pHdrs := h\<rparr>)"
    "chain h ?s (map (\<lambda>b. (fst b, True)) (blocks m)) ?e"
    using endLoop_result [OF c(1) refl le_refl c(2), of 0 0] by (auto simp: pcsl_end_memory_def)
  let ?m = "m\<lparr>pHdrs := h\<rparr>"
  have "chain (pHdrs ?m) (PcslMemoryStart ?m) (map (\<lambda>b. (fst b, True)) (blocks m)) (PcslMemoryEnd ?m)"
    "0 < PcslMemoryStart ?m" using h(2) c(2) by simp_all
  note ok = pool_okI [OF this(2,1)]
  have empty: "live ?m = {}" by (auto simp: live_def ok(2) live_empty)
  have "compact (blocks ?m) = [(?e - ?s, True)]"
    using whole_pool [OF ok(1) empty] assms(2) by simp
  then have "fst (pcsl_mem_malloc_impl0 n ?m) = 0 \<longleftrightarrow> ?e - ?s < alignUp n" for n
    using absMalloc_fails [of "alignUp n" "PcslMemoryStart ?m" "blocks ?m"]
      malloc_result(5) [OF ok(1), of n] by (cases "pcsl_mem_malloc_impl0 n ?m") auto
  then have "fst (pcsl_mem_malloc_impl0 n ?m) \<noteq> 0
      \<longleftrightarrow> int (alignUp n) \<le> pcsl_mem_get_total_heap_impl0 m" for n
    using assms(2) by (auto simp: pcsl_mem_get_total_heap_impl0_def)
  with h(1) ok(1) empty live_sums [of ?s "blocks m"] show ?thesis by (simp add: live_def)
qed

lemma end_memory_frees_all_witness:
  "\<exists>m'. pcsl_end_memory (snd (pcsl_mem_malloc_impl0 10 samplePool)) = (1, 1, 12, m') \<and> live m' = {}
    \<and> fst (pcsl_mem_malloc_impl0 20 m') \<noteq> 0"
proof -
  let ?m = "snd (pcsl_mem_malloc_impl0 10 samplePool)"
  have e: "PcslMemoryStart ?m = 1000" "PcslMemoryEnd ?m = 1092"
    using malloc_result(3,4) [OF sample_pool(1)] sample_pool(4,5) by (metis prod.collapse)+
  with end_memory_frees_all [OF sample_malloc(4)] sample_malloc(3) align_samples(4) show ?thesis
    by (auto simp: pcsl_mem_get_total_heap_impl0_def)
qed

text \<open>The branch of \<^verbatim>\<open>pcsl_mem_realloc_impl0\<close> that copies: its three steps together.\<close>

lemma realloc_moves:
  assumes "pool_ok m" "(p, k) \<in> live m" "0 < sz" "sz \<le> 2 ^ 32 - 4" "k \<noteq> sz"
    "pcsl_mem_malloc_impl0 sz m = (l, m1)" "l \<noteq> 0"
    "pcsl_mem_realloc_impl0 p sz m = (q, m')"
  obtains j where "q = l" "sz \<le> j" "pool_ok m'" "live m' = insert (l, j) (live m - {(p, k)})"
    "(l, j) \<notin> live m" "(l, j) \<in> live m1" "pool_ok m1" "live m \<subseteq> live m1"
    "pCells m' = setCells l (getCells p (min k sz) (pCells m)) (pCells m)"
proof -
  note r = malloc_result [OF assms(1,6)]
  obtain j where j: "sz \<le> j" "(l, j) \<notin> live m" "live m1 = insert (l, j) (live m)"
    using pool.alloc_some [OF assms(1,4,6,7)] by blast
  have p: "p \<noteq> 0" using live_facts(1) [OF assms(1,2)] by simp
  have pk: "(p, k) \<in> live m1" using j(3) assms(2) by simp
  have hd: "hSize (pHdrs m (p - 8)) = k" "hSize (pHdrs m1 (p - 8)) = k"
    using pool_free_result(4) [OF assms(1,2)] pool_free_result(4) [OF r(1) pk] by simp_all
  define m2 where "m2 = m1\<lparr>pCells := setCells l (getCells p (min k sz) (pCells m1)) (pCells m1)\<rparr>"
  have res: "q = l" "m' = pcsl_mem_free_impl0 p m2"
    using assms(3,5,6,7,8) p hd by (auto simp: pcsl_mem_realloc_impl0_def sizeofHdr_def m2_def min_def)
  have ok2: "pool_ok m2" "live m2 = live m1"
    using r(1) by (simp_all add: m2_def pool_ok_def blocks_def live_def)
  note f = pool_free_result [OF ok2(1), of p k, unfolded ok2(2), OF pk]
  have ne: "l \<noteq> p" using j(2) pool.size_unique [OF r(1), of l j k] j(3) assms(2) by auto
  show thesis
  proof (rule that [OF res(1) j(1) _ _ j(2) _ r(1)])
    show "pool_ok m'" using f(2) res(2) by simp
    show "live m' = insert (l, j) (live m - {(p, k)})" using f(3) res(2) j(3) ne by auto
    show "pCells m' = setCells l (getCells p (min k sz) (pCells m)) (pCells m)"
      unfolding res(2) f(1) by (simp add: m2_def r(2))
  qed (use j(3) in auto)
qed

text \<open>
  C30. Reallocation moves the contents: for a block in use and a new size up to \<open>2 ^ 32 - 4\<close>, not 0,
  either the result is \<^verbatim>\<open>NULL\<close> and nothing changed, or it is a block in use of at least the new
  size that holds the first bytes of the old one, the old block is free unless it is the result,
  and the contents of every other block in use are the same.
\<close>

theorem realloc_keeps_contents:
  assumes "pool_ok m" "(p, k) \<in> live m" "0 < sz" "sz \<le> 2 ^ 32 - 4"
    "pcsl_mem_realloc_impl0 p sz m = (q, m')"
  shows "pool_ok m' \<and>
    (if q = 0 then live m' = live m \<and> pCells m' = pCells m
     else (\<exists>j \<ge> sz. live m' = insert (q, j) (live m - {(p, k)})
             \<and> getCells q (min k sz) (pCells m') = getCells p (min k sz) (pCells m)
             \<and> (\<forall>(r, l) \<in> live m - {(p, k)}. getCells r l (pCells m') = getCells r l (pCells m))))"
proof -
  have p: "p \<noteq> 0" using live_facts(1) [OF assms(1,2)] by simp
  have hd: "hSize (pHdrs m (p - 8)) = k" using pool_free_result(4) [OF assms(1,2)] by simp
  obtain l m1 where al: "pcsl_mem_malloc_impl0 sz m = (l, m1)" by (cases "pcsl_mem_malloc_impl0 sz m")
  consider "k = sz" | "k \<noteq> sz" "l = 0" | "k \<noteq> sz" "l \<noteq> 0" by blast
  then show ?thesis
  proof cases
    case 1
    with assms(5) p hd have "q = p" "m' = m" by (auto simp: pcsl_mem_realloc_impl0_def sizeofHdr_def)
    moreover have "insert (p, k) (live m - {(p, k)}) = live m" using assms(2) by auto
    ultimately show ?thesis using assms(1,2) 1 p by auto
  next
    case 2
    with assms(3,5) al p hd have "q = 0" "m' = m1"
      by (auto simp: pcsl_mem_realloc_impl0_def sizeofHdr_def)
    with pool.alloc_none [OF assms(1)] al 2 malloc_result(1,2) [OF assms(1) al] show ?thesis by auto
  next
    case 3
    obtain j where j: "q = l" "sz \<le> j" "pool_ok m'" "live m' = insert (l, j) (live m - {(p, k)})"
      "(l, j) \<notin> live m" "(l, j) \<in> live m1" "pool_ok m1" "live m \<subseteq> live m1"
      "pCells m' = setCells l (getCells p (min k sz) (pCells m)) (pCells m)"
      using realloc_moves [OF assms(1-4) 3(1) al 3(2) assms(5)] by metis
    have other: "getCells a b (pCells m') = getCells a b (pCells m)" if ab: "(a, b) \<in> live m" for a b
    proof -
      have "(a, b) \<noteq> (l, j)" using ab j(5) by auto
      then have "l + j < a \<or> a + b < l" using pool.apart [OF j(7), of l j a b] ab j(6,8) by auto
      with j(2) show ?thesis
        unfolding j(9) by (intro getCells_setCells_apart) (auto simp: getCells_def)
    qed
    have "getCells l (min k sz) (pCells m') = getCells p (min k sz) (pCells m)"
      unfolding j(9) by (rule getCells_setCells_same) (simp add: getCells_def)
    then show ?thesis using j(1-4) 3(2) other by auto
  qed
qed

lemma realloc_keeps_contents_witness:
  "\<exists>q m'. pcsl_mem_realloc_impl0 1008 20 (snd (pcsl_mem_malloc_impl0 10 samplePool)) = (q, m')
    \<and> pool_ok m' \<and> (q \<noteq> 0 \<longrightarrow> getCells q 12 (pCells m')
         = getCells 1008 12 (pCells (snd (pcsl_mem_malloc_impl0 10 samplePool))))"
proof -
  let ?m = "snd (pcsl_mem_malloc_impl0 10 samplePool)"
  obtain q m' where m': "pcsl_mem_realloc_impl0 1008 20 ?m = (q, m')"
    by (cases "pcsl_mem_realloc_impl0 1008 20 ?m")
  have "(1008, 12) \<in> live ?m" by (simp add: sample_malloc(3))
  from realloc_keeps_contents [OF sample_malloc(4) this _ _ m'] m' show ?thesis by auto
qed

text \<open>
  Oversize requests succeed with too small a block: a request of the last three sizes below
  \<open>2 ^ 32\<close> is rounded up to 0 and, if anything is free, returns a block of at most 12 bytes; and a
  \<^verbatim>\<open>calloc\<close> whose product overflows returns a block for the product modulo \<open>2 ^ 32\<close>.
\<close>

theorem oversize_requests_succeed:
  assumes "pool_ok m"
  shows "(\<forall>sz l m'. 2 ^ 32 - 4 < sz \<and> sz < 2 ^ 32 \<and> (\<exists>s. (s, True) \<in> set (compact (blocks m)))
        \<and> pcsl_mem_malloc_impl0 sz m = (l, m')
      \<longrightarrow> l \<noteq> 0 \<and> (\<exists>k \<le> 12. live m' = insert (l, k) (live m)))
    \<and> (\<forall>a b l m'. a * b mod 2 ^ 32 \<le> 2 ^ 32 - 4 \<and> pcsl_mem_calloc_impl0 a b m = (l, m') \<and> l \<noteq> 0
      \<longrightarrow> (\<exists>k \<le> a * b mod 2 ^ 32 + 15. live m' = insert (l, k) (live m)))"
proof (intro conjI allI impI)
  fix sz l m'
  assume a: "2 ^ 32 - 4 < sz \<and> sz < 2 ^ 32 \<and> (\<exists>s. (s, True) \<in> set (compact (blocks m)))
        \<and> pcsl_mem_malloc_impl0 sz m = (l, m')"
  then have z: "alignUp sz = 0" by (intro alignUp_wraps) auto
  have mal: "pcsl_mem_malloc_impl0 sz m = (l, m')" using a by blast
  show "l \<noteq> 0"
    using absMalloc_fails [of "alignUp sz" "PcslMemoryStart m" "blocks m"]
      malloc_result(5) [OF assms mal] a z by auto
  with malloc_live [OF assms mal] z show "\<exists>k \<le> 12. live m' = insert (l, k) (live m)" by auto
next
  fix a b l :: nat and m'
  let ?n = "a * b mod 2 ^ 32"
  assume c: "?n \<le> 2 ^ 32 - 4 \<and> pcsl_mem_calloc_impl0 a b m = (l, m') \<and> l \<noteq> 0"
  obtain l1 m1 where mal: "pcsl_mem_malloc_impl0 ?n m = (l1, m1)"
    by (cases "pcsl_mem_malloc_impl0 ?n m")
  with c have l1: "l1 = l" "m' = m1\<lparr>pCells := setCells l (replicate ?n 0) (pCells m1)\<rparr>"
    by (auto simp: pcsl_mem_calloc_impl0_def Let_def split: if_splits)
  have "live m' = live m1" unfolding l1 by (simp add: live_def blocks_def)
  moreover obtain k where "k \<le> alignUp ?n + 12" "live m1 = insert (l, k) (live m)"
    using malloc_live [OF assms mal] l1(1) c by auto
  moreover have "alignUp ?n < ?n + 4" using alignUp_small [of ?n] c by blast
  ultimately have "k \<le> ?n + 15 \<and> live m' = insert (l, k) (live m)" by simp
  then show "\<exists>k \<le> ?n + 15. live m' = insert (l, k) (live m)" by blast
qed

lemma oversize_requests_succeed_witness:
  "fst (pcsl_mem_malloc_impl0 4294967295 samplePool) \<noteq> 0"
  using oversize_requests_succeed [OF sample_pool(1), THEN conjunct1, rule_format,
      of 4294967295 "fst (pcsl_mem_malloc_impl0 4294967295 samplePool)"
      "snd (pcsl_mem_malloc_impl0 4294967295 samplePool)"] sample_pool(2)
  by auto

end
