(* ===== verification/Inflate.thy ===== *)
theory Inflate
  imports PspPrelude
begin

text \<open>
  The inflater for compressed files of a JAR, \<^verbatim>\<open>midp/src/ams/ams_base/reference/native/midpInflate.c\<close>
  with the macros of \<^verbatim>\<open>midpInflateint.h\<close> and the tables of \<^verbatim>\<open>midpInflatetables.h\<close>. \<^verbatim>\<open>get\<close> is the
  read function of the file object, called for \<^verbatim>\<open>INFLATEBUFFERSIZE\<close> bytes: the bytes it delivers
  (none at the end or for an error) and the file after it. \<^verbatim>\<open>mem\<close> is the allocator of the heap
  object. The loops over codes and blocks take fuel.
\<close>

unbundle bit_operations_syntax

section \<open>State\<close>

text \<open>A run of the code ends with a result, with undefined behaviour, or for lack of fuel not at all.\<close>

datatype 'a run = OutOfFuel | Undefined | Done 'a

fun andThen :: "'a run \<Rightarrow> ('a \<Rightarrow> 'b run) \<Rightarrow> 'b run" where
  "andThen (Done x) f = f x"
| "andThen Undefined f = Undefined"
| "andThen OutOfFuel f = OutOfFuel"

text \<open>
  The members that are handed on, such as function pointers, are arguments. \<open>tables\<close> counts the
  code tables allocated and not yet freed. The sizes \<^verbatim>\<open>outOffset\<close> and \<^verbatim>\<open>outLength\<close> are unsigned
  numbers of 32 bits.
\<close>

record 'f InflaterState =
  fileState :: 'f
  inRemaining :: int
  inDataSize :: nat
  inData :: "32 word"
  outBuffer :: "jbyte list"
  outOffset :: nat
  outLength :: nat
  inflateBufferIndex :: nat
  inflateBufferCount :: int
  inflateBuffer :: "jbyte list"
  tables :: nat

type_synonym 'f get = "'f \<Rightarrow> jbyte list \<times> 'f"

definition INFLATER_EXTRA_BYTES :: int where "INFLATER_EXTRA_BYTES = 4"
definition INFLATEBUFFERSIZE :: nat where "INFLATEBUFFERSIZE = 256"
definition MAX_BITS :: nat where "MAX_BITS = 15"
definition MAX_QUICK_CXD :: nat where "MAX_QUICK_CXD = 6"
definition MAX_QUICK_LXL :: nat where "MAX_QUICK_LXL = 9"
definition LITXLEN_BASE :: nat where "LITXLEN_BASE = 257"
definition HUFFINFO_LONG_MASK :: nat where "HUFFINFO_LONG_MASK = 0x8000"
definition MAX_ZIP_EXTRA_LENGTH_BITS :: nat where "MAX_ZIP_EXTRA_LENGTH_BITS = 5"
definition MAX_ZIP_EXTRA_DISTANCE_BITS :: nat where "MAX_ZIP_EXTRA_DISTANCE_BITS = 13"
definition MAX_ZIP_DISTANCE_CODE :: nat where "MAX_ZIP_DISTANCE_CODE = 29"

definition OUT_OF_MEMORY_ERROR :: int where "OUT_OF_MEMORY_ERROR = -2"
definition INFLATE_INVALID_BTYPE :: int where "INFLATE_INVALID_BTYPE = -3"
definition INFLATE_INPUT_BIT_ERROR :: int where "INFLATE_INPUT_BIT_ERROR = -4"
definition INFLATE_OUTPUT_BIT_ERROR :: int where "INFLATE_OUTPUT_BIT_ERROR = -5"
definition INFLATE_BAD_LENGTH_FIELD :: int where "INFLATE_BAD_LENGTH_FIELD = -6"
definition INFLATE_INPUT_OVERFLOW :: int where "INFLATE_INPUT_OVERFLOW = -7"
definition INFLATE_OUTPUT_OVERFLOW :: int where "INFLATE_OUTPUT_OVERFLOW = -8"
definition INFLATE_EARLY_END_OF_INPUT :: int where "INFLATE_EARLY_END_OF_INPUT = -9"
definition INFLATE_HUFFMAN_ENTRY_ERROR :: int where "INFLATE_HUFFMAN_ENTRY_ERROR = -10"
definition INFLATE_INVALID_LITERAL_OR_LENGTH :: int where "INFLATE_INVALID_LITERAL_OR_LENGTH = -11"
definition INFLATE_BAD_DISTANCE_CODE :: int where "INFLATE_BAD_DISTANCE_CODE = -12"
definition INFLATE_COPY_UNDERFLOW :: int where "INFLATE_COPY_UNDERFLOW = -13"
definition INFLATE_CODE_TABLE_LENGTH_ERROR :: int where "INFLATE_CODE_TABLE_LENGTH_ERROR = -14"
definition INFLATE_EARLY_END_OF_CCTABLE_INPUT :: int where "INFLATE_EARLY_END_OF_CCTABLE_INPUT = -15"
definition INFLATE_BAD_REPEAT_CODE :: int where "INFLATE_BAD_REPEAT_CODE = -16"
definition INFLATE_BAD_CODELENGTH_CODE :: int where "INFLATE_BAD_CODELENGTH_CODE = -17"

section \<open>Tables\<close>

definition ll_extra_bits :: "nat list" where
  "ll_extra_bits = [0, 0, 0, 0, 0, 0, 0, 0, 1, 1, 1, 1, 2, 2, 2, 2, 3, 3, 3, 3, 4, 4, 4, 4, 5, 5, 5, 5, 0]"

definition ll_length_base :: "nat list" where
  "ll_length_base = [3, 4, 5, 6, 7, 8, 9, 10, 11, 13, 15, 17, 19, 23, 27, 31, 35, 43, 51, 59, 67, 83, 99,
     115, 131, 163, 195, 227, 258]"

definition dist_extra_bits :: "nat list" where
  "dist_extra_bits = [0, 0, 0, 0, 1, 1, 2, 2, 3, 3, 4, 4, 5, 5, 6, 6, 7, 7, 8, 8, 9, 9, 10, 10, 11, 11,
     12, 12, 13, 13]"

definition dist_base :: "nat list" where
  "dist_base = [1, 2, 3, 4, 5, 7, 9, 13, 17, 25, 33, 49, 65, 97, 129, 193, 257, 385, 513, 769, 1025, 1537,
     2049, 3073, 4097, 6145, 8193, 12289, 16385, 24577]"

definition ccode_idx :: "nat list" where
  "ccode_idx = [16, 17, 18, 0, 8, 7, 9, 6, 10, 5, 11, 4, 12, 3, 13, 2, 14, 1, 15]"

definition reverse5 :: "nat list" where
  "reverse5 = [0x0, 0x10, 0x8, 0x18, 0x4, 0x14, 0xC, 0x1C, 0x2, 0x12, 0xA, 0x1A, 0x6, 0x16, 0xE, 0x1E,
     0x1, 0x11, 0x9, 0x19, 0x5, 0x15, 0xD, 0x1D, 0x3, 0x13, 0xB, 0x1B, 0x7, 0x17, 0xF, 0x1F]"

definition REVERSE_5BITS :: "nat \<Rightarrow> nat" where
  "REVERSE_5BITS code = reverse5 ! code"

definition REVERSE_9BITS :: "nat \<Rightarrow> nat" where
  "REVERSE_9BITS code = (reverse5 ! (code mod 32) * 16) OR reverse5 ! (code div 16)"

text \<open>The last index is behind the table for codes of more than 15 bits.\<close>

definition REVERSE_15BITS :: "nat \<Rightarrow> nat option" where
  "REVERSE_15BITS code =
     (if code div 1024 < length reverse5
      then Some (reverse5 ! (code mod 32) * 1024 + reverse5 ! (code div 32 mod 32) * 32 + reverse5 ! (code div 1024))
      else None)"

section \<open>Bits of the input\<close>

definition nextByte :: "'f get \<Rightarrow> 'f InflaterState \<Rightarrow> jbyte \<times> 'f InflaterState" where
  "nextByte get s =
     (if inflateBufferCount s > 0
      then (inflateBuffer s ! inflateBufferIndex s,
            s\<lparr>inflateBufferCount := inflateBufferCount s - 1, inflateBufferIndex := Suc (inflateBufferIndex s)\<rparr>)
      else
        let (bs, f) = get (fileState s) in
        if bs \<noteq> []
        then (bs ! 0, s\<lparr>fileState := f, inflateBuffer := bs @ drop (length bs) (inflateBuffer s),
                        inflateBufferIndex := 1, inflateBufferCount := int (length bs) - 1\<rparr>)
        else (0xFF, s\<lparr>fileState := f, inflateBufferCount := 0\<rparr>))"

lemma nextByte_keeps:
  assumes "nextByte get s = (b, s')"
  shows "inDataSize s' = inDataSize s" "inData s' = inData s" "inRemaining s' = inRemaining s"
    "outBuffer s' = outBuffer s" "outOffset s' = outOffset s" "outLength s' = outLength s" "tables s' = tables s"
  using assms by (auto simp: nextByte_def Let_def split: if_splits prod.splits)

function needBits :: "'f get \<Rightarrow> nat \<Rightarrow> 'f InflaterState \<Rightarrow> 'f InflaterState" where
  "needBits get j s =
     (if inDataSize s < j then
        let (b, s1) = nextByte get s in
        needBits get j (s1\<lparr>inData := inData s1 OR push_bit (inDataSize s1) (ucast b),
                           inRemaining := inRemaining s1 - 1, inDataSize := inDataSize s1 + 8\<rparr>)
      else s)"
  by pat_completeness auto
termination
  by (relation "measure (\<lambda>(get, j, s). j - inDataSize s)") (auto simp: nextByte_keeps(1) [OF sym])

declare needBits.simps [simp del]

definition nextBits :: "nat \<Rightarrow> 'f InflaterState \<Rightarrow> nat" where
  "nextBits j s = unat (inData s AND (push_bit j 1 - 1))"

text \<open>\<^verbatim>\<open>inDataSize\<close> is unsigned.\<close>

definition dumpBits :: "nat \<Rightarrow> 'f InflaterState \<Rightarrow> 'f InflaterState" where
  "dumpBits j s = s\<lparr>inData := drop_bit j (inData s), inDataSize := (inDataSize s + 2 ^ 32 - j) mod 2 ^ 32\<rparr>"

section \<open>Code tables\<close>

text \<open>
  A table is its memory, a list of 16-bit cells: the header \<^verbatim>\<open>quickBits\<close>, \<^verbatim>\<open>maxCodeLen\<close>, then the
  entries with the long tables behind them.
\<close>

type_synonym HuffmanCodeTable = "nat list"

definition quickBits :: "HuffmanCodeTable \<Rightarrow> nat" where
  "quickBits t = t ! 0"

definition maxCodeLen :: "HuffmanCodeTable \<Rightarrow> nat" where
  "maxCodeLen t = t ! 1"

text \<open>The symbol for the next bits, \<open>None\<close> if there is none.\<close>

definition getHuffmanEntry ::
  "HuffmanCodeTable \<Rightarrow> nat \<Rightarrow> 'f InflaterState \<Rightarrow> (nat option \<times> 'f InflaterState) run" where
  "getHuffmanEntry t quick s =
     (let i = 2 + nextBits quick s in
      if i \<ge> length t then Undefined
      else
        andThen
          (if t ! i \<ge> HUFFINFO_LONG_MASK then
             let delta = t ! i - HUFFINFO_LONG_MASK;
                 k = delta div 2 + nextBits (maxCodeLen t) s div 2 ^ quick in
             if odd delta \<or> k \<ge> length t then Undefined else Done (t ! k)
           else Done (t ! i))
          (\<lambda>huff. if huff = 0 then Done (None, s)
                  else Done (Some (huff div 16), dumpBits (huff mod 16) s)))"

text \<open>\<^verbatim>\<open>bitLengthCount\<close>; \<open>None\<close> for a length behind it.\<close>

fun countLengths :: "nat list \<Rightarrow> nat list \<Rightarrow> nat list option" where
  "countLengths [] counts = Some counts"
| "countLengths (l # ls) counts =
     (if l < length counts then countLengths ls (counts[l := counts ! l + 1]) else None)"

text \<open>The first code of each length and the greatest length in use.\<close>

fun codesLoop :: "nat list \<Rightarrow> nat list \<Rightarrow> nat list \<Rightarrow> nat \<Rightarrow> nat \<Rightarrow> nat list \<times> nat" where
  "codesLoop [] counts codes code maxLen = (codes, maxLen)"
| "codesLoop (b # bs) counts codes code maxLen =
     (if counts ! b \<noteq> 0
      then codesLoop bs counts (codes[b := code]) (code + counts ! b * 2 ^ (MAX_BITS - b)) b
      else codesLoop bs counts (codes[b := code]) code maxLen)"

text \<open>\<^verbatim>\<open>for (j = start; j < lim; j += 1 << b) table[j] = huff\<close>, the table beginning at cell \<^verbatim>\<open>base\<close>.\<close>

function strideLoop :: "nat \<Rightarrow> nat \<Rightarrow> nat \<Rightarrow> nat \<Rightarrow> nat \<Rightarrow> HuffmanCodeTable \<Rightarrow> HuffmanCodeTable option" where
  "strideLoop base j b lim huff t =
     (if j < lim then
        if base + j < length t then strideLoop base (j + 2 ^ b) b lim huff (t[base + j := huff]) else None
      else Some t)"
  by pat_completeness auto
termination
  by (relation "measure (\<lambda>(base, j, b, lim, huff, t). lim - j)") (auto intro: diff_less_mono2)

declare strideLoop.simps [simp del]

text \<open>
  The loop over the symbols, \<open>i\<close> the symbol and \<open>nextLong\<close> the cell \<^verbatim>\<open>nextLongTable\<close> points to. The
  offset of a long table is twice its cell, stored in 15 bits.
\<close>

fun fillLoop :: "nat list \<Rightarrow> nat \<Rightarrow> nat list \<Rightarrow> nat \<Rightarrow> nat \<Rightarrow> nat \<Rightarrow> nat \<Rightarrow> HuffmanCodeTable
    \<Rightarrow> HuffmanCodeTable option" where
  "fillLoop [] i codes quick mainLen longLen nextLong t = Some t"
| "fillLoop (bits # ls) i codes quick mainLen longLen nextLong t =
     (if bits = 0 then fillLoop ls (Suc i) codes quick mainLen longLen nextLong t
      else
        let codes' = codes[bits := codes ! bits + 2 ^ (MAX_BITS - bits)];
            huff = (i * 16 + bits) mod 2 ^ 16 in
        case REVERSE_15BITS (codes ! bits) of
          None \<Rightarrow> None
        | Some code \<Rightarrow>
            if bits \<le> quick then
              case strideLoop 2 code bits mainLen huff t of
                None \<Rightarrow> None
              | Some t' \<Rightarrow> fillLoop ls (Suc i) codes' quick mainLen longLen nextLong t'
            else
              let prefixCode = code mod 2 ^ quick; suffixCode = code div 2 ^ quick in
              if 2 + prefixCode \<ge> length t then None
              else if t ! (2 + prefixCode) = 0 then
                case strideLoop nextLong suffixCode (bits - quick) longLen huff
                       (t[2 + prefixCode := HUFFINFO_LONG_MASK + 2 * nextLong mod 2 ^ 15]) of
                  None \<Rightarrow> None
                | Some t' \<Rightarrow> fillLoop ls (Suc i) codes' quick mainLen longLen (nextLong + longLen) t'
              else
                let delta = t ! (2 + prefixCode) mod 2 ^ 15 in
                if odd delta then None
                else case strideLoop (delta div 2) suffixCode (bits - quick) longLen huff t of
                       None \<Rightarrow> None
                     | Some t' \<Rightarrow> fillLoop ls (Suc i) codes' quick mainLen longLen nextLong t')"

text \<open>
  The result is the table, or \<open>None\<close> if there is no memory for it. The counts of code lengths
  keep \<^verbatim>\<open>code\<close> below 2 to the power 23, so that no computation wraps around; \<^verbatim>\<open>numLongTables\<close> is
  negative when the lengths ask for more codes than there are.
\<close>

definition makeCodeTable ::
  "(int \<Rightarrow> bool) \<Rightarrow> nat list \<Rightarrow> nat \<Rightarrow> 'f InflaterState \<Rightarrow> (HuffmanCodeTable option \<times> 'f InflaterState) run" where
  "makeCodeTable mem codelen maxQuickBits s =
     (case countLengths codelen (replicate (MAX_BITS + 1) 0) of
        None \<Rightarrow> Undefined
      | Some counts \<Rightarrow>
          let (codes, maxLen) = codesLoop [1..<MAX_BITS + 1] counts (replicate (MAX_BITS + 1) 0) 0 0;
              (quick, numLong, longLen) =
                (if maxLen \<le> maxQuickBits then (maxLen, 0, 0)
                 else (maxQuickBits,
                       (2 ^ MAX_BITS - int (codes ! (maxQuickBits + 1))) div 2 ^ (MAX_BITS - maxQuickBits),
                       2 ^ (maxLen - maxQuickBits)));
              mainLen = 2 ^ quick;
              tableSize = 4 + 2 * (int mainLen + numLong * int longLen) in
          if \<not> mem tableSize then Done (None, s)
          else if tableSize < 4 then Undefined
          else
            case fillLoop codelen 0 codes quick mainLen longLen (2 + mainLen)
                   ([quick, maxLen] @ replicate (nat ((tableSize - 4) div 2)) 0) of
              None \<Rightarrow> Undefined
            | Some t \<Rightarrow> Done (Some t, s\<lparr>tables := Suc (tables s)\<rparr>))"

definition freeTable :: "'f InflaterState \<Rightarrow> 'f InflaterState" where
  "freeTable s = s\<lparr>tables := tables s - 1\<rparr>"

section \<open>The tables of a block\<close>

text \<open>The lengths of the codes for lengths; an error is \<open>None\<close>.\<close>

fun lengthsLoop :: "'f get \<Rightarrow> nat list \<Rightarrow> nat list \<Rightarrow> 'f InflaterState \<Rightarrow> nat list option \<times> 'f InflaterState" where
  "lengthsLoop get [] codelen s = (Some codelen, s)"
| "lengthsLoop get (i # is) codelen s =
     (let s1 = needBits get 3 s in
      if inRemaining s1 < 0 then (None, s1)
      else lengthsLoop get is (codelen[i := nextBits 3 s1]) (dumpBits 3 s1))"

text \<open>
  The lengths of all codes, from \<open>pos\<close> (\<^verbatim>\<open>codePtr\<close>) to \<open>endPos\<close>. Writing at or behind the end of
  \<^verbatim>\<open>codelen\<close> is undefined.
\<close>

function codelenLoop :: "'f get \<Rightarrow> HuffmanCodeTable \<Rightarrow> nat \<Rightarrow> nat \<Rightarrow> nat list \<Rightarrow> 'f InflaterState
    \<Rightarrow> (int \<times> nat list \<times> 'f InflaterState) run" where
  "codelenLoop get t endPos pos codelen s =
     (if pos \<ge> endPos then Done (0, codelen, s)
      else if inRemaining s < 0 then Done (INFLATE_EARLY_END_OF_CCTABLE_INPUT, codelen, s)
      else
        andThen (getHuffmanEntry t (quickBits t) (needBits get (MAX_BITS + 7) s)) (\<lambda>(entry, s1).
          case entry of
            None \<Rightarrow> Done (INFLATE_HUFFMAN_ENTRY_ERROR, codelen, s1)
          | Some val \<Rightarrow>
              if val \<le> 15 then
                if pos < length codelen then codelenLoop get t endPos (Suc pos) (codelen[pos := val]) s1
                else Undefined
              else if val \<le> 18 then
                let bits = (if val = 18 then 7 else val - 14);
                    rep = (if val = 18 then 11 else 3) + nextBits bits s1;
                    s2 = dumpBits bits s1 in
                if pos + rep > endPos then Done (INFLATE_BAD_REPEAT_CODE, codelen, s2)
                else if val = 16 then
                  if pos = 0 then Done (INFLATE_BAD_REPEAT_CODE, codelen, s2)
                  else if pos + rep \<le> length codelen then
                    codelenLoop get t endPos (pos + rep)
                      (take pos codelen @ replicate rep (codelen ! (pos - 1)) @ drop (pos + rep) codelen) s2
                  else Undefined
                else codelenLoop get t endPos (pos + rep) codelen s2
              else Done (INFLATE_BAD_CODELENGTH_CODE, codelen, s1)))"
  by pat_completeness auto
termination
  by (relation "measure (\<lambda>(get, t, endPos, pos, codelen, s). endPos - pos)") auto

declare codelenLoop.simps [simp del]

text \<open>
  The tables for literals and distances; \<open>None\<close> is an error. Without memory for the first one the
  code frees the second one's handle, which was never set. The lengths for the distances may be
  read behind the end of \<^verbatim>\<open>codelen\<close>.
\<close>

definition makeTables ::
  "(int \<Rightarrow> bool) \<Rightarrow> nat \<Rightarrow> nat \<Rightarrow> nat list \<Rightarrow> 'f InflaterState
    \<Rightarrow> (int \<times> (HuffmanCodeTable \<times> HuffmanCodeTable) option \<times> 'f InflaterState) run" where
  "makeTables mem hlit hdist codelen s =
     andThen (makeCodeTable mem (take hlit codelen) MAX_QUICK_LXL s) (\<lambda>(lcodes, s1).
       case lcodes of
         None \<Rightarrow> Undefined
       | Some lc \<Rightarrow>
           if hlit + hdist > length codelen then Undefined
           else
             andThen (makeCodeTable mem (take hdist (drop hlit codelen)) MAX_QUICK_CXD s1) (\<lambda>(dcodes, s2).
               case dcodes of
                 None \<Rightarrow> Done (OUT_OF_MEMORY_ERROR, None, freeTable s2)
               | Some dc \<Rightarrow> Done (0, Some (lc, dc), s2)))"

text \<open>
  The tables of a block with its own codes, or an error. After an error in the code lengths the
  code frees two handles that were never set.
\<close>

definition decodeDynamicHuffmanTables ::
  "'f get \<Rightarrow> (int \<Rightarrow> bool) \<Rightarrow> 'f InflaterState
    \<Rightarrow> (int \<times> (HuffmanCodeTable \<times> HuffmanCodeTable) option \<times> 'f InflaterState) run" where
  "decodeDynamicHuffmanTables get mem s =
     (let s1 = needBits get 14 s;
          hlit = 257 + nextBits 5 s1; s2 = dumpBits 5 s1;
          hdist = 1 + nextBits 5 s2; s3 = dumpBits 5 s2;
          hclen = 4 + nextBits 4 s3; s4 = dumpBits 4 s3 in
      case lengthsLoop get (take hclen ccode_idx) (replicate 19 0) s4 of
        (None, s5) \<Rightarrow> Done (INFLATE_CODE_TABLE_LENGTH_ERROR, None, s5)
      | (Some lens, s5) \<Rightarrow>
          andThen (makeCodeTable mem lens MAX_QUICK_CXD s5) (\<lambda>(ccodes, s6).
            case ccodes of
              None \<Rightarrow> Done (OUT_OF_MEMORY_ERROR, None, s6)
            | Some cc \<Rightarrow>
                andThen (codelenLoop get cc (hlit + hdist) 0 (replicate (286 + 32) 0) s6) (\<lambda>(error, codelen, s7).
                  let s8 = freeTable s7 in
                  if error \<noteq> 0 then Undefined
                  else makeTables mem hlit hdist codelen s8)))"

section \<open>Blocks\<close>

text \<open>
  A block's error leaves the loaded copies of the members unstored; they are not used any more.
  Writing outside the output buffer is undefined.
\<close>

definition writeOut :: "jbyte list \<Rightarrow> 'f InflaterState \<Rightarrow> 'f InflaterState run" where
  "writeOut bs s =
     (if outOffset s + length bs \<le> length (outBuffer s)
      then Done (s\<lparr>outBuffer := take (outOffset s) (outBuffer s) @ bs @ drop (outOffset s + length bs) (outBuffer s),
                   outOffset := outOffset s + length bs\<rparr>)
      else Undefined)"

text \<open>First what is buffered, then a byte, by which the buffer is filled again.\<close>

function storedLoop :: "'f get \<Rightarrow> nat \<Rightarrow> 'f InflaterState \<Rightarrow> 'f InflaterState run" where
  "storedLoop get len s =
     (if len = 0 then Done s
      else
        let count = (if inflateBufferCount s > 0 then min (nat (inflateBufferCount s)) len else 0) in
        andThen (writeOut (take count (drop (inflateBufferIndex s) (inflateBuffer s))) s) (\<lambda>s1.
          let s2 = s1\<lparr>inflateBufferCount := inflateBufferCount s1 - int count,
                      inflateBufferIndex := inflateBufferIndex s1 + count,
                      inRemaining := inRemaining s1 - int count\<rparr> in
          if len - count = 0 then Done s2
          else
            let (b, s3) = nextByte get s2 in
            andThen (writeOut [b] s3) (\<lambda>s4.
              storedLoop get (len - count - 1) (s4\<lparr>inRemaining := inRemaining s4 - 1\<rparr>))))"
  by pat_completeness auto
termination
  by (relation "measure (\<lambda>(get, len, s). len)") auto

declare storedLoop.simps [simp del]

definition inflateStored :: "'f get \<Rightarrow> 'f InflaterState \<Rightarrow> (int \<times> 'f InflaterState) run" where
  "inflateStored get s =
     (let s1 = needBits get 32 (dumpBits (inDataSize s mod 8) s);
          len = nextBits 16 s1; s2 = dumpBits 16 s1;
          nlen = nextBits 16 s2; s3 = dumpBits 16 s2 in
      if len + nlen \<noteq> 0xFFFF then Done (INFLATE_BAD_LENGTH_FIELD, s3)
      else if inRemaining s3 < int len then Done (INFLATE_INPUT_OVERFLOW, s3)
      else if (outOffset s3 + len) mod 2 ^ 32 > outLength s3 then Done (INFLATE_OUTPUT_OVERFLOW, s3)
      else andThen (storedLoop get len s3) (\<lambda>s4. Done (0, s4)))"

text \<open>The literal or length of a block with the fixed codes.\<close>

definition fixedEntry :: "'f InflaterState \<Rightarrow> nat \<times> 'f InflaterState" where
  "fixedEntry s =
     (let code = REVERSE_9BITS (nextBits 9 s) in
      if code < 0x060 then (0x100 + code div 4, dumpBits 7 s)
      else if code < 0x190 then
        (if code < 0x180 then code div 2 - 0x030 else code div 2 + (0x118 - 0x0C0), dumpBits 8 s)
      else (0x90 + code - 0x190, dumpBits 9 s))"

text \<open>\<open>None\<close> for the tables means the fixed codes.\<close>

definition literalEntry ::
  "(HuffmanCodeTable \<times> HuffmanCodeTable) option \<Rightarrow> 'f InflaterState \<Rightarrow> (nat option \<times> 'f InflaterState) run" where
  "literalEntry codes s =
     (case codes of
        None \<Rightarrow> (case fixedEntry s of (v, s1) \<Rightarrow> Done (Some v, s1))
      | Some (lcodes, dcodes) \<Rightarrow> getHuffmanEntry lcodes (quickBits lcodes) s)"

definition distanceEntry ::
  "(HuffmanCodeTable \<times> HuffmanCodeTable) option \<Rightarrow> 'f InflaterState \<Rightarrow> (nat option \<times> 'f InflaterState) run" where
  "distanceEntry codes s =
     (case codes of
        None \<Rightarrow> Done (Some (REVERSE_5BITS (nextBits 5 s)), dumpBits 5 s)
      | Some (lcodes, dcodes) \<Rightarrow> getHuffmanEntry dcodes (quickBits dcodes) s)"

text \<open>A copy byte by byte, which may read what it has written.\<close>

fun matchLoop :: "nat \<Rightarrow> nat \<Rightarrow> nat \<Rightarrow> jbyte list \<Rightarrow> jbyte list option" where
  "matchLoop 0 prev off buf = Some buf"
| "matchLoop (Suc n) prev off buf =
     (if prev < length buf \<and> off < length buf
      then matchLoop n (Suc prev) (Suc off) (buf[off := buf ! prev]) else None)"

text \<open>The distance of a match: an error, or what is left to do with it.\<close>

definition copyMatch :: "nat \<Rightarrow> nat \<Rightarrow> 'f InflaterState \<Rightarrow> (int \<times> 'f InflaterState) run" where
  "copyMatch len distance s =
     (if outOffset s < distance then Done (INFLATE_COPY_UNDERFLOW, s)
      else if (outOffset s + len) mod 2 ^ 32 > outLength s then Done (INFLATE_OUTPUT_OVERFLOW, s)
      else case matchLoop len (outOffset s - distance) (outOffset s) (outBuffer s) of
             None \<Rightarrow> Undefined
           | Some buf \<Rightarrow> Done (0, s\<lparr>outBuffer := buf, outOffset := outOffset s + len\<rparr>))"

definition inflateMatch ::
  "'f get \<Rightarrow> (HuffmanCodeTable \<times> HuffmanCodeTable) option \<Rightarrow> nat \<Rightarrow> 'f InflaterState
    \<Rightarrow> (int \<times> 'f InflaterState) run" where
  "inflateMatch get codes litxlen s =
     (let n = litxlen - LITXLEN_BASE in
      if n \<ge> length ll_length_base then Undefined
      else
        let len = ll_length_base ! n + nextBits (ll_extra_bits ! n) s;
            s1 = needBits get MAX_BITS (dumpBits (ll_extra_bits ! n) s) in
        andThen (distanceEntry codes s1) (\<lambda>(d, s2).
            case d of
              None \<Rightarrow> Done (INFLATE_HUFFMAN_ENTRY_ERROR, s2)
            | Some d0 \<Rightarrow>
                if d0 > MAX_ZIP_DISTANCE_CODE then Done (INFLATE_BAD_DISTANCE_CODE, s2)
                else
                  let s3 = needBits get MAX_ZIP_EXTRA_DISTANCE_BITS s2 in
                  copyMatch len (dist_base ! d0 + nextBits (dist_extra_bits ! d0) s3)
                    (dumpBits (dist_extra_bits ! d0) s3)))"

text \<open>
  The loop over the codes of a block. The result 0 also stands for a literal that finds the output
  full.
\<close>

fun huffmanLoop :: "nat \<Rightarrow> 'f get \<Rightarrow> (HuffmanCodeTable \<times> HuffmanCodeTable) option \<Rightarrow> 'f InflaterState
    \<Rightarrow> (int \<times> 'f InflaterState) run" where
  "huffmanLoop 0 get codes s = OutOfFuel"
| "huffmanLoop (Suc fuel) get codes s =
     (if inRemaining s < 0 then Done (INFLATE_EARLY_END_OF_INPUT, s)
      else
        let s1 = needBits get (MAX_BITS + MAX_ZIP_EXTRA_LENGTH_BITS) s in
        andThen (literalEntry codes s1) (\<lambda>(entry, s2).
            case entry of
              None \<Rightarrow> Done (INFLATE_HUFFMAN_ENTRY_ERROR, s2)
            | Some litxlen \<Rightarrow>
                if litxlen \<le> 255 then
                  if outOffset s2 < outLength s2
                  then andThen (writeOut [of_nat litxlen] s2) (huffmanLoop fuel get codes)
                  else Done (0, s2)
                else if litxlen = 256 then Done (0, s2)
                else if litxlen > 285 then Done (INFLATE_INVALID_LITERAL_OR_LENGTH, s2)
                else andThen (inflateMatch get codes litxlen s2) (\<lambda>(error, s3).
                       if error \<noteq> 0 then Done (error, s3) else huffmanLoop fuel get codes s3)))"

definition inflateHuffman ::
  "nat \<Rightarrow> 'f get \<Rightarrow> (int \<Rightarrow> bool) \<Rightarrow> bool \<Rightarrow> 'f InflaterState \<Rightarrow> (int \<times> 'f InflaterState) run" where
  "inflateHuffman fuel get mem fixedHuffman s =
     (if fixedHuffman then huffmanLoop fuel get None s
      else
        andThen (decodeDynamicHuffmanTables get mem s) (\<lambda>(error, codes, s1).
          case codes of
            None \<Rightarrow> Done (error, s1)
          | Some c \<Rightarrow>
              andThen (huffmanLoop fuel get (Some c) s1) (\<lambda>(error, s2). Done (error, freeTable (freeTable s2)))))"

fun blockLoop :: "nat \<Rightarrow> nat \<Rightarrow> 'f get \<Rightarrow> (int \<Rightarrow> bool) \<Rightarrow> 'f InflaterState
    \<Rightarrow> (int \<times> 'f InflaterState) run" where
  "blockLoop 0 fuel get mem s = OutOfFuel"
| "blockLoop (Suc n) fuel get mem s =
     (let s1 = needBits get 3 s; type = nextBits 3 s1; s2 = dumpBits 3 s1 in
      andThen
        (if type div 2 = 0 then inflateStored get s2
         else if type div 2 = 1 then inflateHuffman fuel get mem True s2
         else if type div 2 = 2 then inflateHuffman fuel get mem False s2
         else Done (INFLATE_INVALID_BTYPE, s2))
        (\<lambda>(res, s3).
          if res \<noteq> 0 then Done (res, s3)
          else if odd type then
            if inRemaining s3 + int (inDataSize s3 div 8) \<noteq> INFLATER_EXTRA_BYTES
            then Done (INFLATE_INPUT_BIT_ERROR, s3)
            else if outOffset s3 \<noteq> outLength s3 then Done (INFLATE_OUTPUT_BIT_ERROR, s3)
            else Done (0, s3)
          else blockLoop n fuel get mem s3))"

text \<open>\<^verbatim>\<open>buf\<close> is the memory \<^verbatim>\<open>decompBuffer\<close> points to, \<^verbatim>\<open>old\<close> what the buffer on the stack holds.\<close>

definition inflateData ::
  "nat \<Rightarrow> 'f get \<Rightarrow> (int \<Rightarrow> bool) \<Rightarrow> 'f \<Rightarrow> jbyte list \<Rightarrow> int \<Rightarrow> jbyte list \<Rightarrow> int
    \<Rightarrow> (int \<times> 'f InflaterState) run" where
  "inflateData fuel get mem f old compLen buf decompLen =
     blockLoop fuel fuel get mem
       \<lparr>fileState = f, inRemaining = compLen + INFLATER_EXTRA_BYTES, inDataSize = 0, inData = 0,
        outBuffer = buf, outOffset = 0, outLength = nat (decompLen mod 2 ^ 32),
        inflateBufferIndex = 0, inflateBufferCount = 0, inflateBuffer = old, tables = 0\<rparr>"

end
