(* ===== verification/InflateRuns.thy ===== *)
theory InflateRuns
  imports Inflate
begin

text \<open>
  What holds of every run of the inflater, whatever the data: it ends, keeps inside its output and
  leaves no code table behind. \<open>ends\<close> is the rule for sequences of steps, \<open>goes\<close> what a step may do to
  the state; each round of a loop that goes on has taken input. Two properties.
\<close>

section \<open>Runs\<close>

text \<open>A run ends, not with undefined behaviour unless that is allowed, and with a result as described.\<close>

definition ends :: "bool \<Rightarrow> 'a run \<Rightarrow> ('a \<Rightarrow> bool) \<Rightarrow> bool" where
  "ends ud r Q \<longleftrightarrow> (case r of OutOfFuel \<Rightarrow> False | Undefined \<Rightarrow> ud | Done x \<Rightarrow> Q x)"

lemma ends_simps [simp]:
  "ends ud (Done x) Q \<longleftrightarrow> Q x" "ends ud Undefined Q \<longleftrightarrow> ud" "\<not> ends ud OutOfFuel Q"
  by (simp_all add: ends_def)

lemma ends_andThen: "ends ud r P \<Longrightarrow> (\<And>x. P x \<Longrightarrow> ends ud (f x) Q) \<Longrightarrow> ends ud (andThen r f) Q"
  by (cases r) auto

lemma ends_mono: "ends ud r P \<Longrightarrow> (\<And>x. P x \<Longrightarrow> Q x) \<Longrightarrow> ends ud r Q"
  by (cases r) auto

section \<open>Input left\<close>

definition bitsLeft :: "'f InflaterState \<Rightarrow> int" where
  "bitsLeft s = 8 * inRemaining s + int (inDataSize s)"

lemma needBits_size:
  "j \<le> inDataSize (needBits get j s) \<and> inDataSize s \<le> inDataSize (needBits get j s)
    \<and> inDataSize (needBits get j s) \<le> max (inDataSize s) (j + 7)"
proof (induction get j s rule: needBits.induct)
  case (1 get j s)
  obtain b s1 where n: "nextByte get s = (b, s1)" by fastforce
  show ?case
  proof (cases "inDataSize s < j")
    case True
    with "1.IH" [OF True n [symmetric] refl] nextByte_keeps(1) [OF n] show ?thesis
      by (subst (1 2 3) needBits.simps) (simp add: n)
  next
    case False
    then show ?thesis by (subst (1 2 3) needBits.simps) simp
  qed
qed

text \<open>What reading input leaves alone, and what it may read of the buffer.\<close>

definition bufferOk :: "'f InflaterState \<Rightarrow> bool" where
  "bufferOk s \<longleftrightarrow> (inflateBufferCount s > 0 \<longrightarrow>
     inflateBufferIndex s + nat (inflateBufferCount s) \<le> length (inflateBuffer s))"

definition sameOut :: "'f InflaterState \<Rightarrow> 'f InflaterState \<Rightarrow> bool" where
  "sameOut s s' \<longleftrightarrow> outBuffer s' = outBuffer s \<and> outOffset s' = outOffset s \<and> outLength s' = outLength s
     \<and> tables s' = tables s \<and> (bufferOk s \<longrightarrow> bufferOk s')"

lemma sameOut_refl [simp]: "sameOut s s" and sameOut_trans: "sameOut s t \<Longrightarrow> sameOut t u \<Longrightarrow> sameOut s u"
  by (auto simp: sameOut_def)

lemma nextByte_same: "nextByte get s = (b, s') \<Longrightarrow> sameOut s s'"
  by (auto simp: nextByte_def sameOut_def bufferOk_def Let_def split: if_splits prod.splits)

lemma needBits_same: "sameOut s (needBits get j s) \<and> bitsLeft (needBits get j s) = bitsLeft s"
proof (induction get j s rule: needBits.induct)
  case (1 get j s)
  obtain b s1 where n: "nextByte get s = (b, s1)" by fastforce
  let ?s2 = "s1\<lparr>inData := inData s1 OR push_bit (inDataSize s1) (ucast b),
                inRemaining := inRemaining s1 - 1, inDataSize := inDataSize s1 + 8\<rparr>"
  have "sameOut s ?s2" using nextByte_same [OF n] by (simp add: sameOut_def bufferOk_def)
  moreover have "bitsLeft ?s2 = bitsLeft s" using nextByte_keeps [OF n] by (simp add: bitsLeft_def)
  ultimately show ?case
    using "1.IH" [OF _ n [symmetric] refl] by (subst (1 2) needBits.simps) (auto simp: n intro: sameOut_trans)
qed

lemma dumpBits_same: "sameOut s (dumpBits j s)"
  by (simp add: dumpBits_def sameOut_def bufferOk_def)

lemma dumpBits_size:
  "j \<le> inDataSize s \<Longrightarrow> inDataSize s < 2 ^ 32 \<Longrightarrow> inDataSize (dumpBits j s) = inDataSize s - j"
  by (simp add: dumpBits_def mod_if)

lemma dumpBits_left:
  "j \<le> inDataSize s \<Longrightarrow> inDataSize s < 2 ^ 32 \<Longrightarrow> bitsLeft (dumpBits j s) = bitsLeft s - int j"
  using dumpBits_size [of j s] by (simp add: bitsLeft_def dumpBits_def)

section \<open>Tables\<close>

text \<open>Every entry for a symbol takes at least one bit.\<close>

definition tableOk :: "HuffmanCodeTable \<Rightarrow> bool" where
  "tableOk t \<longleftrightarrow> (\<forall>x \<in> set t. x \<noteq> 0 \<and> x < HUFFINFO_LONG_MASK \<longrightarrow> 0 < x mod 16)"

lemma tableOk_update: "tableOk t \<Longrightarrow> x \<ge> HUFFINFO_LONG_MASK \<or> 0 < x mod 16 \<Longrightarrow> tableOk (t[i := x])"
  unfolding tableOk_def using set_update_subset_insert [of t i x] by fastforce

lemma stride_ok:
  "strideLoop base j b lim huff t = Some t' \<Longrightarrow> tableOk t \<Longrightarrow> 0 < huff mod 16 \<Longrightarrow> tableOk t'"
proof (induction base j b lim huff t rule: strideLoop.induct)
  case (1 base j b lim huff t)
  from "1.prems"(1) have "if j < lim then base + j < length t
      \<and> strideLoop base (j + 2 ^ b) b lim huff (t[base + j := huff]) = Some t' else t' = t"
    by (simp add: strideLoop.simps [of base j b lim huff t] split: if_splits)
  with 1 show ?case by (auto split: if_splits intro: tableOk_update)
qed

lemma fill_ok:
  "fillLoop ls i codes quick mainLen longLen nextLong t = Some t' \<Longrightarrow> tableOk t \<Longrightarrow> list_all (\<lambda>l. l < 16) ls
    \<Longrightarrow> tableOk t'"
proof (induction ls arbitrary: i codes nextLong t)
  case (Cons bits ls)
  show ?case
  proof (cases "bits = 0")
    case True
    with Cons show ?thesis by simp
  next
    case False
    let ?huff = "(i * 16 + bits) mod 2 ^ 16"
    have "(i * 16 + bits) mod 2 ^ 16 mod 16 = (i * 16 + bits) mod 16" by (rule mod_mod_cancel) simp
    then have huff: "0 < ?huff mod 16" using Cons.prems(3) False by simp
    have st: "tableOk u'" if "strideLoop base j b lim ((i * 16 + bits) mod 65536) u = Some u'" "tableOk u" for base j b lim u u'
      using stride_ok [OF that(1,2)] huff by simp
    have "\<exists>codes' nextLong' t''. tableOk t'' \<and> fillLoop ls (Suc i) codes' quick mainLen longLen nextLong' t'' = Some t'"
    proof (cases "\<exists>code. REVERSE_15BITS (codes ! bits) = Some code")
      case False
      with Cons.prems(1) \<open>bits \<noteq> 0\<close> show ?thesis by (simp add: Let_def)
    next
      case True
      then obtain code where code: "REVERSE_15BITS (codes ! bits) = Some code" ..
      have "tableOk (t[k := HUFFINFO_LONG_MASK + m])" for k m using Cons.prems(2) by (rule tableOk_update) simp
      with Cons.prems(1,2) \<open>bits \<noteq> 0\<close> code show ?thesis
        by (auto simp: Let_def split: if_splits option.splits) (blast dest: st)+
    qed
    with Cons.IH Cons.prems(3) show ?thesis by auto
  qed
qed simp

lemma count_lengths:
  "countLengths ls counts = Some c \<Longrightarrow> list_all (\<lambda>l. l < length counts) ls \<and> length c = length counts"
  by (induction ls counts rule: countLengths.induct) (auto split: if_splits)

lemma count_lengths_some: "list_all (\<lambda>l. l < length counts) ls \<Longrightarrow> countLengths ls counts \<noteq> None"
  by (induction ls counts rule: countLengths.induct) auto

lemma codes_loop_max: "codesLoop bs counts codes code m = (codes', m') \<Longrightarrow> m' = m \<or> m' \<in> set bs"
  by (induction bs counts codes code m rule: codesLoop.induct) (auto split: if_splits)

lemma make_table:
  assumes "q \<le> 9"
  shows "ends True (makeCodeTable mem ls q s) (\<lambda>(t, s'). case t of
      None \<Rightarrow> s' = s
    | Some t \<Rightarrow> tableOk t \<and> s' = s\<lparr>tables := Suc (tables s)\<rparr>)"
proof (cases "countLengths ls (replicate (MAX_BITS + 1) 0)")
  case None
  then show ?thesis by (simp add: makeCodeTable_def)
next
  case (Some counts)
  obtain codes m where c: "codesLoop [1..<MAX_BITS + 1] counts (replicate (MAX_BITS + 1) 0) 0 0 = (codes, m)"
    by fastforce
  have ls: "list_all (\<lambda>l. l < 16) ls" using count_lengths [OF Some] by (simp add: MAX_BITS_def)
  have m: "m < 16" using codes_loop_max [OF c] by (auto simp: MAX_BITS_def)
  have init: "tableOk ([k, m] @ replicate n 0)" if "k < 16" for k n
    using that m by (auto simp: tableOk_def)
  show ?thesis
    using Some c assms m fill_ok [OF _ init ls]
    by (auto simp: makeCodeTable_def Let_def split: option.splits)
qed

lemma make_table_no_memory:
  "(\<And>n. \<not> mem n) \<Longrightarrow> list_all (\<lambda>l. l < 16) ls \<Longrightarrow> makeCodeTable mem ls q s = Done (None, s)"
  using count_lengths_some [of "replicate (MAX_BITS + 1) 0" ls]
  by (auto simp: makeCodeTable_def MAX_BITS_def Let_def split: prod.splits)

lemma huffman_entry:
  assumes "tableOk t"
  shows "ends True (getHuffmanEntry t q s) (\<lambda>(v, s'). case v of
      None \<Rightarrow> s' = s
    | Some v \<Rightarrow> (\<exists>m \<le> 15. s' = dumpBits m s \<and> (v < 2048 \<longrightarrow> 0 < m)))"
proof -
  have pos: "0 < huff mod 16" if "huff \<in> set t" "huff \<noteq> 0" "huff div 16 < 2048" for huff
  proof -
    have "huff < HUFFINFO_LONG_MASK" using that(3) by (simp add: HUFFINFO_LONG_MASK_def)
    with assms that(1,2) show ?thesis by (auto simp: tableOk_def)
  qed
  have m: "huff mod 16 \<le> 15" for huff :: nat using mod_less_divisor [of 16 huff] by linarith
  have e: "ends True (if huff = 0 then Done (None, s) else Done (Some (huff div 16), dumpBits (huff mod 16) s))
      (\<lambda>(v, s'). case v of None \<Rightarrow> s' = s | Some v \<Rightarrow> (\<exists>m \<le> 15. s' = dumpBits m s \<and> (v < 2048 \<longrightarrow> 0 < m)))"
    if "huff \<in> set t" for huff
    using pos [OF that] m [of huff] by auto
  show ?thesis
  proof (cases "2 + nextBits q s \<ge> length t")
    case False
    then have "t ! (2 + nextBits q s) \<in> set t" by simp
    then have p: "ends True
       (if t ! (2 + nextBits q s) \<ge> HUFFINFO_LONG_MASK then
          let delta = t ! (2 + nextBits q s) - HUFFINFO_LONG_MASK;
              k = delta div 2 + nextBits (maxCodeLen t) s div 2 ^ q in
          if odd delta \<or> k \<ge> length t then Undefined else Done (t ! k)
        else Done (t ! (2 + nextBits q s))) (\<lambda>x. x \<in> set t)" by (simp add: Let_def)
    show ?thesis
      unfolding getHuffmanEntry_def Let_def [of "2 + nextBits q s"] if_not_P [OF False]
      by (rule ends_andThen [OF p e])
  qed (simp add: getHuffmanEntry_def)
qed

lemma fixed_entry:
  "case fixedEntry s of (v, s') \<Rightarrow> (\<exists>m. 7 \<le> m \<and> m \<le> 9 \<and> s' = dumpBits m s)"
  by (auto simp: fixedEntry_def Let_def intro: exI [of _ 7] exI [of _ 8] exI [of _ 9])

section \<open>Sound states\<close>

definition sane :: "'f InflaterState \<Rightarrow> bool" where
  "sane s \<longleftrightarrow> bufferOk s \<and> inDataSize s \<le> 32 \<and> outOffset s \<le> outLength s
     \<and> outLength s \<le> length (outBuffer s) \<and> outLength s < 2 ^ 31"

text \<open>A step takes at least \<open>n\<close> bits and writes only inside the output.\<close>

definition goes :: "int \<Rightarrow> 'f InflaterState \<Rightarrow> 'f InflaterState \<Rightarrow> bool" where
  "goes n s s' \<longleftrightarrow> sane s' \<and> bitsLeft s' \<le> bitsLeft s - n \<and> outLength s' = outLength s
     \<and> length (outBuffer s') = length (outBuffer s) \<and> outOffset s \<le> outOffset s' \<and> tables s' = tables s
     \<and> take (outOffset s) (outBuffer s') = take (outOffset s) (outBuffer s)
     \<and> drop (outLength s) (outBuffer s') = drop (outLength s) (outBuffer s)"

lemma goes_refl [simp]: "goes 0 s s \<longleftrightarrow> sane s"
  by (simp add: goes_def)

lemma goes_sane: "goes n s t \<Longrightarrow> sane t"
  by (simp add: goes_def)

lemma goes_trans: "goes m s t \<Longrightarrow> goes n t u \<Longrightarrow> k \<le> m + n \<Longrightarrow> goes k s u"
proof -
  assume st: "goes m s t" and tu: "goes n t u" "k \<le> m + n"
  have "take (outOffset s) (outBuffer u) = take (outOffset s) (outBuffer t)"
    using st tu by (simp add: goes_def) (metis min.absorb1 take_take)
  with st tu show "goes k s u" by (simp add: goes_def)
qed

lemma goes_same: "sane s \<Longrightarrow> sameOut s s' \<Longrightarrow> bitsLeft s' \<le> bitsLeft s - n \<Longrightarrow> inDataSize s' \<le> 32 \<Longrightarrow> goes n s s'"
  by (auto simp: goes_def sane_def sameOut_def)

lemma goes_need: "sane s \<Longrightarrow> j \<le> 25 \<Longrightarrow> goes 0 s (needBits get j s) \<and> j \<le> inDataSize (needBits get j s)"
  using needBits_size [of j get s] needBits_same [of s get j] by (auto intro!: goes_same simp: sane_def)

lemma goes_dump: "sane s \<Longrightarrow> j \<le> inDataSize s \<Longrightarrow> goes (int j) s (dumpBits j s) \<and> inDataSize (dumpBits j s) = inDataSize s - j"
  using dumpBits_size [of j s] dumpBits_left [of j s] dumpBits_same [of s j]
  by (auto intro!: goes_same simp: sane_def)

lemma write_out:
  assumes "sane s" "outOffset s + length bs \<le> outLength s"
  shows "ends False (writeOut bs s) (\<lambda>s'. goes 0 s s' \<and> outOffset s' = outOffset s + length bs
    \<and> s' = s\<lparr>outBuffer := outBuffer s', outOffset := outOffset s'\<rparr>)"
proof -
  let ?b = "outBuffer s" and ?o = "outOffset s"
  have l: "?o + length bs \<le> length ?b" "outLength s \<le> length ?b" using assms by (simp_all add: sane_def)
  let ?b' = "take ?o ?b @ bs @ drop (?o + length bs) ?b"
  have "drop (outLength s) ?b' = drop (outLength s) ?b" using assms l by (simp add: add.commute)
  with assms l show ?thesis by (auto simp: writeOut_def goes_def sane_def bitsLeft_def bufferOk_def)
qed

section \<open>Blocks end and stay inside the output\<close>

text \<open>A step of a stored block puts out \<open>k\<close> bytes and leaves the bits loaded alone.\<close>

definition stores :: "nat \<Rightarrow> 'f InflaterState \<Rightarrow> 'f InflaterState \<Rightarrow> bool" where
  "stores k s s' \<longleftrightarrow> goes (8 * int k) s s' \<and> outOffset s' = outOffset s + k
     \<and> inDataSize s' = inDataSize s \<and> inData s' = inData s"

lemma stores_trans: "stores j s t \<Longrightarrow> stores k t u \<Longrightarrow> stores (j + k) s u"
  unfolding stores_def using goes_trans [of "8 * int j" s t "8 * int k" u "8 * int (j + k)"] by auto

lemma stores_room: "stores k s t \<Longrightarrow> outOffset s + k + n \<le> outLength s \<Longrightarrow> sane t \<and> outOffset t + n \<le> outLength t"
  by (auto simp: stores_def goes_def)

lemma write_out_same: "writeOut bs s = Done s' \<Longrightarrow> inDataSize s' = inDataSize s \<and> inData s' = inData s
    \<and> inflateBufferCount s' = inflateBufferCount s \<and> inflateBufferIndex s' = inflateBufferIndex s
    \<and> inflateBuffer s' = inflateBuffer s"
  by (auto simp: writeOut_def split: if_splits)

lemma stores_write:
  assumes "sane s" "outOffset s + length bs \<le> outLength s" "count \<le> length bs"
    "inflateBufferCount s > 0 \<or> count = 0" "int count \<le> max 0 (inflateBufferCount s)"
  shows "ends False (writeOut bs s) (\<lambda>s1. stores (length bs) s
    (s1\<lparr>inflateBufferCount := inflateBufferCount s1 - int count, inflateBufferIndex := inflateBufferIndex s1 + count,
        inRemaining := inRemaining s1 - int (length bs)\<rparr>))"
proof -
  obtain s1 where s1: "writeOut bs s = Done s1" "goes 0 s s1" "outOffset s1 = outOffset s + length bs"
    using write_out [OF assms(1,2)] by (auto simp: ends_def split: run.splits)
  let ?t = "s1\<lparr>inflateBufferCount := inflateBufferCount s1 - int count,
    inflateBufferIndex := inflateBufferIndex s1 + count, inRemaining := inRemaining s1 - int (length bs)\<rparr>"
  have "bufferOk ?t" using goes_sane [OF s1(2)] assms(4,5) write_out_same [OF s1(1)] by (auto simp: sane_def bufferOk_def)
  then have "goes (8 * int (length bs)) s1 ?t" using goes_sane [OF s1(2)] by (simp add: goes_def sane_def bitsLeft_def)
  then have "goes (8 * int (length bs)) s ?t" using goes_trans [OF s1(2)] by simp
  then show ?thesis using s1(1,3) write_out_same [OF s1(1)] by (simp add: stores_def)
qed

lemma stores_byte:
  assumes "nextByte get s = (b, s1)" "sane s" "outOffset s + 1 \<le> outLength s"
  shows "ends False (writeOut [b] s1) (\<lambda>s2. stores 1 s (s2\<lparr>inRemaining := inRemaining s2 - 1\<rparr>))"
proof -
  have g: "goes 0 s s1"
    using nextByte_same [OF assms(1)] nextByte_keeps [OF assms(1)] assms(2)
    by (intro goes_same) (simp_all add: bitsLeft_def sane_def)
  have k: "inDataSize s1 = inDataSize s" "inData s1 = inData s" "outOffset s1 = outOffset s"
    using nextByte_keeps [OF assms(1)] by simp_all
  have "stores 0 s s1" using g k by (simp add: stores_def)
  then have "stores 1 s t" if "stores (length [b]) s1 t" for t using stores_trans [of 0 s s1 1 t] that by simp
  with stores_write [OF goes_sane [OF g], of "[b]" 0] k g assms(3) show ?thesis
    by (auto intro: ends_mono simp: goes_def)
qed

lemma stored_loop:
  "sane s \<Longrightarrow> outOffset s + len \<le> outLength s \<Longrightarrow> ends False (storedLoop get len s) (stores len s)"
proof (induction len arbitrary: s rule: less_induct)
  case (less len s)
  show ?case
  proof (cases "len = 0")
    case True
    with less.prems show ?thesis by (simp add: storedLoop.simps stores_def)
  next
    case False
    define count where "count = (if inflateBufferCount s > 0 then min (nat (inflateBufferCount s)) len else 0)"
    let ?bs = "take count (drop (inflateBufferIndex s) (inflateBuffer s))"
    have c: "count \<le> len" "length ?bs = count" "inflateBufferCount s > 0 \<or> count = 0" "int count \<le> max 0 (inflateBufferCount s)"
      using less.prems(1) by (auto simp: count_def sane_def bufferOk_def)
    let ?n = "\<lambda>s1. s1\<lparr>inflateBufferCount := inflateBufferCount s1 - int count,
         inflateBufferIndex := inflateBufferIndex s1 + count, inRemaining := inRemaining s1 - int count\<rparr>"
    have w: "ends False (writeOut ?bs s) (\<lambda>s1. stores count s (?n s1))"
      using stores_write [OF less.prems(1), of ?bs count] less.prems(2) c by simp
    have rest: "ends False
        (if len - count = 0 then Done (?n s1)
         else case nextByte get (?n s1) of (b, s3) \<Rightarrow>
           andThen (writeOut [b] s3) (\<lambda>s4. storedLoop get (len - count - 1) (s4\<lparr>inRemaining := inRemaining s4 - 1\<rparr>)))
        (stores len s)" if s1: "stores count s (?n s1)" for s1
    proof (cases "len - count = 0")
      case True
      with c s1 show ?thesis by simp
    next
      case False
      obtain b s3 where b: "nextByte get (?n s1) = (b, s3)" by fastforce
      have "sane (?n s1)" "outOffset (?n s1) + 1 \<le> outLength (?n s1)"
        using stores_room [OF s1, of 1] less.prems(2) False by simp_all
      note byte = stores_byte [OF b this]
      have "ends False (storedLoop get (len - count - 1) t) (stores len s)" if "stores 1 (?n s1) t" for t
      proof -
        have t: "stores (count + 1) s t" using stores_trans [OF s1 that] by simp
        have "ends False (storedLoop get (len - count - 1) t) (stores (len - count - 1) t)"
          using less.IH stores_room [OF t, of "len - count - 1"] less.prems(2) False by simp
        then show ?thesis
          by (rule ends_mono) (use stores_trans [OF t] False in force)
      qed
      then show ?thesis unfolding if_not_P [OF False] b prod.case by (rule ends_andThen [OF byte])
    qed
    show ?thesis
      unfolding storedLoop.simps [of get len s] if_not_P [OF False] count_def [symmetric] Let_def
      by (rule ends_andThen [OF w rest])
  qed
qed

lemma needBits_mod8: "inDataSize (needBits get j s) mod 8 = inDataSize s mod 8"
proof (induction get j s rule: needBits.induct)
  case (1 get j s)
  obtain b s1 where n: "nextByte get s = (b, s1)" by fastforce
  with "1.IH" [OF _ n [symmetric] refl] nextByte_keeps(1) [OF n] show ?case
    by (subst needBits.simps) simp
qed

lemma nextBits_mod: "nextBits j s = unat (inData s) mod 2 ^ j"
proof -
  have "(push_bit j 1 - 1 :: 32 word) = mask j" by (simp add: mask_eq_exp_minus_1 push_bit_of_1)
  then show ?thesis
    by (simp only: nextBits_def take_bit_eq_mask [symmetric] unsigned_take_bit_eq) (simp only: take_bit_eq_mod)
qed

lemma nextBits_less: "nextBits j s < 2 ^ j"
  by (simp add: nextBits_mod)

text \<open>A block that succeeds had input when it began.\<close>

lemma stored_ends:
  assumes "sane s"
  shows "ends False (inflateStored get s) (\<lambda>(e, s'). goes 0 s s' \<and> (e = 0 \<longrightarrow> 0 \<le> bitsLeft s))"
proof -
  define s0 where "s0 = dumpBits (inDataSize s mod 8) s"
  define s1 where "s1 = needBits get 32 s0"
  define s2 where "s2 = dumpBits 16 s1"
  define s3 where "s3 = dumpBits 16 s2"
  note defs = s0_def [symmetric] s1_def [symmetric] s2_def [symmetric] s3_def [symmetric]
  have g0: "goes (int (inDataSize s mod 8)) s s0" "inDataSize s0 = inDataSize s - inDataSize s mod 8"
    using goes_dump [OF assms, of "inDataSize s mod 8"] by (simp_all add: s0_def)
  have m: "inDataSize s0 mod 8 = 0" using g0(2) by (simp add: minus_mod_eq_mult_div)
  have m32: "inDataSize s0 \<le> 32" using g0(2) assms unfolding sane_def by linarith
  have "inDataSize s1 mod 8 = 0" "32 \<le> inDataSize s1" "inDataSize s1 \<le> 39"
    using needBits_mod8 [of get 32 s0] needBits_size [of 32 get s0] m m32 by (simp_all add: s1_def)
  then have z1: "inDataSize s1 = 32" by (simp add: mod_eq_0_iff_dvd dvd_def) presburger
  have g1: "goes 0 s0 s1"
    using needBits_same [of s0 get 32] z1 goes_sane [OF g0(1)] by (intro goes_same) (simp_all add: s1_def)
  have g2: "goes 16 s1 s2" "inDataSize s2 = 16" using goes_dump [OF goes_sane [OF g1], of 16] z1 by (simp_all add: s2_def)
  have g3: "goes 16 s2 s3" "inDataSize s3 = 0" using goes_dump [OF goes_sane [OF g2(1)], of 16] g2(2) by (simp_all add: s3_def)
  have g: "goes 32 s s3"
    by (rule goes_trans [OF goes_trans [OF goes_trans [OF g0(1) g1] g2(1)] g3(1)]) auto
  then have gg: "goes 0 s s3" by (simp add: goes_def)
  have l: "nextBits 16 s1 < 2 ^ 16" by (rule nextBits_less)
  show ?thesis
  proof (cases "nextBits 16 s1 + nextBits 16 s2 = 0xFFFF \<and> inRemaining s3 \<ge> int (nextBits 16 s1)
      \<and> (outOffset s3 + nextBits 16 s1) mod 2 ^ 32 \<le> outLength s3")
    case False
    with gg show ?thesis unfolding inflateStored_def Let_def defs
      by (auto simp: INFLATE_BAD_LENGTH_FIELD_def INFLATE_INPUT_OVERFLOW_def INFLATE_OUTPUT_OVERFLOW_def)
  next
    case True
    let ?len = "nextBits 16 s1"
    have "sane s3" using g by (rule goes_sane)
    then have "outOffset s3 + ?len < 2 ^ 32" using l by (simp add: sane_def)
    then have "outOffset s3 + ?len \<le> outLength s3" using True by simp
    note loop = stored_loop [OF \<open>sane s3\<close> this, of get]
    have b: "0 \<le> bitsLeft s" using g True g3(2) by (simp add: goes_def bitsLeft_def)
    have "ends False (andThen (storedLoop get ?len s3) (\<lambda>s4. Done (0, s4)))
        (\<lambda>(e, s'). goes 0 s s' \<and> (e = 0 \<longrightarrow> 0 \<le> bitsLeft s))"
    proof (rule ends_andThen [OF loop])
      fix s4 assume "stores ?len s3 s4"
      then have "goes 0 s s4" unfolding stores_def using goes_trans [OF gg, of "8 * int ?len" s4 0] by simp
      with b show "ends False (Done (0, s4)) (\<lambda>(e, s'). goes 0 s s' \<and> (e = 0 \<longrightarrow> 0 \<le> bitsLeft s))"
        by simp
    qed
    with True show ?thesis unfolding inflateStored_def Let_def defs by simp
  qed
qed

lemma match_loop:
  "prev < off \<Longrightarrow> off + n \<le> length buf \<Longrightarrow> \<exists>buf'. matchLoop n prev off buf = Some buf' \<and> length buf' = length buf
    \<and> take off buf' = take off buf \<and> drop (off + n) buf' = drop (off + n) buf"
proof (induction n arbitrary: prev off buf)
  case (Suc n)
  let ?b = "buf[off := buf ! prev]"
  obtain b' where b': "matchLoop n (Suc prev) (Suc off) ?b = Some b'" "length b' = length ?b"
    "take (Suc off) b' = take (Suc off) ?b" "drop (Suc off + n) b' = drop (Suc off + n) ?b"
    using Suc.IH [of "Suc prev" "Suc off" ?b] Suc.prems by auto
  have "take off b' = take off (take (Suc off) b')" by (simp add: min_def)
  also have "\<dots> = take off buf" using b'(3) by (simp add: min_def)
  finally show ?case using b' Suc.prems by simp
qed simp

lemma copy_match:
  assumes "sane s" "0 < distance" "len \<le> 2 ^ 16"
  shows "ends False (copyMatch len distance s) (\<lambda>(e, s'). goes 0 s s'
    \<and> s' = s\<lparr>outBuffer := outBuffer s', outOffset := outOffset s'\<rparr>)"
proof (cases "distance \<le> outOffset s \<and> (outOffset s + len) mod 2 ^ 32 \<le> outLength s")
  case True
  have "outOffset s + len < 2 ^ 32" using assms by (simp add: sane_def)
  then have l: "outOffset s + len \<le> outLength s" using True by simp
  obtain b where b: "matchLoop len (outOffset s - distance) (outOffset s) (outBuffer s) = Some b"
    "length b = length (outBuffer s)" "take (outOffset s) b = take (outOffset s) (outBuffer s)"
    "drop (outOffset s + len) b = drop (outOffset s + len) (outBuffer s)"
    using match_loop [of "outOffset s - distance" "outOffset s" len "outBuffer s"] True l assms
    by (auto simp: sane_def)
  have "drop (outLength s) b = drop (outLength s - (outOffset s + len)) (drop (outOffset s + len) b)" using l by simp
  also have "\<dots> = drop (outLength s) (outBuffer s)" unfolding b(4) using l by simp
  finally have "drop (outLength s) b = drop (outLength s) (outBuffer s)" .
  with True l b assms(1) show ?thesis
    by (simp add: copyMatch_def goes_def sane_def bitsLeft_def bufferOk_def)
next
  case False
  with assms(1) show ?thesis
    by (auto simp: copyMatch_def)
qed

lemma table_sizes: "length ll_length_base = 29" "length ll_extra_bits = 29" "length dist_base = 30" "length dist_extra_bits = 30"
  by (simp_all add: ll_length_base_def ll_extra_bits_def dist_base_def dist_extra_bits_def)

lemma table_bounds:
  "\<forall>x \<in> set ll_length_base. x \<le> 258" "\<forall>x \<in> set ll_extra_bits. x \<le> 5"
  "\<forall>x \<in> set dist_base. 0 < x" "\<forall>x \<in> set dist_extra_bits. x \<le> 13"
  by (simp_all add: ll_length_base_def ll_extra_bits_def dist_base_def dist_extra_bits_def)

text \<open>The tables of a block: the fixed codes, or two tables as built.\<close>

definition codesOk :: "(HuffmanCodeTable \<times> HuffmanCodeTable) option \<Rightarrow> bool" where
  "codesOk codes \<longleftrightarrow> (case codes of None \<Rightarrow> True | Some (l, d) \<Rightarrow> tableOk l \<and> tableOk d)"

definition entryGoes :: "'f InflaterState \<Rightarrow> nat option \<times> 'f InflaterState \<Rightarrow> bool" where
  "entryGoes s p \<longleftrightarrow> goes 0 s (snd p) \<and> inDataSize (snd p) + 15 \<ge> inDataSize s
     \<and> (\<forall>v. fst p = Some v \<and> v < 2048 \<longrightarrow> goes 1 s (snd p))"

lemma entry_goes_dump:
  assumes "sane s" "15 \<le> inDataSize s" "m \<le> 15" "\<And>v. r = Some v \<Longrightarrow> v < 2048 \<Longrightarrow> 0 < m"
  shows "entryGoes s (r, dumpBits m s)"
proof -
  have g: "goes (int m) s (dumpBits m s)" "inDataSize (dumpBits m s) = inDataSize s - m"
    using goes_dump [of s m] assms(1-3) by auto
  have "goes 0 s (dumpBits m s)" "0 < m \<Longrightarrow> goes 1 s (dumpBits m s)" using g(1) by (simp_all add: goes_def)
  with g(2) assms(3,4) show ?thesis by (auto simp: entryGoes_def)
qed

lemma table_entry_goes:
  fixes s :: "'a InflaterState"
  assumes "sane s" "15 \<le> inDataSize s" "tableOk t"
  shows "ends True (getHuffmanEntry t q s) (entryGoes s)"
proof (rule ends_mono [OF huffman_entry [OF assms(3)]])
  fix p :: "nat option \<times> 'a InflaterState" assume p: "case p of (v, s') \<Rightarrow> (case v of None \<Rightarrow> s' = s
      | Some v \<Rightarrow> (\<exists>m\<le>15. s' = dumpBits m s \<and> (v < 2048 \<longrightarrow> 0 < m)))"
  obtain v s' where ps: "p = (v, s')" by fastforce
  show "entryGoes s p"
  proof (cases v)
    case None
    with p ps assms(1) show ?thesis by (simp add: entryGoes_def)
  next
    case (Some w)
    with p ps obtain m where "m \<le> 15" "s' = dumpBits m s" "w < 2048 \<longrightarrow> 0 < m" by auto
    with entry_goes_dump [OF assms(1,2)] Some ps show ?thesis by auto
  qed
qed

lemma literal_goes:
  assumes "sane s" "15 \<le> inDataSize s" "codesOk codes"
  shows "ends (codes \<noteq> None) (literalEntry codes s) (entryGoes s)"
proof (cases codes)
  case None
  obtain v m where "fixedEntry s = (v, dumpBits m s)" "7 \<le> m" "m \<le> 9"
    using fixed_entry [of s] by (cases "fixedEntry s") auto
  with None entry_goes_dump [OF assms(1,2)] show ?thesis by (simp add: literalEntry_def)
next
  case (Some c)
  with assms table_entry_goes [OF assms(1,2)] show ?thesis
    by (cases c) (simp add: literalEntry_def codesOk_def)
qed

lemma distance_goes:
  assumes "sane s" "15 \<le> inDataSize s" "codesOk codes"
  shows "ends (codes \<noteq> None) (distanceEntry codes s) (entryGoes s)"
proof (cases codes)
  case None
  with entry_goes_dump [OF assms(1,2)] show ?thesis by (simp add: distanceEntry_def)
next
  case (Some c)
  with assms table_entry_goes [OF assms(1,2)] show ?thesis
    by (cases c) (simp add: distanceEntry_def codesOk_def)
qed

lemma goes_less: "goes m s t \<Longrightarrow> n \<le> m \<Longrightarrow> goes n s t"
  by (simp add: goes_def)

text \<open>Loading bits, and dropping as many.\<close>

lemma goes_take:
  assumes "sane s" "j \<le> 25" "m \<le> j"
  shows "goes 0 s (dumpBits m (needBits get j s)) \<and> j - m \<le> inDataSize (dumpBits m (needBits get j s))"
proof -
  have n: "goes 0 s (needBits get j s)" "j \<le> inDataSize (needBits get j s)" using goes_need [OF assms(1,2)] by simp_all
  have d: "goes (int m) (needBits get j s) (dumpBits m (needBits get j s))"
    "inDataSize (dumpBits m (needBits get j s)) = inDataSize (needBits get j s) - m"
    using goes_dump [OF goes_sane [OF n(1)], of m] n(2) assms(3) by simp_all
  from goes_trans [OF n(1) d(1)] d(2) n(2) show ?thesis by simp
qed

lemma inflate_match:
  assumes "sane s" "5 \<le> inDataSize s" "codesOk codes" "256 < litxlen" "litxlen \<le> 285"
  shows "ends (codes \<noteq> None) (inflateMatch get codes litxlen s) (\<lambda>(e, s'). goes 0 s s')"
proof -
  define n where "n = litxlen - LITXLEN_BASE"
  have n: "n < 29" using assms(4,5) by (simp add: n_def LITXLEN_BASE_def)
  define len where "len = ll_length_base ! n + nextBits (ll_extra_bits ! n) s"
  have x: "ll_extra_bits ! n \<le> 5" "ll_length_base ! n \<le> 258"
    using n table_bounds table_sizes by (auto simp: nth_mem)
  have "nextBits (ll_extra_bits ! n) s < 2 ^ 5"
    using nextBits_less [of "ll_extra_bits ! n" s] power_increasing [OF x(1), of "2 :: nat"] by linarith
  then have len: "len \<le> 2 ^ 16" using x(2) by (simp add: len_def)
  define s0 where "s0 = dumpBits (ll_extra_bits ! n) s"
  define s1 where "s1 = needBits get MAX_BITS s0"
  have g0: "goes 0 s s0" using goes_dump [OF assms(1), of "ll_extra_bits ! n"] x(1) assms(2)
    by (auto simp: s0_def intro: goes_less)
  have g1: "goes 0 s0 s1" "15 \<le> inDataSize s1"
    using goes_need [OF goes_sane [OF g0], of MAX_BITS get] by (simp_all add: s1_def MAX_BITS_def)
  have s1: "goes 0 s s1" using goes_trans [OF g0 g1(1)] by simp
  have rest: "ends (codes \<noteq> None)
      (case d of None \<Rightarrow> Done (INFLATE_HUFFMAN_ENTRY_ERROR, s2)
       | Some d0 \<Rightarrow>
           if d0 > MAX_ZIP_DISTANCE_CODE then Done (INFLATE_BAD_DISTANCE_CODE, s2)
           else
             let s3 = needBits get MAX_ZIP_EXTRA_DISTANCE_BITS s2 in
             copyMatch len (dist_base ! d0 + nextBits (dist_extra_bits ! d0) s3)
               (dumpBits (dist_extra_bits ! d0) s3))
      (\<lambda>(e, s'). goes 0 s s')" if "entryGoes s1 (d, s2)" for d s2
  proof -
    have s2: "goes 0 s s2" using that goes_trans [OF s1, of 0 s2 0] by (simp add: entryGoes_def)
    show ?thesis
    proof (cases "\<exists>d0. d = Some d0 \<and> d0 \<le> MAX_ZIP_DISTANCE_CODE")
      case False
      with s2 show ?thesis by (auto split: option.split)
    next
      case True
      then obtain d0 where d0: "d = Some d0" "d0 < 30" by (auto simp: MAX_ZIP_DISTANCE_CODE_def)
      let ?x = "dist_extra_bits ! d0" and ?s3 = "needBits get MAX_ZIP_EXTRA_DISTANCE_BITS s2"
      have x: "?x \<le> 13" "0 < dist_base ! d0" using d0(2) table_bounds table_sizes by (auto simp: nth_mem)
      have g3: "goes 0 s2 (dumpBits ?x ?s3)"
        using goes_take [OF goes_sane [OF s2], of MAX_ZIP_EXTRA_DISTANCE_BITS ?x get] x(1)
        by (simp add: MAX_ZIP_EXTRA_DISTANCE_BITS_def)
      have s3: "goes 0 s (dumpBits ?x ?s3)" using goes_trans [OF s2 g3] by simp
      have c: "ends False (copyMatch len (dist_base ! d0 + nextBits ?x ?s3) (dumpBits ?x ?s3)) (\<lambda>(e, s'). goes 0 s s')"
        using copy_match [OF goes_sane [OF s3] _ len, of "dist_base ! d0 + nextBits ?x ?s3"] x(2)
        by (auto elim!: ends_mono intro: goes_trans [OF s3])
      then have "ends (codes \<noteq> None) (copyMatch len (dist_base ! d0 + nextBits ?x ?s3) (dumpBits ?x ?s3)) (\<lambda>(e, s'). goes 0 s s')"
        by (auto simp: ends_def split: run.splits)
      with d0 show ?thesis by (simp add: Let_def MAX_ZIP_DISTANCE_CODE_def)
    qed
  qed
  have nl: "\<not> length ll_length_base \<le> n" using n table_sizes by simp
  show ?thesis
    unfolding inflateMatch_def n_def [symmetric] Let_def [of n] if_not_P [OF nl] len_def [symmetric]
      Let_def [of len] s0_def [symmetric] s1_def [symmetric] Let_def [of s1]
    by (rule ends_andThen [OF distance_goes [OF goes_sane [OF s1] g1(2) assms(3)]])
      (use rest in \<open>auto split: prod.splits\<close>)
qed

lemma ends_weaken: "ends False r P \<Longrightarrow> (\<And>x. P x \<Longrightarrow> Q x) \<Longrightarrow> ends ud r Q"
  by (cases r) auto

lemma write_out_input: "writeOut bs s = Done s' \<Longrightarrow> inRemaining s' = inRemaining s"
  by (auto simp: writeOut_def split: if_splits)

text \<open>
  One round takes a bit, so that a loop over codes ends when there is fuel for every bit left and
  two more rounds.
\<close>

lemma huffman_loop:
  fixes s :: "'a InflaterState"
  assumes "sane s" "codesOk codes" "0 < fuel" "bitsLeft s + 1 < int fuel"
  shows "ends (codes \<noteq> None) (huffmanLoop fuel get codes s)
    (\<lambda>(e, s'). goes 0 s s' \<and> (e = 0 \<longrightarrow> 0 \<le> bitsLeft s))"
  using assms
proof (induction fuel arbitrary: s)
  case (Suc fuel)
  show ?case
  proof (cases "inRemaining s < 0")
    case True
    with Suc.prems(1) show ?thesis by (simp add: INFLATE_EARLY_END_OF_INPUT_def)
  next
    case False
    then have left: "0 \<le> bitsLeft s" by (simp add: bitsLeft_def)
    define s1 where "s1 = needBits get (MAX_BITS + MAX_ZIP_EXTRA_LENGTH_BITS) s"
    have g1: "goes 0 s s1" "20 \<le> inDataSize s1"
      using goes_need [OF Suc.prems(1), of "MAX_BITS + MAX_ZIP_EXTRA_LENGTH_BITS" get]
      by (simp_all add: s1_def MAX_BITS_def MAX_ZIP_EXTRA_LENGTH_BITS_def)
    have again: "ends (codes \<noteq> None) (huffmanLoop fuel get codes t)
        (\<lambda>(e, s'). goes 0 s s' \<and> (e = 0 \<longrightarrow> 0 \<le> bitsLeft s))" if t: "goes 1 s t" for t
    proof -
      have "bitsLeft t \<le> bitsLeft s - 1" using t by (simp add: goes_def)
      then have "0 < fuel" "bitsLeft t + 1 < int fuel" using Suc.prems(4) left by simp_all
      from Suc.IH [OF goes_sane [OF t] Suc.prems(2) this] show ?thesis
        by (rule ends_mono) (use left goes_trans [OF t] in auto)
    qed
    have rest: "ends (codes \<noteq> None)
        (case entry of
           None \<Rightarrow> Done (INFLATE_HUFFMAN_ENTRY_ERROR, s2)
         | Some litxlen \<Rightarrow>
             if litxlen \<le> 255 then
               if outOffset s2 < outLength s2
               then andThen (writeOut [of_nat litxlen] s2) (huffmanLoop fuel get codes)
               else Done (0, s2)
             else if litxlen = 256 then Done (0, s2)
             else if litxlen > 285 then Done (INFLATE_INVALID_LITERAL_OR_LENGTH, s2)
             else andThen (inflateMatch get codes litxlen s2) (\<lambda>(error, s3).
                    if error \<noteq> 0 then Done (error, s3) else huffmanLoop fuel get codes s3))
        (\<lambda>(e, s'). goes 0 s s' \<and> (e = 0 \<longrightarrow> 0 \<le> bitsLeft s))" if e: "entryGoes s1 (entry, s2)" for entry s2
    proof -
      have s2: "goes 0 s s2" "5 \<le> inDataSize s2" "\<And>v. entry = Some v \<Longrightarrow> v < 2048 \<Longrightarrow> goes 1 s s2"
        using e g1(2) goes_trans [OF g1(1), of 0 s2 0] goes_trans [OF g1(1), of 1 s2 1] by (auto simp: entryGoes_def)
      consider (stop) "entry = None \<or> (\<exists>v. entry = Some v \<and> (v = 256 \<or> v > 285 \<or> v \<le> 255 \<and> outOffset s2 \<ge> outLength s2))"
        | (literal) v where "entry = Some v" "v \<le> 255" "outOffset s2 < outLength s2"
        | (match) v where "entry = Some v" "256 < v" "v \<le> 285"
        by (cases entry) (auto, force)
      then show ?thesis
      proof cases
        case stop
        with s2(1) left show ?thesis by (auto simp: INFLATE_HUFFMAN_ENTRY_ERROR_def INFLATE_INVALID_LITERAL_OR_LENGTH_def)
      next
        case literal
        have g: "goes 1 s s2" using s2(3) literal by simp
        have w: "ends (codes \<noteq> None) (writeOut [of_nat v] s2) (goes 1 s)"
          by (rule ends_weaken [OF write_out [OF goes_sane [OF g]]]) (use literal in \<open>auto intro: goes_trans [OF g]\<close>)
        have "ends (codes \<noteq> None) (andThen (writeOut [of_nat v] s2) (huffmanLoop fuel get codes))
            (\<lambda>(e, s'). goes 0 s s' \<and> (e = 0 \<longrightarrow> 0 \<le> bitsLeft s))"
          by (rule ends_andThen [OF w again])
        with literal show ?thesis by simp
      next
        case match
        have g: "goes 1 s s2" using s2(3) match by simp
        have m: "ends (codes \<noteq> None) (inflateMatch get codes v s2) (\<lambda>(e, s3). goes 1 s s3)"
          by (rule ends_mono [OF inflate_match [OF goes_sane [OF g] s2(2) Suc.prems(2) match(2,3)]])
            (auto intro: goes_trans [OF g])
        have "ends (codes \<noteq> None) (andThen (inflateMatch get codes v s2) (\<lambda>(error, s3).
                    if error \<noteq> 0 then Done (error, s3) else huffmanLoop fuel get codes s3))
            (\<lambda>(e, s'). goes 0 s s' \<and> (e = 0 \<longrightarrow> 0 \<le> bitsLeft s))"
        proof (rule ends_andThen [OF m])
          fix p :: "int \<times> 'a InflaterState" assume p: "case p of (e, s3) \<Rightarrow> goes 1 s s3"
          obtain e t where et: "p = (e, t)" by fastforce
          with p have "goes 1 s t" "goes 0 s t" by (auto intro: goes_less)
          with again [of t] et left show "ends (codes \<noteq> None)
              (case p of (error, s3) \<Rightarrow> if error \<noteq> 0 then Done (error, s3) else huffmanLoop fuel get codes s3)
              (\<lambda>(e, s'). goes 0 s s' \<and> (e = 0 \<longrightarrow> 0 \<le> bitsLeft s))"
            by (cases "e = 0") simp_all
        qed
        with match show ?thesis by simp
      qed
    qed
    have f: "\<not> inRemaining s < 0" using False by simp
    have l: "ends (codes \<noteq> None) (literalEntry codes s1) (entryGoes s1)"
      using literal_goes [OF goes_sane [OF g1(1)] _ Suc.prems(2)] g1(2) by simp
    show ?thesis
      unfolding huffmanLoop.simps(2) if_not_P [OF f] s1_def [symmetric] Let_def
    proof (rule ends_andThen [OF l], goal_cases)
      case (1 p)
      then show ?case by (cases p) (simp only: prod.case rest)
    qed
  qed
qed simp

text \<open>One table more.\<close>

abbreviation (input) addTable :: "'f InflaterState \<Rightarrow> 'f InflaterState" where
  "addTable s \<equiv> s\<lparr>tables := Suc (tables s)\<rparr>"

lemma add_table [simp]:
  "sane (addTable s) = sane s" "freeTable (addTable s) = s" "inDataSize (addTable s) = inDataSize s"
  by (simp_all add: sane_def bufferOk_def freeTable_def)

lemma goes_add: "goes n s t \<Longrightarrow> goes n (addTable s) (addTable t)"
  by (simp add: goes_def sane_def bufferOk_def bitsLeft_def)

lemma goes_free: "goes n (addTable s) t \<Longrightarrow> goes n s (freeTable t)"
  by (simp add: goes_def sane_def bufferOk_def bitsLeft_def freeTable_def)

lemma lengths_loop:
  "sane s \<Longrightarrow> list_all (\<lambda>l. l < 16) codelen \<Longrightarrow>
    (case lengthsLoop get is codelen s of (lens, s') \<Rightarrow> goes 0 s s' \<and> pred_option (list_all (\<lambda>l. l < 16)) lens)"
proof (induction "is" arbitrary: codelen s)
  case (Cons i "is")
  define s1 where "s1 = needBits get 3 s"
  have s1: "goes 0 s s1" "goes 0 s (dumpBits 3 s1)"
    using goes_need [OF Cons.prems(1), of 3 get] goes_take [OF Cons.prems(1), of 3 3 get] by (simp_all add: s1_def)
  show ?case
  proof (cases "inRemaining s1 < 0")
    case True
    with s1(1) show ?thesis by (simp add: s1_def [symmetric] Let_def)
  next
    case False
    have "nextBits 3 s1 < 16" using nextBits_less [of 3 s1] by simp
    then have "list_all (\<lambda>l. l < 16) (codelen[i := nextBits 3 s1])"
      using Cons.prems(2) set_update_subset_insert [of codelen i] by (fastforce simp: list_all_iff)
    from Cons.IH [OF goes_sane [OF s1(2)] this] False show ?thesis
      by (auto simp: s1_def [symmetric] Let_def split: prod.splits intro: goes_trans [OF s1(2)])
  qed
qed simp

lemma codelen_loop:
  fixes s :: "'a InflaterState"
  assumes "sane s" "tableOk t"
  shows "ends True (codelenLoop get t endPos pos codelen s) (\<lambda>(e, codelen', s'). goes 0 s s')"
  using assms(1)
proof (induction "endPos - pos" arbitrary: pos codelen s rule: less_induct)
  case less
  show ?case
  proof (cases "pos \<ge> endPos \<or> inRemaining s < 0")
    case True
    with less.prems show ?thesis by (subst codelenLoop.simps) auto
  next
    case False
    then have c: "\<not> endPos \<le> pos" "\<not> inRemaining s < 0" by auto
    define s0 where "s0 = needBits get (MAX_BITS + 7) s"
    have g0: "goes 0 s s0" "22 \<le> inDataSize s0"
      using goes_need [OF less.prems, of "MAX_BITS + 7" get] by (simp_all add: s0_def MAX_BITS_def)
    have again: "ends True (codelenLoop get t endPos (pos + Suc n) codelen' u) (\<lambda>(e, codelen', s'). goes 0 s s')"
      if "goes 0 s u" for n codelen' u
    proof -
      have "ends True (codelenLoop get t endPos (pos + Suc n) codelen' u) (\<lambda>(e, codelen', s'). goes 0 u s')"
        using less.hyps [of "pos + Suc n" u codelen'] c(1) goes_sane [OF that] by simp
      then show ?thesis by (rule ends_mono) (use goes_trans [OF that, of 0 _ 0] in auto)
    qed
    show ?thesis
      unfolding codelenLoop.simps [of get t endPos pos codelen s] if_not_P [OF c(1)] if_not_P [OF c(2)]
        s0_def [symmetric]
    proof (rule ends_andThen [OF table_entry_goes [OF goes_sane [OF g0(1)] _ assms(2)]], goal_cases)
      case 1
      show ?case using g0(2) by simp
    next
      case (2 p)
      obtain entry s1 where p: "p = (entry, s1)" by fastforce
      have s1: "goes 0 s s1" "7 \<le> inDataSize s1"
        using 2 p g0(2) goes_trans [OF g0(1), of 0 s1 0] by (auto simp: entryGoes_def)
      have s2: "goes 0 s (dumpBits m s1)" if "m \<le> 7" for m
        using goes_dump [OF goes_sane [OF s1(1)], of m] s1 that goes_trans [OF s1(1), of "int m" "dumpBits m s1" 0] by auto
      have a2: "ends True (codelenLoop get t endPos (pos + (3 + k)) cl (dumpBits m s1)) (\<lambda>(e, codelen', s'). goes 0 s s')"
        "ends True (codelenLoop get t endPos (pos + (11 + k)) cl (dumpBits m s1)) (\<lambda>(e, codelen', s'). goes 0 s s')"
        if "m \<le> 7" for m k cl
        using again [OF s2 [OF that], of "2 + k"] again [OF s2 [OF that], of "10 + k"] by (simp_all add: eval_nat_numeral)
      show ?case
        using p s1(1) s2 a2 again [OF s1(1), of 0] by (auto simp: Let_def split: option.split)
    qed
  qed
qed

text \<open>What a block's tables leave: an error, or two tables more.\<close>

definition tablesGo :: "'f InflaterState \<Rightarrow> int \<times> (HuffmanCodeTable \<times> HuffmanCodeTable) option \<times> 'f InflaterState \<Rightarrow> bool" where
  "tablesGo s p \<longleftrightarrow> (case p of (e, codes, s') \<Rightarrow> codesOk codes \<and>
     (if codes = None then goes 0 s s' \<and> e \<noteq> 0 else goes 0 (addTable (addTable s)) s'))"

lemma make_tables:
  fixes s :: "'a InflaterState"
  assumes "goes 0 s s1"
  shows "ends True (makeTables mem hlit hdist codelen s1) (tablesGo s)"
proof -
  have q: "MAX_QUICK_CXD \<le> 9" "MAX_QUICK_LXL \<le> 9" by (simp_all add: MAX_QUICK_CXD_def MAX_QUICK_LXL_def)
  have dist: "ends True (andThen (makeCodeTable mem ds MAX_QUICK_CXD (addTable s1)) (\<lambda>(dcodes, s2).
        case dcodes of
          None \<Rightarrow> Done (OUT_OF_MEMORY_ERROR, None, freeTable s2)
        | Some dc \<Rightarrow> Done (0, Some (lc, dc), s2))) (tablesGo s)" if "tableOk lc" for ds lc
  proof (rule ends_andThen [OF make_table [OF q(1)]], goal_cases)
    case (1 p)
    with assms that goes_add [OF goes_add [OF assms]] show ?case
      by (cases p; cases "fst p") (auto simp: tablesGo_def codesOk_def OUT_OF_MEMORY_ERROR_def)
  qed
  show ?thesis
    unfolding makeTables_def
  proof (rule ends_andThen [OF make_table [OF q(2)]], goal_cases)
    case (1 p)
    then show ?case using dist by (cases p; cases "fst p") auto
  qed
qed

lemma decode_dynamic:
  fixes s :: "'a InflaterState"
  assumes "sane s"
  shows "ends (\<exists>n. mem n) (decodeDynamicHuffmanTables get mem s)
    (\<lambda>p. tablesGo s p \<and> ((\<exists>n. mem n) \<or> fst (snd p) = None))"
proof -
  define s1 where "s1 = needBits get 14 s"
  define s2 where "s2 = dumpBits 5 s1"
  define s3 where "s3 = dumpBits 5 s2"
  define s4 where "s4 = dumpBits 4 s3"
  define hlit where "hlit = 257 + nextBits 5 s1"
  define hdist where "hdist = 1 + nextBits 5 s2"
  define hclen where "hclen = 4 + nextBits 4 s3"
  note defs = s1_def [symmetric] s2_def [symmetric] s3_def [symmetric] s4_def [symmetric]
    hlit_def [symmetric] hdist_def [symmetric] hclen_def [symmetric]
  have g1: "goes 0 s s1" "14 \<le> inDataSize s1" using goes_need [OF assms, of 14 get] by (simp_all add: s1_def)
  have g2: "goes 5 s1 s2" "9 \<le> inDataSize s2" using goes_dump [OF goes_sane [OF g1(1)], of 5] g1(2) by (simp_all add: s2_def)
  have g3: "goes 5 s2 s3" "4 \<le> inDataSize s3" using goes_dump [OF goes_sane [OF g2(1)], of 5] g2(2) by (simp_all add: s3_def)
  have g4: "goes 4 s3 s4" using goes_dump [OF goes_sane [OF g3(1)], of 4] g3(2) by (simp add: s4_def)
  have g: "goes 0 s s4" by (rule goes_trans [OF goes_trans [OF goes_trans [OF g1(1) g2(1)] g3(1)] g4]) auto
  obtain lens s5 where l: "lengthsLoop get (take hclen ccode_idx) (replicate 19 0) s4 = (lens, s5)" by fastforce
  have l5: "goes 0 s4 s5" "pred_option (list_all (\<lambda>l. l < 16)) lens"
    using lengths_loop [OF goes_sane [OF g], of "replicate 19 0" get "take hclen ccode_idx"] l by (simp_all add: list_all_iff)
  have s5: "goes 0 s s5" using goes_trans [OF g l5(1)] by simp
  show ?thesis
  proof (cases lens)
    case None
    with s5 l show ?thesis
      unfolding decodeDynamicHuffmanTables_def Let_def defs by (simp add: tablesGo_def codesOk_def INFLATE_CODE_TABLE_LENGTH_ERROR_def)
  next
    case (Some ls)
    show ?thesis
    proof (cases "\<exists>n. mem n")
      case False
      then have "makeCodeTable mem ls MAX_QUICK_CXD s5 = Done (None, s5)"
        using make_table_no_memory [of mem ls] l5(2) Some by simp
      with s5 l Some show ?thesis
        unfolding decodeDynamicHuffmanTables_def Let_def defs
        by (simp add: tablesGo_def codesOk_def OUT_OF_MEMORY_ERROR_def)
    next
      case True
      have q: "MAX_QUICK_CXD \<le> 9" by (simp add: MAX_QUICK_CXD_def)
      have "ends True (andThen (makeCodeTable mem ls MAX_QUICK_CXD s5) (\<lambda>(ccodes, s6).
          case ccodes of
            None \<Rightarrow> Done (OUT_OF_MEMORY_ERROR, None, s6)
          | Some cc \<Rightarrow>
              andThen (codelenLoop get cc (hlit + hdist) 0 (replicate (286 + 32) 0) s6) (\<lambda>(error, codelen, s7).
                if error \<noteq> 0 then Undefined else makeTables mem hlit hdist codelen (freeTable s7)))) (tablesGo s)"
      proof (rule ends_andThen [OF make_table [OF q]], goal_cases)
        case (1 p)
        show ?case
        proof (cases "fst p")
          case None
          with 1 s5 show ?thesis by (cases p) (simp add: tablesGo_def codesOk_def OUT_OF_MEMORY_ERROR_def)
        next
          case (Some cc)
          with 1 have p: "p = (Some cc, addTable s5)" and cc: "tableOk cc" by (cases p; auto)+
          have "ends True (andThen (codelenLoop get cc (hlit + hdist) 0 (replicate (286 + 32) 0) (addTable s5))
              (\<lambda>(error, codelen, s7). if error \<noteq> 0 then Undefined else makeTables mem hlit hdist codelen (freeTable s7))) (tablesGo s)"
          proof (rule ends_andThen [OF codelen_loop [OF _ cc]], goal_cases)
            case 1
            show ?case using goes_sane [OF s5] by simp
          next
            case (2 r)
            obtain e codelen s7 where r: "r = (e, codelen, s7)" by (cases r) auto
            have "goes 0 s (freeTable s7)" using 2 r goes_trans [OF s5 goes_free] by simp
            from make_tables [OF this] show ?case by (simp add: r)
          qed
          with p show ?thesis by simp
        qed
      qed
      with l Some have "ends True (decodeDynamicHuffmanTables get mem s) (tablesGo s)"
        unfolding decodeDynamicHuffmanTables_def Let_def defs by simp
      with True show ?thesis by simp
    qed
  qed
qed

lemma inflate_huffman:
  fixes s :: "'a InflaterState"
  assumes "sane s" "0 < fuel" "bitsLeft s + 1 < int fuel"
  shows "ends (\<exists>n. mem n) (inflateHuffman fuel get mem fixed s)
    (\<lambda>(e, s'). goes 0 s s' \<and> (e = 0 \<longrightarrow> 0 \<le> bitsLeft s))"
proof (cases fixed)
  case True
  have "ends False (huffmanLoop fuel get None s) (\<lambda>(e, s'). goes 0 s s' \<and> (e = 0 \<longrightarrow> 0 \<le> bitsLeft s))"
    using huffman_loop [OF assms(1) _ assms(2,3), of None get] by (simp add: codesOk_def)
  with True show ?thesis by (auto simp: inflateHuffman_def intro: ends_weaken)
next
  case False
  have "ends (\<exists>n. mem n) (andThen (decodeDynamicHuffmanTables get mem s) (\<lambda>(error, codes, s1).
      case codes of
        None \<Rightarrow> Done (error, s1)
      | Some c \<Rightarrow>
          andThen (huffmanLoop fuel get (Some c) s1) (\<lambda>(error, s2). Done (error, freeTable (freeTable s2)))))
    (\<lambda>(e, s'). goes 0 s s' \<and> (e = 0 \<longrightarrow> 0 \<le> bitsLeft s))"
  proof (rule ends_andThen [OF decode_dynamic [OF assms(1)]], goal_cases)
    case (1 p)
    obtain e codes s1 where p: "p = (e, codes, s1)" by (cases p) auto
    show ?case
    proof (cases codes)
      case None
      with 1 p show ?thesis by (auto simp: tablesGo_def)
    next
      case (Some c)
      with 1 p have c: "codesOk (Some c)" "goes 0 (addTable (addTable s)) s1" and mem: "\<exists>n. mem n" by (auto simp: tablesGo_def)
      have b: "bitsLeft s1 \<le> bitsLeft s" using c(2) by (simp add: goes_def bitsLeft_def)
      have "ends True (huffmanLoop fuel get (Some c) s1) (\<lambda>(e, s'). goes 0 s1 s' \<and> (e = 0 \<longrightarrow> 0 \<le> bitsLeft s1))"
        using huffman_loop [OF goes_sane [OF c(2)] c(1) assms(2)] b assms(3) by simp
      then have "ends True (andThen (huffmanLoop fuel get (Some c) s1) (\<lambda>(error, s2). Done (error, freeTable (freeTable s2))))
          (\<lambda>(e, s'). goes 0 s s' \<and> (e = 0 \<longrightarrow> 0 \<le> bitsLeft s))"
      proof (rule ends_andThen, goal_cases)
        case (1 q)
        obtain e' s2 where q: "q = (e', s2)" by fastforce
        with 1 have s2: "goes 0 s1 s2" "e' = 0 \<longrightarrow> 0 \<le> bitsLeft s" using b by auto
        have "goes 0 (addTable (addTable s)) s2" using goes_trans [OF c(2) s2(1)] by simp
        then have "goes 0 s (freeTable (freeTable s2))" by (intro goes_free)
        with s2(2) q show ?case by simp
      qed
      with p Some mem show ?thesis by simp
    qed
  qed
  with False show ?thesis by (simp add: inflateHuffman_def)
qed

lemma block_loop:
  fixes s :: "'a InflaterState"
  assumes "sane s" "0 < fuel" "bitsLeft s + 1 < int fuel" "0 < n" "bitsLeft s < int n"
  shows "ends (\<exists>n. mem n) (blockLoop n fuel get mem s)
    (\<lambda>(e, s'). goes 0 s s' \<and> (e = 0 \<longrightarrow> outOffset s' = outLength s'))"
  using assms(1,3-)
proof (induction n arbitrary: s)
  case (Suc n)
  define s1 where "s1 = needBits get 3 s"
  define s2 where "s2 = dumpBits 3 s1"
  define type where "type = nextBits 3 s1"
  have g1: "goes 0 s s1" "3 \<le> inDataSize s1" using goes_need [OF Suc.prems(1), of 3 get] by (simp_all add: s1_def)
  have g: "goes 3 s s2"
    using goes_trans [OF g1(1), of 3 s2 3] goes_dump [OF goes_sane [OF g1(1)], of 3] g1(2) by (simp add: s2_def)
  have b: "bitsLeft s2 \<le> bitsLeft s - 3" using g by (simp add: goes_def)
  have f2: "bitsLeft s2 + 1 < int fuel" using b Suc.prems(2) by simp
  let ?r = "if type div 2 = 0 then inflateStored get s2
         else if type div 2 = 1 then inflateHuffman fuel get mem True s2
         else if type div 2 = 2 then inflateHuffman fuel get mem False s2
         else Done (INFLATE_INVALID_BTYPE, s2)"
  have blk: "ends (\<exists>n. mem n) ?r (\<lambda>(e, s'). goes 0 s2 s' \<and> (e = 0 \<longrightarrow> 0 \<le> bitsLeft s2))"
    using inflate_huffman [OF goes_sane [OF g] assms(2) f2] ends_weaken [OF stored_ends [OF goes_sane [OF g]]] goes_sane [OF g]
    by (simp add: INFLATE_INVALID_BTYPE_def)
  have "ends (\<exists>n. mem n) (andThen ?r (\<lambda>(res, s3).
          if res \<noteq> 0 then Done (res, s3)
          else if odd type then
            if inRemaining s3 + int (inDataSize s3 div 8) \<noteq> INFLATER_EXTRA_BYTES
            then Done (INFLATE_INPUT_BIT_ERROR, s3)
            else if outOffset s3 \<noteq> outLength s3 then Done (INFLATE_OUTPUT_BIT_ERROR, s3)
            else Done (0, s3)
          else blockLoop n fuel get mem s3))
      (\<lambda>(e, s'). goes 0 s s' \<and> (e = 0 \<longrightarrow> outOffset s' = outLength s'))"
  proof (rule ends_andThen [OF blk], goal_cases)
    case (1 p)
    obtain e s3 where p: "p = (e, s3)" by fastforce
    with 1 have s3: "goes 0 s2 s3" "e = 0 \<longrightarrow> 0 \<le> bitsLeft s2" by auto
    have g3: "goes 3 s s3" "goes 0 s s3" using goes_trans [OF g s3(1)] by simp_all
    show ?case
    proof (cases "e = 0 \<and> even type")
      case False
      with p g3 show ?thesis by (auto simp: INFLATE_INPUT_BIT_ERROR_def INFLATE_OUTPUT_BIT_ERROR_def)
    next
      case True
      have "bitsLeft s3 \<le> bitsLeft s - 3" using g3(1) by (simp add: goes_def)
      then have "0 < n" "bitsLeft s3 < int n" "bitsLeft s3 + 1 < int fuel" using True s3(2) b Suc.prems by simp_all
      from Suc.IH [OF goes_sane [OF g3(1)] this(3,1,2)] have
        "ends (\<exists>n. mem n) (blockLoop n fuel get mem s3) (\<lambda>(e, s'). goes 0 s s' \<and> (e = 0 \<longrightarrow> outOffset s' = outLength s'))"
        by (rule ends_mono) (use goes_trans [OF g3(2)] in auto)
      with p True show ?thesis by simp
    qed
  qed
  then show ?case unfolding blockLoop.simps Let_def s1_def type_def s2_def by blast
qed simp

section \<open>Enough fuel\<close>

lemma andThen_more:
  "andThen r f \<noteq> OutOfFuel \<Longrightarrow> (\<And>x. f x \<noteq> OutOfFuel \<Longrightarrow> g x = f x) \<Longrightarrow> andThen r g = andThen r f"
  by (cases r) auto

lemma huffman_more:
  "huffmanLoop fuel get codes s \<noteq> OutOfFuel \<Longrightarrow> fuel \<le> fuel' \<Longrightarrow> huffmanLoop fuel' get codes s = huffmanLoop fuel get codes s"
proof (induction fuel arbitrary: fuel' s)
  case (Suc fuel)
  then obtain k where k: "fuel' = Suc k" "fuel \<le> k" by (cases fuel') auto
  note IH = Suc.IH [OF _ k(2)]
  show ?case
    using Suc.prems(1) unfolding k(1) huffmanLoop.simps Let_def
    by (auto split: if_splits option.splits prod.splits intro!: andThen_more IH)
qed simp

lemma andThen_fuel: "andThen r f \<noteq> OutOfFuel \<Longrightarrow> r \<noteq> OutOfFuel"
  by (cases r) auto

lemma inflate_more:
  assumes "inflateHuffman fuel get mem fixed s \<noteq> OutOfFuel" "fuel \<le> fuel'"
  shows "inflateHuffman fuel' get mem fixed s = inflateHuffman fuel get mem fixed s"
proof (cases fixed)
  case True
  with assms huffman_more show ?thesis by (simp add: inflateHuffman_def)
next
  case False
  have "andThen (decodeDynamicHuffmanTables get mem s) (\<lambda>(error, codes, s1).
      case codes of None \<Rightarrow> Done (error, s1)
      | Some c \<Rightarrow> andThen (huffmanLoop fuel' get (Some c) s1) (\<lambda>(error, s2). Done (error, freeTable (freeTable s2))))
    = andThen (decodeDynamicHuffmanTables get mem s) (\<lambda>(error, codes, s1).
      case codes of None \<Rightarrow> Done (error, s1)
      | Some c \<Rightarrow> andThen (huffmanLoop fuel get (Some c) s1) (\<lambda>(error, s2). Done (error, freeTable (freeTable s2))))"
  proof (rule andThen_more, goal_cases)
    case 1
    with assms(1) False show ?case by (simp add: inflateHuffman_def)
  next
    case (2 p)
    then show ?case
      by (auto split: prod.splits option.splits dest!: andThen_fuel simp: huffman_more [OF _ assms(2)])
  qed
  with False show ?thesis by (simp add: inflateHuffman_def)
qed

lemma block_more:
  "blockLoop n fuel get mem s \<noteq> OutOfFuel \<Longrightarrow> n \<le> n' \<Longrightarrow> fuel \<le> fuel' \<Longrightarrow>
    blockLoop n' fuel' get mem s = blockLoop n fuel get mem s"
proof (induction n arbitrary: n' s)
  case (Suc n)
  then obtain k where k: "n' = Suc k" "n \<le> k" by (cases n') auto
  let ?s1 = "needBits get 3 s"
  let ?type = "nextBits 3 ?s1" and ?s2 = "dumpBits 3 ?s1"
  let ?r = "\<lambda>fuel. if ?type div 2 = 0 then inflateStored get ?s2
         else if ?type div 2 = 1 then inflateHuffman fuel get mem True ?s2
         else if ?type div 2 = 2 then inflateHuffman fuel get mem False ?s2
         else Done (INFLATE_INVALID_BTYPE, ?s2)"
  let ?c = "\<lambda>n fuel (res, s3).
          if res \<noteq> 0 then Done (res, s3)
          else if odd ?type then
            if inRemaining s3 + int (inDataSize s3 div 8) \<noteq> INFLATER_EXTRA_BYTES
            then Done (INFLATE_INPUT_BIT_ERROR, s3)
            else if outOffset s3 \<noteq> outLength s3 then Done (INFLATE_OUTPUT_BIT_ERROR, s3)
            else Done (0, s3)
          else blockLoop n fuel get mem s3"
  have ne: "andThen (?r fuel) (?c n fuel) \<noteq> OutOfFuel"
    using Suc.prems(1) unfolding blockLoop.simps Let_def .
  have r: "?r fuel' = ?r fuel"
    using andThen_fuel [OF ne] inflate_more [OF _ Suc.prems(3)] by (simp split: if_splits)
  have "andThen (?r fuel) (?c k fuel') = andThen (?r fuel) (?c n fuel)"
    by (rule andThen_more [OF ne]) (use Suc.IH [OF _ k(2) Suc.prems(3)] in \<open>auto split: prod.splits if_splits\<close>)
  then show ?case unfolding k(1) blockLoop.simps Let_def r .
qed simp

section \<open>Properties\<close>

lemma inflate_ends:
  assumes "0 \<le> decompLen" "decompLen < 2 ^ 31" "decompLen \<le> int (length buf)" "0 < fuel" "8 * (compLen + 4) + 1 < int fuel"
  shows "ends (\<exists>n. mem n) (inflateData fuel get mem f old compLen buf decompLen) (\<lambda>(e, s).
    length (outBuffer s) = length buf \<and> drop (nat decompLen) (outBuffer s) = drop (nat decompLen) buf
    \<and> outLength s = nat decompLen \<and> outOffset s \<le> nat decompLen \<and> tables s = 0 \<and> (e = 0 \<longrightarrow> outOffset s = nat decompLen))"
proof -
  define s where "s = \<lparr>fileState = f, inRemaining = compLen + INFLATER_EXTRA_BYTES, inDataSize = 0, inData = 0,
        outBuffer = buf, outOffset = 0, outLength = nat (decompLen mod 2 ^ 32),
        inflateBufferIndex = 0, inflateBufferCount = 0, inflateBuffer = old, tables = 0\<rparr>"
  have m: "decompLen mod 2 ^ 32 = decompLen" "nat decompLen \<le> length buf" "nat decompLen < 2 ^ 31"
    using assms(1-3) by simp_all
  have s: "sane s" "bitsLeft s = 8 * (compLen + 4)" "outLength s = nat decompLen" "outBuffer s = buf" "tables s = 0"
    unfolding s_def m(1) using m(2,3) by (simp_all add: sane_def bufferOk_def bitsLeft_def INFLATER_EXTRA_BYTES_def)
  have "ends (\<exists>n. mem n) (blockLoop fuel fuel get mem s) (\<lambda>(e, s'). goes 0 s s' \<and> (e = 0 \<longrightarrow> outOffset s' = outLength s'))"
    using block_loop [OF s(1) assms(4)] s(2) assms(4,5) by simp
  then show ?thesis
    unfolding inflateData_def s_def [symmetric]
    by (rule ends_mono) (auto simp: goes_def sane_def s)
qed

text \<open>
  C31. The inflater ends: whatever the compressed data and the memory, it comes to a result (which
  may be undefined behaviour) within eight rounds for every byte of input and 34 more, and more
  fuel does not change the result.
\<close>

theorem inflate_terminates:
  assumes "0 \<le> decompLen" "decompLen < 2 ^ 31" "decompLen \<le> int (length buf)"
    "0 < fuel" "8 * (compLen + 4) + 1 < int fuel"
  shows "inflateData fuel get mem f old compLen buf decompLen \<noteq> OutOfFuel
    \<and> (\<forall>fuel' \<ge> fuel. inflateData fuel' get mem f old compLen buf decompLen
         = inflateData fuel get mem f old compLen buf decompLen)"
proof -
  have ne: "inflateData fuel get mem f old compLen buf decompLen \<noteq> OutOfFuel"
    using inflate_ends [OF assms, of mem get f old] by (auto simp: ends_def)
  moreover have "inflateData fuel' get mem f old compLen buf decompLen = inflateData fuel get mem f old compLen buf decompLen"
    if "fuel \<le> fuel'" for fuel'
    using block_more [OF ne [unfolded inflateData_def] that that] unfolding inflateData_def .
  ultimately show ?thesis by blast
qed

lemma inflate_terminates_witness:
  "inflateData 200 (\<lambda>f. (take 256 f, drop 256 f)) (\<lambda>_. True) (replicate 9 0xA5 :: jbyte list) [] 9 [0, 0] 2 \<noteq> OutOfFuel"
  by (rule inflate_terminates [where decompLen = 2 and compLen = 9, THEN conjunct1]) simp_all

text \<open>
  C32. The inflater stays inside its output: if it returns, the bytes behind the expected length are
  as they were, all code tables are freed, and success means that exactly the expected length was
  written. Success is the result 0, as \<^verbatim>\<open>inflateJarEntry\<close> tests it; the comments on \<^verbatim>\<open>inflateData\<close>
  document \<^verbatim>\<open>TRUE\<close> for success and \<^verbatim>\<open>FALSE\<close> for an error. Undefined behaviour needs a code table: without memory for one there is none, whatever
  the data.
\<close>

theorem inflate_stays_inside:
  assumes "0 \<le> decompLen" "decompLen < 2 ^ 31" "decompLen \<le> int (length buf)"
    "0 < fuel" "8 * (compLen + 4) + 1 < int fuel"
  shows "case inflateData fuel get mem f old compLen buf decompLen of
      OutOfFuel \<Rightarrow> False
    | Undefined \<Rightarrow> \<exists>n. mem n
    | Done (e, s) \<Rightarrow> length (outBuffer s) = length buf
        \<and> drop (nat decompLen) (outBuffer s) = drop (nat decompLen) buf \<and> outOffset s \<le> nat decompLen
        \<and> tables s = 0 \<and> (e = 0 \<longrightarrow> outOffset s = nat decompLen)"
  using inflate_ends [OF assms, of mem get f old] by (auto simp: ends_def split: run.splits)

lemma inflate_stays_inside_witness:
  "\<exists>e s. inflateData 200 (\<lambda>f. (take 256 f, drop 256 f)) (\<lambda>_. False) (replicate 9 0xA5 :: jbyte list) [] 9 [1, 2, 3] 2
      = Done (e, s) \<and> outBuffer s ! 2 = 3"
proof -
  let ?r = "inflateData 200 (\<lambda>f. (take 256 f, drop 256 f)) (\<lambda>_. False) (replicate 9 0xA5 :: jbyte list) [] 9 [1, 2, 3] 2"
  have p: "case ?r of OutOfFuel \<Rightarrow> False | Undefined \<Rightarrow> \<exists>n :: int. False
      | Done (e, s) \<Rightarrow> length (outBuffer s) = length [1, 2, 3 :: jbyte] \<and> drop (nat 2) (outBuffer s) = drop (nat 2) [1, 2, 3]
          \<and> outOffset s \<le> nat 2 \<and> tables s = 0 \<and> (e = 0 \<longrightarrow> outOffset s = nat 2)"
    by (rule inflate_stays_inside) simp_all
  have third: "b ! 2 = 3" if "drop 2 b = [3]" for b :: "jbyte list"
    using nth_drop [of 2 b 0] that by (cases "2 \<le> length b") auto
  show ?thesis using p by (auto split: run.splits intro: third)
qed

end
