(* ===== verification/InflateBits.thy ===== *)
theory InflateBits
  imports InflateRuns
begin

text \<open>
  The input as a list of bits: \<open>feeds\<close> says which bits a state has before it, loaded, buffered and in
  the file, \<open>tape\<close> adds how much of them belongs to the stream. The contracts \<open>symbol_code\<close> (a decoder
  returns the symbol whose code comes next) and \<open>block_codes\<close> (literals and distances of a block), with
  the decoding of a block's tokens proved from them, and their interpretation for the fixed codes.
\<close>

section \<open>The input as bits\<close>

text \<open>
  What the file has, by what \<^verbatim>\<open>rest\<close> says of it, is delivered in pieces; \<^verbatim>\<open>None\<close> is a file of which
  nothing is promised.
\<close>

definition reader :: "'f get \<Rightarrow> ('f \<Rightarrow> jbyte list option) \<Rightarrow> bool" where
  "reader get rest \<longleftrightarrow> (\<forall>f r. rest f = Some r \<longrightarrow>
     (case get f of (bs, f') \<Rightarrow> \<exists>r'. rest f' = Some r' \<and> r = bs @ r' \<and> (bs = [] \<longrightarrow> r = [])))"

definition readable :: "('f \<Rightarrow> jbyte list option) \<Rightarrow> 'f InflaterState \<Rightarrow> bool" where
  "readable rest s \<longleftrightarrow> bufferOk s \<and> rest (fileState s) \<noteq> None"

definition pendingBytes :: "('f \<Rightarrow> jbyte list option) \<Rightarrow> 'f InflaterState \<Rightarrow> jbyte list" where
  "pendingBytes rest s =
     (if inflateBufferCount s > 0 then take (nat (inflateBufferCount s)) (drop (inflateBufferIndex s) (inflateBuffer s)) else [])
     @ the (rest (fileState s))"

lemma next_byte_pending:
  assumes "reader get rest" "readable rest s" "nextByte get s = (b, s')"
  shows "readable rest s' \<and>
    (pendingBytes rest s = b # pendingBytes rest s' \<or> pendingBytes rest s = [] \<and> b = 0xFF \<and> pendingBytes rest s' = [])"
proof (cases "inflateBufferCount s > 0")
  case True
  define k where "k = nat (inflateBufferCount s) - 1"
  have k: "nat (inflateBufferCount s) = Suc k" "nat (inflateBufferCount s - 1) = k" using True by (auto simp: k_def)
  have "inflateBufferIndex s < length (inflateBuffer s)" using assms(2) k(1) True by (simp add: readable_def bufferOk_def)
  then have "take (Suc k) (drop (inflateBufferIndex s) (inflateBuffer s))
      = inflateBuffer s ! inflateBufferIndex s # take k (drop (Suc (inflateBufferIndex s)) (inflateBuffer s))"
    by (simp add: Cons_nth_drop_Suc [symmetric])
  then show ?thesis using assms(2,3) True k by (auto simp: nextByte_def pendingBytes_def readable_def bufferOk_def)
next
  case False
  obtain bs f where g: "get (fileState s) = (bs, f)" by fastforce
  obtain r where r0: "rest (fileState s) = Some r" using assms(2) by (auto simp: readable_def)
  with g assms(1) obtain r' where r: "rest f = Some r'" "r = bs @ r'" "bs = [] \<longrightarrow> r = []"
    by (auto simp: reader_def dest!: spec [of _ "fileState s"])
  show ?thesis
  proof (cases bs)
    case Nil
    with g r0 r False assms(2,3) show ?thesis by (auto simp: nextByte_def pendingBytes_def readable_def bufferOk_def)
  next
    case (Cons c cs)
    with g r0 r False assms(2,3) show ?thesis
      by (auto simp: nextByte_def pendingBytes_def readable_def bufferOk_def nat_add_distrib)
  qed
qed

definition byteBits :: "jbyte \<Rightarrow> bool list" where
  "byteBits b = map (bit b) [0..<8]"

definition inBits :: "('f \<Rightarrow> jbyte list option) \<Rightarrow> 'f InflaterState \<Rightarrow> bool list" where
  "inBits rest s = map (bit (inData s)) [0..<inDataSize s] @ concat (map byteBits (pendingBytes rest s))"

text \<open>
  The input is \<open>xs\<close>, then 1 bits that stand for bytes behind the end; no bits are set above those
  loaded.
\<close>

definition feeds :: "('f \<Rightarrow> jbyte list option) \<Rightarrow> 'f InflaterState \<Rightarrow> bool list \<Rightarrow> bool" where
  "feeds rest s xs \<longleftrightarrow> readable rest s \<and> inDataSize s \<le> 32 \<and> (\<forall>i. bit (inData s) i \<longrightarrow> i < inDataSize s)
     \<and> (\<exists>k. inBits rest s = xs @ replicate (8 * k) True \<and> (0 < k \<longrightarrow> pendingBytes rest s = []))"

lemma length_byteBits [simp]: "length (byteBits b) = 8"
  by (simp add: byteBits_def)

lemma length_bytes_bits [simp]: "length (concat (map byteBits bs)) = 8 * length bs"
  by (induction bs) simp_all

lemma byteBits_FF: "byteBits 0xFF = replicate 8 True"
proof -
  have "bit (0xFF :: jbyte) i" if "i < 8" for i
    using that by (auto simp: eval_nat_numeral less_Suc_eq)
  then show ?thesis by (auto simp: byteBits_def intro!: nth_equalityI)
qed

text \<open>Loading a byte moves its bits to the end of those loaded.\<close>

lemma load_byte:
  fixes x :: "32 word" and b :: jbyte
  assumes "n \<le> 24" "\<forall>i. bit x i \<longrightarrow> i < n"
  shows "map (bit (x OR push_bit n (ucast b))) [0..<n + 8] = map (bit x) [0..<n] @ byteBits b"
    "bit (x OR push_bit n (ucast b)) i \<longrightarrow> i < n + 8"
proof -
  have u: "bit (ucast b :: 32 word) m = bit b m" for m
    using bit_imp_le_length [of b m] by (auto simp: bit_unsigned_iff)
  show "map (bit (x OR push_bit n (ucast b))) [0..<n + 8] = map (bit x) [0..<n] @ byteBits b"
    using assms by (intro nth_equalityI) (auto simp: byteBits_def nth_append bit_simps u)
  show "bit (x OR push_bit n (ucast b)) i \<longrightarrow> i < n + 8"
    using assms bit_imp_le_length [of b "i - n"] by (auto simp: bit_or_iff bit_push_bit_iff u)
qed

lemma feedsD:
  assumes "feeds rest s xs"
  shows "bufferOk s" "readable rest s" "inDataSize s \<le> 32"
  using assms by (simp_all add: feeds_def readable_def)

lemma load_feeds:
  assumes "reader get rest" "feeds rest s xs" "inDataSize s \<le> 24" "nextByte get s = (b, s1)"
  shows "feeds rest (s1\<lparr>inData := inData s1 OR push_bit (inDataSize s1) (ucast b),
           inRemaining := inRemaining s1 - 1, inDataSize := inDataSize s1 + 8\<rparr>) xs" (is "feeds rest ?s2 xs")
proof -
  obtain k where k: "inBits rest s = xs @ replicate (8 * k) True" "0 < k \<longrightarrow> pendingBytes rest s = []"
    using assms(2) by (auto simp: feeds_def)
  have eq: "inDataSize s1 = inDataSize s" "inData s1 = inData s" using nextByte_keeps [OF assms(4)] by simp_all
  have hi: "\<forall>i. bit (inData s) i \<longrightarrow> i < inDataSize s" and b: "readable rest s" using assms(2) by (simp_all add: feeds_def)
  have p: "pendingBytes rest ?s2 = pendingBytes rest s1" by (simp add: pendingBytes_def)
  have "readable rest ?s2" using next_byte_pending [OF assms(1) b assms(4)] by (simp add: readable_def bufferOk_def)
  moreover have bits: "inBits rest ?s2 = map (bit (inData s)) [0..<inDataSize s] @ byteBits b @ concat (map byteBits (pendingBytes rest s1))"
    using load_byte(1) [OF assms(3) hi, of b] by (simp add: inBits_def pendingBytes_def eq)
  have "\<exists>k. inBits rest ?s2 = xs @ replicate (8 * k) True \<and> (0 < k \<longrightarrow> pendingBytes rest ?s2 = [])"
  proof (cases "pendingBytes rest s = []")
    case True
    with next_byte_pending [OF assms(1) b assms(4)] have "b = 0xFF" and p1: "pendingBytes rest s1 = []" by auto
    moreover have "replicate (8 * Suc k) True = replicate (8 * k) True @ replicate 8 True"
      using replicate_add [of "8 * k" 8 True] by (simp only: mult_Suc_right add.commute)
    moreover have "map (bit (inData s)) [0..<inDataSize s] = xs @ replicate (8 * k) True"
      using k(1) True by (simp add: inBits_def)
    ultimately have "inBits rest ?s2 = xs @ replicate (8 * Suc k) True"
      unfolding bits p1 by (simp only: byteBits_FF append_assoc list.map concat.simps append_Nil2)
    with p p1 show ?thesis by (intro exI [of _ "Suc k"]) simp
  next
    case False
    with next_byte_pending [OF assms(1) b assms(4)] have "pendingBytes rest s = b # pendingBytes rest s1" by auto
    with k False have "inBits rest ?s2 = xs" unfolding bits by (simp add: inBits_def)
    then show ?thesis by (intro exI [of _ 0]) simp
  qed
  ultimately show ?thesis
    using load_byte(2) [OF assms(3) hi, of b] assms(3) by (simp add: feeds_def eq)
qed

text \<open>Bits may be loaded when a byte fits above those there are.\<close>

definition loadable :: "nat \<Rightarrow> 'f InflaterState \<Rightarrow> bool" where
  "loadable j s \<longleftrightarrow> j \<le> 25 \<or> j = 32 \<and> inDataSize s mod 8 = 0"

lemma need_feeds:
  "reader get rest \<Longrightarrow> feeds rest s xs \<Longrightarrow> loadable j s \<Longrightarrow> feeds rest (needBits get j s) xs"
proof (induction get j s rule: needBits.induct)
  case (1 get j s)
  obtain b s1 where n: "nextByte get s = (b, s1)" by fastforce
  show ?case
  proof (cases "inDataSize s < j")
    case False
    with 1 show ?thesis by (simp add: needBits.simps [of get j s])
  next
    case True
    have "s1' < 25" if "s1' mod 8 = 0" "s1' < 32" for s1' :: nat using that by presburger
    with True 1(4) have small: "inDataSize s \<le> 24" by (fastforce simp: loadable_def)
    have "loadable j (s1\<lparr>inData := inData s1 OR push_bit (inDataSize s1) (ucast b),
           inRemaining := inRemaining s1 - 1, inDataSize := inDataSize s1 + 8\<rparr>)"
      using 1(4) nextByte_keeps(1) [OF n] by (simp add: loadable_def)
    from "1.IH" [OF True n [symmetric] refl 1(2) load_feeds [OF 1(2,3) small n] this] True n show ?thesis
      by (simp add: needBits.simps [of get j s])
  qed
qed

text \<open>The value of bits, the first one the lowest.\<close>

definition bitsVal :: "bool list \<Rightarrow> nat" where
  "bitsVal bs = horner_sum of_bool 2 bs"

lemma bitsVal_map: "bitsVal (map (bit x) [0..<n]) = take_bit n (x :: nat)"
  by (simp add: bitsVal_def horner_sum_bit_eq_take_bit)

lemma bitsVal_less: "bitsVal bs < 2 ^ length bs"
  unfolding bitsVal_def by (rule horner_sum_of_bool_2_less [THEN less_le_trans]) simp

lemma bitsVal_inj: "length xs = length ys \<Longrightarrow> bitsVal xs = bitsVal ys \<Longrightarrow> xs = ys"
proof (induction xs ys rule: list_induct2)
  case (Cons x xs y ys)
  from Cons.prems have "of_bool x + 2 * bitsVal xs = of_bool y + 2 * bitsVal ys" by (simp add: bitsVal_def)
  then have "x = y" "bitsVal xs = bitsVal ys" by (cases x; cases y; simp; presburger)+
  with Cons.IH show ?case by simp
qed simp

lemma bit_unat_word: "bit (unat w) = bit (w :: 'a::len word)"
  by (rule ext) (simp add: bit_unsigned_iff)

lemma pendingBytes_dump: "pendingBytes rest (dumpBits j s) = pendingBytes rest s"
  by (simp add: dumpBits_def pendingBytes_def)

lemma next_feeds:
  assumes "feeds rest s (xs @ ys)" "length xs \<le> inDataSize s"
  shows "nextBits (length xs) s = bitsVal xs" "feeds rest (dumpBits (length xs) s) ys"
proof -
  let ?j = "length xs" and ?n = "inDataSize s"
  obtain k where k: "inBits rest s = xs @ ys @ replicate (8 * k) True" "0 < k \<longrightarrow> pendingBytes rest s = []"
    using assms(1) by (auto simp: feeds_def)
  have n: "?n \<le> 32" "?n < 2 ^ 32" using feedsD(3) [OF assms(1)] by simp_all
  let ?w = "map (bit (inData s)) [0..<?n]"
  have w: "?w = map (bit (inData s)) [0..<?j] @ map (bit (inData s)) [?j..<?n]"
    using upt_add_eq_append [of 0 ?j "?n - ?j"] assms(2) by (simp flip: map_append)
  have xs: "map (bit (inData s)) [0..<?j] = xs"
    and ys: "map (bit (inData s)) [?j..<?n] @ concat (map byteBits (pendingBytes rest s)) = ys @ replicate (8 * k) True"
    using k(1) unfolding inBits_def w by (simp_all add: append_eq_append_conv)
  have "bitsVal xs = take_bit ?j (unat (inData s))"
    using bitsVal_map [of "unat (inData s)" ?j] xs by (simp add: bit_unat_word)
  then show "nextBits ?j s = bitsVal xs" by (simp add: nextBits_mod take_bit_eq_mod)
  have d: "inDataSize (dumpBits ?j s) = ?n - ?j" using dumpBits_size [OF assms(2) n(2)] .
  have sh: "map (bit (drop_bit ?j (inData s))) [0..<?n - ?j] = map (bit (inData s)) [?j..<?n]"
    using assms(2) by (intro nth_equalityI) (simp_all add: bit_drop_bit_eq add.commute)
  have "inBits rest (dumpBits ?j s) = ys @ replicate (8 * k) True"
    unfolding inBits_def d pendingBytes_dump using ys sh by (simp add: dumpBits_def)
  with k(2) assms n(1) d show "feeds rest (dumpBits ?j s) ys"
    by (auto simp: feeds_def dumpBits_def readable_def bufferOk_def pendingBytes_def bit_drop_bit_eq mod_if)
qed

lemma next_bits_of:
  assumes "feeds rest s (map (bit (v :: nat)) [0..<j] @ ys)" "j \<le> inDataSize s" "v < 2 ^ j"
  shows "nextBits j s = v" "feeds rest (dumpBits j s) ys"
  using next_feeds [OF assms(1)] assms(2,3) by (simp_all add: bitsVal_map take_bit_nat_eq_self)

section \<open>Codes of symbols\<close>

text \<open>
  What the loops rely on: with the code of a symbol next in the input, the decoder returns the
  symbol and takes its code.
\<close>

locale symbol_code =
  fixes dec :: "'f InflaterState \<Rightarrow> (nat option \<times> 'f InflaterState) run"
    and code :: "nat \<Rightarrow> bool list" and valid :: "nat \<Rightarrow> bool"
  assumes code_length: "valid v \<Longrightarrow> 0 < length (code v) \<and> length (code v) \<le> 15"
    and decodes: "valid v \<Longrightarrow> 15 \<le> inDataSize s \<Longrightarrow> nextBits (length (code v)) s = bitsVal (code v)
      \<Longrightarrow> dec s = Done (Some v, dumpBits (length (code v)) s)"
begin

lemma decodes_next:
  assumes "valid v" "15 \<le> inDataSize s" "feeds rest s (code v @ ys)"
  shows "dec s = Done (Some v, dumpBits (length (code v)) s)" "feeds rest (dumpBits (length (code v)) s) ys"
  using decodes [OF assms(1,2)] next_feeds [OF assms(3)] code_length [OF assms(1)] assms(2) by auto

end

section \<open>The input of a stream\<close>

text \<open>\<open>xs\<close> is left of the encoded data, \<open>tail\<close> follows, and \<open>K\<close> is what the counters have beyond \<open>xs\<close>.\<close>

definition tape :: "('f \<Rightarrow> jbyte list option) \<Rightarrow> bool list \<Rightarrow> int \<Rightarrow> 'f InflaterState \<Rightarrow> bool list \<Rightarrow> bool" where
  "tape rest tail K s xs \<longleftrightarrow> feeds rest s (xs @ tail) \<and> bitsLeft s = int (length xs) + K \<and> 32 \<le> K"

lemma tape_remaining: "tape rest tail K s xs \<Longrightarrow> 0 \<le> inRemaining s"
  by (auto simp: tape_def feeds_def bitsLeft_def)

lemma tape_need:
  "reader get rest \<Longrightarrow> tape rest tail K s xs \<Longrightarrow> j \<le> 25 \<Longrightarrow> tape rest tail K (needBits get j s) xs \<and> j \<le> inDataSize (needBits get j s)"
  using need_feeds [of get rest s "xs @ tail" j] needBits_same [of s get j] needBits_size [of j get s]
  by (simp add: tape_def loadable_def)

lemma tape_dump:
  assumes "tape rest tail K s (xs @ ys)" "length xs \<le> inDataSize s"
  shows "nextBits (length xs) s = bitsVal xs" "tape rest tail K (dumpBits (length xs) s) ys"
proof -
  have f: "feeds rest s (xs @ ys @ tail)" "inDataSize s \<le> 32" using assms(1) by (simp_all add: tape_def feeds_def)
  show "nextBits (length xs) s = bitsVal xs" "tape rest tail K (dumpBits (length xs) s) ys"
    using next_feeds [OF f(1) assms(2)] dumpBits_left [OF assms(2)] f(2) assms(1) by (simp_all add: tape_def)
qed

definition bitsOf :: "nat \<Rightarrow> nat \<Rightarrow> bool list" where
  "bitsOf j v = map (bit v) [0..<j]"

lemma length_bitsOf [simp]: "length (bitsOf j v) = j"
  by (simp add: bitsOf_def)

lemma tape_number:
  assumes "tape rest tail K s (bitsOf j v @ ys)" "j \<le> inDataSize s" "v < 2 ^ j"
  shows "nextBits j s = v" "tape rest tail K (dumpBits j s) ys"
  using tape_dump [OF assms(1)] assms(2,3) by (simp_all add: bitsOf_def bitsVal_map take_bit_nat_eq_self)

text \<open>The output so far.\<close>

definition outIs :: "'f InflaterState \<Rightarrow> jbyte list \<Rightarrow> bool" where
  "outIs s out \<longleftrightarrow> outOffset s = length out \<and> take (length out) (outBuffer s) = out
     \<and> length out \<le> outLength s \<and> outLength s \<le> length (outBuffer s) \<and> outLength s < 2 ^ 31"

lemma outIs_same: "outIs s out \<Longrightarrow> sameOut s s' \<Longrightarrow> outIs s' out"
  by (simp add: outIs_def sameOut_def)

text \<open>What a decoder may change besides: nothing but input.\<close>

lemma dump_same_out [simp]:
  "outIs (dumpBits j s) out = outIs s out" "outLength (dumpBits j s) = outLength s" "tables (dumpBits j s) = tables s"
  by (simp_all add: dumpBits_def outIs_def)

lemma need_same_out [simp]:
  "outIs (needBits get j s) out = outIs s out" "outLength (needBits get j s) = outLength s"
  "tables (needBits get j s) = tables s"
  using needBits_same [of s get j] by (simp_all add: sameOut_def outIs_def)

lemma tape_out [simp]:
  "tape rest tail K (s\<lparr>outBuffer := b, outOffset := n\<rparr>) xs = tape rest tail K s xs"
  by (simp add: tape_def feeds_def bitsLeft_def readable_def bufferOk_def inBits_def pendingBytes_def)

lemma write_out_is:
  assumes "outIs s out" "length out + length bs \<le> outLength s"
  shows "\<exists>buf. writeOut bs s = Done (s\<lparr>outBuffer := buf, outOffset := length (out @ bs)\<rparr>)
    \<and> outIs (s\<lparr>outBuffer := buf, outOffset := length (out @ bs)\<rparr>) (out @ bs)"
  using assms by (auto simp: writeOut_def outIs_def)

section \<open>Tokens\<close>

text \<open>A match: the index of its length code, extra bits, distance code, extra bits.\<close>

datatype Token = Literal jbyte | Match nat nat nat nat

fun copyOut :: "nat \<Rightarrow> nat \<Rightarrow> jbyte list \<Rightarrow> jbyte list" where
  "copyOut 0 d out = out"
| "copyOut (Suc n) d out = copyOut n d (out @ [out ! (length out - d)])"

fun expandToken :: "Token \<Rightarrow> jbyte list \<Rightarrow> jbyte list option" where
  "expandToken (Literal b) out = Some (out @ [b])"
| "expandToken (Match n x d y) out =
     (if dist_base ! d + y \<le> length out
      then Some (copyOut (ll_length_base ! n + x) (dist_base ! d + y) out) else None)"

fun expand :: "Token list \<Rightarrow> jbyte list \<Rightarrow> jbyte list option" where
  "expand [] out = Some out"
| "expand (t # ts) out = Option.bind (expandToken t out) (expand ts)"

fun tokenOk :: "(nat \<Rightarrow> bool) \<Rightarrow> (nat \<Rightarrow> bool) \<Rightarrow> Token \<Rightarrow> bool" where
  "tokenOk lit dst (Literal b) = lit (unat b)"
| "tokenOk lit dst (Match n x d y) = (n < 29 \<and> x < 2 ^ (ll_extra_bits ! n) \<and> d < 30 \<and> y < 2 ^ (dist_extra_bits ! d)
     \<and> lit (257 + n) \<and> dst d)"

fun tokenBits :: "(nat \<Rightarrow> bool list) \<Rightarrow> (nat \<Rightarrow> bool list) \<Rightarrow> Token \<Rightarrow> bool list" where
  "tokenBits lit dst (Literal b) = lit (unat b)"
| "tokenBits lit dst (Match n x d y) = lit (257 + n) @ bitsOf (ll_extra_bits ! n) x @ dst d @ bitsOf (dist_extra_bits ! d) y"

lemma length_copyOut [simp]: "length (copyOut n d out) = length out + n"
  by (induction n d out rule: copyOut.induct) simp_all

lemma expand_length: "expand ts out = Some out' \<Longrightarrow> length out \<le> length out'"
proof (induction ts out rule: expand.induct)
  case (2 t ts out)
  then obtain o1 where "expandToken t out = Some o1" "expand ts o1 = Some out'" by (auto simp: bind_eq_Some_conv)
  moreover from this(1) have "length out \<le> length o1" by (cases t) (auto split: if_splits)
  ultimately show ?case using "2.IH" by fastforce
qed simp

lemma match_loop_copies:
  "take off buf = out \<Longrightarrow> off = length out \<Longrightarrow> 0 < d \<Longrightarrow> d \<le> off \<Longrightarrow> off + n \<le> length buf \<Longrightarrow>
    \<exists>buf'. matchLoop n (off - d) off buf = Some buf' \<and> length buf' = length buf \<and> take (off + n) buf' = copyOut n d out"
proof (induction n arbitrary: off buf out)
  case (Suc n)
  let ?b = "buf[off := buf ! (off - d)]" and ?o = "out @ [out ! (length out - d)]"
  have "buf ! (off - d) = out ! (length out - d)"
    using Suc.prems by (metis diff_less nth_take le_less_trans less_le_trans)
  then have "take (Suc off) ?b = ?o" using Suc.prems by (simp add: take_Suc_conv_app_nth)
  moreover have "Suc off - d = Suc (off - d)" using Suc.prems by simp
  ultimately obtain b' where "matchLoop n (Suc (off - d)) (Suc off) ?b = Some b'" "length b' = length ?b"
    "take (Suc off + n) b' = copyOut n d ?o"
    using Suc.IH [of "Suc off" ?b ?o] Suc.prems by auto
  with Suc.prems show ?case by simp
qed simp

lemma copy_match_is:
  assumes "outIs s out" "0 < d" "d \<le> length out" "length out + n \<le> outLength s"
  shows "\<exists>buf. copyMatch n d s = Done (0, s\<lparr>outBuffer := buf, outOffset := length (copyOut n d out)\<rparr>)
    \<and> outIs (s\<lparr>outBuffer := buf, outOffset := length (copyOut n d out)\<rparr>) (copyOut n d out)"
proof -
  obtain b where "matchLoop n (length out - d) (length out) (outBuffer s) = Some b" "length b = length (outBuffer s)"
    "take (length out + n) b = copyOut n d out"
    using match_loop_copies [of "length out" "outBuffer s" out d n] assms by (auto simp: outIs_def)
  moreover have "length out + n < 2 ^ 32" using assms by (simp add: outIs_def)
  ultimately show ?thesis using assms by (auto simp: copyMatch_def outIs_def)
qed

text \<open>A block's codes: literals with lengths, and distances.\<close>

locale block_codes =
  lit: symbol_code "literalEntry codes :: 'f InflaterState \<Rightarrow> _" lcode lvalid +
  dst: symbol_code "distanceEntry codes :: 'f InflaterState \<Rightarrow> _" dcode dvalid
  for codes :: "(HuffmanCodeTable \<times> HuffmanCodeTable) option" and lcode lvalid dcode dvalid
begin

abbreviation bitsOfToken :: "Token \<Rightarrow> bool list" where
  "bitsOfToken \<equiv> tokenBits lcode dcode"

lemma literal_entry:
  assumes "reader (get :: 'f get) rest" "tape rest tail K s (lcode v @ ys)" "lvalid v"
  defines "s1 \<equiv> needBits get (MAX_BITS + MAX_ZIP_EXTRA_LENGTH_BITS) s"
  shows "literalEntry codes s1 = Done (Some v, dumpBits (length (lcode v)) s1)"
    "tape rest tail K (dumpBits (length (lcode v)) s1) ys" "5 \<le> inDataSize (dumpBits (length (lcode v)) s1)"
proof -
  have s1: "tape rest tail K s1 (lcode v @ ys)" "20 \<le> inDataSize s1"
    using tape_need [OF assms(1,2), of "MAX_BITS + MAX_ZIP_EXTRA_LENGTH_BITS"]
    by (simp_all add: s1_def MAX_BITS_def MAX_ZIP_EXTRA_LENGTH_BITS_def)
  have l: "length (lcode v) \<le> 15" using lit.code_length [OF assms(3)] by simp
  have sz: "inDataSize s1 \<le> 32" using s1(1) by (simp add: tape_def feeds_def)
  show "literalEntry codes s1 = Done (Some v, dumpBits (length (lcode v)) s1)"
    using lit.decodes [OF assms(3), of s1] tape_dump(1) [OF s1(1)] s1(2) l by simp
  show "tape rest tail K (dumpBits (length (lcode v)) s1) ys" using tape_dump(2) [OF s1(1)] s1(2) l by simp
  show "5 \<le> inDataSize (dumpBits (length (lcode v)) s1)" using dumpBits_size [of "length (lcode v)" s1] s1(2) l sz by simp
qed

lemma match_decodes:
  assumes "reader (get :: 'f get) rest" "tokenOk lvalid dvalid (Match n x d y)" "outIs s out"
    "expandToken (Match n x d y) out = Some out'" "length out' \<le> outLength s" "5 \<le> inDataSize s"
    "tape rest tail K s (bitsOf (ll_extra_bits ! n) x @ dcode d @ bitsOf (dist_extra_bits ! d) y @ ys)"
  shows "\<exists>s'. inflateMatch get codes (257 + n) s = Done (0, s') \<and> tape rest tail K s' ys \<and> outIs s' out'
    \<and> outLength s' = outLength s \<and> tables s' = tables s"
proof -
  let ?e = "ll_extra_bits ! n" and ?f = "dist_extra_bits ! d"
  have ok: "n < 29" "x < 2 ^ ?e" "d < 30" "y < 2 ^ ?f" "dvalid d" using assms(2) by simp_all
  have b: "?e \<le> 5" "?f \<le> 13" "0 < dist_base ! d" using ok table_bounds table_sizes by (auto simp: nth_mem)
  define s1 where "s1 = needBits get MAX_BITS (dumpBits ?e s)"
  have x: "nextBits ?e s = x" "tape rest tail K (dumpBits ?e s) (dcode d @ bitsOf ?f y @ ys)"
    using tape_number [OF assms(7)] b(1) assms(6) ok(2) by simp_all
  have s1: "tape rest tail K s1 (dcode d @ bitsOf ?f y @ ys)" "15 \<le> inDataSize s1"
    using tape_need [OF assms(1) x(2), of MAX_BITS] by (simp_all add: s1_def MAX_BITS_def)
  have l: "length (dcode d) \<le> 15" using dst.code_length [OF ok(5)] by simp
  define s2 where "s2 = dumpBits (length (dcode d)) s1"
  have s2: "distanceEntry codes s1 = Done (Some d, s2)" "tape rest tail K s2 (bitsOf ?f y @ ys)"
    using dst.decodes [OF ok(5) s1(2)] tape_dump [OF s1(1)] l s1(2) by (simp_all add: s2_def)
  define s3 where "s3 = needBits get MAX_ZIP_EXTRA_DISTANCE_BITS s2"
  have s3: "tape rest tail K s3 (bitsOf ?f y @ ys)" "13 \<le> inDataSize s3"
    using tape_need [OF assms(1) s2(2), of MAX_ZIP_EXTRA_DISTANCE_BITS] by (simp_all add: s3_def MAX_ZIP_EXTRA_DISTANCE_BITS_def)
  have y: "nextBits ?f s3 = y" "tape rest tail K (dumpBits ?f s3) ys"
    using tape_number [OF s3(1)] b(2) s3(2) ok(4) by simp_all
  let ?s4 = "dumpBits ?f s3"
  have o: "outIs ?s4 out" "outLength ?s4 = outLength s" "tables ?s4 = tables s"
    using assms(3) by (simp_all add: s3_def s2_def s1_def)
  have e: "dist_base ! d + y \<le> length out" "out' = copyOut (ll_length_base ! n + x) (dist_base ! d + y) out"
    using assms(4) by (auto split: if_splits)
  obtain buf where c: "copyMatch (ll_length_base ! n + x) (dist_base ! d + y) ?s4
        = Done (0, ?s4\<lparr>outBuffer := buf, outOffset := length out'\<rparr>)"
    "outIs (?s4\<lparr>outBuffer := buf, outOffset := length out'\<rparr>) out'"
    using copy_match_is [OF o(1), of "dist_base ! d + y" "ll_length_base ! n + x"] e b(3) assms(5) o(2) by auto
  have "inflateMatch get codes (257 + n) s = Done (0, ?s4\<lparr>outBuffer := buf, outOffset := length out'\<rparr>)"
    using ok(1,3) s2(1) c(1) x(1) y(1) table_sizes
    by (simp add: inflateMatch_def LITXLEN_BASE_def MAX_ZIP_DISTANCE_CODE_def Let_def
        s1_def [symmetric] s3_def [symmetric] del: tape_out)
  then show ?thesis using c(2) y(2) o(2,3) by auto
qed

lemma tokens_decode:
  assumes "reader (get :: 'f get) rest" "lvalid 256" "list_all (tokenOk lvalid dvalid) ts" "expand ts out = Some out'"
    "outIs s out" "length out' \<le> outLength s" "length ts < fuel"
    "tape rest tail K s (concat (map bitsOfToken ts) @ lcode 256 @ ys)"
  shows "\<exists>s'. huffmanLoop fuel get codes s = Done (0, s') \<and> tape rest tail K s' ys \<and> outIs s' out'
    \<and> outLength s' = outLength s \<and> tables s' = tables s"
  using assms(3-)
proof (induction ts arbitrary: s out fuel)
  case Nil
  then obtain k where k: "fuel = Suc k" by (cases fuel) auto
  have "tape rest tail K s (lcode 256 @ ys)" using Nil.prems(6) by simp
  note e = literal_entry [OF assms(1) this assms(2)]
  have "\<not> inRemaining s < 0" using tape_remaining [OF Nil.prems(6)] by simp
  with e(1) have "huffmanLoop fuel get codes s
      = Done (0, dumpBits (length (lcode 256)) (needBits get (MAX_BITS + MAX_ZIP_EXTRA_LENGTH_BITS) s))"
    by (simp add: k Let_def)
  with e(2) Nil.prems(2,3) show ?case by simp
next
  case (Cons t ts)
  obtain k where k: "fuel = Suc k" "length ts < k" using Cons.prems(5) by (cases fuel) auto
  obtain o1 where o1: "expandToken t out = Some o1" "expand ts o1 = Some out'"
    using Cons.prems(2) by (auto simp: bind_eq_Some_conv)
  have len: "length o1 \<le> outLength s" using expand_length [OF o1(2)] Cons.prems(4) by simp
  let ?ys = "concat (map bitsOfToken ts) @ lcode 256 @ ys"
  let ?s1 = "needBits get (MAX_BITS + MAX_ZIP_EXTRA_LENGTH_BITS) s"
  have r: "\<not> inRemaining s < 0" using tape_remaining [OF Cons.prems(6)] by simp
  have again: "\<exists>s'. huffmanLoop k get codes t = Done (0, s') \<and> tape rest tail K s' ys \<and> outIs s' out'
      \<and> outLength s' = outLength s \<and> tables s' = tables s"
    if "outIs t o1" "tape rest tail K t ?ys" "outLength t = outLength s" "tables t = tables s" for t
    using Cons.IH [OF _ o1(2) that(1) _ k(2) that(2)] Cons.prems(1,4) that(3,4) by auto
  show ?case
  proof (cases t)
    case (Literal b)
    have v: "lvalid (unat b)" using Cons.prems(1) Literal by simp
    have "tape rest tail K s (lcode (unat b) @ ?ys)" using Cons.prems(6) Literal by simp
    note e = literal_entry [OF assms(1) this v]
    let ?s2 = "dumpBits (length (lcode (unat b))) ?s1"
    have o: "outIs ?s2 out" "o1 = out @ [b]" using Cons.prems(3) o1(1) Literal by simp_all
    obtain buf where w: "writeOut [b] ?s2 = Done (?s2\<lparr>outBuffer := buf, outOffset := length (out @ [b])\<rparr>)"
      "outIs (?s2\<lparr>outBuffer := buf, outOffset := length (out @ [b])\<rparr>) (out @ [b])"
      using write_out_is [OF o(1), of "[b]"] len o(2) by auto
    have "unat b \<le> 255" using unsigned_less [of b, where 'a = nat] by simp
    moreover have "outOffset ?s2 < outLength ?s2" using o len by (simp add: outIs_def)
    ultimately have "huffmanLoop fuel get codes s = huffmanLoop k get codes (?s2\<lparr>outBuffer := buf, outOffset := length (out @ [b])\<rparr>)"
      using r e(1) w(1) by (simp add: k Let_def)
    with again [of "?s2\<lparr>outBuffer := buf, outOffset := length (out @ [b])\<rparr>"] w(2) o(2) e(2) show ?thesis by simp
  next
    case (Match n x d y)
    have v: "lvalid (257 + n)" "n < 29" using Cons.prems(1) Match by simp_all
    have "tape rest tail K s (lcode (257 + n) @ bitsOf (ll_extra_bits ! n) x @ dcode d @ bitsOf (dist_extra_bits ! d) y @ ?ys)"
      using Cons.prems(6) Match by simp
    note e = literal_entry [OF assms(1) this v(1)]
    let ?s2 = "dumpBits (length (lcode (257 + n))) ?s1"
    obtain s3 where s3: "inflateMatch get codes (257 + n) ?s2 = Done (0, s3)" "tape rest tail K s3 ?ys" "outIs s3 o1"
      "outLength s3 = outLength s" "tables s3 = tables s"
      using match_decodes [OF assms(1), of n x d y ?s2 out o1 tail K ?ys] e(2,3) Cons.prems(1,3) o1(1) len Match by auto
    have "huffmanLoop fuel get codes s = huffmanLoop k get codes s3"
      using r e(1) s3(1) v(2) by (simp add: k Let_def)
    with again [OF s3(3,2,4,5)] show ?thesis by simp
  qed
qed

end

section \<open>Reversing bits\<close>

lemma bit_bitsVal: "bit (bitsVal xs) i \<longleftrightarrow> i < length xs \<and> xs ! i"
  by (simp add: bitsVal_def bit_horner_sum_bit_iff)

lemma bitsVal_append: "bitsVal (xs @ ys) = bitsVal xs + 2 ^ length xs * bitsVal ys"
  by (simp add: bitsVal_def horner_sum_append)

lemma bitsVal_bitsOf: "bitsVal (bitsOf j v) = v mod 2 ^ j"
  by (simp add: bitsOf_def bitsVal_map take_bit_eq_mod)

lemma reverse5_bits:
  assumes "k < 32"
  shows "reverse5 ! k = bitsVal (rev (bitsOf 5 k))"
proof -
  have "list_all (\<lambda>k. reverse5 ! k = bitsVal (rev (bitsOf 5 k))) [0..<32]"
    by code_simp
  with assms show ?thesis by (simp add: list_all_iff)
qed

lemma bit_reversed: "bit (bitsVal (rev (bitsOf n v))) i \<longleftrightarrow> i < n \<and> bit v (n - Suc i)"
  by (auto simp: bit_bitsVal bitsOf_def rev_nth)

lemma bit_reverse5: "k < 32 \<Longrightarrow> bit (reverse5 ! k) i \<longleftrightarrow> i < 5 \<and> bit k (4 - i)"
  by (simp add: reverse5_bits bit_reversed)

lemma reverse9:
  assumes "v < 512"
  shows "REVERSE_9BITS v = bitsVal (rev (bitsOf 9 v))"
proof (rule bit_eqI)
  fix i
  have lo: "bit (reverse5 ! (v mod 32) * 16) i \<longleftrightarrow> 4 \<le> i \<and> i < 9 \<and> bit v (8 - i)"
  proof -
    have m: "reverse5 ! (v mod 32) * 16 = push_bit 4 (reverse5 ! (v mod 32))" by (simp add: push_bit_eq_mult)
    have t: "v mod 32 = take_bit 5 v" by (simp add: take_bit_eq_mod)
    have b: "bit (v mod 32) k \<longleftrightarrow> k < 5 \<and> bit v k" for k unfolding t by (simp add: bit_take_bit_iff)
    have r: "bit (reverse5 ! (v mod 32)) j \<longleftrightarrow> j < 5 \<and> bit (v mod 32) (4 - j)" for j by (rule bit_reverse5) simp
    have "4 \<le> i \<Longrightarrow> i < 9 \<Longrightarrow> 4 - (i - 4) = 8 - i" by linarith
    then show ?thesis unfolding m bit_push_bit_iff_nat r b by auto
  qed
  have hi: "bit (reverse5 ! (v div 16)) i \<longleftrightarrow> i < 5 \<and> bit v (8 - i)"
  proof -
    have d: "v div 16 = drop_bit 4 v" "v div 16 < 32" using assms by (simp_all add: drop_bit_eq_div)
    have "i < 5 \<Longrightarrow> 4 + (4 - i) = 8 - i" by linarith
    then show ?thesis unfolding bit_reverse5 [OF d(2)] unfolding d(1) by (auto simp: bit_drop_bit_eq)
  qed
  have "bit (bitsVal (rev (bitsOf 9 v))) i \<longleftrightarrow> i < 9 \<and> bit v (8 - i)" by (simp add: bit_reversed)
  then show "bit (REVERSE_9BITS v) i \<longleftrightarrow> bit (bitsVal (rev (bitsOf 9 v))) i"
    using lo hi by (auto simp: REVERSE_9BITS_def bit_or_iff)
qed

lemma reverse15:
  assumes "c < 2 ^ 15"
  shows "REVERSE_15BITS c = Some (bitsVal (rev (bitsOf 15 c)))"
proof -
  have split: "bitsOf (m + n) x = bitsOf m x @ bitsOf n (x div 2 ^ m)" for m n x
    by (intro nth_equalityI) (auto simp: bitsOf_def nth_append bit_drop_bit_eq simp flip: drop_bit_eq_div)
  have mod5: "bitsOf 5 x = bitsOf 5 (x mod 32)" for x
    by (intro nth_equalityI) (auto simp: bitsOf_def bit_take_bit_iff simp flip: take_bit_eq_mod [of 5, simplified])
  have "bitsOf 15 c = bitsOf 5 (c mod 32) @ bitsOf 5 (c div 32 mod 32) @ bitsOf 5 (c div 1024)"
    using split [of 5 10 c] split [of 5 5 "c div 32"] mod5 [of c] mod5 [of "c div 32"] by (simp add: div_mult2_eq [symmetric])
  moreover have "c div 1024 < 32" using assms by simp
  ultimately show ?thesis
    by (simp add: REVERSE_15BITS_def reverse5_bits bitsVal_append) (simp add: reverse5_def)
qed

section \<open>The fixed codes\<close>

text \<open>Codes are packed with their highest bit first.\<close>

definition msb :: "nat \<Rightarrow> nat \<Rightarrow> bool list" where
  "msb l c = rev (bitsOf l c)"

definition fixedCode :: "nat \<Rightarrow> bool list" where
  "fixedCode v = (if v \<le> 143 then msb 8 (0x30 + v) else if v \<le> 255 then msb 9 (0x190 + (v - 144))
     else if v \<le> 279 then msb 7 (v - 256) else msb 8 (0xC0 + (v - 280)))"

lemma length_msb [simp]: "length (msb l c) = l"
  by (simp add: msb_def)

lemma msb_Nil [simp]: "msb l c = [] \<longleftrightarrow> l = 0"
  by (metis length_0_conv length_msb)

text \<open>Bits that begin with a code, reversed, have the code as their highest bits.\<close>

lemma msb_first:
  assumes "v < 2 ^ n" "l \<le> n" "c < 2 ^ l" "v mod 2 ^ l = bitsVal (msb l c)"
  shows "bitsVal (rev (bitsOf n v)) div 2 ^ (n - l) = c"
proof -
  have split: "bitsOf n v = bitsOf l v @ bitsOf (n - l) (v div 2 ^ l)"
    using assms(2) by (intro nth_equalityI) (auto simp: bitsOf_def nth_append bit_drop_bit_eq simp flip: drop_bit_eq_div)
  have "bitsVal (bitsOf l v) = bitsVal (msb l c)" using assms(4) by (simp add: bitsVal_bitsOf)
  then have "bitsOf l v = msb l c" by (intro bitsVal_inj) simp_all
  then have "rev (bitsOf n v) = rev (bitsOf (n - l) (v div 2 ^ l)) @ bitsOf l c" by (simp add: split msb_def)
  then have "bitsVal (rev (bitsOf n v)) = bitsVal (rev (bitsOf (n - l) (v div 2 ^ l))) + 2 ^ (n - l) * c"
    using assms(3) by (simp add: bitsVal_append bitsVal_bitsOf)
  moreover have "bitsVal (rev (bitsOf (n - l) (v div 2 ^ l))) < 2 ^ (n - l)"
    using bitsVal_less [of "rev (bitsOf (n - l) (v div 2 ^ l))"] by simp
  ultimately show ?thesis by simp
qed

lemma next_bits_part: "l \<le> n \<Longrightarrow> nextBits n s mod 2 ^ l = nextBits l s"
  by (simp add: nextBits_mod mod_mod_cancel le_imp_power_dvd)

lemma fixed_entry_decodes:
  assumes "v < 288" "nextBits (length (fixedCode v)) s = bitsVal (fixedCode v)"
  shows "fixedEntry s = (v, dumpBits (length (fixedCode v)) s)"
proof -
  define c where "c = REVERSE_9BITS (nextBits 9 s)"
  have c: "c = bitsVal (rev (bitsOf 9 (nextBits 9 s)))" using reverse9 [of "nextBits 9 s"] nextBits_less [of 9 s] by (simp add: c_def)
  have first: "c div 2 ^ (9 - l) = k" if "fixedCode v = msb l k" "l \<le> 9" "k < 2 ^ l" for l k
    using msb_first [OF nextBits_less that(2,3), of s] next_bits_part [OF that(2), of s] assms(2) that(1) by (simp add: c)
  consider "v \<le> 143" | "144 \<le> v" "v \<le> 255" | "256 \<le> v" "v \<le> 279" | "280 \<le> v" by linarith
  then show ?thesis
  proof cases
    case 1
    then have f: "fixedCode v = msb 8 (0x30 + v)" by (simp add: fixedCode_def)
    have "c div 2 = 0x30 + v" using first [OF f] 1 by simp
    with 1 show ?thesis unfolding fixedEntry_def Let_def c_def [symmetric] by (simp add: f) linarith
  next
    case 2
    then have f: "fixedCode v = msb 9 (0x190 + (v - 144))" by (simp add: fixedCode_def)
    have "c = 0x190 + (v - 144)" using first [OF f] 2 by simp
    with 2 show ?thesis unfolding fixedEntry_def Let_def c_def [symmetric] by (simp add: f)
  next
    case 3
    then have f: "fixedCode v = msb 7 (v - 256)" by (simp add: fixedCode_def)
    have "c div 4 = v - 256" using first [OF f] 3 by simp
    with 3 show ?thesis unfolding fixedEntry_def Let_def c_def [symmetric] by (simp add: f) linarith
  next
    case 4
    then have f: "fixedCode v = msb 8 (0xC0 + (v - 280))" by (simp add: fixedCode_def)
    have "c div 2 = 0xC0 + (v - 280)" using first [OF f] 4 assms(1) by simp
    with 4 assms(1) show ?thesis unfolding fixedEntry_def Let_def c_def [symmetric] by (simp add: f) linarith
  qed
qed

interpretation fixed: block_codes None fixedCode "\<lambda>v. v < 288" "msb 5" "\<lambda>d. d < 30"
proof unfold_locales
  fix v :: nat and s :: "'f InflaterState"
  show "v < 288 \<Longrightarrow> 0 < length (fixedCode v) \<and> length (fixedCode v) \<le> 15" by (simp add: fixedCode_def)
  assume "v < 288" "nextBits (length (fixedCode v)) s = bitsVal (fixedCode v)"
  then show "literalEntry None s = Done (Some v, dumpBits (length (fixedCode v)) s)"
    using fixed_entry_decodes [of v s] by (simp add: literalEntry_def)
next
  fix d :: nat and s :: "'f InflaterState"
  show "d < 30 \<Longrightarrow> 0 < length (msb 5 d) \<and> length (msb 5 d) \<le> 15" by simp
  assume d: "d < 30" "nextBits (length (msb 5 d)) s = bitsVal (msb 5 d)"
  have "nextBits 5 s < 32" using nextBits_less [of 5 s] by simp
  then have "REVERSE_5BITS (nextBits 5 s) = bitsVal (rev (bitsOf 5 (nextBits 5 s)))"
    by (simp add: REVERSE_5BITS_def reverse5_bits)
  also have "\<dots> = d" using msb_first [OF nextBits_less, of 5 5 d s] d nextBits_less [of 5 s] by simp
  finally show "distanceEntry None s = Done (Some d, dumpBits (length (msb 5 d)) s)" by (simp add: distanceEntry_def)
qed

end
