(* ===== verification/InflateTables.thy ===== *)
theory InflateTables
  imports InflateBits
begin

text \<open>
  Canonical codes and the tables made for them: \<open>nextCode\<close> and \<open>huffCode\<close> give the code words that
  code lengths stand for, \<open>filled\<close> is the invariant of the loop that fills the main table and the long
  tables behind it, \<open>codeTable\<close> what it leaves. Two properties: such a table decodes its code, and
  oversubscribed lengths always go wrong.
\<close>

section \<open>Canonical codes\<close>

text \<open>
  The codes that code lengths stand for: those of a length are consecutive numbers in the order of
  the symbols, behind the codes of smaller lengths.
\<close>

fun nextCode :: "nat list \<Rightarrow> nat \<Rightarrow> nat" where
  "nextCode lens 0 = 0"
| "nextCode lens (Suc b) = 2 * (nextCode lens b + (if b = 0 then 0 else count_list lens b))"

definition codeWord :: "nat list \<Rightarrow> nat \<Rightarrow> nat" where
  "codeWord lens i = nextCode lens (lens ! i) + count_list (take i lens) (lens ! i)"

definition huffCode :: "nat list \<Rightarrow> nat \<Rightarrow> bool list" where
  "huffCode lens i = msb (lens ! i) (codeWord lens i)"

definition coded :: "nat list \<Rightarrow> nat \<Rightarrow> bool" where
  "coded lens i \<longleftrightarrow> i < length lens \<and> 0 < lens ! i"

text \<open>Lengths of at most 15, and not more codes than there is room for.\<close>

definition lensOk :: "nat list \<Rightarrow> bool" where
  "lensOk lens \<longleftrightarrow> list_all (\<lambda>l. l \<le> 15) lens \<and> nextCode lens 16 \<le> 2 ^ 16"

lemma lensOkD: "lensOk lens \<Longrightarrow> i < length lens \<Longrightarrow> lens ! i \<le> 15"
  by (simp add: lensOk_def list_all_length)

text \<open>The codes as numbers of 16 bits.\<close>

definition firstPlace :: "nat list \<Rightarrow> nat \<Rightarrow> nat" where
  "firstPlace lens b = nextCode lens b * 2 ^ (16 - b)"

definition place :: "nat list \<Rightarrow> nat \<Rightarrow> nat" where
  "place lens i = codeWord lens i * 2 ^ (16 - lens ! i)"

lemma first_place_Suc:
  assumes "b \<le> 15"
  shows "firstPlace lens (Suc b) = firstPlace lens b + (if b = 0 then 0 else count_list lens b) * 2 ^ (16 - b)"
proof -
  have "16 - b = Suc (16 - Suc b)" using assms by simp
  then show ?thesis by (simp add: firstPlace_def algebra_simps)
qed

lemma first_place_mono: "a \<le> b \<Longrightarrow> b \<le> 16 \<Longrightarrow> firstPlace lens a \<le> firstPlace lens b"
proof (induction b rule: dec_induct)
  case (step n)
  then show ?case by (simp add: first_place_Suc)
qed simp

lemma first_place_le: "lensOk lens \<Longrightarrow> b \<le> 16 \<Longrightarrow> firstPlace lens b \<le> 2 ^ 16"
  using first_place_mono [of b 16 lens] by (simp add: lensOk_def firstPlace_def)

lemma count_take_less: "i < j \<Longrightarrow> i < length xs \<Longrightarrow> count_list (take i xs) (xs ! i) < count_list (take j xs) (xs ! i)"
proof -
  assume a: "i < j" "i < length xs"
  have "take j xs = take i xs @ take (j - i) (drop i xs)" using a take_add [of i "j - i" xs] by simp
  moreover have "take (j - i) (drop i xs) = xs ! i # take (j - i - 1) (drop (Suc i) xs)"
    using a by (simp add: Cons_nth_drop_Suc [symmetric] take_Cons')
  ultimately show ?thesis by (simp only: count_list_append) simp
qed

lemma place_range:
  assumes "lensOk lens" "coded lens i"
  shows "firstPlace lens (lens ! i) \<le> place lens i"
    "place lens i + 2 ^ (16 - lens ! i) \<le> firstPlace lens (Suc (lens ! i))"
proof -
  have i: "i < length lens" "0 < lens ! i" "lens ! i \<le> 15" using assms lensOkD by (auto simp: coded_def)
  show "firstPlace lens (lens ! i) \<le> place lens i" by (simp add: firstPlace_def place_def codeWord_def)
  have "count_list (take i lens) (lens ! i) + 1 \<le> count_list lens (lens ! i)"
    using count_take_less [of i "length lens" lens] i(1) by simp
  then have "(count_list (take i lens) (lens ! i) + 1) * 2 ^ (16 - lens ! i) \<le> count_list lens (lens ! i) * 2 ^ (16 - lens ! i)"
    by (rule mult_le_mono1)
  then show "place lens i + 2 ^ (16 - lens ! i) \<le> firstPlace lens (Suc (lens ! i))"
    using first_place_Suc [OF i(3), of lens] i(2) by (simp add: firstPlace_def place_def codeWord_def algebra_simps)
qed

lemma place_end: "lensOk lens \<Longrightarrow> coded lens i \<Longrightarrow> place lens i + 2 ^ (16 - lens ! i) \<le> 2 ^ 16"
  using place_range(2) [of lens i] first_place_le [of lens "Suc (lens ! i)"] lensOkD [of lens i] by (simp add: coded_def)

lemma code_word_less:
  assumes "lensOk lens" "coded lens i"
  shows "codeWord lens i < 2 ^ (lens ! i)"
proof -
  have l: "lens ! i \<le> 16" using assms lensOkD [of lens i] by (simp add: coded_def)
  have "(codeWord lens i + 1) * 2 ^ (16 - lens ! i) \<le> 2 ^ (lens ! i) * 2 ^ (16 - lens ! i)"
    using place_end [OF assms] l by (simp add: place_def power_add [symmetric])
  then have "codeWord lens i + 1 \<le> 2 ^ (lens ! i)" unfolding mult_le_cancel2 by simp
  then show ?thesis by simp
qed

text \<open>The places of different symbols do not overlap.\<close>

lemma places_apart:
  assumes "lensOk lens" "coded lens i" "coded lens j" "i \<noteq> j" "lens ! i \<le> lens ! j"
  shows "place lens i + 2 ^ (16 - lens ! i) \<le> place lens j \<or> place lens j + 2 ^ (16 - lens ! j) \<le> place lens i"
proof (cases "lens ! i = lens ! j")
  case False
  have "firstPlace lens (Suc (lens ! i)) \<le> firstPlace lens (lens ! j)"
    using False assms(3,5) lensOkD [OF assms(1), of j] by (intro first_place_mono) (auto simp: coded_def)
  with place_range(2) [OF assms(1,2)] place_range(1) [OF assms(1,3)] show ?thesis by linarith
next
  case True
  have step: "place lens a + 2 ^ (16 - lens ! a) \<le> place lens b" if "a < b" "coded lens a" "lens ! a = lens ! b" for a b
  proof -
    have "count_list (take a lens) (lens ! a) + 1 \<le> count_list (take b lens) (lens ! a)"
      using count_take_less [OF that(1), of lens] that(2) by (simp add: coded_def)
    then have "codeWord lens a + 1 \<le> codeWord lens b" using that(3) by (simp add: codeWord_def)
    then have "(codeWord lens a + 1) * 2 ^ (16 - lens ! a) \<le> codeWord lens b * 2 ^ (16 - lens ! a)" by (rule mult_le_mono1)
    then show ?thesis using that(3) by (simp add: place_def algebra_simps)
  qed
  show ?thesis using step [of i j] step [of j i] assms(2-4) True by (cases "i < j") auto
qed

text \<open>A symbol's code as it is read, the first bit lowest.\<close>

definition word :: "nat list \<Rightarrow> nat \<Rightarrow> nat" where
  "word lens i = bitsVal (huffCode lens i)"

lemma word_less: "word lens i < 2 ^ (lens ! i)"
  using bitsVal_less [of "huffCode lens i"] by (simp add: word_def huffCode_def)

lemma word_place:
  assumes "lensOk lens" "coded lens i" "w < 2 ^ 15" "w mod 2 ^ (lens ! i) = word lens i"
  defines "W \<equiv> bitsVal (rev (bitsOf 15 w))"
  shows "place lens i \<le> 2 * W" "2 * W < place lens i + 2 ^ (16 - lens ! i)"
proof -
  let ?l = "lens ! i"
  have l: "?l \<le> 15" using lensOkD [OF assms(1)] assms(2) by (simp add: coded_def)
  have W: "W div 2 ^ (15 - ?l) = codeWord lens i"
    unfolding W_def using msb_first [OF assms(3) l code_word_less [OF assms(1,2)]] assms(4) by (simp add: word_def huffCode_def)
  have e: "(2 :: nat) ^ (16 - ?l) = 2 * 2 ^ (15 - ?l)" using l by (simp add: Suc_diff_le flip: power_Suc)
  have "codeWord lens i * 2 ^ (15 - ?l) \<le> W" unfolding W [symmetric] by (rule div_times_less_eq_dividend)
  then show "place lens i \<le> 2 * W" by (simp add: place_def e)
  have "W < (codeWord lens i + 1) * 2 ^ (15 - ?l)"
    unfolding W [symmetric] using dividend_less_div_times [of "2 ^ (15 - ?l)" W] by simp
  then show "2 * W < place lens i + 2 ^ (16 - ?l)" by (simp add: place_def e algebra_simps)
qed

text \<open>No input begins with the codes of two symbols.\<close>

lemma words_apart:
  assumes "lensOk lens" "coded lens i" "coded lens j"
    "w mod 2 ^ (lens ! i) = word lens i" "w mod 2 ^ (lens ! j) = word lens j"
  shows "i = j"
proof -
  let ?w = "w mod 2 ^ 15"
  have m: "?w mod 2 ^ (lens ! k) = w mod 2 ^ (lens ! k)" if "coded lens k" for k
    using lensOkD [OF assms(1)] that by (intro mod_mod_cancel le_imp_power_dvd) (simp add: coded_def)
  have "?w < 2 ^ 15" by simp
  note p = word_place [OF assms(1) _ this]
  have "?w mod 2 ^ (lens ! i) = word lens i" "?w mod 2 ^ (lens ! j) = word lens j"
    using m assms(2-5) by simp_all
  note pi = p [OF assms(2) this(1)] and pj = p [OF assms(3) this(2)]
  show ?thesis
  proof (rule ccontr)
    assume ne: "i \<noteq> j"
    have "place lens i + 2 ^ (16 - lens ! i) \<le> place lens j \<or> place lens j + 2 ^ (16 - lens ! j) \<le> place lens i"
      using places_apart [OF assms(1-3) ne] places_apart [OF assms(1,3,2) ne [symmetric]] by linarith
    with pi pj show False by linarith
  qed
qed

lemma place_reversed:
  assumes "lensOk lens" "coded lens i"
  shows "REVERSE_15BITS (codeWord lens i * 2 ^ (15 - lens ! i)) = Some (word lens i)"
proof -
  let ?l = "lens ! i" and ?c = "codeWord lens i"
  have l: "?l \<le> 15" using lensOkD [OF assms(1)] assms(2) by (simp add: coded_def)
  have c: "?c < 2 ^ ?l" by (rule code_word_less [OF assms])
  have "?c * 2 ^ (15 - ?l) < 2 ^ ?l * 2 ^ (15 - ?l)" using c by simp
  also have "\<dots> = 2 ^ 15" using l by (simp flip: power_add)
  finally have r: "REVERSE_15BITS (?c * 2 ^ (15 - ?l)) = Some (bitsVal (rev (bitsOf 15 (?c * 2 ^ (15 - ?l)))))" by (rule reverse15)
  have "bitsOf 15 (?c * 2 ^ (15 - ?l)) = replicate (15 - ?l) False @ bitsOf ?l ?c"
    using l by (intro nth_equalityI) (auto simp: bitsOf_def nth_append bit_push_bit_iff simp flip: push_bit_eq_mult)
  then have "rev (bitsOf 15 (?c * 2 ^ (15 - ?l))) = msb ?l ?c @ replicate (15 - ?l) False" by (simp add: msb_def)
  moreover have "bitsVal (replicate n False) = 0" for n by (induction n) (simp_all add: bitsVal_def)
  ultimately show ?thesis using r by (simp add: bitsVal_append word_def huffCode_def)
qed

section \<open>The tables of the first codes\<close>

lemma counts_of_lengths:
  "list_all (\<lambda>l. l < length counts) ls \<Longrightarrow>
    \<exists>c. countLengths ls counts = Some c \<and> length c = length counts
      \<and> (\<forall>b < length counts. c ! b = counts ! b + count_list ls b)"
proof (induction ls arbitrary: counts)
  case (Cons l ls)
  from Cons.IH [of "counts[l := counts ! l + 1]"] Cons.prems obtain c where
    "countLengths ls (counts[l := counts ! l + 1]) = Some c" "length c = length counts"
    "\<forall>b < length counts. c ! b = counts[l := counts ! l + 1] ! b + count_list ls b" by auto
  with Cons.prems show ?case by (auto simp: nth_list_update)
qed simp

lemma codes_loop:
  assumes "length counts = 16" "\<forall>b \<in> {1..15}. counts ! b = count_list lens b"
  shows "n \<le> 15 \<Longrightarrow> length codes = 16 \<Longrightarrow> code = nextCode lens (16 - n) * 2 ^ (n - 1) \<Longrightarrow> m < 16 - n \<Longrightarrow>
    \<exists>codes' m'. codesLoop [16 - n..<16] counts codes code m = (codes', m') \<and> length codes' = 16
      \<and> (\<forall>b < 16 - n. codes' ! b = codes ! b) \<and> (\<forall>b \<in> {16 - n..15}. codes' ! b = nextCode lens b * 2 ^ (15 - b))
      \<and> m \<le> m' \<and> m' \<le> 15 \<and> (\<forall>b \<in> {16 - n..15}. count_list lens b \<noteq> 0 \<longrightarrow> b \<le> m')"
proof (induction n arbitrary: codes code m)
  case (Suc n)
  define b where "b = 16 - Suc n"
  have b: "16 - n = Suc b" "1 \<le> b" "b \<le> 15" "15 - b = n" "16 - Suc n = b" using Suc.prems(1) by (auto simp: b_def)
  have u: "[b..<16] = b # [Suc b..<16]" using b(3) by (simp add: upt_conv_Cons)
  have cnt: "counts ! b = count_list lens b" using assms(2) b(2,3) by simp
  have code: "code = nextCode lens b * 2 ^ n" using Suc.prems(3) b(5) by simp
  let ?codes = "codes[b := code]"
  let ?m = "if counts ! b \<noteq> 0 then b else m" and ?code = "code + counts ! b * 2 ^ n"
  have step: "codesLoop [16 - Suc n..<16] counts codes code m = codesLoop [16 - n..<16] counts ?codes ?code ?m"
    unfolding b(5) b(1) u by (simp add: MAX_BITS_def b(4))
  have nxt: "?code = nextCode lens (16 - n) * 2 ^ (n - 1)" if "0 < n"
  proof -
    obtain k where "n = Suc k" using \<open>0 < n\<close> gr0_implies_Suc by blast
    moreover have "nextCode lens (16 - n) = 2 * (nextCode lens b + count_list lens b)" unfolding b(1) using b(2) by simp
    ultimately show ?thesis unfolding code cnt by (simp add: algebra_simps)
  qed
  show ?case
  proof (cases "n = 0")
    case True
    then have "b = 15" using b(4) by (simp add: b_def)
    with True Suc.prems step b(2) cnt code show ?thesis by (auto simp: nth_list_update)
  next
    case False
    have l: "n \<le> 15" "length ?codes = 16" "?m < 16 - n" using Suc.prems(1,2,4) b(1) by auto
    have "0 < n" using False by simp
    obtain codes' m' where IH: "codesLoop [16 - n..<16] counts ?codes ?code ?m = (codes', m')" "length codes' = 16"
      "\<forall>c < 16 - n. codes' ! c = ?codes ! c" "\<forall>c \<in> {16 - n..15}. codes' ! c = nextCode lens c * 2 ^ (15 - c)"
      "?m \<le> m'" "m' \<le> 15" "\<forall>c \<in> {16 - n..15}. count_list lens c \<noteq> 0 \<longrightarrow> c \<le> m'"
      using Suc.IH [OF l(1,2) nxt [OF \<open>0 < n\<close>] l(3)] by blast
    have "codes' ! c = nextCode lens c * 2 ^ (15 - c)" if "c \<in> {16 - Suc n..15}" for c
    proof (cases "c = b")
      case True
      with IH(3) b Suc.prems(2) show ?thesis by (simp add: code)
    next
      case False
      with that b IH(4) show ?thesis by simp
    qed
    moreover have "codes' ! c = codes ! c" if "c < 16 - Suc n" for c using IH(3) that b by simp
    moreover have "c \<le> m'" if "c \<in> {16 - Suc n..15}" "count_list lens c \<noteq> 0" for c
      using that IH(5,7) cnt b by (cases "c = b") auto
    moreover have "m \<le> m'" using IH(5) Suc.prems(4) b by (auto split: if_splits)
    ultimately show ?thesis using step IH(1,2,6) by auto
  qed
qed auto

lemma first_codes:
  assumes "lensOk lens"
  shows "\<exists>counts codes m. countLengths lens (replicate (MAX_BITS + 1) 0) = Some counts
    \<and> codesLoop [1..<MAX_BITS + 1] counts (replicate (MAX_BITS + 1) 0) 0 0 = (codes, m)
    \<and> length codes = 16 \<and> (\<forall>b \<in> {1..15}. codes ! b = nextCode lens b * 2 ^ (15 - b))
    \<and> m \<le> 15 \<and> (\<forall>i < length lens. lens ! i \<le> m)"
proof -
  have "list_all (\<lambda>l. l < length (replicate (MAX_BITS + 1) (0 :: nat))) lens"
    using assms by (force simp: lensOk_def MAX_BITS_def list_all_iff)
  from counts_of_lengths [OF this] obtain counts where c: "countLengths lens (replicate (MAX_BITS + 1) 0) = Some counts"
    "length counts = 16" "\<forall>b < 16. counts ! b = count_list lens b" by (auto simp: MAX_BITS_def)
  have n1: "0 = nextCode lens (16 - 15) * 2 ^ (15 - 1)" by simp
  have c2: "\<forall>b \<in> {1..15}. counts ! b = count_list lens b" using c(3) by simp
  obtain codes m where m: "codesLoop [16 - 15..<16] counts (replicate 16 0) 0 0 = (codes, m)"
    "length codes = 16" "\<forall>b \<in> {16 - 15..15}. codes ! b = nextCode lens b * 2 ^ (15 - b)" "m \<le> 15"
    "\<forall>b \<in> {16 - 15..15}. count_list lens b \<noteq> 0 \<longrightarrow> b \<le> m"
    using codes_loop [OF c(2) c2 order_refl _ n1, of "replicate 16 0" 0] by (auto simp del: upt.simps upt_rec_numeral)
  have "lens ! i \<le> m" if "i < length lens" for i
  proof (cases "lens ! i = 0")
    case False
    have "count_list lens (lens ! i) \<noteq> 0" using that by (simp add: count_list_0_iff)
    with m(5) False lensOkD [OF assms that] show ?thesis by simp
  qed simp
  with c(1) m(1-4) show ?thesis by (simp add: MAX_BITS_def)
qed

section \<open>Filling tables\<close>

lemma stride_fills:
  assumes "base + lim \<le> length t"
  shows "\<exists>t'. strideLoop base j b lim huff t = Some t' \<and> length t' = length t
    \<and> (\<forall>k < length t. t' ! k = (if \<exists>m. k = base + j + m * 2 ^ b \<and> j + m * 2 ^ b < lim then huff else t ! k))"
  using assms
proof (induction base j b lim huff t rule: strideLoop.induct)
  case (1 base j b lim huff t)
  show ?case
  proof (cases "j < lim")
    case False
    then show ?thesis by (auto simp: strideLoop.simps [of base j b lim huff t])
  next
    case True
    then have l: "base + j < length t" using "1.prems" by simp
    obtain t' where t': "strideLoop base (j + 2 ^ b) b lim huff (t[base + j := huff]) = Some t'" "length t' = length t"
      "\<forall>k < length t. t' ! k = (if \<exists>m. k = base + (j + 2 ^ b) + m * 2 ^ b \<and> j + 2 ^ b + m * 2 ^ b < lim then huff
         else t[base + j := huff] ! k)"
      using "1.IH" [OF True l] "1.prems" by auto
    have "t' ! k = (if \<exists>m. k = base + j + m * 2 ^ b \<and> j + m * 2 ^ b < lim then huff else t ! k)" if "k < length t" for k
    proof -
      have "(\<exists>m. k = base + j + m * 2 ^ b \<and> j + m * 2 ^ b < lim) \<longleftrightarrow>
          k = base + j \<or> (\<exists>m. k = base + (j + 2 ^ b) + m * 2 ^ b \<and> j + 2 ^ b + m * 2 ^ b < lim)" (is "(\<exists>m. ?P m) \<longleftrightarrow> _ \<or> (\<exists>m. ?R m)")
      proof -
        have "?P (Suc m) \<longleftrightarrow> ?R m" for m by (simp add: algebra_simps)
        moreover have "?P 0 \<longleftrightarrow> k = base + j" using True by simp
        ultimately show ?thesis by (metis not0_implies_Suc)
      qed
      with t'(3) that show ?thesis by (auto simp: nth_list_update)
    qed
    with t'(1,2) True l show ?thesis by (simp add: strideLoop.simps [of base j b lim huff t])
  qed
qed

text \<open>The cells of \<open>start\<close> modulo the stride.\<close>

lemma stride_cells:
  assumes "base + lim \<le> length t" "start < 2 ^ b"
  obtains t' where "strideLoop base start b lim huff t = Some t'" "length t' = length t"
    "\<And>x. x < lim \<Longrightarrow> t' ! (base + x) = (if x mod 2 ^ b = start then huff else t ! (base + x))"
    "\<And>k. k < length t \<Longrightarrow> k < base \<or> base + lim \<le> k \<Longrightarrow> t' ! k = t ! k"
proof -
  obtain t' where t': "strideLoop base start b lim huff t = Some t'" "length t' = length t"
    "\<forall>k < length t. t' ! k = (if \<exists>m. k = base + start + m * 2 ^ b \<and> start + m * 2 ^ b < lim then huff else t ! k)"
    using stride_fills [OF assms(1)] by blast
  have "t' ! (base + x) = (if x mod 2 ^ b = start then huff else t ! (base + x))" if "x < lim" for x
  proof -
    have "(\<exists>m. x = start + m * 2 ^ b) \<longleftrightarrow> x mod 2 ^ b = start"
      using assms(2) by (metis add.commute mod_less mod_mult_self2 mult.commute mult_div_mod_eq)
    with t'(3) that assms(1) show ?thesis by (auto simp: add.assoc)
  qed
  moreover have "t' ! k = t ! k" if "k < length t" "k < base \<or> base + lim \<le> k" for k
    using t'(3) that by auto
  ultimately show thesis using t'(1,2) that by blast
qed

section \<open>The table of a code\<close>

text \<open>Codes with an entry of their own in the main table, and codes with an entry in a long table.\<close>

definition shortCode :: "nat list \<Rightarrow> nat \<Rightarrow> nat \<Rightarrow> bool" where
  "shortCode lens Q i \<longleftrightarrow> coded lens i \<and> lens ! i \<le> Q"

definition longCode :: "nat list \<Rightarrow> nat \<Rightarrow> nat \<Rightarrow> bool" where
  "longCode lens Q i \<longleftrightarrow> coded lens i \<and> Q < lens ! i"

text \<open>The places in the main table that need a long table.\<close>

definition prefixes :: "nat list \<Rightarrow> nat \<Rightarrow> nat \<Rightarrow> nat set" where
  "prefixes lens Q n = (\<lambda>i. word lens i mod 2 ^ Q) ` {i. i < n \<and> longCode lens Q i}"

definition symbolEntry :: "nat list \<Rightarrow> nat \<Rightarrow> nat" where
  "symbolEntry lens i = i * 16 + lens ! i"

definition tableAt :: "nat \<Rightarrow> nat \<Rightarrow> nat \<Rightarrow> nat" where
  "tableAt Q M k = 2 + 2 ^ Q + k * 2 ^ (M - Q)"

text \<open>
  The table \<open>t\<close> with the entries of the symbols below \<open>n\<close>, the long tables being those of \<open>P\<close>; \<open>N\<close>
  is the number of long tables there is room for.
\<close>

definition filled :: "nat list \<Rightarrow> nat \<Rightarrow> nat \<Rightarrow> nat \<Rightarrow> nat \<Rightarrow> nat set \<Rightarrow> nat list \<Rightarrow> bool" where
  "filled lens Q M N n P t \<longleftrightarrow>
     (t ! 0 = Q \<and> t ! 1 = M \<and> tableAt Q M N \<le> length t \<and> 2 * tableAt Q M N \<le> HUFFINFO_LONG_MASK
       \<and> finite P \<and> card P \<le> N \<and> prefixes lens Q n \<subseteq> P \<and> (\<forall>p \<in> P. p < 2 ^ Q))
     \<and> (\<forall>i < n. shortCode lens Q i \<longrightarrow> (\<forall>x < 2 ^ Q. x mod 2 ^ (lens ! i) = word lens i \<longrightarrow> t ! (2 + x) = symbolEntry lens i))
     \<and> (\<forall>x < 2 ^ Q. t ! (2 + x) = 0 \<or> (\<exists>i < n. shortCode lens Q i \<and> x mod 2 ^ (lens ! i) = word lens i) \<or> x \<in> P)
     \<and> (\<forall>p \<in> P. \<exists>k < card P. t ! (2 + p) = HUFFINFO_LONG_MASK + 2 * tableAt Q M k)
     \<and> inj_on (\<lambda>p. t ! (2 + p)) P
     \<and> (\<forall>i < n. longCode lens Q i \<longrightarrow> (\<forall>y < 2 ^ (M - Q). y mod 2 ^ (lens ! i - Q) = word lens i div 2 ^ Q \<longrightarrow>
          (\<forall>k. t ! (2 + word lens i mod 2 ^ Q) = HUFFINFO_LONG_MASK + 2 * tableAt Q M k \<longrightarrow>
             t ! (tableAt Q M k + y) = symbolEntry lens i)))"

lemma filledD:
  assumes "filled lens Q M N n P t"
  shows "t ! 0 = Q" "t ! 1 = M" "tableAt Q M N \<le> length t" "2 * tableAt Q M N \<le> HUFFINFO_LONG_MASK" "finite P"
    "card P \<le> N" "prefixes lens Q n \<subseteq> P" "p \<in> P \<Longrightarrow> p < 2 ^ Q"
    "i < n \<Longrightarrow> shortCode lens Q i \<Longrightarrow> x < 2 ^ Q \<Longrightarrow> x mod 2 ^ (lens ! i) = word lens i \<Longrightarrow> t ! (2 + x) = symbolEntry lens i"
    "x < 2 ^ Q \<Longrightarrow> t ! (2 + x) = 0 \<or> (\<exists>i < n. shortCode lens Q i \<and> x mod 2 ^ (lens ! i) = word lens i) \<or> x \<in> P"
    "p \<in> P \<Longrightarrow> \<exists>k < card P. t ! (2 + p) = HUFFINFO_LONG_MASK + 2 * tableAt Q M k"
    "inj_on (\<lambda>p. t ! (2 + p)) P"
    "i < n \<Longrightarrow> longCode lens Q i \<Longrightarrow> y < 2 ^ (M - Q) \<Longrightarrow> y mod 2 ^ (lens ! i - Q) = word lens i div 2 ^ Q \<Longrightarrow>
       t ! (2 + word lens i mod 2 ^ Q) = HUFFINFO_LONG_MASK + 2 * tableAt Q M k \<Longrightarrow> t ! (tableAt Q M k + y) = symbolEntry lens i"
  using assms unfolding filled_def by blast+

lemma table_at_mono: "j < k \<Longrightarrow> tableAt Q M j + 2 ^ (M - Q) \<le> tableAt Q M k"
proof -
  assume "j < k"
  then have "(j + 1) * 2 ^ (M - Q) \<le> k * (2 :: nat) ^ (M - Q)" by (intro mult_le_mono1) simp
  then show ?thesis by (simp add: tableAt_def)
qed

lemma table_at_main: "2 + 2 ^ Q \<le> tableAt Q M k"
  by (simp add: tableAt_def)

lemma table_at_inj [simp]: "tableAt Q M j = tableAt Q M k \<longleftrightarrow> j = k"
  by (simp add: tableAt_def)

lemma prefixes_Suc:
  "prefixes lens Q (Suc n) = (if longCode lens Q n then insert (word lens n mod 2 ^ Q) (prefixes lens Q n) else prefixes lens Q n)"
  by (auto simp: prefixes_def less_Suc_eq)

text \<open>The codes of the main table are not at the places of long tables.\<close>

lemma short_not_prefix:
  assumes "lensOk lens" "shortCode lens Q i" "p \<in> prefixes lens Q n" "p mod 2 ^ (lens ! i) = word lens i"
  shows False
proof -
  obtain j where j: "longCode lens Q j" "p = word lens j mod 2 ^ Q" using assms(3) by (auto simp: prefixes_def)
  have "p mod 2 ^ (lens ! i) = word lens j mod 2 ^ (lens ! i)"
    using assms(2) unfolding j(2) by (intro mod_mod_cancel le_imp_power_dvd) (simp add: shortCode_def)
  then have "i = j"
    using words_apart [OF assms(1), of i j "word lens j"] assms(2,4) j(1) word_less [of lens j]
    by (simp add: shortCode_def longCode_def)
  with assms(2) j(1) show False by (simp add: shortCode_def longCode_def)
qed

lemma short_step:
  assumes "lensOk lens" "filled lens Q M N n P t" "shortCode lens Q n" "P = prefixes lens Q n"
  obtains t' where "strideLoop 2 (word lens n) (lens ! n) (2 ^ Q) (symbolEntry lens n) t = Some t'"
    "filled lens Q M N (Suc n) P t'" "length t' = length t"
proof -
  note f = filledD [OF assms(2)]
  have main: "2 + 2 ^ Q \<le> length t" using f(3) table_at_main [of Q M N] by linarith
  obtain t' where
    t': "strideLoop 2 (word lens n) (lens ! n) (2 ^ Q) (symbolEntry lens n) t = Some t'" "length t' = length t"
    "\<And>x. x < 2 ^ Q \<Longrightarrow> t' ! (2 + x) = (if x mod 2 ^ (lens ! n) = word lens n then symbolEntry lens n else t ! (2 + x))"
    "\<And>k. k < length t \<Longrightarrow> k < 2 \<or> 2 + 2 ^ Q \<le> k \<Longrightarrow> t' ! k = t ! k"
    by (rule stride_cells [OF main word_less, of lens n "symbolEntry lens n"]) blast
  have same: "t' ! (2 + p) = t ! (2 + p)" if "p \<in> P" for p
    using t'(3) f(8) that short_not_prefix [OF assms(1,3), of p n] assms(4) by auto
  have "prefixes lens Q (Suc n) = prefixes lens Q n"
    using assms(3) by (auto simp: prefixes_Suc shortCode_def longCode_def)
  moreover have "t' ! (2 + x) = symbolEntry lens i"
    if "i < Suc n" "shortCode lens Q i" "x < 2 ^ Q" "x mod 2 ^ (lens ! i) = word lens i" for i x
  proof (cases "x mod 2 ^ (lens ! n) = word lens n")
    case True
    then have "i = n" using words_apart [OF assms(1) _ _ that(4) True] that(2) assms(3) by (simp add: shortCode_def)
    then show ?thesis using t'(3) [OF that(3)] True by simp
  next
    case False
    then have "i < n" using that(1,4) by (auto simp: less_Suc_eq)
    then show ?thesis using t'(3) [OF that(3)] False f(9) [OF _ that(2-4)] by simp
  qed
  moreover have "t' ! (2 + x) = 0 \<or> (\<exists>i < Suc n. shortCode lens Q i \<and> x mod 2 ^ (lens ! i) = word lens i) \<or> x \<in> P"
    if "x < 2 ^ Q" for x
    using t'(3) [OF that] f(10) [OF that] assms(3) by (cases "x mod 2 ^ (lens ! n) = word lens n") (auto simp: less_Suc_eq)
  moreover have "t' ! (tableAt Q M k + y) = symbolEntry lens i"
    if "i < Suc n" "longCode lens Q i" "y < 2 ^ (M - Q)" "y mod 2 ^ (lens ! i - Q) = word lens i div 2 ^ Q"
      "t' ! (2 + word lens i mod 2 ^ Q) = HUFFINFO_LONG_MASK + 2 * tableAt Q M k" for i y k
  proof -
    have i: "i < n" using that(1,2) assms(3) by (auto simp: less_Suc_eq shortCode_def longCode_def)
    then have p: "word lens i mod 2 ^ Q \<in> P" using that(2) assms(4) by (auto simp: prefixes_def)
    with that(5) same have e: "t ! (2 + word lens i mod 2 ^ Q) = HUFFINFO_LONG_MASK + 2 * tableAt Q M k" by simp
    with f(11) [OF p] have "k < N" using f(6) by auto
    then have "tableAt Q M k + y < length t" using table_at_mono [of k N Q M] f(3) that(3) by linarith
    then show ?thesis using f(13) [OF i that(2-4) e] t'(4) [of "tableAt Q M k + y"] table_at_main [of Q M k] by auto
  qed
  moreover have "t' ! 0 = Q" "t' ! 1 = M"
  proof -
    have "0 < length t" "1 < length t" using main by linarith+
    then show "t' ! 0 = Q" "t' ! 1 = M" using t'(4) [of 0] t'(4) [of 1] f(1,2) by simp_all
  qed
  ultimately have "filled lens Q M N (Suc n) P t'"
    unfolding filled_def using f(3-8) f(11,12) same t'(2) by (auto simp: inj_on_def)
  with t'(1,2) that show thesis by blast
qed

text \<open>A new long table.\<close>

lemma allocate_step:
  assumes "lensOk lens" "filled lens Q M N n P t" "longCode lens Q n" "P = prefixes lens Q n"
  defines "p \<equiv> word lens n mod 2 ^ Q"
  assumes "card (insert p P) \<le> N" "p \<notin> P"
  shows "t ! (2 + p) = 0"
    "filled lens Q M N n (insert p P) (t[2 + p := HUFFINFO_LONG_MASK + 2 * tableAt Q M (card P)])" (is "filled lens Q M N n ?P ?t")
proof -
  note f = filledD [OF assms(2)]
  have p: "p < 2 ^ Q" by (simp add: p_def)
  have len: "2 + p < length t" using p f(3) table_at_main [of Q M N] by linarith
  have new: "p \<in> prefixes lens Q (Suc n)" using assms(3) by (simp add: prefixes_Suc p_def)
  have short: "p mod 2 ^ (lens ! i) \<noteq> word lens i" if "shortCode lens Q i" for i
    using short_not_prefix [OF assms(1) that new] by blast
  with f(10) [OF p] \<open>p \<notin> P\<close> show "t ! (2 + p) = 0" by auto
  have c: "card ?P = Suc (card P)" using f(5) \<open>p \<notin> P\<close> by simp
  have same: "?t ! (2 + x) = t ! (2 + x)" if "x \<noteq> p" for x using that by simp
  have here: "?t ! (2 + p) = HUFFINFO_LONG_MASK + 2 * tableAt Q M (card P)" using len by simp
  have fresh: "t ! (2 + x) \<noteq> HUFFINFO_LONG_MASK + 2 * tableAt Q M (card P)" if "x \<in> P" for x
    using f(11) [OF that] by auto
  have "?t ! (2 + x) = symbolEntry lens i"
    if "i < n" "shortCode lens Q i" "x < 2 ^ Q" "x mod 2 ^ (lens ! i) = word lens i" for i x
  proof -
    have "x \<noteq> p" using short [OF that(2)] that(4) by blast
    then show ?thesis using f(9) [OF that] by simp
  qed
  moreover have "?t ! (2 + x) = 0 \<or> (\<exists>i < n. shortCode lens Q i \<and> x mod 2 ^ (lens ! i) = word lens i) \<or> x \<in> ?P"
    if "x < 2 ^ Q" for x
    using f(10) [OF that] by (cases "x = p") auto
  moreover have "\<exists>k < card ?P. ?t ! (2 + x) = HUFFINFO_LONG_MASK + 2 * tableAt Q M k" if "x \<in> ?P" for x
  proof (cases "x = p")
    case True
    with here c show ?thesis by (intro exI [of _ "card P"]) simp
  next
    case False
    with that f(11) [of x] c show ?thesis by (auto simp: less_Suc_eq)
  qed
  moreover have "inj_on (\<lambda>x. ?t ! (2 + x)) ?P"
  proof (rule inj_onI)
    fix x y assume xy: "x \<in> ?P" "y \<in> ?P" "?t ! (2 + x) = ?t ! (2 + y)"
    show "x = y"
    proof (cases "x = p \<or> y = p")
      case True
      with xy here same fresh show ?thesis by (metis insertE)
    next
      case False
      with xy same [of x] same [of y] inj_onD [OF f(12), of x y] show ?thesis by simp
    qed
  qed
  moreover have "?t ! (tableAt Q M k + y) = symbolEntry lens i"
    if "i < n" "longCode lens Q i" "y < 2 ^ (M - Q)" "y mod 2 ^ (lens ! i - Q) = word lens i div 2 ^ Q"
      "?t ! (2 + word lens i mod 2 ^ Q) = HUFFINFO_LONG_MASK + 2 * tableAt Q M k" for i y k
  proof -
    have "word lens i mod 2 ^ Q \<in> P" using that(1,2) assms(4) by (auto simp: prefixes_def)
    then have "word lens i mod 2 ^ Q \<noteq> p" using \<open>p \<notin> P\<close> by blast
    with that(5) have e: "t ! (2 + word lens i mod 2 ^ Q) = HUFFINFO_LONG_MASK + 2 * tableAt Q M k" by simp
    have "2 + p \<noteq> tableAt Q M k + y" using p table_at_main [of Q M k] by linarith
    then show ?thesis using f(13) [OF that(1-4) e] by simp
  qed
  moreover have "?t ! 0 = Q" "?t ! 1 = M" using f(1,2) by simp_all
  moreover have "finite ?P" "card ?P \<le> N" "prefixes lens Q n \<subseteq> ?P" "\<forall>x \<in> ?P. x < 2 ^ Q"
    using f(5,8) assms(4,6) p by auto
  ultimately show "filled lens Q M N n ?P ?t"
    unfolding filled_def using f(3,4) by simp
qed

text \<open>The entries of a symbol in its long table.\<close>

lemma long_step:
  assumes "lensOk lens" "filled lens Q M N n P t" "longCode lens Q n" "word lens n mod 2 ^ Q \<in> P" "lens ! n \<le> M"
    "P \<subseteq> prefixes lens Q (Suc n)"
    "t ! (2 + word lens n mod 2 ^ Q) = HUFFINFO_LONG_MASK + 2 * tableAt Q M k"
  obtains t' where "strideLoop (tableAt Q M k) (word lens n div 2 ^ Q) (lens ! n - Q) (2 ^ (M - Q)) (symbolEntry lens n) t = Some t'"
    "filled lens Q M N (Suc n) P t'" "length t' = length t"
proof -
  note f = filledD [OF assms(2)]
  have l: "Q < lens ! n" using assms(3) by (simp add: longCode_def)
  have k: "k < N" using f(11) [OF assms(4)] assms(7) f(6) by auto
  have room: "tableAt Q M k + 2 ^ (M - Q) \<le> length t" using table_at_mono [OF k, of Q M] f(3) by linarith
  have "(2 :: nat) ^ (lens ! n) = 2 ^ Q * 2 ^ (lens ! n - Q)" using l by (simp flip: power_add)
  then have start: "word lens n div 2 ^ Q < 2 ^ (lens ! n - Q)"
    using word_less [of lens n] by (simp add: less_mult_imp_div_less mult.commute)
  obtain t' where t': "strideLoop (tableAt Q M k) (word lens n div 2 ^ Q) (lens ! n - Q) (2 ^ (M - Q)) (symbolEntry lens n) t = Some t'"
    "length t' = length t"
    "\<And>x. x < 2 ^ (M - Q) \<Longrightarrow> t' ! (tableAt Q M k + x)
        = (if x mod 2 ^ (lens ! n - Q) = word lens n div 2 ^ Q then symbolEntry lens n else t ! (tableAt Q M k + x))"
    "\<And>j. j < length t \<Longrightarrow> j < tableAt Q M k \<or> tableAt Q M k + 2 ^ (M - Q) \<le> j \<Longrightarrow> t' ! j = t ! j"
    by (rule stride_cells [OF room start, of "symbolEntry lens n"]) blast
  have main: "t' ! j = t ! j" if "j < 2 + 2 ^ Q" for j
    using t'(4) [of j] that table_at_main [of Q M k] room by simp
  have same: "t' ! (2 + x) = t ! (2 + x)" if "x < 2 ^ Q" for x using main that by simp
  have "t' ! (tableAt Q M j + y) = symbolEntry lens i"
    if "i < Suc n" "longCode lens Q i" "y < 2 ^ (M - Q)" "y mod 2 ^ (lens ! i - Q) = word lens i div 2 ^ Q"
      "t' ! (2 + word lens i mod 2 ^ Q) = HUFFINFO_LONG_MASK + 2 * tableAt Q M j" for i y j
  proof -
    have e: "t ! (2 + word lens i mod 2 ^ Q) = HUFFINFO_LONG_MASK + 2 * tableAt Q M j" using that(5) same by simp
    note lt = that(1)
    consider "i = n" | "i < n" "word lens i mod 2 ^ Q = word lens n mod 2 ^ Q" | "i < n" "word lens i mod 2 ^ Q \<noteq> word lens n mod 2 ^ Q"
      using lt by linarith
    then show ?thesis
    proof cases
      case 1
      with e assms(7) have "j = k" by simp
      with 1 t'(3) [OF that(3)] that(4) show ?thesis by simp
    next
      case 2
      with e assms(7) have j: "j = k" by simp
      have "y mod 2 ^ (lens ! n - Q) \<noteq> word lens n div 2 ^ Q"
      proof
        assume y: "y mod 2 ^ (lens ! n - Q) = word lens n div 2 ^ Q"
        let ?w = "word lens n mod 2 ^ Q + 2 ^ Q * y"
        have "?w mod 2 ^ (lens ! m) = word lens m"
          if "Q < lens ! m" "y mod 2 ^ (lens ! m - Q) = word lens m div 2 ^ Q" "word lens m mod 2 ^ Q = word lens n mod 2 ^ Q" for m
        proof -
          have "?w mod (2 ^ Q * 2 ^ (lens ! m - Q)) = 2 ^ Q * (?w div 2 ^ Q mod 2 ^ (lens ! m - Q)) + ?w mod 2 ^ Q"
            by (rule mod_mult2_eq)
          also have "?w div 2 ^ Q = y" by simp
          also have "?w mod 2 ^ Q = word lens m mod 2 ^ Q" using that(3) by simp
          also have "2 ^ Q * (y mod 2 ^ (lens ! m - Q)) + word lens m mod 2 ^ Q = word lens m" unfolding that(2) by simp
          finally show ?thesis using that(1) by (simp flip: power_add)
        qed
        from this [OF l y refl] this [OF _ that(4) 2(2)] have "i = n"
          using words_apart [OF assms(1), of i n ?w] that(2) assms(3) by (simp add: longCode_def)
        with 2(1) show False by simp
      qed
      then show ?thesis using f(13) [OF 2(1) that(2-4) e] t'(3) [OF that(3)] j by simp
    next
      case 3
      have i: "word lens i mod 2 ^ Q \<in> P" using f(7) that(2) 3(1) by (auto simp: prefixes_def)
      have "j \<noteq> k" using inj_onD [OF f(12) _ i assms(4)] e assms(7) 3(2) by auto
      moreover have j: "j < N" using f(11) [OF i] e f(6) by auto
      ultimately have "tableAt Q M j + y < tableAt Q M k \<or> tableAt Q M k + 2 ^ (M - Q) \<le> tableAt Q M j + y"
        using table_at_mono [of j k Q M] table_at_mono [of k j Q M] that(3) by (cases "j < k") auto
      moreover have "tableAt Q M j + y < length t" using table_at_mono [OF j, of Q M] f(3) that(3) by linarith
      ultimately show ?thesis using t'(4) f(13) [OF 3(1) that(2-4) e] by simp
    qed
  qed
  moreover have "t' ! (2 + x) = symbolEntry lens i"
    if "i < Suc n" "shortCode lens Q i" "x < 2 ^ Q" "x mod 2 ^ (lens ! i) = word lens i" for i x
  proof -
    have "i < n" using that(1,2) assms(3) by (auto simp: less_Suc_eq shortCode_def longCode_def)
    then show ?thesis using f(9) [OF _ that(2-4)] same [OF that(3)] by simp
  qed
  moreover have "t' ! (2 + x) = 0 \<or> (\<exists>i < Suc n. shortCode lens Q i \<and> x mod 2 ^ (lens ! i) = word lens i) \<or> x \<in> P"
    if "x < 2 ^ Q" for x
    using f(10) [OF that] same [OF that] by (auto simp: less_Suc_eq)
  moreover have "t' ! 0 = Q" "t' ! 1 = M" using main [of 0] main [of 1] f(1,2) by simp_all
  moreover have "inj_on (\<lambda>p. t' ! (2 + p)) P" using f(12) same f(8) by (simp add: inj_on_def)
  moreover have "\<exists>k < card P. t' ! (2 + p) = HUFFINFO_LONG_MASK + 2 * tableAt Q M k" if "p \<in> P" for p
    using f(11) [OF that] same [OF f(8) [OF that]] by simp
  moreover have "prefixes lens Q (Suc n) \<subseteq> P" using f(7) assms(3,4) by (simp add: prefixes_Suc)
  ultimately have "filled lens Q M N (Suc n) P t'"
    unfolding filled_def using f(3-6) f(8) t'(2) by simp
  with t'(1,2) that show thesis by blast
qed

lemma filled_skip:
  assumes "filled lens Q M N n P t" "lens ! n = 0"
  shows "filled lens Q M N (Suc n) P t"
proof -
  have "\<not> shortCode lens Q n" "\<not> longCode lens Q n" using assms(2) by (simp_all add: shortCode_def longCode_def coded_def)
  moreover from this have "prefixes lens Q (Suc n) = prefixes lens Q n" by (simp add: prefixes_Suc)
  ultimately show ?thesis using assms(1) unfolding filled_def by (auto simp: less_Suc_eq)
qed

lemma finite_prefixes: "finite (prefixes lens Q n)"
  by (simp add: prefixes_def)

lemma prefixes_mono: "m \<le> n \<Longrightarrow> prefixes lens Q m \<subseteq> prefixes lens Q n"
  by (auto simp: prefixes_def)

text \<open>A symbol with a code in a long table.\<close>

lemma long_symbol:
  assumes "lensOk lens" "lens ! n \<le> M" "longCode lens Q n" "N = card (prefixes lens Q (length lens))" "n < length lens"
    "filled lens Q M N n (prefixes lens Q n) t"
  defines "p \<equiv> word lens n mod 2 ^ Q" and "K \<equiv> tableAt Q M (card (prefixes lens Q n))"
    and "K' \<equiv> tableAt Q M (card (prefixes lens Q (Suc n)))"
  shows "2 + p < length t"
    "t ! (2 + p) = 0 \<Longrightarrow> K' = K + 2 ^ (M - Q) \<and> (\<exists>t'. strideLoop K (word lens n div 2 ^ Q) (lens ! n - Q) (2 ^ (M - Q)) (symbolEntry lens n)
         (t[2 + p := HUFFINFO_LONG_MASK + 2 * K mod 2 ^ 15]) = Some t'
       \<and> filled lens Q M N (Suc n) (prefixes lens Q (Suc n)) t')"
    "t ! (2 + p) \<noteq> 0 \<Longrightarrow> K' = K \<and> even (t ! (2 + p) mod 2 ^ 15) \<and>
       (\<exists>t'. strideLoop (t ! (2 + p) mod 2 ^ 15 div 2) (word lens n div 2 ^ Q) (lens ! n - Q) (2 ^ (M - Q)) (symbolEntry lens n) t = Some t'
       \<and> filled lens Q M N (Suc n) (prefixes lens Q (Suc n)) t')"
proof -
  let ?P = "prefixes lens Q n"
  note f = filledD [OF assms(6)]
  have p: "p < 2 ^ Q" by (simp add: p_def)
  then show len: "2 + p < length t" using f(3) table_at_main [of Q M N] by linarith
  have P: "prefixes lens Q (Suc n) = insert p ?P" using assms(3) by (simp add: prefixes_Suc p_def)
  have c: "card (insert p ?P) \<le> N"
    unfolding assms(4) P [symmetric] using assms(5) by (intro card_mono finite_prefixes prefixes_mono) simp
  have small: "2 * tableAt Q M k < 2 ^ 15" if "k < N" for k
  proof -
    have "0 < (2 :: nat) ^ (M - Q)" by simp
    with table_at_mono [OF that, of Q M] have "tableAt Q M k < tableAt Q M N" by linarith
    with f(4) show ?thesis by (simp add: HUFFINFO_LONG_MASK_def)
  qed
  show "K' = K + 2 ^ (M - Q) \<and> (\<exists>t'. strideLoop K (word lens n div 2 ^ Q) (lens ! n - Q) (2 ^ (M - Q)) (symbolEntry lens n)
         (t[2 + p := HUFFINFO_LONG_MASK + 2 * K mod 2 ^ 15]) = Some t'
       \<and> filled lens Q M N (Suc n) (prefixes lens Q (Suc n)) t')" if z: "t ! (2 + p) = 0"
  proof -
    have np: "p \<notin> ?P"
    proof
      assume "p \<in> ?P"
      from f(11) [OF this] z show False by (auto simp: HUFFINFO_LONG_MASK_def)
    qed
    have ci: "card (insert p ?P) = Suc (card ?P)" using np finite_prefixes by simp
    have m: "2 * K mod 2 ^ 15 = 2 * K" using small [of "card ?P"] ci c by (simp add: K_def)
    let ?t = "t[2 + p := HUFFINFO_LONG_MASK + 2 * K]"
    have fi: "filled lens Q M N n (insert p ?P) ?t"
      using allocate_step(2) [OF assms(1,6,3) refl] c np by (simp add: p_def K_def)
    have e: "?t ! (2 + word lens n mod 2 ^ Q) = HUFFINFO_LONG_MASK + 2 * tableAt Q M (card ?P)"
      using len by (simp add: p_def K_def)
    have i: "word lens n mod 2 ^ Q \<in> insert p ?P" "insert p ?P \<subseteq> prefixes lens Q (Suc n)"
      by (simp_all add: p_def P [unfolded p_def])
    obtain t' where "strideLoop K (word lens n div 2 ^ Q) (lens ! n - Q) (2 ^ (M - Q)) (symbolEntry lens n) ?t = Some t'"
      "filled lens Q M N (Suc n) (insert p ?P) t'"
      by (rule long_step [OF assms(1) fi assms(3) i(1) assms(2) i(2) e]) (auto simp: K_def)
    moreover have "K' = K + 2 ^ (M - Q)" by (simp add: K'_def K_def P ci tableAt_def)
    ultimately show ?thesis unfolding m P by blast
  qed
  show "K' = K \<and> even (t ! (2 + p) mod 2 ^ 15) \<and>
       (\<exists>t'. strideLoop (t ! (2 + p) mod 2 ^ 15 div 2) (word lens n div 2 ^ Q) (lens ! n - Q) (2 ^ (M - Q)) (symbolEntry lens n) t = Some t'
       \<and> filled lens Q M N (Suc n) (prefixes lens Q (Suc n)) t')" if nz: "t ! (2 + p) \<noteq> 0"
  proof -
    have "p \<in> ?P"
    proof (rule ccontr)
      assume np: "p \<notin> ?P"
      have "t ! (2 + word lens n mod 2 ^ Q) = 0"
        using allocate_step(1) [OF assms(1,6,3) refl] c np by (simp add: p_def)
      with nz show False by (simp add: p_def)
    qed
    then have P': "insert p ?P = ?P" by blast
    obtain k where k: "k < card ?P" "t ! (2 + p) = HUFFINFO_LONG_MASK + 2 * tableAt Q M k"
      using f(11) [OF \<open>p \<in> ?P\<close>] by blast
    have "2 * tableAt Q M k < 2 ^ 15" using small [of k] k(1) f(6) by linarith
    then have m: "t ! (2 + p) mod 2 ^ 15 = 2 * tableAt Q M k" unfolding k(2) by (simp add: HUFFINFO_LONG_MASK_def)
    have i: "word lens n mod 2 ^ Q \<in> ?P" "?P \<subseteq> prefixes lens Q (Suc n)" using \<open>p \<in> ?P\<close> by (auto simp: p_def P)
    obtain t' where "strideLoop (tableAt Q M k) (word lens n div 2 ^ Q) (lens ! n - Q) (2 ^ (M - Q)) (symbolEntry lens n) t = Some t'"
      "filled lens Q M N (Suc n) ?P t'"
      by (rule long_step [OF assms(1,6,3) i(1) assms(2) i(2) k(2) [unfolded p_def]]) auto
    moreover have "K' = K" by (simp add: K'_def K_def P P')
    ultimately show ?thesis unfolding m P P' by simp
  qed
qed

lemma fill_loop_fills:
  assumes "lensOk lens" "\<forall>i < length lens. lens ! i \<le> M" "N = card (prefixes lens Q (length lens))" "length lens \<le> 1024"
    "\<forall>i. longCode lens Q i \<longrightarrow> longLen = 2 ^ (M - Q)"
  shows "n \<le> length lens \<Longrightarrow> filled lens Q M N n (prefixes lens Q n) t \<Longrightarrow> length codes = 16
    \<Longrightarrow> \<forall>b \<in> {1..15}. codes ! b = (nextCode lens b + count_list (take n lens) b) * 2 ^ (15 - b) \<Longrightarrow>
    \<exists>t'. fillLoop (drop n lens) n codes Q (2 ^ Q) longLen (tableAt Q M (card (prefixes lens Q n))) t = Some t'
      \<and> filled lens Q M N (length lens) (prefixes lens Q (length lens)) t'"
proof (induction n arbitrary: t codes rule: inc_induct)
  case base
  then show ?case by simp
next
  case (step n)
  let ?l = "lens ! n"
  have d: "drop n lens = ?l # drop (Suc n) lens" using step.hyps(2) by (simp add: Cons_nth_drop_Suc)
  have cnt: "count_list (take (Suc n) lens) b = count_list (take n lens) b + (if b = ?l then 1 else 0)" for b
    using step.hyps(2) by (simp add: take_Suc_conv_app_nth)
  show ?case
  proof (cases "?l = 0")
    case True
    then have "prefixes lens Q (Suc n) = prefixes lens Q n" by (simp add: prefixes_Suc longCode_def coded_def)
    moreover have "filled lens Q M N (Suc n) (prefixes lens Q n) t" by (rule filled_skip [OF step.prems(1) True])
    ultimately show ?thesis using step.IH [of t codes] step.prems(2,3) cnt True by (simp add: d)
  next
    case False
    then have c: "coded lens n" using step.hyps(2) by (simp add: coded_def)
    have l: "1 \<le> ?l" "?l \<le> 15" using False lensOkD [OF assms(1) step.hyps(2)] by simp_all
    let ?codes = "codes[?l := codes ! ?l + 2 ^ (MAX_BITS - ?l)]"
    have code: "codes ! ?l = codeWord lens n * 2 ^ (15 - ?l)" using step.prems(3) l by (simp add: codeWord_def)
    then have rev: "REVERSE_15BITS (codes ! ?l) = Some (word lens n)" using place_reversed [OF assms(1) c] by simp
    have codes: "length ?codes = 16" "\<forall>b \<in> {1..15}. ?codes ! b = (nextCode lens b + count_list (take (Suc n) lens) b) * 2 ^ (15 - b)"
      using step.prems(2,3) l unfolding cnt by (auto simp: nth_list_update MAX_BITS_def)
    have huff: "(n * 16 + ?l) mod 2 ^ 16 = symbolEntry lens n"
      using step.hyps(2) assms(4) l(2) by (simp add: symbolEntry_def)
    have IH: "\<exists>t'. fillLoop (drop (Suc n) lens) (Suc n) ?codes Q (2 ^ Q) longLen (tableAt Q M (card (prefixes lens Q (Suc n)))) t1 = Some t'
        \<and> filled lens Q M N (length lens) (prefixes lens Q (length lens)) t'"
      if "filled lens Q M N (Suc n) (prefixes lens Q (Suc n)) t1" for t1
      by (rule step.IH [OF that codes])
    show ?thesis
    proof (cases "?l \<le> Q")
      case True
      then have sh: "shortCode lens Q n" using c by (simp add: shortCode_def)
      have P: "prefixes lens Q (Suc n) = prefixes lens Q n" using True by (simp add: prefixes_Suc longCode_def)
      obtain t1 where t1: "strideLoop 2 (word lens n) ?l (2 ^ Q) (symbolEntry lens n) t = Some t1"
        "filled lens Q M N (Suc n) (prefixes lens Q n) t1"
        by (rule short_step [OF assms(1) step.prems(1) sh refl]) auto
      show ?thesis
        using IH [of t1] t1(2) unfolding P d fillLoop.simps Let_def rev option.case huff
        by (simp add: False True t1(1))
    next
      case long: False
      then have lo: "longCode lens Q n" using c by (simp add: longCode_def)
      have L: "longLen = 2 ^ (M - Q)" using assms(5) lo by blast
      have m: "?l \<le> M" using assms(2) step.hyps(2) by blast
      note ls = long_symbol [OF assms(1) m lo assms(3) step.hyps(2) step.prems(1)]
      let ?p = "word lens n mod 2 ^ Q"
      show ?thesis
      proof (cases "t ! (2 + ?p) = 0")
        case True
        from ls(2) [OF True] obtain t1 where
          t1: "tableAt Q M (card (prefixes lens Q (Suc n))) = tableAt Q M (card (prefixes lens Q n)) + 2 ^ (M - Q)"
          "strideLoop (tableAt Q M (card (prefixes lens Q n))) (word lens n div 2 ^ Q) (?l - Q) (2 ^ (M - Q)) (symbolEntry lens n)
             (t[2 + ?p := HUFFINFO_LONG_MASK + 2 * tableAt Q M (card (prefixes lens Q n)) mod 2 ^ 15]) = Some t1"
          "filled lens Q M N (Suc n) (prefixes lens Q (Suc n)) t1" by blast
        show ?thesis
          using IH [OF t1(3)] unfolding d fillLoop.simps Let_def rev option.case huff if_not_P [OF False] if_not_P [OF long]
            if_P [OF True] L t1(2) t1(1)
          using ls(1) by simp
      next
        case nz: False
        from ls(3) [OF nz] obtain t1 where
          t1: "tableAt Q M (card (prefixes lens Q (Suc n))) = tableAt Q M (card (prefixes lens Q n))"
          "\<not> odd (t ! (2 + ?p) mod 2 ^ 15)"
          "strideLoop (t ! (2 + ?p) mod 2 ^ 15 div 2) (word lens n div 2 ^ Q) (?l - Q) (2 ^ (M - Q)) (symbolEntry lens n) t = Some t1"
          "filled lens Q M N (Suc n) (prefixes lens Q (Suc n)) t1" by blast
        show ?thesis
          using IH [OF t1(4)] unfolding d fillLoop.simps Let_def rev option.case huff if_not_P [OF False] if_not_P [OF long]
            if_not_P [OF nz] if_not_P [OF t1(2)] L t1(3) t1(1)
          using ls(1) by simp
      qed
    qed
  qed
qed

text \<open>How many long tables there are.\<close>

lemma word_prefix:
  assumes "Q \<le> lens ! i"
  shows "word lens i mod 2 ^ Q = bitsVal (msb Q (codeWord lens i div 2 ^ (lens ! i - Q)))"
proof -
  let ?l = "lens ! i" and ?c = "codeWord lens i"
  have "bitsOf ?l ?c = bitsOf (?l - Q) ?c @ bitsOf Q (?c div 2 ^ (?l - Q))"
    using assms by (intro nth_equalityI) (auto simp: bitsOf_def nth_append bit_drop_bit_eq simp flip: drop_bit_eq_div)
  then have "word lens i = bitsVal (msb Q (?c div 2 ^ (?l - Q)) @ rev (bitsOf (?l - Q) ?c))"
    by (simp add: word_def huffCode_def msb_def)
  then show ?thesis using bitsVal_less [of "msb Q (?c div 2 ^ (?l - Q))"] by (simp add: bitsVal_append)
qed

lemma first_place_count:
  assumes "Q \<le> b" "b \<le> 15"
  shows "firstPlace lens (Suc b) \<le> firstPlace lens (Suc Q) + length lens * 2 ^ (15 - Q)"
proof -
  have "firstPlace lens (Suc b) \<le> firstPlace lens (Suc Q) + (\<Sum>c \<in> {Suc Q..b}. count_list lens c) * 2 ^ (15 - Q)"
    using assms
  proof (induction b rule: dec_induct)
    case (step b)
    have "16 - Suc b \<le> 15 - Q" using step.hyps by simp
    then have "(2 :: nat) ^ (16 - Suc b) \<le> 2 ^ (15 - Q)" by (rule power_increasing) simp
    then have m: "count_list lens (Suc b) * 2 ^ (16 - Suc b) \<le> count_list lens (Suc b) * 2 ^ (15 - Q)" by (rule mult_le_mono2)
    have i: "{Suc Q..Suc b} = insert (Suc b) {Suc Q..b}" using step.hyps by auto
    have "firstPlace lens (Suc (Suc b)) = firstPlace lens (Suc b) + count_list lens (Suc b) * 2 ^ (16 - Suc b)"
      using first_place_Suc [of "Suc b" lens] step.prems by simp
    moreover have "firstPlace lens (Suc b) \<le> firstPlace lens (Suc Q) + (\<Sum>c \<in> {Suc Q..b}. count_list lens c) * 2 ^ (15 - Q)"
      using step.IH step.prems by simp
    moreover have "(\<Sum>c \<in> {Suc Q..Suc b}. count_list lens c) * 2 ^ (15 - Q)
        = (\<Sum>c \<in> {Suc Q..b}. count_list lens c) * 2 ^ (15 - Q) + count_list lens (Suc b) * 2 ^ (15 - Q)"
      unfolding i by (simp add: add_mult_distrib)
    ultimately show ?case using m by linarith
  qed simp
  moreover have "(\<Sum>c \<in> {Suc Q..b}. count_list lens c) \<le> length lens"
    using sum_mono2 [of "{Suc Q..b} \<union> set lens" "{Suc Q..b}" "count_list lens"]
      sum_count_set [of lens "{Suc Q..b} \<union> set lens"] by simp
  ultimately show ?thesis using mult_le_mono1 [of _ "length lens" "2 ^ (15 - Q)"] by (meson add_left_mono le_trans)
qed

lemma first_place_even:
  assumes "Q \<le> 14"
  shows "nextCode lens (Suc Q) * 2 ^ (15 - Suc Q) = nextCode lens (Suc Q) div 2 * 2 ^ (15 - Q)"
    "firstPlace lens (Suc Q) = nextCode lens (Suc Q) div 2 * 2 ^ (16 - Q)"
proof -
  have "15 - Q = Suc (15 - Suc Q)" "16 - Q = Suc (Suc (15 - Suc Q))" "16 - Suc Q = Suc (15 - Suc Q)" using assms by simp_all
  then show "nextCode lens (Suc Q) * 2 ^ (15 - Suc Q) = nextCode lens (Suc Q) div 2 * 2 ^ (15 - Q)"
    "firstPlace lens (Suc Q) = nextCode lens (Suc Q) div 2 * 2 ^ (16 - Q)" by (simp_all add: firstPlace_def)
qed

lemma few_prefixes:
  assumes "lensOk lens" "Q \<le> 14"
  defines "m \<equiv> nextCode lens (Suc Q) div 2"
  shows "m \<le> 2 ^ Q" "card (prefixes lens Q (length lens)) \<le> 2 ^ Q - m"
    "card (prefixes lens Q (length lens)) \<le> (length lens + 1) div 2"
proof -
  let ?q = "\<lambda>i. codeWord lens i div 2 ^ (lens ! i - Q)"
  let ?S = "?q ` {i. i < length lens \<and> longCode lens Q i}"
  have e: "(2 :: nat) ^ (16 - Q) = 2 * 2 ^ (15 - Q)" using assms(2) by (simp add: Suc_diff_le flip: power_Suc)
  have all: "(2 :: nat) ^ 16 = 2 ^ Q * 2 ^ (16 - Q)" using assms(2) by (simp flip: power_add)
  have "m * 2 ^ (16 - Q) \<le> 2 ^ Q * 2 ^ (16 - Q)"
    using first_place_le [OF assms(1), of "Suc Q"] first_place_even(2) [OF assms(2), of lens] assms(2) all by (simp add: m_def)
  then show "m \<le> 2 ^ Q" by simp
  have "m \<le> ?q i \<and> ?q i < 2 ^ Q \<and> 2 * ?q i < 2 * m + length lens" if i: "i < length lens" "longCode lens Q i" for i
  proof -
    have c: "coded lens i" "Q < lens ! i" using i(2) by (simp_all add: longCode_def)
    have l: "lens ! i \<le> 15" by (rule lensOkD [OF assms(1) i(1)])
    have "firstPlace lens (Suc Q) \<le> firstPlace lens (lens ! i)" using c(2) l by (intro first_place_mono) auto
    then have lo: "m * 2 ^ (16 - Q) \<le> place lens i"
      using place_range(1) [OF assms(1) c(1)] first_place_even(2) [OF assms(2), of lens] by (simp add: m_def)
    have "place lens i + 2 ^ (16 - lens ! i) \<le> m * 2 ^ (16 - Q) + length lens * 2 ^ (15 - Q)"
      using place_range(2) [OF assms(1) c(1)] first_place_count [of Q "lens ! i" lens] c(2) l
        first_place_even(2) [OF assms(2), of lens] by (simp add: m_def)
    moreover have "0 < (2 :: nat) ^ (16 - lens ! i)" by simp
    ultimately have "place lens i < m * 2 ^ (16 - Q) + length lens * 2 ^ (15 - Q)" by linarith
    then have hi: "place lens i < (2 * m + length lens) * 2 ^ (15 - Q)" unfolding e by (simp add: algebra_simps)
    have "(2 :: nat) ^ (16 - Q) = 2 ^ (lens ! i - Q) * 2 ^ (16 - lens ! i)" using c(2) l by (simp flip: power_add)
    then have q: "place lens i div 2 ^ (16 - Q) = ?q i"
      unfolding place_def by (simp only: mult.commute [of "2 ^ (lens ! i - Q)"] mult.commute [of "codeWord lens i"] div_mult_mult1 if_not_P) simp
    have "place lens i < 2 ^ Q * 2 ^ (16 - Q)"
      using place_end [OF assms(1) c(1)] \<open>0 < 2 ^ (16 - lens ! i)\<close> unfolding all by linarith
    then have "?q i < 2 ^ Q" unfolding q [symmetric] by (rule less_mult_imp_div_less)
    moreover have "m \<le> ?q i" unfolding q [symmetric] using lo by (simp add: less_eq_div_iff_mult_less_eq)
    moreover have "?q i * 2 ^ (16 - Q) \<le> place lens i" unfolding q [symmetric] by (rule div_times_less_eq_dividend)
    then have "2 * ?q i * 2 ^ (15 - Q) < (2 * m + length lens) * 2 ^ (15 - Q)" using hi unfolding e by linarith
    then have "2 * ?q i < 2 * m + length lens" unfolding mult_less_cancel2 by simp
    ultimately show ?thesis by blast
  qed
  then have "?S \<subseteq> {m..<2 ^ Q}" "?S \<subseteq> {m..<m + (length lens + 1) div 2}" by force+
  then have S: "card ?S \<le> card {m..<2 ^ Q}" "card ?S \<le> card {m..<m + (length lens + 1) div 2}"
    by (simp_all only: card_mono finite_atLeastLessThan)
  have "prefixes lens Q (length lens) = (\<lambda>q. bitsVal (msb Q q)) ` ?S"
    unfolding prefixes_def image_image by (rule image_cong) (simp_all add: longCode_def word_prefix)
  then have "card (prefixes lens Q (length lens)) \<le> card ?S" by (simp add: card_image_le)
  with S show "card (prefixes lens Q (length lens)) \<le> 2 ^ Q - m"
    "card (prefixes lens Q (length lens)) \<le> (length lens + 1) div 2" by simp_all
qed

section \<open>What a table decodes\<close>

definition codeTable :: "nat list \<Rightarrow> nat list \<Rightarrow> bool" where
  "codeTable lens t \<longleftrightarrow> (\<exists>Q M N. filled lens Q M N (length lens) (prefixes lens Q (length lens)) t
     \<and> Q \<le> M \<and> M \<le> 15 \<and> (\<forall>i < length lens. lens ! i \<le> M) \<and> length lens \<le> 1024)"

lemma table_decodes:
  assumes "lensOk lens" "codeTable lens t" "coded lens i" "nextBits (lens ! i) s = word lens i"
  shows "getHuffmanEntry t (quickBits t) s = Done (Some i, dumpBits (lens ! i) s)"
proof -
  obtain Q M N where F: "filled lens Q M N (length lens) (prefixes lens Q (length lens)) t"
    and b: "Q \<le> M" "M \<le> 15" "\<forall>i < length lens. lens ! i \<le> M" "length lens \<le> 1024"
    using assms(2) by (auto simp: codeTable_def)
  note f = filledD [OF F]
  have i: "i < length lens" "0 < lens ! i" "lens ! i \<le> M" using assms(3) b(3) by (auto simp: coded_def)
  define w where "w = nextBits 15 s"
  have n: "nextBits j s = w mod 2 ^ j" if "j \<le> 15" for j
    unfolding w_def using next_bits_part [OF that, of s] by simp
  have w: "w mod 2 ^ (lens ! i) = word lens i" using n [of "lens ! i"] i(3) b(2) assms(4) by simp
  have e: "symbolEntry lens i < HUFFINFO_LONG_MASK" "symbolEntry lens i \<noteq> 0" "symbolEntry lens i div 16 = i" "symbolEntry lens i mod 16 = lens ! i"
    using i b(2,4) by (simp_all add: symbolEntry_def HUFFINFO_LONG_MASK_def)
  have q: "quickBits t = Q" "maxCodeLen t = M" using f(1,2) by (simp_all add: quickBits_def maxCodeLen_def)
  let ?x = "w mod 2 ^ Q"
  have x: "?x < 2 ^ Q" by simp
  then have lx: "\<not> 2 + ?x \<ge> length t" using f(3) table_at_main [of Q M N] by linarith
  have nQ: "nextBits Q s = ?x" "nextBits M s = w mod 2 ^ M" using n b(1,2) by simp_all
  show ?thesis
  proof (cases "lens ! i \<le> Q")
    case True
    have "?x mod 2 ^ (lens ! i) = word lens i" using w True by (simp add: mod_mod_cancel le_imp_power_dvd)
    then have t: "t ! (2 + ?x) = symbolEntry lens i" using f(9) [OF i(1) _ x] assms(3) True by (simp add: shortCode_def)
    show ?thesis unfolding getHuffmanEntry_def Let_def q nQ if_not_P [OF lx] t using e by simp
  next
    case False
    then have l: "longCode lens Q i" using assms(3) by (simp add: longCode_def)
    have "?x = w mod 2 ^ (lens ! i) mod 2 ^ Q" using False by (simp add: mod_mod_cancel le_imp_power_dvd)
    then have wx: "word lens i mod 2 ^ Q = ?x" using w by simp
    have "?x \<in> prefixes lens Q (length lens)" unfolding prefixes_def wx [symmetric] using i(1) l by blast
    from f(11) [OF this] obtain k where k: "k < N" "t ! (2 + ?x) = HUFFINFO_LONG_MASK + 2 * tableAt Q M k" using f(6) by auto
    let ?y = "w mod 2 ^ M div 2 ^ Q"
    have M: "(2 :: nat) ^ M = 2 ^ Q * 2 ^ (M - Q)" using b(1) by (simp flip: power_add)
    have y: "?y = w div 2 ^ Q mod 2 ^ (M - Q)" unfolding M by (simp add: mod_mult2_eq)
    have li: "(2 :: nat) ^ (lens ! i) = 2 ^ Q * 2 ^ (lens ! i - Q)" using False by (simp flip: power_add)
    have "?y mod 2 ^ (lens ! i - Q) = w div 2 ^ Q mod 2 ^ (lens ! i - Q)"
      unfolding y using i(3) by (intro mod_mod_cancel le_imp_power_dvd) simp
    also have "\<dots> = w mod 2 ^ (lens ! i) div 2 ^ Q" unfolding li by (simp add: mod_mult2_eq)
    finally have ym: "?y mod 2 ^ (lens ! i - Q) = word lens i div 2 ^ Q" using w by simp
    have yl: "?y < 2 ^ (M - Q)" unfolding y by simp
    have t: "t ! (tableAt Q M k + ?y) = symbolEntry lens i"
      using f(13) [OF i(1) l yl ym] k(2) wx by simp
    have "tableAt Q M k + ?y < length t" using table_at_mono [OF k(1), of Q M] f(3) yl by linarith
    then show ?thesis
      unfolding getHuffmanEntry_def Let_def q nQ if_not_P [OF lx] k(2) using e t by simp
  qed
qed

lemma table_symbol_code:
  assumes "lensOk lens" "codeTable lens t"
  shows "symbol_code (getHuffmanEntry t (quickBits t) :: 'f InflaterState \<Rightarrow> _) (huffCode lens) (coded lens)"
proof
  fix v assume "coded lens v"
  then show "0 < length (huffCode lens v) \<and> length (huffCode lens v) \<le> 15"
    using lensOkD [OF assms(1), of v] by (simp add: huffCode_def coded_def)
next
  fix v and s :: "'f InflaterState"
  assume "coded lens v" "nextBits (length (huffCode lens v)) s = bitsVal (huffCode lens v)"
  then show "getHuffmanEntry t (quickBits t) s = Done (Some v, dumpBits (length (huffCode lens v)) s)"
    using table_decodes [OF assms, of v s] by (simp add: huffCode_def word_def)
qed

lemma make_table_decodes:
  assumes "lensOk lens" "length lens \<le> 1024" "maxQuick \<le> 14" "2 * tableAt maxQuick 15 ((length lens + 1) div 2) \<le> HUFFINFO_LONG_MASK"
    "\<forall>n. mem n"
  shows "\<exists>t. makeCodeTable mem lens maxQuick s = Done (Some t, s\<lparr>tables := Suc (tables s)\<rparr>) \<and> codeTable lens t"
proof -
  obtain counts codes M where c: "countLengths lens (replicate (MAX_BITS + 1) 0) = Some counts"
    "codesLoop [1..<MAX_BITS + 1] counts (replicate (MAX_BITS + 1) 0) 0 0 = (codes, M)" "length codes = 16"
    "\<forall>b \<in> {1..15}. codes ! b = nextCode lens b * 2 ^ (15 - b)" "M \<le> 15" "\<forall>i < length lens. lens ! i \<le> M"
    using first_codes [OF assms(1)] by blast
  define Q where "Q = min M maxQuick"
  define m where "m = nextCode lens (Suc maxQuick) div 2"
  define L where "L = (if M \<le> maxQuick then 0 else 2 ^ (M - maxQuick) :: nat)"
  define G where "G = (if M \<le> maxQuick then 0 else 2 ^ maxQuick - m)"
  define N where "N = card (prefixes lens Q (length lens))"
  have Q: "Q \<le> M" "Q \<le> 14" "Q \<le> maxQuick" using assms(3) by (auto simp: Q_def)
  note few = few_prefixes [OF assms(1)]
  have noLong: "N = 0 \<and> (\<forall>i. \<not> longCode lens Q i)" if "M \<le> maxQuick"
    using that c(6) by (auto simp: N_def prefixes_def longCode_def coded_def Q_def)
  have num: "(2 ^ MAX_BITS - int (codes ! (maxQuick + 1))) div 2 ^ (MAX_BITS - maxQuick) = int (2 ^ maxQuick - m)"
  proof -
    have "codes ! (maxQuick + 1) = m * 2 ^ (15 - maxQuick)"
      using c(4) assms(3) first_place_even(1) [OF assms(3), of lens] by (simp add: m_def)
    moreover have "(2 :: int) ^ 15 = 2 ^ maxQuick * 2 ^ (15 - maxQuick)" using assms(3) by (simp flip: power_add)
    ultimately have "2 ^ MAX_BITS - int (codes ! (maxQuick + 1)) = (2 ^ maxQuick - int m) * 2 ^ (15 - maxQuick)"
      by (simp add: MAX_BITS_def algebra_simps)
    then have "(2 ^ MAX_BITS - int (codes ! (maxQuick + 1))) div 2 ^ (MAX_BITS - maxQuick) = 2 ^ maxQuick - int m"
      by (simp add: MAX_BITS_def)
    then show ?thesis using few(1) [OF assms(3)] by (simp add: m_def of_nat_diff)
  qed
  let ?t = "[Q, M] @ replicate (2 ^ Q + G * L) 0"
  have NG: "tableAt Q M N \<le> length ?t"
  proof (cases "M \<le> maxQuick")
    case True
    then show ?thesis using noLong by (simp add: tableAt_def L_def G_def)
  next
    case False
    then have "Q = maxQuick" by (simp add: Q_def)
    then have "N \<le> G" using few(2) [OF assms(3)] False by (simp add: N_def G_def m_def)
    then have "N * L \<le> G * L" by (rule mult_le_mono1)
    then show ?thesis using False \<open>Q = maxQuick\<close> by (simp add: tableAt_def L_def)
  qed
  have room: "2 * tableAt Q M N \<le> HUFFINFO_LONG_MASK"
  proof -
    have "tableAt Q M N \<le> tableAt maxQuick 15 ((length lens + 1) div 2)"
    proof (cases "M \<le> maxQuick")
      case True
      then show ?thesis using noLong [OF True] Q(3) by (simp add: tableAt_def trans_le_add1)
    next
      case False
      then have q: "Q = maxQuick" by (simp add: Q_def)
      then have "N \<le> (length lens + 1) div 2" using few(3) [OF assms(3)] by (simp add: N_def)
      moreover have "(2 :: nat) ^ (M - Q) \<le> 2 ^ (15 - Q)" using c(5) by simp
      ultimately have "N * 2 ^ (M - Q) \<le> (length lens + 1) div 2 * 2 ^ (15 - Q)" by (rule mult_le_mono)
      then show ?thesis by (simp add: tableAt_def q)
    qed
    with assms(4) show ?thesis by linarith
  qed
  have "prefixes lens Q 0 = {}" by (simp add: prefixes_def)
  then have start: "filled lens Q M N 0 (prefixes lens Q 0) ?t"
    unfolding filled_def using NG room by (simp add: nth_Cons')
  have long: "\<forall>i. longCode lens Q i \<longrightarrow> L = 2 ^ (M - Q)"
    using noLong by (auto simp: L_def Q_def)
  have codes0: "\<forall>b \<in> {1..15}. codes ! b = (nextCode lens b + count_list (take 0 lens) b) * 2 ^ (15 - b)" using c(4) by simp
  obtain t where t: "fillLoop lens 0 codes Q (2 ^ Q) L (2 + 2 ^ Q) ?t = Some t"
    "filled lens Q M N (length lens) (prefixes lens Q (length lens)) t"
    using fill_loop_fills [OF assms(1) c(6) N_def assms(2) long _ start c(3) codes0]
    by (auto simp: tableAt_def \<open>prefixes lens Q 0 = {}\<close>)
  have "codeTable lens t" unfolding codeTable_def using t(2) Q(1) c(5,6) assms(2) by blast
  moreover have "makeCodeTable mem lens maxQuick s = Done (Some t, s\<lparr>tables := Suc (tables s)\<rparr>)"
  proof -
    have choice: "(if M \<le> maxQuick then (M, 0, 0)
                 else (maxQuick, (2 ^ MAX_BITS - int (codes ! (maxQuick + 1))) div 2 ^ (MAX_BITS - maxQuick), 2 ^ (M - maxQuick)))
      = (Q, int G, L)"
      unfolding num by (simp add: Q_def G_def L_def)
    let ?n = "4 + 2 * (int (2 ^ Q) + int G * int L)"
    have sz: "\<not> ?n < 4" unfolding not_less le_add_same_cancel1 by simp
    have cells: "nat ((?n - 4) div 2) = 2 ^ Q + G * L" by (simp add: nat_add_distrib nat_mult_distrib)
    have "mem ?n" using assms(5) by blast
    then show ?thesis
      unfolding makeCodeTable_def c(1) option.case Let_def c(2) prod.case choice if_not_P [OF sz] cells t(1)
      by simp
  qed
  ultimately show ?thesis by blast
qed

section \<open>Oversubscribed lengths\<close>

lemma nextCode_numeral:
  "nextCode lens (numeral k) = 2 * (nextCode lens (pred_numeral k) + (if pred_numeral k = 0 then 0 else count_list lens (pred_numeral k)))"
  by (simp add: numeral_eq_Suc)

lemma oversubscribed_code:
  assumes "list_all (\<lambda>l. l \<le> 15) lens" "2 ^ 16 < nextCode lens 16"
  obtains i where "coded lens i" "2 ^ (lens ! i) \<le> codeWord lens i"
proof -
  define l where "l = Max (set lens)"
  have "lens \<noteq> []"
  proof
    assume "lens = []"
    then have "nextCode lens b = 0" for b by (induction b) simp_all
    with assms(2) show False by simp
  qed
  then have l: "l \<in> set lens" "\<And>x. x \<in> set lens \<Longrightarrow> x \<le> l" by (simp_all add: l_def)
  have l15: "l \<le> 15" using assms(1) l(1) by (simp add: list_all_iff)
  have above: "firstPlace lens (Suc b) = firstPlace lens (Suc l)" if "l \<le> b" "b \<le> 15" for b
    using that
  proof (induction b rule: dec_induct)
    case (step b)
    have "count_list lens (Suc b) = 0" using l(2) step.hyps by (force simp: count_list_0_iff)
    then show ?case using first_place_Suc [of "Suc b" lens] step by simp
  qed simp
  have "firstPlace lens (Suc 15) = firstPlace lens (Suc l)" by (rule above [OF l15 order_refl])
  moreover have "Suc 15 = 16" by simp
  ultimately have "firstPlace lens 16 = firstPlace lens (Suc l)" by (simp only:)
  moreover have "firstPlace lens 16 = nextCode lens 16" by (simp only: firstPlace_def) simp
  ultimately have big: "2 ^ 16 < firstPlace lens (Suc l)" using assms(2) by (simp only:)
  have "0 < l"
  proof (rule ccontr)
    assume "\<not> 0 < l"
    with big show False by (simp add: firstPlace_def)
  qed
  obtain ys zs where s: "lens = ys @ l # zs" "l \<notin> set zs" using split_list_last [OF l(1)] by blast
  let ?i = "length ys"
  have i: "lens ! ?i = l" "?i < length lens" "take ?i lens = ys" using s(1) by simp_all
  have c: "codeWord lens ?i + 1 = nextCode lens l + count_list lens l"
    unfolding codeWord_def i using s by (simp add: count_list_append)
  have "(2 :: nat) ^ 16 = 2 ^ l * 2 ^ (16 - l)" using l15 by (simp flip: power_add)
  moreover have "firstPlace lens (Suc l) = (codeWord lens ?i + 1) * 2 ^ (16 - l)"
    using first_place_Suc [OF l15, of lens] \<open>0 < l\<close> unfolding c by (simp add: firstPlace_def algebra_simps)
  ultimately have "2 ^ l * 2 ^ (16 - l) < (codeWord lens ?i + 1) * 2 ^ (16 - l)" using big by linarith
  then have "2 ^ l < codeWord lens ?i + 1" unfolding mult_less_cancel2 by simp
  with that [of ?i] i(1,2) \<open>0 < l\<close> show thesis by (simp add: coded_def)
qed

lemma fill_loop_fails:
  assumes "list_all (\<lambda>l. l \<le> 15) lens" "coded lens i" "2 ^ (lens ! i) \<le> codeWord lens i"
  shows "n \<le> i \<Longrightarrow> length codes = 16
    \<Longrightarrow> \<forall>b \<in> {1..15}. codes ! b = (nextCode lens b + count_list (take n lens) b) * 2 ^ (15 - b)
    \<Longrightarrow> fillLoop (drop n lens) n codes Q mainLen longLen nextLong t = None"
proof (induction n arbitrary: codes nextLong t rule: inc_induct)
  case base
  let ?l = "lens ! i"
  have i: "i < length lens" "1 \<le> ?l" "?l \<le> 15" using assms(1,2) by (auto simp: coded_def list_all_length)
  have d: "drop i lens = ?l # drop (Suc i) lens" using i(1) by (simp add: Cons_nth_drop_Suc)
  have c: "codes ! ?l = codeWord lens i * 2 ^ (15 - ?l)" using base.prems(2) i by (simp add: codeWord_def)
  have "(2 :: nat) ^ 15 = 2 ^ ?l * 2 ^ (15 - ?l)" using i(3) by (simp flip: power_add)
  also have "\<dots> \<le> codes ! ?l" unfolding c using assms(3) by (rule mult_le_mono1)
  finally have "2 ^ 15 \<le> codes ! ?l" .
  then have "32 \<le> codes ! ?l div 1024" by (simp add: less_eq_div_iff_mult_less_eq)
  then have "REVERSE_15BITS (codes ! ?l) = None" by (simp add: REVERSE_15BITS_def reverse5_def)
  with d i(2) show ?case by (simp add: Let_def)
next
  case (step n)
  let ?l = "lens ! n"
  have n: "n < length lens" using step.hyps(2) assms(2) by (simp add: coded_def)
  have d: "drop n lens = ?l # drop (Suc n) lens" using n by (simp add: Cons_nth_drop_Suc)
  have cnt: "count_list (take (Suc n) lens) b = count_list (take n lens) b + (if b = ?l then 1 else 0)" for b
    using n by (simp add: take_Suc_conv_app_nth)
  have l: "?l \<le> 15" using assms(1) n by (simp add: list_all_length)
  let ?codes = "codes[?l := codes ! ?l + 2 ^ (MAX_BITS - ?l)]"
  have "\<forall>b \<in> {1..15}. ?codes ! b = (nextCode lens b + count_list (take (Suc n) lens) b) * 2 ^ (15 - b)"
    using step.prems l unfolding cnt by (auto simp: nth_list_update MAX_BITS_def)
  with step.IH step.prems(1) have IH: "fillLoop (drop (Suc n) lens) (Suc n) ?codes Q mainLen longLen nl t' = None" for nl t' by simp
  have IH0: "fillLoop (drop (Suc n) lens) (Suc n) codes Q mainLen longLen nl t' = None" if "?l = 0" for nl t'
    by (rule step.IH) (use step.prems cnt that in auto)
  show ?case
    unfolding d using IH IH0 by (auto simp: Let_def split: option.splits)
qed

lemma first_codes_any:
  assumes "list_all (\<lambda>l. l \<le> 15) lens"
  shows "\<exists>counts codes m. countLengths lens (replicate (MAX_BITS + 1) 0) = Some counts
    \<and> codesLoop [1..<MAX_BITS + 1] counts (replicate (MAX_BITS + 1) 0) 0 0 = (codes, m)
    \<and> length codes = 16 \<and> (\<forall>b \<in> {1..15}. codes ! b = nextCode lens b * 2 ^ (15 - b))"
proof -
  have "list_all (\<lambda>l. l < length (replicate (MAX_BITS + 1) (0 :: nat))) lens"
    using assms by (force simp: MAX_BITS_def list_all_iff)
  from counts_of_lengths [OF this] obtain counts where c: "countLengths lens (replicate (MAX_BITS + 1) 0) = Some counts"
    "length counts = 16" "\<forall>b < 16. counts ! b = count_list lens b" by (auto simp: MAX_BITS_def)
  have n1: "0 = nextCode lens (16 - 15) * 2 ^ (15 - 1)" by simp
  have c2: "\<forall>b \<in> {1..15}. counts ! b = count_list lens b" using c(3) by simp
  have "\<exists>codes m. codesLoop [16 - 15..<16] counts (replicate 16 0) 0 0 = (codes, m) \<and>
    length codes = 16 \<and> (\<forall>b \<in> {16 - 15..15}. codes ! b = nextCode lens b * 2 ^ (15 - b))"
    using codes_loop [OF c(2) c2 order_refl _ n1, of "replicate 16 0" 0] by (auto simp del: upt.simps upt_rec_numeral)
  with c(1) show ?thesis by (simp add: MAX_BITS_def)
qed

section \<open>Properties\<close>

text \<open>
  C33. A code table decodes the canonical code of its code lengths: for lengths of at most 15 bits
  that are not oversubscribed, a table is made, and looking the next bits of the input up in it gives
  every symbol for its code and takes exactly that code from the input, whether the entry is in the
  main table or in a long one.
\<close>

theorem code_table_decodes:
  assumes "lensOk lens" "length lens \<le> 288" "maxQuick = MAX_QUICK_LXL \<or> maxQuick = MAX_QUICK_CXD \<and> length lens \<le> 32" "\<forall>n. mem n"
  shows "\<exists>t. makeCodeTable mem lens maxQuick s = Done (Some t, s\<lparr>tables := Suc (tables s)\<rparr>)
    \<and> (\<forall>u i. i < length lens \<longrightarrow> 0 < lens ! i \<longrightarrow> nextBits (lens ! i) u = bitsVal (huffCode lens i)
         \<longrightarrow> getHuffmanEntry t (quickBits t) u = Done (Some i, dumpBits (lens ! i) u))"
proof -
  have "2 * tableAt maxQuick 15 ((length lens + 1) div 2) \<le> HUFFINFO_LONG_MASK" "maxQuick \<le> 14"
    using assms(2,3) by (auto simp: MAX_QUICK_LXL_def MAX_QUICK_CXD_def tableAt_def HUFFINFO_LONG_MASK_def)
  with make_table_decodes [OF assms(1) _ this(2,1) assms(4), of s] assms(2) obtain t where
    t: "makeCodeTable mem lens maxQuick s = Done (Some t, s\<lparr>tables := Suc (tables s)\<rparr>)" "codeTable lens t" by auto
  with table_decodes [OF assms(1) t(2)] show ?thesis by (auto simp: coded_def word_def)
qed

lemma code_table_decodes_witness:
  "let s = \<lparr>fileState = (), inRemaining = 4, inDataSize = 32, inData = 0x1B, outBuffer = [], outOffset = 0, outLength = 0,
              inflateBufferIndex = 0, inflateBufferCount = 0, inflateBuffer = [], tables = 0\<rparr> in
   \<exists>t. makeCodeTable (\<lambda>_. True) [2, 1, 3, 3] MAX_QUICK_CXD s = Done (Some t, s\<lparr>tables := 1\<rparr>)
     \<and> getHuffmanEntry t (quickBits t) s = Done (Some 2, dumpBits 3 s)"
proof -
  define s where "s = \<lparr>fileState = (), inRemaining = 4, inDataSize = 32, inData = 0x1B, outBuffer = [], outOffset = 0, outLength = 0,
              inflateBufferIndex = 0, inflateBufferCount = 0, inflateBuffer = [], tables = 0\<rparr>"
  have ok: "lensOk [2, 1, 3, 3]" by (simp add: lensOk_def nextCode_numeral)
  have word: "bitsVal (huffCode [2, 1, 3, 3] 2) = 3" by code_simp
  have bits: "nextBits 3 s = 3" by (simp add: s_def nextBits_mod)
  obtain t where t: "makeCodeTable (\<lambda>_. True) [2, 1, 3, 3] MAX_QUICK_CXD s = Done (Some t, s\<lparr>tables := Suc (tables s)\<rparr>)"
    "\<forall>u i. i < length [2, 1, 3, 3 :: nat] \<longrightarrow> 0 < [2, 1, 3, 3 :: nat] ! i
       \<longrightarrow> nextBits ([2, 1, 3, 3] ! i) u = bitsVal (huffCode [2, 1, 3, 3] i)
       \<longrightarrow> getHuffmanEntry t (quickBits t) (u :: unit InflaterState) = Done (Some i, dumpBits ([2, 1, 3, 3] ! i) u)"
    using code_table_decodes [OF ok, of MAX_QUICK_CXD "\<lambda>_. True" s] by auto
  have "getHuffmanEntry t (quickBits t) s = Done (Some 2, dumpBits 3 s)"
    using t(2) [rule_format, of 2 s] bits word by simp
  moreover have "tables s = 0" by (simp add: s_def)
  ultimately show ?thesis using t(1) unfolding Let_def s_def [symmetric] by auto
qed

text \<open>
  Making a code table does not check the code lengths: more codes than there is room for always
  lead outside the tables that reverse a code or outside the memory of the code table, if there is
  memory for one.
\<close>

theorem oversubscribed_undefined:
  assumes "list_all (\<lambda>l. l \<le> 15) lens" "2 ^ 16 < nextCode lens 16" "\<forall>n. mem n"
  shows "makeCodeTable mem lens maxQuick s = Undefined"
proof -
  obtain i where i: "coded lens i" "2 ^ (lens ! i) \<le> codeWord lens i" using oversubscribed_code [OF assms(1,2)] .
  obtain counts codes m where c: "countLengths lens (replicate (MAX_BITS + 1) 0) = Some counts"
    "codesLoop [1..<MAX_BITS + 1] counts (replicate (MAX_BITS + 1) 0) 0 0 = (codes, m)" "length codes = 16"
    "\<forall>b \<in> {1..15}. codes ! b = nextCode lens b * 2 ^ (15 - b)" using first_codes_any [OF assms(1)] by blast
  have "fillLoop (drop 0 lens) 0 codes Q mainLen longLen nextLong t = None" for Q mainLen longLen nextLong t
    using fill_loop_fails [OF assms(1) i, of 0 codes] c(3,4) by simp
  then show ?thesis
    unfolding makeCodeTable_def c(1) option.case Let_def c(2) prod.case using assms(3) by (simp split: prod.splits)
qed

lemma oversubscribed_undefined_witness:
  "\<forall>s :: unit InflaterState. makeCodeTable (\<lambda>_. True) [1, 1, 1] MAX_QUICK_CXD s = Undefined"
proof (intro allI oversubscribed_undefined)
  show "list_all (\<lambda>l. l \<le> 15) [1, 1, 1 :: nat]" by simp
  show "2 ^ 16 < nextCode [1, 1, 1] 16" by (simp add: nextCode_numeral)
qed simp

end
