(* ===== verification/InflateStream.thy ===== *)
theory InflateStream
  imports InflateTables
begin

text \<open>
  The format as a specification, \<open>deflate\<close>: a list of blocks, stored, with the fixed codes or with codes
  of their own, and the bits and bytes it is written as; \<open>expandBlocks\<close> gives the bytes it stands for.
  One property: the inflater decodes all of it.
\<close>

section \<open>Stored bytes\<close>

text \<open>The state after \<open>xs\<close> has been moved from the input, all bytes of which are pending, to the output.\<close>

definition moved :: "('f \<Rightarrow> jbyte list option) \<Rightarrow> jbyte list \<Rightarrow> 'f InflaterState \<Rightarrow> 'f InflaterState \<Rightarrow> bool" where
  "moved rest xs s s' \<longleftrightarrow> readable rest s' \<and> pendingBytes rest s = xs @ pendingBytes rest s'
     \<and> inRemaining s' = inRemaining s - int (length xs) \<and> inDataSize s' = inDataSize s \<and> inData s' = inData s
     \<and> outLength s' = outLength s \<and> tables s' = tables s
     \<and> (\<forall>out. outIs s out \<longrightarrow> length out + length xs \<le> outLength s \<longrightarrow> outIs s' (out @ xs))"

lemma movedD:
  assumes "moved rest xs s s'"
  shows "readable rest s'" "pendingBytes rest s = xs @ pendingBytes rest s'" "outLength s' = outLength s"
    "outIs s out \<Longrightarrow> length out + length xs \<le> outLength s \<Longrightarrow> outIs s' (out @ xs)"
  using assms by (simp_all add: moved_def)

lemma moved_trans:
  assumes "moved rest xs s t" "moved rest ys t u"
  shows "moved rest (xs @ ys) s u"
proof -
  have "outIs u (out @ xs @ ys)" if "outIs s out" "length out + length (xs @ ys) \<le> outLength s" for out
  proof -
    have "outIs t (out @ xs)" using assms(1) that by (simp add: moved_def)
    moreover have "outLength t = outLength s" using assms(1) by (simp add: moved_def)
    ultimately show ?thesis using assms(2) that(2) unfolding moved_def
      by (metis append_assoc add.assoc length_append)
  qed
  with assms show ?thesis by (simp add: moved_def)
qed

lemma moved_buffered:
  assumes "readable rest s" "inflateBufferCount s > 0 \<or> n = 0" "int n \<le> max 0 (inflateBufferCount s)"
    "outIs s out" "length out + n \<le> outLength s"
  defines "bs \<equiv> take n (drop (inflateBufferIndex s) (inflateBuffer s))"
  shows "\<exists>s1. writeOut bs s = Done s1 \<and> moved rest bs s
    (s1\<lparr>inflateBufferCount := inflateBufferCount s1 - int n, inflateBufferIndex := inflateBufferIndex s1 + n,
        inRemaining := inRemaining s1 - int n\<rparr>)" (is "\<exists>s1. _ \<and> moved rest bs s (?t s1)")
proof -
  have l: "length bs = n" using assms(1-3) by (auto simp: bs_def readable_def bufferOk_def)
  have room: "outIs s o' \<Longrightarrow> o' = out" for o' using assms(4) by (auto simp: outIs_def)
  obtain buf where w: "writeOut bs s = Done (s\<lparr>outBuffer := buf, outOffset := length (out @ bs)\<rparr>)"
    "outIs (s\<lparr>outBuffer := buf, outOffset := length (out @ bs)\<rparr>) (out @ bs)"
    using write_out_is [OF assms(4), of bs] assms(5) l by auto
  let ?s1 = "s\<lparr>outBuffer := buf, outOffset := length (out @ bs)\<rparr>"
  have "pendingBytes rest s = bs @ pendingBytes rest (?t ?s1)"
  proof (cases "inflateBufferCount s > 0")
    case True
    define m where "m = nat (inflateBufferCount s)"
    have m: "inflateBufferCount s = int m" "n \<le> m" "0 < m" using True assms(3) by (auto simp: m_def)
    have "take m xs = take n xs @ take (m - n) (drop n xs)" for xs :: "jbyte list"
      using take_add [of n "m - n" xs] m(2) by simp
    moreover have "nat (int m - int n) = m - n" by simp
    ultimately show ?thesis using m by (simp add: pendingBytes_def bs_def add.commute)
  next
    case False
    with assms(2) show ?thesis by (simp add: pendingBytes_def bs_def)
  qed
  moreover have "readable rest (?t ?s1)" using assms(1-3) by (auto simp: readable_def bufferOk_def)
  moreover have "outIs (?t ?s1) (out @ bs)" using w(2) by (simp add: outIs_def)
  ultimately have "moved rest bs s (?t ?s1)" using l room by (auto simp: moved_def)
  with w(1) show ?thesis by blast
qed

lemma moved_byte:
  assumes "reader get rest" "readable rest s" "pendingBytes rest s = x # xs" "nextByte get s = (b, s1)"
    "outIs s out" "length out + 1 \<le> outLength s"
  shows "\<exists>s2. writeOut [b] s1 = Done s2 \<and> moved rest [x] s (s2\<lparr>inRemaining := inRemaining s2 - 1\<rparr>)"
proof -
  have b: "b = x" "pendingBytes rest s1 = xs" "readable rest s1"
    using next_byte_pending [OF assms(1,2,4)] assms(3) by auto
  have o1: "outIs s1 out" "outLength s1 = outLength s" using outIs_same [OF assms(5) nextByte_same [OF assms(4)]] nextByte_keeps [OF assms(4)] by simp_all
  obtain buf where w: "writeOut [b] s1 = Done (s1\<lparr>outBuffer := buf, outOffset := length (out @ [b])\<rparr>)"
    "outIs (s1\<lparr>outBuffer := buf, outOffset := length (out @ [b])\<rparr>) (out @ [b])"
    using write_out_is [OF o1(1), of "[b]"] assms(6) o1(2) by auto
  let ?s2 = "s1\<lparr>outBuffer := buf, outOffset := length (out @ [b])\<rparr>"
  have "moved rest [x] s (?s2\<lparr>inRemaining := inRemaining ?s2 - 1\<rparr>)"
    using b w(2) assms(3,5) nextByte_keeps [OF assms(4)]
    by (auto simp: moved_def pendingBytes_def readable_def bufferOk_def outIs_def)
  with w(1) show ?thesis by blast
qed

lemma stored_moves:
  "readable rest s \<Longrightarrow> pendingBytes rest s = xs @ ys \<Longrightarrow> reader get rest \<Longrightarrow> outIs s out \<Longrightarrow> length out + length xs \<le> outLength s
    \<Longrightarrow> \<exists>s'. storedLoop get (length xs) s = Done s' \<and> moved rest xs s s'"
proof (induction "length xs" arbitrary: s xs out rule: less_induct)
  case (less xs s out)
  show ?case
  proof (cases "length xs = 0")
    case True
    with less.prems show ?thesis by (simp add: storedLoop.simps moved_def)
  next
    case False
    define n where "n = (if inflateBufferCount s > 0 then min (nat (inflateBufferCount s)) (length xs) else 0)"
    define bs where "bs = take n (drop (inflateBufferIndex s) (inflateBuffer s))"
    let ?t = "\<lambda>s1. s1\<lparr>inflateBufferCount := inflateBufferCount s1 - int n,
         inflateBufferIndex := inflateBufferIndex s1 + n, inRemaining := inRemaining s1 - int n\<rparr>"
    have n: "n \<le> length xs" "inflateBufferCount s > 0 \<or> n = 0" "int n \<le> max 0 (inflateBufferCount s)"
      by (auto simp: n_def)
    obtain s1 where s1: "writeOut bs s = Done s1" "moved rest bs s (?t s1)"
      using moved_buffered [OF less.prems(1) n(2,3) less.prems(4)] less.prems(5) n(1) unfolding bs_def by auto
    have l: "length bs = n" using less.prems(1) n by (auto simp: bs_def readable_def bufferOk_def)
    have p: "xs @ ys = bs @ pendingBytes rest (?t s1)" using movedD(2) [OF s1(2)] less.prems(2) by simp
    then have bs: "bs = take n xs" "pendingBytes rest (?t s1) = drop n xs @ ys"
      using l n(1) by (metis append_eq_conv_conj take_append diff_is_0_eq take_0 append_Nil2,
        metis append_eq_conv_conj drop_append diff_is_0_eq drop_0 l n(1))
    have o1: "outIs (?t s1) (out @ bs)" "outLength (?t s1) = outLength s" "readable rest (?t s1)"
      using movedD(4) [OF s1(2) less.prems(4)] movedD(1,3) [OF s1(2)] less.prems(5) l n(1) by simp_all
    have loop: "storedLoop get (length xs) s = (if length xs - n = 0 then Done (?t s1)
         else case nextByte get (?t s1) of (b, s3) \<Rightarrow>
           andThen (writeOut [b] s3) (\<lambda>s4. storedLoop get (length xs - n - 1) (s4\<lparr>inRemaining := inRemaining s4 - 1\<rparr>)))"
      unfolding storedLoop.simps [of get "length xs" s] if_not_P [OF False] n_def [symmetric] Let_def bs_def [symmetric]
      by (simp add: s1(1))
    show ?thesis
    proof (cases "length xs - n = 0")
      case True
      with bs(1) n(1) have "bs = xs" by simp
      with loop True s1(2) show ?thesis by simp
    next
      case False
      then obtain x zs where x: "drop n xs = x # zs" by (cases "drop n xs") auto
      have "length xs - n = Suc (length zs)" using x by (metis length_drop length_Cons)
      then have zs: "length xs - n - 1 = length zs" "length zs < length xs" "xs = bs @ [x] @ zs"
        using bs(1) x append_take_drop_id [of n xs] by simp_all
      obtain b s3 where b: "nextByte get (?t s1) = (b, s3)" by fastforce
      have "pendingBytes rest (?t s1) = x # zs @ ys" using bs(2) x by simp
      from moved_byte [OF less.prems(3) o1(3) this b o1(1)] obtain s4 where
        s4: "writeOut [b] s3 = Done s4" "moved rest [x] (?t s1) (s4\<lparr>inRemaining := inRemaining s4 - 1\<rparr>)"
        using less.prems(5) o1(2) zs(3) by auto
      let ?s5 = "s4\<lparr>inRemaining := inRemaining s4 - 1\<rparr>"
      have m: "moved rest (bs @ [x]) s ?s5" by (rule moved_trans [OF s1(2) s4(2)])
      have "outIs ?s5 (out @ bs @ [x])" "outLength ?s5 = outLength s" "readable rest ?s5" "pendingBytes rest ?s5 = zs @ ys"
        using movedD(4) [OF m less.prems(4)] movedD(1-3) [OF m] less.prems(2,4,5) zs(3) by auto
      from less.hyps [OF zs(2) this(3,4) less.prems(3) this(1)] this(2) less.prems(5) zs(3)
      obtain s' where s': "storedLoop get (length zs) ?s5 = Done s'" "moved rest zs ?s5 s'" by auto
      have "moved rest xs s s'" using moved_trans [OF m s'(2)] zs(3) by simp
      moreover have "storedLoop get (length xs) s = Done s'"
        unfolding loop if_not_P [OF False] b prod.case s4(1) andThen.simps zs(1) by (rule s'(1))
      ultimately show ?thesis by blast
    qed
  qed
qed

lemma byteBits_inj: "byteBits a = byteBits b \<Longrightarrow> a = b"
proof (rule bit_word_eqI)
  fix i assume a: "byteBits a = byteBits b" and i: "i < LENGTH(8)"
  have "byteBits a ! i = byteBits b ! i" using a by simp
  then show "bit a i = bit b i" using i by (simp add: byteBits_def)
qed

lemma bytes_before:
  "concat (map byteBits bs) = concat (map byteBits xs) @ r \<Longrightarrow> \<exists>zs. bs = xs @ zs \<and> concat (map byteBits zs) = r"
proof (induction xs arbitrary: bs)
  case (Cons x xs)
  show ?case
  proof (cases bs)
    case Nil
    with Cons.prems have "length (byteBits x) = 0" by simp
    then show ?thesis by simp
  next
    case (Cons b bs')
    with Cons.prems have "byteBits b = byteBits x" "concat (map byteBits bs') = concat (map byteBits xs) @ r"
      by (simp_all add: append_eq_append_conv)
    with byteBits_inj Cons.IH Cons show ?thesis by fastforce
  qed
qed simp

lemma tape_need32:
  assumes "reader get rest" "tape rest tail K s xs" "inDataSize s mod 8 = 0"
  shows "tape rest tail K (needBits get 32 s) xs" "inDataSize (needBits get 32 s) = 32"
proof -
  show t: "tape rest tail K (needBits get 32 s) xs"
    using need_feeds [of get rest s "xs @ tail" 32] needBits_same [of s get 32] assms by (simp add: tape_def loadable_def)
  have "inDataSize (needBits get 32 s) \<le> 32" using t by (simp add: tape_def feeds_def)
  then show "inDataSize (needBits get 32 s) = 32" using needBits_size [of 32 get s] by simp
qed

lemma dump_size: "tape rest tail K s xs \<Longrightarrow> j \<le> inDataSize s \<Longrightarrow> inDataSize (dumpBits j s) = inDataSize s - j"
  by (rule dumpBits_size) (simp_all add: tape_def feeds_def)

lemma stored_decodes:
  assumes "reader get rest" "length xs < 2 ^ 16" "outIs s out" "length out + length xs \<le> outLength s"
    "length pad = inDataSize s mod 8"
    "tape rest tail K s (pad @ bitsOf 16 (length xs) @ bitsOf 16 (2 ^ 16 - 1 - length xs) @ concat (map byteBits xs) @ ys)"
  shows "\<exists>s'. inflateStored get s = Done (0, s') \<and> tape rest tail K s' ys \<and> outIs s' (out @ xs)
    \<and> outLength s' = outLength s \<and> tables s' = tables s"
proof -
  let ?l = "length xs" and ?n = "2 ^ 16 - 1 - length xs" and ?d = "concat (map byteBits xs) @ ys"
  define s0 where "s0 = dumpBits (inDataSize s mod 8) s"
  define s1 where "s1 = needBits get 32 s0"
  define s2 where "s2 = dumpBits 16 s1"
  define s3 where "s3 = dumpBits 16 s2"
  have s0: "tape rest tail K s0 (bitsOf 16 ?l @ bitsOf 16 ?n @ ?d)" "inDataSize s0 mod 8 = 0"
    using tape_dump(2) [OF assms(6)] dump_size [OF assms(6), of "length pad"] assms(5)
    by (simp_all add: s0_def minus_mod_eq_mult_div)
  have s1: "tape rest tail K s1 (bitsOf 16 ?l @ bitsOf 16 ?n @ ?d)" "inDataSize s1 = 32"
    using tape_need32 [OF assms(1) s0] by (simp_all add: s1_def)
  have s2: "nextBits 16 s1 = ?l" "tape rest tail K s2 (bitsOf 16 ?n @ ?d)" "inDataSize s2 = 16"
    using tape_number [OF s1(1)] dump_size [OF s1(1), of 16] s1(2) assms(2) by (simp_all add: s2_def)
  have s3: "nextBits 16 s2 = ?n" "tape rest tail K s3 ?d" "inDataSize s3 = 0"
    using tape_number [OF s2(2)] dump_size [OF s2(2), of 16] s2(3) assms(2) by (simp_all add: s3_def)
  have o: "outIs s3 out" "outLength s3 = outLength s" "tables s3 = tables s"
    using assms(3) by (simp_all add: s3_def s2_def s1_def s0_def)
  have b: "readable rest s3" "8 * inRemaining s3 = 8 * int ?l + int (length ys) + K" "32 \<le> K"
    using s3(2,3) by (simp_all add: tape_def feeds_def bitsLeft_def)
  obtain k where k: "concat (map byteBits (pendingBytes rest s3)) = concat (map byteBits xs) @ ys @ tail @ replicate (8 * k) True"
    "0 < k \<longrightarrow> pendingBytes rest s3 = []"
    using s3(2,3) by (auto simp: tape_def feeds_def inBits_def)
  obtain zs where zs: "pendingBytes rest s3 = xs @ zs" "concat (map byteBits zs) = ys @ tail @ replicate (8 * k) True"
    using bytes_before [OF k(1)] by auto
  obtain s4 where s4: "storedLoop get ?l s3 = Done s4" "moved rest xs s3 s4"
    using stored_moves [OF b(1) zs(1) assms(1) o(1)] assms(4) o(2) by auto
  have z: "pendingBytes rest s4 = zs" "inDataSize s4 = 0" "inData s4 = inData s3" "readable rest s4"
    "inRemaining s4 = inRemaining s3 - int ?l"
    using s4(2) zs(1) s3(3) by (simp_all add: moved_def)
  have "\<exists>k. inBits rest s4 = (ys @ tail) @ replicate (8 * k) True \<and> (0 < k \<longrightarrow> pendingBytes rest s4 = [])"
    using z zs k(2) by (intro exI [of _ k]) (simp add: inBits_def)
  moreover have "\<forall>i. bit (inData s4) i \<longrightarrow> i < inDataSize s4" using s3(2,3) z by (simp add: tape_def feeds_def)
  ultimately have "tape rest tail K s4 ys" using z b(2,3) by (simp add: tape_def feeds_def bitsLeft_def)
  moreover have "outIs s4 (out @ xs)" using movedD(4) [OF s4(2) o(1)] assms(4) o(2) by simp
  moreover have "outLength s4 = outLength s" "tables s4 = tables s" using s4(2) o by (simp_all add: moved_def)
  moreover have "inflateStored get s = Done (0, s4)"
  proof -
    have "int ?l \<le> inRemaining s3" using b(2,3) by linarith
    moreover have "outOffset s3 = length out" "length out + ?l \<le> outLength s3" "length out + ?l < 2 ^ 32"
      using o assms(4) by (auto simp: outIs_def)
    moreover have "?l + ?n = 0xFFFF" using assms(2) by simp
    ultimately show ?thesis
      unfolding inflateStored_def Let_def s0_def [symmetric] s1_def [symmetric] s2_def [symmetric] s3_def [symmetric] s2(1) s3(1)
      by (simp add: s4(1))
  qed
  ultimately show ?thesis by blast
qed

section \<open>The code lengths of a block\<close>

text \<open>Code lengths are sent as lengths, repeats of the last one, and runs of zeros.\<close>

datatype LengthItem = LengthIs nat | RepeatLast nat | Zeros nat

fun expandItem :: "LengthItem \<Rightarrow> nat list \<Rightarrow> nat list option" where
  "expandItem (LengthIs v) xs = Some (xs @ [v])"
| "expandItem (RepeatLast n) xs = (if xs = [] then None else Some (xs @ replicate n (last xs)))"
| "expandItem (Zeros n) xs = Some (xs @ replicate n 0)"

fun expandItems :: "LengthItem list \<Rightarrow> nat list \<Rightarrow> nat list option" where
  "expandItems [] xs = Some xs"
| "expandItems (i # is) xs = Option.bind (expandItem i xs) (expandItems is)"

fun itemOk :: "(nat \<Rightarrow> bool) \<Rightarrow> LengthItem \<Rightarrow> bool" where
  "itemOk valid (LengthIs v) = (v \<le> 15 \<and> valid v)"
| "itemOk valid (RepeatLast n) = (3 \<le> n \<and> n \<le> 6 \<and> valid 16)"
| "itemOk valid (Zeros n) = (3 \<le> n \<and> n \<le> 138 \<and> valid (if n < 11 then 17 else 18))"

fun itemBits :: "(nat \<Rightarrow> bool list) \<Rightarrow> LengthItem \<Rightarrow> bool list" where
  "itemBits code (LengthIs v) = code v"
| "itemBits code (RepeatLast n) = code 16 @ bitsOf 2 (n - 3)"
| "itemBits code (Zeros n) = (if n < 11 then code 17 @ bitsOf 3 (n - 3) else code 18 @ bitsOf 7 (n - 11))"

lemma expand_item_longer: "expandItem i xs = Some ys \<Longrightarrow> itemOk valid i \<Longrightarrow> length xs < length ys"
  by (cases i) (auto split: if_splits)

lemma expand_items_longer: "expandItems is xs = Some ys \<Longrightarrow> list_all (itemOk valid) is \<Longrightarrow> length xs \<le> length ys"
proof (induction "is" xs rule: expandItems.induct)
  case (2 i "is" xs)
  then obtain zs where "expandItem i xs = Some zs" "expandItems is zs = Some ys" by (auto simp: bind_eq_Some_conv)
  with "2.IH" "2.prems"(2) expand_item_longer show ?case by fastforce
qed simp

text \<open>What the output is like is not changed by reading.\<close>

definition onlyReads :: "'f InflaterState \<Rightarrow> 'f InflaterState \<Rightarrow> bool" where
  "onlyReads s s' \<longleftrightarrow> (\<forall>out. outIs s' out = outIs s out) \<and> outLength s' = outLength s \<and> tables s' = tables s"

lemma onlyReads_refl [simp]: "onlyReads s s"
  and onlyReads_need [simp]: "onlyReads s (needBits get j s)"
  and onlyReads_dump [simp]: "onlyReads s (dumpBits j s)"
  and onlyReads_trans: "onlyReads s t \<Longrightarrow> onlyReads t u \<Longrightarrow> onlyReads s u"
  by (simp_all add: onlyReads_def)

text \<open>The cells of \<^verbatim>\<open>codelen\<close> with the lengths so far.\<close>

definition cells :: "nat list \<Rightarrow> nat list" where
  "cells xs = xs @ replicate (286 + 32 - length xs) 0"

lemma cells_write:
  assumes "length xs + n \<le> 318"
  shows "take (length xs) (cells xs) @ replicate n v @ drop (length xs + n) (cells xs) = cells (xs @ replicate n v)"
    "length xs < 318 \<Longrightarrow> (cells xs)[length xs := v] = cells (xs @ [v])"
    "cells xs = cells (xs @ replicate n 0)"
    "length (cells xs) = 318" "0 < length xs \<Longrightarrow> cells xs ! (length xs - 1) = last xs"
proof -
  have r: "replicate (318 - length xs) (0 :: nat) = replicate n 0 @ replicate (318 - (length xs + n)) 0"
    using assms by (simp flip: replicate_add)
  show "take (length xs) (cells xs) @ replicate n v @ drop (length xs + n) (cells xs) = cells (xs @ replicate n v)"
    by (simp add: cells_def)
  show "cells xs = cells (xs @ replicate n 0)" using r by (simp add: cells_def)
  show "length (cells xs) = 318" using assms by (simp add: cells_def)
  show "cells xs ! (length xs - 1) = last xs" if "0 < length xs" using that by (simp add: cells_def nth_append last_conv_nth)
  show "(cells xs)[length xs := v] = cells (xs @ [v])" if "length xs < 318"
  proof -
    have "318 - length xs = Suc (318 - Suc (length xs))" using that by simp
    then show ?thesis by (simp add: cells_def list_update_append)
  qed
qed

lemma items_decode:
  assumes "reader get rest" "symbol_code (getHuffmanEntry t (quickBits t) :: 'f InflaterState \<Rightarrow> _) code valid"
  shows "list_all (itemOk valid) is \<Longrightarrow> expandItems is xs = Some ys \<Longrightarrow> length ys \<le> 318 \<Longrightarrow>
    tape rest tail K (s :: 'f InflaterState) (concat (map (itemBits code) is) @ zs) \<Longrightarrow>
    \<exists>s'. codelenLoop get t (length ys) (length xs) (cells xs) s = Done (0, cells ys, s')
      \<and> tape rest tail K s' zs \<and> onlyReads s s'"
proof (induction "is" arbitrary: xs s)
  case Nil
  then show ?case by (simp add: codelenLoop.simps)
next
  case (Cons i "is")
  obtain xs1 where x: "expandItem i xs = Some xs1" "expandItems is xs1 = Some ys"
    using Cons.prems(2) by (auto simp: bind_eq_Some_conv)
  have i: "itemOk valid i" and oks: "list_all (itemOk valid) is" using Cons.prems(1) by simp_all
  have len: "length xs < length xs1" "length xs1 \<le> length ys"
    using expand_item_longer [OF x(1) i] expand_items_longer [OF x(2) oks] .
  let ?ys = "concat (map (itemBits code) is) @ zs"
  let ?s1 = "needBits get (MAX_BITS + 7) s"
  have r: "\<not> length ys \<le> length xs" "\<not> inRemaining s < 0" using len tape_remaining [OF Cons.prems(4)] by simp_all
  have l15: "length (code v) \<le> 15" if "valid v" for v using symbol_code.code_length [OF assms(2) that] by simp
  have entry: "getHuffmanEntry t (quickBits t) ?s1 = Done (Some v, dumpBits (length (code v)) ?s1)"
      "tape rest tail K (dumpBits (length (code v)) ?s1) us" "7 \<le> inDataSize (dumpBits (length (code v)) ?s1)"
    if "tape rest tail K s (code v @ us)" "valid v" for v us
  proof -
    have s1: "tape rest tail K ?s1 (code v @ us)" "22 \<le> inDataSize ?s1"
      using tape_need [OF assms(1) that(1), of "MAX_BITS + 7"] by (simp_all add: MAX_BITS_def)
    show "getHuffmanEntry t (quickBits t) ?s1 = Done (Some v, dumpBits (length (code v)) ?s1)"
      using symbol_code.decodes [OF assms(2) that(2), of ?s1] tape_dump(1) [OF s1(1)] s1(2) l15 [OF that(2)] by simp
    show "tape rest tail K (dumpBits (length (code v)) ?s1) us"
      using tape_dump(2) [OF s1(1)] s1(2) l15 [OF that(2)] by simp
    show "7 \<le> inDataSize (dumpBits (length (code v)) ?s1)"
      using dumpBits_size [of "length (code v)" ?s1] s1 l15 [OF that(2)] by (simp add: tape_def feeds_def)
  qed
  have again: "\<exists>s'. codelenLoop get t (length ys) (length xs1) (cells xs1) u = Done (0, cells ys, s')
      \<and> tape rest tail K s' zs \<and> onlyReads s s'" if "tape rest tail K u ?ys" "onlyReads s u" for u
    using Cons.IH [OF oks x(2) Cons.prems(3) that(1)] onlyReads_trans [OF that(2)] by blast
  have step: "codelenLoop get t (length ys) (length xs) (cells xs) s =
      (let s2 = dumpBits (length (code v)) ?s1 in
       if v \<le> 15 then
         if length xs < length (cells xs) then codelenLoop get t (length ys) (Suc (length xs)) ((cells xs)[length xs := v]) s2
         else Undefined
       else if v \<le> 18 then
         let bits = (if v = 18 then 7 else v - 14);
             rep = (if v = 18 then 11 else 3) + nextBits bits s2;
             s3 = dumpBits bits s2 in
         if length xs + rep > length ys then Done (INFLATE_BAD_REPEAT_CODE, cells xs, s3)
         else if v = 16 then
           if length xs = 0 then Done (INFLATE_BAD_REPEAT_CODE, cells xs, s3)
           else if length xs + rep \<le> length (cells xs) then
             codelenLoop get t (length ys) (length xs + rep)
               (take (length xs) (cells xs) @ replicate rep (cells xs ! (length xs - 1)) @ drop (length xs + rep) (cells xs)) s3
           else Undefined
         else codelenLoop get t (length ys) (length xs + rep) (cells xs) s3
       else Done (INFLATE_BAD_CODELENGTH_CODE, cells xs, s2))"
    if "getHuffmanEntry t (quickBits t) ?s1 = Done (Some v, dumpBits (length (code v)) ?s1)" for v
    unfolding codelenLoop.simps [of get t "length ys" "length xs" "cells xs" s] if_not_P [OF r(1)] if_not_P [OF r(2)] that
    by (simp only: Let_def andThen.simps prod.case option.case)
  have reads: "onlyReads s (dumpBits j ?s1)" "onlyReads s (dumpBits k (dumpBits j ?s1))" for j k
    using onlyReads_trans onlyReads_need onlyReads_dump by blast+
  show ?case
  proof (cases i)
    case (LengthIs v)
    have "tape rest tail K s (code v @ ?ys)" using Cons.prems(4) LengthIs by simp
    note e = entry [OF this]
    have v: "v \<le> 15" "valid v" and x1: "xs1 = xs @ [v]" using i x(1) LengthIs by simp_all
    have c: "length (cells xs) = 318" "(cells xs)[length xs := v] = cells xs1"
      using cells_write(4) [of xs 0] cells_write(2) [of xs 0 v] len Cons.prems(3) by (simp_all add: x1)
    show ?thesis
      unfolding step [OF e(1) [OF v(2)]] Let_def c using again [OF e(2) [OF v(2)] reads(1)] v(1) len Cons.prems(3)
      by (simp add: x1)
  next
    case (RepeatLast n)
    have "tape rest tail K s (code 16 @ bitsOf 2 (n - 3) @ ?ys)" using Cons.prems(4) RepeatLast by simp
    note e = entry [OF this]
    have n: "3 \<le> n" "n \<le> 6" "valid 16" and x1: "xs \<noteq> []" "xs1 = xs @ replicate n (last xs)"
      using i x(1) RepeatLast by (auto split: if_splits)
    let ?s2 = "dumpBits (length (code 16)) ?s1"
    have b: "nextBits 2 ?s2 = n - 3" "tape rest tail K (dumpBits 2 ?s2) ?ys"
      using tape_number [OF e(2) [OF n(3)]] e(3) [OF n(3)] n(1,2) by auto
    have l: "length xs + n \<le> length ys" "length xs + n \<le> 318" using len x1 Cons.prems(3) by auto
    have c: "length (cells xs) = 318" "cells xs ! (length xs - 1) = last xs"
      "take (length xs) (cells xs) @ replicate n (last xs) @ drop (length xs + n) (cells xs) = cells xs1"
      using cells_write(1,4,5) [OF l(2)] x1 by auto
    show ?thesis
      unfolding step [OF e(1) [OF n(3)]] using again [OF b(2) reads(2)] n l x1 c by (simp add: Let_def b(1))
  next
    case (Zeros n)
    have n: "3 \<le> n" "n \<le> 138" "valid (if n < 11 then 17 else 18)" and x1: "xs1 = xs @ replicate n 0"
      using i x(1) Zeros by auto
    have l: "length xs + n \<le> length ys" "length xs + n \<le> 318" using len x1 Cons.prems(3) by auto
    have c: "cells xs = cells xs1" using cells_write(3) [OF l(2)] x1 by simp
    show ?thesis
    proof (cases "n < 11")
      case True
      then have "tape rest tail K s (code 17 @ bitsOf 3 (n - 3) @ ?ys)" using Cons.prems(4) Zeros by simp
      note e = entry [OF this]
      have v: "valid 17" using n(3) True by simp
      let ?s2 = "dumpBits (length (code 17)) ?s1"
      have b: "nextBits 3 ?s2 = n - 3" "tape rest tail K (dumpBits 3 ?s2) ?ys"
        using tape_number [OF e(2) [OF v]] e(3) [OF v] n(1) True by auto
      show ?thesis
        unfolding step [OF e(1) [OF v]] using again [OF b(2) reads(2)] n l x1 c True by (simp add: Let_def b(1))
    next
      case False
      then have "tape rest tail K s (code 18 @ bitsOf 7 (n - 11) @ ?ys)" using Cons.prems(4) Zeros by simp
      note e = entry [OF this]
      have v: "valid 18" using n(3) False by simp
      let ?s2 = "dumpBits (length (code 18)) ?s1"
      have b: "nextBits 7 ?s2 = n - 11" "tape rest tail K (dumpBits 7 ?s2) ?ys"
        using tape_number [OF e(2) [OF v]] e(3) [OF v] n(2) False by auto
      show ?thesis
        unfolding step [OF e(1) [OF v]] using again [OF b(2) reads(2)] n l x1 c False by (simp add: Let_def b(1))
    qed
  qed
qed

lemma lengths_decode:
  assumes "reader get rest" "\<forall>i. cl i < 8"
  shows "tape rest tail K s (concat (map (\<lambda>i. bitsOf 3 (cl i)) is) @ ys) \<Longrightarrow>
    \<exists>s'. lengthsLoop get is codelen s = (Some (foldl (\<lambda>c i. c[i := cl i]) codelen is), s')
      \<and> tape rest tail K s' ys \<and> onlyReads s s'"
proof (induction "is" arbitrary: codelen s)
  case (Cons i "is")
  let ?s1 = "needBits get 3 s"
  have s1: "tape rest tail K ?s1 (bitsOf 3 (cl i) @ concat (map (\<lambda>i. bitsOf 3 (cl i)) is) @ ys)" "3 \<le> inDataSize ?s1"
    using tape_need [OF assms(1) Cons.prems, of 3] by simp_all
  have c: "cl i < 2 ^ 3" using assms(2) by simp
  note n = tape_number [OF s1 c]
  have "\<not> inRemaining ?s1 < 0" using tape_remaining [OF s1(1)] by simp
  then have "lengthsLoop get (i # is) codelen s = lengthsLoop get is (codelen[i := cl i]) (dumpBits 3 ?s1)"
    using n(1) by (simp add: Let_def)
  moreover have "onlyReads s (dumpBits 3 ?s1)" by (rule onlyReads_trans [OF onlyReads_need onlyReads_dump])
  ultimately show ?case using Cons.IH [OF n(2)] onlyReads_trans by fastforce
qed simp

lemma nth_updates:
  "j < length xs \<Longrightarrow> foldl (\<lambda>c i. c[i := cl i]) xs is ! j = (if j \<in> set is then cl j else xs ! j)"
  "length (foldl (\<lambda>c i. c[i := cl i]) xs is) = length xs"
  by (induction "is" arbitrary: xs) (auto simp: nth_list_update)

section \<open>Blocks\<close>

text \<open>
  A block with its own codes: how many code lengths of the first code are sent, these lengths by
  symbol, the code lengths of the other two codes, how many of them are for literals, and the
  tokens.
\<close>

datatype Block = StoredBlock "jbyte list" | FixedBlock "Token list"
  | DynamicBlock nat "nat list" "LengthItem list" nat "Token list"

definition blockLengths :: "LengthItem list \<Rightarrow> nat list" where
  "blockLengths items = (case expandItems items [] of None \<Rightarrow> [] | Some lens \<Rightarrow> lens)"

text \<open>The limits of the format: at most 286 codes for literals and lengths, 32 for distances.\<close>

fun blockOk :: "Block \<Rightarrow> bool" where
  "blockOk (StoredBlock xs) = (length xs < 2 ^ 16)"
| "blockOk (FixedBlock ts) = list_all (tokenOk (\<lambda>v. v < 288) (\<lambda>d. d < 30)) ts"
| "blockOk (DynamicBlock hclen cl items hlit ts) =
     (let lens = blockLengths items; llens = take hlit lens; dlens = drop hlit lens in
      4 \<le> hclen \<and> hclen \<le> 19 \<and> length cl = 19 \<and> list_all (\<lambda>l. l < 8) cl
      \<and> list_all (\<lambda>i. cl ! i = 0) (drop hclen ccode_idx) \<and> lensOk cl
      \<and> list_all (itemOk (coded cl)) items \<and> expandItems items [] \<noteq> None
      \<and> 257 \<le> hlit \<and> hlit \<le> 286 \<and> hlit < length lens \<and> length lens \<le> hlit + 32
      \<and> lensOk llens \<and> lensOk dlens \<and> coded llens 256
      \<and> list_all (tokenOk (coded llens) (coded dlens)) ts)"

fun expandBlock :: "Block \<Rightarrow> jbyte list \<Rightarrow> jbyte list option" where
  "expandBlock (StoredBlock xs) out = Some (out @ xs)"
| "expandBlock (FixedBlock ts) out = expand ts out"
| "expandBlock (DynamicBlock hclen cl items hlit ts) out = expand ts out"

text \<open>The bits of a block that begins at bit \<open>pos\<close>; the stored bytes begin at a byte.\<close>

fun blockBits :: "nat \<Rightarrow> Block \<Rightarrow> bool list" where
  "blockBits pos (StoredBlock xs) = bitsOf 2 0 @ replicate (7 - (pos + 2) mod 8) False
     @ bitsOf 16 (length xs) @ bitsOf 16 (2 ^ 16 - 1 - length xs) @ concat (map byteBits xs)"
| "blockBits pos (FixedBlock ts) = bitsOf 2 1 @ concat (map (tokenBits fixedCode (msb 5)) ts) @ fixedCode 256"
| "blockBits pos (DynamicBlock hclen cl items hlit ts) =
     (let lens = blockLengths items; llens = take hlit lens; dlens = drop hlit lens in
      bitsOf 2 2 @ bitsOf 5 (hlit - 257) @ bitsOf 5 (length dlens - 1) @ bitsOf 4 (hclen - 4)
      @ concat (map (\<lambda>i. bitsOf 3 (cl ! i)) (take hclen ccode_idx))
      @ concat (map (itemBits (huffCode cl)) items)
      @ concat (map (tokenBits (huffCode llens) (huffCode dlens)) ts) @ huffCode llens 256)"

section \<open>Decoding the tables of a block\<close>

lemma block_codes_of_tables:
  assumes "lensOk llens" "codeTable llens lt" "lensOk dlens" "codeTable dlens dt"
  shows "block_codes TYPE('f) (Some (lt, dt)) (huffCode llens) (coded llens) (huffCode dlens) (coded dlens)"
proof -
  have "literalEntry (Some (lt, dt)) = (getHuffmanEntry lt (quickBits lt) :: 'f InflaterState \<Rightarrow> _)"
    "distanceEntry (Some (lt, dt)) = (getHuffmanEntry dt (quickBits dt) :: 'f InflaterState \<Rightarrow> _)"
    by (simp_all add: literalEntry_def distanceEntry_def fun_eq_iff)
  then show ?thesis
    using table_symbol_code [OF assms(1,2)] table_symbol_code [OF assms(3,4)] by (simp add: block_codes_def)
qed

lemma onlyReads_tables: "onlyReads s t \<Longrightarrow> tables t = tables s" "onlyReads s t \<Longrightarrow> outLength t = outLength s"
  "onlyReads s t \<Longrightarrow> outIs t out = outIs s out"
  by (simp_all add: onlyReads_def)

lemma tape_tables [simp]: "tape rest tail K (s\<lparr>tables := n\<rparr>) xs = tape rest tail K s xs"
  and outIs_tables [simp]: "outIs (s\<lparr>tables := n\<rparr>) out = outIs s out"
  by (simp_all add: tape_def feeds_def bitsLeft_def readable_def bufferOk_def inBits_def pendingBytes_def outIs_def)

lemma tables_decode:
  assumes "reader get rest" "\<forall>n. mem n" "blockOk (DynamicBlock hclen cl items hlit ts)"
  defines "lens \<equiv> blockLengths items"
  assumes "tape rest tail K s (bitsOf 5 (hlit - 257) @ bitsOf 5 (length (drop hlit lens) - 1) @ bitsOf 4 (hclen - 4)
      @ concat (map (\<lambda>i. bitsOf 3 (cl ! i)) (take hclen ccode_idx)) @ concat (map (itemBits (huffCode cl)) items) @ ys)"
  shows "\<exists>lt dt s'. decodeDynamicHuffmanTables get mem s = Done (0, Some (lt, dt), s')
    \<and> codeTable (take hlit lens) lt \<and> codeTable (drop hlit lens) dt
    \<and> tape rest tail K s' ys \<and> (\<forall>out. outIs s' out = outIs s out) \<and> outLength s' = outLength s \<and> tables s' = tables s + 2"
proof -
  have ok: "4 \<le> hclen" "hclen \<le> 19" "length cl = 19" "list_all (\<lambda>l. l < 8) cl"
    "list_all (\<lambda>i. cl ! i = 0) (drop hclen ccode_idx)" "lensOk cl" "list_all (itemOk (coded cl)) items"
    "257 \<le> hlit" "hlit \<le> 286" "hlit < length lens" "length lens \<le> hlit + 32"
    "lensOk (take hlit lens)" "lensOk (drop hlit lens)"
    using assms(3) by (simp_all add: Let_def lens_def)
  have ex: "expandItems items [] = Some lens" using assms(3) by (auto simp: Let_def lens_def blockLengths_def)
  define s1 where "s1 = needBits get 14 s"
  define s2 where "s2 = dumpBits 5 s1"
  define s3 where "s3 = dumpBits 5 s2"
  define s4 where "s4 = dumpBits 4 s3"
  let ?y5 = "concat (map (itemBits (huffCode cl)) items) @ ys"
  let ?y4 = "concat (map (\<lambda>i. bitsOf 3 (cl ! i)) (take hclen ccode_idx)) @ ?y5"
  have t1: "tape rest tail K s1 (bitsOf 5 (hlit - 257) @ bitsOf 5 (length (drop hlit lens) - 1) @ bitsOf 4 (hclen - 4) @ ?y4)"
    "14 \<le> inDataSize s1"
    using tape_need [OF assms(1,5), of 14] by (simp_all add: s1_def)
  have "5 \<le> inDataSize s1" "hlit - 257 < 2 ^ 5" using t1(2) ok by simp_all
  note n2 = tape_number [OF t1(1) this]
  have d2: "9 \<le> inDataSize s2" using dump_size [OF t1(1), of 5] t1(2) by (simp add: s2_def)
  have "5 \<le> inDataSize s2" "length (drop hlit lens) - 1 < 2 ^ 5" using d2 ok by auto
  note n3 = tape_number [OF n2(2) [folded s2_def] this]
  have d3: "4 \<le> inDataSize s3" using dump_size [OF n2(2) [folded s2_def], of 5] d2 by (simp add: s3_def)
  have "hclen - 4 < 2 ^ 4" using ok by simp
  note n4 = tape_number [OF n3(2) [folded s3_def] d3 this]
  have h: "257 + nextBits 5 s1 = hlit" "1 + nextBits 5 s2 = length lens - hlit" "4 + nextBits 4 s3 = hclen"
    using n2(1) n3(1) n4(1) ok by simp_all
  have r4: "onlyReads s s4" unfolding s4_def s3_def s2_def s1_def
    by (intro onlyReads_trans [OF _ onlyReads_dump]) simp
  define cl' where "cl' i = (if i < 19 then cl ! i else 0)" for i
  have idx: "set (take hclen ccode_idx) \<subseteq> {..<19}"
    by (rule subset_trans [OF set_take_subset]) (auto simp: ccode_idx_def)
  have cl': "\<forall>i. cl' i < 8" using ok(3,4) by (simp add: cl'_def list_all_length)
  have "tape rest tail K s4 (concat (map (\<lambda>i. bitsOf 3 (cl' i)) (take hclen ccode_idx)) @ ?y5)"
  proof -
    have eq: "map (\<lambda>i. bitsOf 3 (cl' i)) (take hclen ccode_idx) = map (\<lambda>i. bitsOf 3 (cl ! i)) (take hclen ccode_idx)"
      using idx by (auto simp: cl'_def)
    show ?thesis using n4(2) unfolding eq s4_def .
  qed
  from lengths_decode [OF assms(1) cl' this, of "replicate 19 0"] obtain s5 where
    s5: "lengthsLoop get (take hclen ccode_idx) (replicate 19 0) s4
        = (Some (foldl (\<lambda>c i. c[i := cl' i]) (replicate 19 0) (take hclen ccode_idx)), s5)"
      "tape rest tail K s5 ?y5" "onlyReads s4 s5" by blast
  have all: "foldl (\<lambda>c i. c[i := cl' i]) (replicate 19 0) (take hclen ccode_idx) = cl"
  proof (rule nth_equalityI)
    fix i assume "i < length (foldl (\<lambda>c i. c[i := cl' i]) (replicate 19 0) (take hclen ccode_idx))"
    then have i: "i < 19" by (simp add: nth_updates)
    have "i \<in> set ccode_idx" using i by (simp add: ccode_idx_def) presburger
    then have "i \<in> set (take hclen ccode_idx) \<or> i \<in> set (drop hclen ccode_idx)"
      by (metis append_take_drop_id set_append UnE)
    then show "foldl (\<lambda>c i. c[i := cl' i]) (replicate 19 0) (take hclen ccode_idx) ! i = cl ! i"
      using ok(5) i by (auto simp: nth_updates cl'_def list_all_iff)
  qed (simp add: nth_updates ok(3))
  obtain cc where cc: "makeCodeTable mem cl MAX_QUICK_CXD s5 = Done (Some cc, s5\<lparr>tables := Suc (tables s5)\<rparr>)" "codeTable cl cc"
    using make_table_decodes [OF ok(6) _ _ _ assms(2), of MAX_QUICK_CXD s5] ok(3)
    by (auto simp: MAX_QUICK_CXD_def tableAt_def HUFFINFO_LONG_MASK_def)
  have l318: "length lens \<le> 318" using ok by simp
  let ?s6 = "s5\<lparr>tables := Suc (tables s5)\<rparr>"
  have "tape rest tail K ?s6 ?y5" using s5(2) by simp
  from items_decode [OF assms(1) table_symbol_code [OF ok(6) cc(2)] ok(7) ex l318 this] obtain s7 where
    s7: "codelenLoop get cc (length lens) 0 (replicate (286 + 32) 0) ?s6 = Done (0, cells lens, s7)"
      "tape rest tail K s7 ys" "onlyReads ?s6 s7"
    by (auto simp: cells_def)
  define s8 where "s8 = freeTable s7"
  have f: "tables s8 = tables s" "outLength s8 = outLength s" "outIs s8 out = outIs s out" "tape rest tail K s8 ys" for out
    using onlyReads_tables [OF s7(3)] onlyReads_tables [OF s5(3)] onlyReads_tables [OF r4] s7(2)
    by (simp_all add: s8_def freeTable_def)
  have lt: "take hlit (cells lens) = take hlit lens" using ok(10) by (simp add: cells_def)
  have dt: "take (length lens - hlit) (drop hlit (cells lens)) = drop hlit lens" using ok(10) by (simp add: cells_def)
  have m9: "2 * tableAt MAX_QUICK_LXL 15 ((length (take hlit lens) + 1) div 2) \<le> HUFFINFO_LONG_MASK"
    using ok(9,10) by (simp add: MAX_QUICK_LXL_def tableAt_def HUFFINFO_LONG_MASK_def)
  have m6: "2 * tableAt MAX_QUICK_CXD 15 ((length (drop hlit lens) + 1) div 2) \<le> HUFFINFO_LONG_MASK"
    using ok(10,11) by (simp add: MAX_QUICK_CXD_def tableAt_def HUFFINFO_LONG_MASK_def)
  have short: "length (take hlit lens) \<le> 1024" "length (drop hlit lens) \<le> 1024" "MAX_QUICK_LXL \<le> 14" "MAX_QUICK_CXD \<le> 14"
    using ok(9-11) by (simp_all add: MAX_QUICK_LXL_def MAX_QUICK_CXD_def)
  obtain lc where lc: "makeCodeTable mem (take hlit lens) MAX_QUICK_LXL s8 = Done (Some lc, s8\<lparr>tables := Suc (tables s8)\<rparr>)"
    "codeTable (take hlit lens) lc"
    using make_table_decodes [OF ok(12) short(1,3) m9 assms(2), of s8] by blast
  let ?s9 = "s8\<lparr>tables := Suc (tables s8)\<rparr>"
  obtain dc where dc: "makeCodeTable mem (drop hlit lens) MAX_QUICK_CXD ?s9 = Done (Some dc, ?s9\<lparr>tables := Suc (tables ?s9)\<rparr>)"
    "codeTable (drop hlit lens) dc"
    using make_table_decodes [OF ok(13) short(2,4) m6 assms(2), of ?s9] by blast
  have hh: "hlit + (length lens - hlit) = length lens" using ok(10) by simp
  have "\<not> length lens > length (cells lens)" using l318 by (simp add: cells_def)
  then have "makeTables mem hlit (length lens - hlit) (cells lens) s8 = Done (0, Some (lc, dc), s8\<lparr>tables := tables s8 + 2\<rparr>)"
    unfolding makeTables_def lt dt lc(1) andThen.simps prod.case option.case hh dc(1) by simp
  then have "decodeDynamicHuffmanTables get mem s = Done (0, Some (lc, dc), s8\<lparr>tables := tables s8 + 2\<rparr>)"
    unfolding decodeDynamicHuffmanTables_def Let_def s1_def [symmetric] s2_def [symmetric] s3_def [symmetric] s4_def [symmetric]
      h s5(1) prod.case option.case all cc(1) andThen.simps hh s7(1) s8_def [symmetric] by simp
  with lc(2) dc(2) f show ?thesis by auto
qed

section \<open>Streams\<close>

fun streamBits :: "nat \<Rightarrow> Block list \<Rightarrow> bool list" where
  "streamBits pos [] = []"
| "streamBits pos (b # bs) = (bs = []) # blockBits pos b @ streamBits (pos + 1 + length (blockBits pos b)) bs"

fun expandBlocks :: "Block list \<Rightarrow> jbyte list \<Rightarrow> jbyte list option" where
  "expandBlocks [] out = Some out"
| "expandBlocks (b # bs) out = Option.bind (expandBlock b out) (expandBlocks bs)"

text \<open>Bits in bytes, the first bit lowest, the final byte filled with zeros.\<close>

function bytesOf :: "bool list \<Rightarrow> jbyte list" where
  "bytesOf xs = (if xs = [] then [] else of_nat (bitsVal (take 8 xs)) # bytesOf (drop 8 xs))"
  by pat_completeness auto
termination
  by (relation "measure length") auto

declare bytesOf.simps [simp del]

definition deflate :: "Block list \<Rightarrow> jbyte list" where
  "deflate bs = bytesOf (streamBits 0 bs)"

lemma byteBits_of: "length xs \<le> 8 \<Longrightarrow> byteBits (of_nat (bitsVal xs)) = xs @ replicate (8 - length xs) False"
  by (intro nth_equalityI) (auto simp: byteBits_def bit_of_nat_iff bit_bitsVal nth_append possible_bit_word)

lemma bytesOf_bits: "\<exists>p < 8. concat (map byteBits (bytesOf xs)) = xs @ replicate p False"
proof (induction xs rule: bytesOf.induct)
  case (1 xs)
  show ?case
  proof (cases "xs = []")
    case False
    then obtain p where p: "p < 8" "concat (map byteBits (bytesOf (drop 8 xs))) = drop 8 xs @ replicate p False"
      using 1 by blast
    have b: "concat (map byteBits (bytesOf xs))
        = (take 8 xs @ replicate (8 - length xs) False) @ concat (map byteBits (bytesOf (drop 8 xs)))"
      using False byteBits_of [of "take 8 xs"] by (simp add: bytesOf.simps [of xs] min_def)
    show ?thesis
    proof (cases "length xs < 8")
      case True
      then have "bytesOf (drop 8 xs) = []" by (simp add: bytesOf.simps)
      with b True False show ?thesis by (intro exI [of _ "8 - length xs"]) simp
    next
      case long: False
      with b p show ?thesis by (intro exI [of _ p]) (simp flip: append_assoc)
    qed
  qed (simp add: bytesOf.simps)
qed

lemma expand_block_length: "expandBlock b out = Some out' \<Longrightarrow> length out \<le> length out'"
  by (cases b) (auto dest: expand_length)

lemma expand_blocks_length: "expandBlocks bs out = Some out' \<Longrightarrow> length out \<le> length out'"
proof (induction bs out rule: expandBlocks.induct)
  case (2 b bs out)
  then obtain o1 where "expandBlock b out = Some o1" "expandBlocks bs o1 = Some out'" by (auto simp: bind_eq_Some_conv)
  with "2.IH" expand_block_length show ?case by fastforce
qed simp

text \<open>Every token and every block takes a bit at least.\<close>

fun blockTokens :: "Block \<Rightarrow> Token list" where
  "blockTokens (StoredBlock xs) = []"
| "blockTokens (FixedBlock ts) = ts"
| "blockTokens (DynamicBlock hclen cl items hlit ts) = ts"

lemma tokens_bits:
  "list_all (tokenOk lit dst) ts \<Longrightarrow> (\<And>v. lit v \<Longrightarrow> 0 < length (lc v)) \<Longrightarrow> length ts \<le> length (concat (map (tokenBits lc dc) ts))"
proof (induction ts)
  case (Cons t ts)
  have "0 < length (tokenBits lc dc t)" using Cons.prems by (cases t) fastforce+
  moreover have "length ts \<le> length (concat (map (tokenBits lc dc) ts))" using Cons by simp
  ultimately show ?case unfolding list.map concat.simps length_append list.size by linarith
qed simp

lemma block_tokens: "blockOk b \<Longrightarrow> length (blockTokens b) < length (blockBits pos b)"
proof (cases b)
  case (FixedBlock ts)
  assume "blockOk b"
  then have "length ts \<le> length (concat (map (tokenBits fixedCode (msb 5)) ts))"
    unfolding FixedBlock by (intro tokens_bits [where lit = "\<lambda>v. v < 288" and dst = "\<lambda>d. d < 30"]) (auto simp: fixedCode_def)
  then show ?thesis by (simp add: FixedBlock)
next
  case (DynamicBlock hclen cl items hlit ts)
  assume "blockOk b"
  then have "length ts \<le> length (concat (map (tokenBits (huffCode (take hlit (blockLengths items))) (huffCode (drop hlit (blockLengths items)))) ts))"
    unfolding DynamicBlock
    by (intro tokens_bits [where lit = "coded (take hlit (blockLengths items))" and dst = "coded (drop hlit (blockLengths items))"]) (auto simp: Let_def huffCode_def coded_def)
  then show ?thesis by (simp add: DynamicBlock Let_def)
qed simp

section \<open>Decoding blocks\<close>

lemma pad_mod: "7 - (pos + 2) mod 8 = (8 - (pos + 3) mod 8) mod (8 :: nat)"
proof -
  have "pos + 3 = Suc (pos + 2)" by simp
  then have p: "(pos + 3) mod 8 = (if Suc ((pos + 2) mod 8) = 8 then 0 else Suc ((pos + 2) mod 8))" by (simp only: mod_Suc)
  have q: "7 - r = (8 - (if Suc r = 8 then 0 else Suc r)) mod 8" if "r < 8" for r :: nat
    using that by (cases "r = 7") (simp_all add: mod_less)
  have l: "(pos + 2) mod 8 < 8" by (rule mod_less_divisor) simp
  show ?thesis unfolding p by (rule q [OF l])
qed

lemma tape_align:
  assumes "tape rest tail K s xs" "(int pos + int (length xs) + K) mod 8 = 0"
  shows "inDataSize s mod 8 = (8 - pos mod 8) mod 8"
proof -
  have "8 * inRemaining s + int (inDataSize s) = int (length xs) + K" using assms(1) by (simp add: tape_def bitsLeft_def)
  then have "int pos + int (length xs) + K = int (pos + inDataSize s) + 8 * inRemaining s" by simp
  with assms(2) have "int (pos + inDataSize s) mod 8 = 0" by simp
  then have "int ((pos + inDataSize s) mod 8) = int 0" unfolding of_nat_mod of_nat_numeral by simp
  then have "(pos + inDataSize s) mod 8 = 0" unfolding of_nat_eq_iff .
  then have m: "(pos mod 8 + inDataSize s mod 8) mod 8 = 0" by (simp add: mod_add_eq)
  have "p = (8 - q) mod 8" if "(q + p) mod 8 = 0" "p < 8" "q < 8" for p q :: nat
  proof (cases "q + p < 8")
    case False
    then have "8 \<le> q + p" "q + p - 8 < 8" using that(2,3) by linarith+
    then have "(q + p) mod 8 = q + p - 8" using le_mod_geq [of 8 "q + p"] mod_less [of "q + p - 8" 8] by (simp only:)
    then have "q + p = 8" using that(1) \<open>8 \<le> q + p\<close> by linarith
    then have "p = 8 - q" "8 - q < 8" using that(2) by linarith+
    then show ?thesis by (simp only: mod_less)
  qed (use that in auto)
  from this [OF m] show ?thesis by simp
qed

definition decoded :: "('f \<Rightarrow> jbyte list option) \<Rightarrow> bool list \<Rightarrow> int \<Rightarrow> bool list \<Rightarrow> jbyte list \<Rightarrow> 'f InflaterState \<Rightarrow> (int \<times> 'f InflaterState) run \<Rightarrow> bool" where
  "decoded rest tail K ys out s r \<longleftrightarrow> (\<exists>s'. r = Done (0, s') \<and> tape rest tail K s' ys \<and> outIs s' out
     \<and> outLength s' = outLength s \<and> tables s' = tables s)"

lemma block_decodes:
  assumes "reader (get :: 'f get) rest" "\<forall>n. mem n" "blockOk b" "expandBlock b out = Some out'" "outIs s out"
    "length out' \<le> outLength s" "length (blockTokens b) < fuel"
    "tape rest tail K s (final # blockBits pos b @ ys)"
    "(int pos + int (length (final # blockBits pos b @ ys)) + K) mod 8 = 0"
  defines "s1 \<equiv> needBits get 3 s"
  defines "type \<equiv> nextBits 3 s1" and "s2 \<equiv> dumpBits 3 s1"
  shows "odd type = final"
    "decoded rest tail K ys out' s
       (if type div 2 = 0 then inflateStored get s2
         else if type div 2 = 1 then inflateHuffman fuel get mem True s2
         else if type div 2 = 2 then inflateHuffman fuel get mem False s2
         else Done (INFLATE_INVALID_BTYPE, s2))"
proof -
  have s1: "tape rest tail K s1 (final # blockBits pos b @ ys)" "3 \<le> inDataSize s1"
    using tape_need [OF assms(1,8), of 3] by (simp_all add: s1_def)
  have o2: "outIs s2 out" "outLength s2 = outLength s" "tables s2 = tables s" using assms(5) by (simp_all add: s2_def s1_def)
  have three: "type = of_bool final + 2 * v \<and> tape rest tail K s2 zs" if "blockBits pos b @ ys = bitsOf 2 v @ zs" "v < 4" for v zs
  proof -
    have h: "(of_bool final + 2 * v) div 2 = v" "odd (of_bool final + 2 * v) = final" by (cases final; simp)+
    have "final # bitsOf 2 v = bitsOf 3 (of_bool final + 2 * v)"
    proof (rule nth_equalityI)
      fix i assume "i < length (final # bitsOf 2 v)"
      then show "(final # bitsOf 2 v) ! i = bitsOf 3 (of_bool final + 2 * v) ! i"
        using h by (cases i) (auto simp: bitsOf_def bit_Suc bit_0)
    qed simp
    then have "tape rest tail K s1 (bitsOf 3 (of_bool final + 2 * v) @ zs)" using s1(1) that(1) by (metis append_Cons)
    moreover have "of_bool final + 2 * v < 2 ^ 3" using that(2) by (cases final) auto
    ultimately show ?thesis using tape_number s1(2) unfolding type_def s2_def by blast
  qed
  have odd: "odd type = final \<and> type div 2 = v" if "type = of_bool final + 2 * v" for v
    unfolding that by (cases final) auto
  have "odd type = final \<and> decoded rest tail K ys out' s
       (if type div 2 = 0 then inflateStored get s2
         else if type div 2 = 1 then inflateHuffman fuel get mem True s2
         else if type div 2 = 2 then inflateHuffman fuel get mem False s2
         else Done (INFLATE_INVALID_BTYPE, s2))"
  proof (cases b)
    case (StoredBlock xs)
    let ?pad = "replicate (7 - (pos + 2) mod 8) False"
    let ?zs = "?pad @ bitsOf 16 (length xs) @ bitsOf 16 (2 ^ 16 - 1 - length xs) @ concat (map byteBits xs) @ ys"
    have t: "type = of_bool final + 2 * 0" "tape rest tail K s2 ?zs"
      using three [of 0 ?zs] unfolding StoredBlock by simp_all
    have x: "length xs < 2 ^ 16" "out' = out @ xs" using assms(3,4) StoredBlock by simp_all
    have "length (final # blockBits pos b @ ys) = 3 + length ?zs" by (simp add: StoredBlock)
    then have "int (pos + 3) + int (length ?zs) + K = int pos + int (length (final # blockBits pos b @ ys)) + K" by linarith
    with assms(9) have "(int (pos + 3) + int (length ?zs) + K) mod 8 = 0" by (simp only:)
    from tape_align [OF t(2) this] have a: "length ?pad = inDataSize s2 mod 8" unfolding length_replicate pad_mod by simp
    have l: "length out + length xs \<le> outLength s2" using assms(6) x(2) o2(2) by simp
    have "decoded rest tail K ys out' s (inflateStored get s2)"
      using stored_decodes [OF assms(1) x(1) o2(1) l a t(2)] x(2) o2(2,3) by (simp add: decoded_def)
    with odd [OF t(1)] show ?thesis by simp
  next
    case (FixedBlock ts)
    let ?zs = "concat (map (tokenBits fixedCode (msb 5)) ts) @ fixedCode 256 @ ys"
    have t: "type = of_bool final + 2 * 1" "tape rest tail K s2 ?zs"
      using three [of 1 ?zs] unfolding FixedBlock by simp_all
    have "list_all (tokenOk (\<lambda>v. v < 288) (\<lambda>d. d < 30)) ts" "expand ts out = Some out'" "length ts < fuel"
      using assms(3,4,7) FixedBlock by simp_all
    from fixed.tokens_decode [OF assms(1) _ this(1,2) o2(1) _ this(3) t(2)]
    have "decoded rest tail K ys out' s (inflateHuffman fuel get mem True s2)"
      using assms(6) o2(2,3) by (simp add: decoded_def inflateHuffman_def)
    with odd [OF t(1)] show ?thesis by simp
  next
    case (DynamicBlock hclen cl items hlit ts)
    let ?lens = "blockLengths items"
    let ?llens = "take hlit ?lens" and ?dlens = "drop hlit ?lens"
    let ?ts = "concat (map (tokenBits (huffCode ?llens) (huffCode ?dlens)) ts) @ huffCode ?llens 256 @ ys"
    let ?zs = "bitsOf 5 (hlit - 257) @ bitsOf 5 (length ?dlens - 1) @ bitsOf 4 (hclen - 4)
      @ concat (map (\<lambda>i. bitsOf 3 (cl ! i)) (take hclen ccode_idx)) @ concat (map (itemBits (huffCode cl)) items) @ ?ts"
    have t: "type = of_bool final + 2 * 2" "tape rest tail K s2 ?zs"
      using three [of 2 ?zs] unfolding DynamicBlock by (simp_all add: Let_def)
    have ok: "lensOk ?llens" "lensOk ?dlens" "coded ?llens 256" "list_all (tokenOk (coded ?llens) (coded ?dlens)) ts"
      using assms(3) DynamicBlock by (simp_all add: Let_def)
    have ex: "expand ts out = Some out'" "length ts < fuel" using assms(4,7) DynamicBlock by simp_all
    obtain lt dt s3 where s3: "decodeDynamicHuffmanTables get mem s2 = Done (0, Some (lt, dt), s3)"
      "codeTable ?llens lt" "codeTable ?dlens dt" "tape rest tail K s3 ?ts" "\<forall>out. outIs s3 out = outIs s2 out"
      "outLength s3 = outLength s2" "tables s3 = tables s2 + 2"
      using tables_decode [OF assms(1,2) assms(3) [unfolded DynamicBlock] t(2)] by blast
    have "outIs s3 out" "length out' \<le> outLength s3" using s3(5,6) o2 assms(6) by simp_all
    from block_codes.tokens_decode [OF block_codes_of_tables [OF ok(1) s3(2) ok(2) s3(3)] assms(1) ok(3,4) ex(1) this ex(2) s3(4)]
    obtain s4 where s4: "huffmanLoop fuel get (Some (lt, dt)) s3 = Done (0, s4)" "tape rest tail K s4 ys" "outIs s4 out'"
      "outLength s4 = outLength s3" "tables s4 = tables s3" by blast
    have "inflateHuffman fuel get mem False s2 = Done (0, freeTable (freeTable s4))"
      by (simp add: inflateHuffman_def s3(1) s4(1))
    then have "decoded rest tail K ys out' s (inflateHuffman fuel get mem False s2)"
      using s4(2-5) s3(6,7) o2(2,3) by (simp add: decoded_def freeTable_def)
    with odd [OF t(1)] show ?thesis by simp
  qed
  then show "odd type = final" "decoded rest tail K ys out' s
       (if type div 2 = 0 then inflateStored get s2
         else if type div 2 = 1 then inflateHuffman fuel get mem True s2
         else if type div 2 = 2 then inflateHuffman fuel get mem False s2
         else Done (INFLATE_INVALID_BTYPE, s2))" by blast+
qed

lemma blocks_decode:
  assumes "reader get rest" "\<forall>n. mem n" "32 \<le> K" "K < 40"
  shows "bs \<noteq> [] \<Longrightarrow> list_all blockOk bs \<Longrightarrow> expandBlocks bs out = Some out' \<Longrightarrow> outIs s out \<Longrightarrow> length out' = outLength s
    \<Longrightarrow> tape rest tail K s (streamBits pos bs) \<Longrightarrow> (int pos + int (length (streamBits pos bs)) + K) mod 8 = 0
    \<Longrightarrow> length (streamBits pos bs) \<le> fuel \<Longrightarrow> length bs \<le> n
    \<Longrightarrow> \<exists>s'. blockLoop n fuel get mem s = Done (0, s') \<and> readable rest s' \<and> outIs s' out' \<and> outLength s' = outLength s \<and> tables s' = tables s"
proof (induction bs arbitrary: out s pos n)
  case (Cons b bs)
  obtain k where k: "n = Suc k" "length bs \<le> k" using Cons.prems(9) by (cases n) auto
  obtain o1 where o1: "expandBlock b out = Some o1" "expandBlocks bs o1 = Some out'"
    using Cons.prems(3) by (auto simp: bind_eq_Some_conv)
  have ok: "blockOk b" "list_all blockOk bs" using Cons.prems(2) by simp_all
  let ?pos = "pos + 1 + length (blockBits pos b)"
  have sb: "streamBits pos (b # bs) = (bs = []) # blockBits pos b @ streamBits ?pos bs" by simp
  have o: "length o1 \<le> outLength s" using expand_blocks_length [OF o1(2)] Cons.prems(5) by simp
  have fu: "length (blockTokens b) < fuel" using block_tokens [OF ok(1), of pos] Cons.prems(8) by simp
  define s1 where "s1 = needBits get 3 s"
  define s2 where "s2 = dumpBits 3 s1"
  define type where "type = nextBits 3 s1"
  note d = block_decodes [OF assms(1,2) ok(1) o1(1) Cons.prems(4) o fu Cons.prems(6) [unfolded sb] Cons.prems(7) [unfolded sb],
      folded s1_def, folded s2_def type_def]
  from d(2) obtain s3 where s3: "(if type div 2 = 0 then inflateStored get s2
         else if type div 2 = 1 then inflateHuffman fuel get mem True s2
         else if type div 2 = 2 then inflateHuffman fuel get mem False s2
         else Done (INFLATE_INVALID_BTYPE, s2)) = Done (0, s3)"
    "tape rest tail K s3 (streamBits ?pos bs)" "outIs s3 o1" "outLength s3 = outLength s" "tables s3 = tables s"
    by (auto simp: decoded_def)
  have loop: "blockLoop n fuel get mem s =
      (if bs = [] then
         if inRemaining s3 + int (inDataSize s3 div 8) \<noteq> INFLATER_EXTRA_BYTES then Done (INFLATE_INPUT_BIT_ERROR, s3)
         else if outOffset s3 \<noteq> outLength s3 then Done (INFLATE_OUTPUT_BIT_ERROR, s3)
         else Done (0, s3)
       else blockLoop k fuel get mem s3)"
    unfolding k(1) blockLoop.simps Let_def s1_def [symmetric] s2_def [symmetric] type_def [symmetric] s3(1) andThen.simps
      prod.case d(1) by simp
  show ?case
  proof (cases "bs = []")
    case True
    then have out: "out' = o1" using o1(2) by simp
    have "8 * inRemaining s3 + int (inDataSize s3) = K" using s3(2) True by (simp add: tape_def bitsLeft_def)
    then have "inRemaining s3 + int (inDataSize s3 div 8) = 4" using assms(3,4) by (simp add: zdiv_int)
    moreover have "outOffset s3 = outLength s3" using s3(3,4) Cons.prems(5) out by (simp add: outIs_def)
    moreover have "readable rest s3" using s3(2) by (simp add: tape_def feeds_def)
    ultimately show ?thesis using loop True s3(3-5) out by (simp add: INFLATER_EXTRA_BYTES_def)
  next
    case False
    have l: "int pos + int (length (streamBits pos (b # bs))) = int ?pos + int (length (streamBits ?pos bs))" by simp
    have "(int ?pos + int (length (streamBits ?pos bs)) + K) mod 8 = 0" using Cons.prems(7) unfolding l .
    from Cons.IH [OF False ok(2) o1(2) s3(3) _ s3(2) this _ k(2)] show ?thesis
      using loop False Cons.prems(5,8) s3(4,5) by simp
  qed
qed simp

lemma stream_blocks: "length bs \<le> length (streamBits pos bs)"
  by (induction bs arbitrary: pos) (auto intro: le_trans [OF _ le_add2])

lemma deflate_length: "8 * length (deflate bs) < length (streamBits 0 bs) + 8"
proof -
  obtain p where "p < 8" "concat (map byteBits (deflate bs)) = streamBits 0 bs @ replicate p False"
    using bytesOf_bits unfolding deflate_def by blast
  then show ?thesis by (metis length_append length_bytes_bits length_replicate nat_add_left_cancel_less)
qed

lemma inflate_deflated:
  assumes "reader get rest" "rest f = Some (deflate blocks @ others)" "\<forall>n. mem n"
    "blocks \<noteq> []" "list_all blockOk blocks" "expandBlocks blocks [] = Some out"
    "length out < 2 ^ 31" "length out \<le> length buf" "8 * length (deflate blocks) + 34 \<le> fuel"
  shows "\<exists>s. inflateData fuel get mem f old (int (length (deflate blocks))) buf (int (length out)) = Done (0, s)
    \<and> take (length out) (outBuffer s) = out \<and> tables s = 0 \<and> length (outBuffer s) = length buf \<and> rest (fileState s) \<noteq> None"
proof -
  define s where "s = \<lparr>fileState = f, inRemaining = int (length (deflate blocks)) + INFLATER_EXTRA_BYTES, inDataSize = 0, inData = 0,
        outBuffer = buf, outOffset = 0, outLength = length out,
        inflateBufferIndex = 0, inflateBufferCount = 0, inflateBuffer = old, tables = 0\<rparr>"
  obtain p where p: "p < 8" "concat (map byteBits (deflate blocks)) = streamBits 0 blocks @ replicate p False"
    using bytesOf_bits unfolding deflate_def by blast
  then have len: "8 * length (deflate blocks) = length (streamBits 0 blocks) + p"
    by (metis length_append length_bytes_bits length_replicate)
  let ?tail = "replicate p False @ concat (map byteBits others)" and ?K = "32 + int p"
  have "inBits rest s = (streamBits 0 blocks @ ?tail) @ replicate (8 * 0) True"
    using assms(2) p(2) by (simp add: inBits_def pendingBytes_def s_def)
  then have "feeds rest s (streamBits 0 blocks @ ?tail)"
    unfolding feeds_def by (intro conjI exI [of _ 0]) (simp_all add: s_def readable_def bufferOk_def assms(2))
  moreover have "bitsLeft s = int (length (streamBits 0 blocks)) + ?K"
    using len by (simp add: bitsLeft_def s_def INFLATER_EXTRA_BYTES_def)
  ultimately have t: "tape rest ?tail ?K s (streamBits 0 blocks)" by (simp add: tape_def)
  have e: "int 0 + int (length (streamBits 0 blocks)) + ?K = 8 * (int (length (deflate blocks)) + 4)" using len by simp
  have a: "(int 0 + int (length (streamBits 0 blocks)) + ?K) mod 8 = 0" unfolding e by (rule mod_mult_self1_is_0)
  have o: "outIs s []" "length out = outLength s" using assms(7,8) by (simp_all add: outIs_def s_def)
  have K: "32 \<le> ?K" "?K < 40" using p(1) by simp_all
  have fuel: "length (streamBits 0 blocks) \<le> fuel" "length blocks \<le> fuel"
    using len stream_blocks [of blocks 0] assms(9) by linarith+
  obtain s' where s': "blockLoop fuel fuel get mem s = Done (0, s')" "readable rest s'" "outIs s' out" "tables s' = 0"
    using blocks_decode [OF assms(1,3) K assms(4-6) o t a fuel] by (auto simp: s_def)
  have "nat (int (length out) mod 2 ^ 32) = length out" using assms(7) by simp
  then have "inflateData fuel get mem f old (int (length (deflate blocks))) buf (int (length out)) = Done (0, s')"
    unfolding inflateData_def using s'(1) by (simp add: s_def)
  moreover from this have "length (outBuffer s') = length buf"
    using inflate_ends [where decompLen = "int (length out)" and buf = buf and fuel = fuel
        and compLen = "int (length (deflate blocks))" and get = get and mem = mem and f = f and old = old] assms(7-9)
    by (simp add: ends_def)
  ultimately show ?thesis using s'(2-4) by (auto simp: outIs_def readable_def)
qed

section \<open>Properties\<close>

text \<open>
  C34. The inflater decodes what the format encodes: a stream of any stored blocks, blocks with the
  fixed codes and blocks with codes of their own (every set of code lengths of at most 15 bits that
  is not oversubscribed, for at most 286 literals and 32 distances), whatever bytes follow it, gives
  the bytes its tokens expand to, and all code tables are freed. The result is 0, success in the code,
  where the comments on \<^verbatim>\<open>inflateData\<close> document \<^verbatim>\<open>TRUE\<close>.
\<close>

theorem inflate_inverts_deflate:
  assumes "reader get rest" "rest f = Some (deflate blocks @ others)" "\<forall>n. mem n"
    "blocks \<noteq> []" "list_all blockOk blocks" "expandBlocks blocks [] = Some out"
    "length out < 2 ^ 31" "length out \<le> length buf" "8 * length (deflate blocks) + 34 \<le> fuel"
  shows "\<exists>s. inflateData fuel get mem f old (int (length (deflate blocks))) buf (int (length out)) = Done (0, s)
    \<and> take (length out) (outBuffer s) = out \<and> tables s = 0"
  using inflate_deflated [OF assms] by blast

lemma inflate_inverts_deflate_witness:
  "\<exists>s. inflateData 2000 (\<lambda>f. (take 256 f, drop 256 f)) (\<lambda>_. True)
      (deflate [DynamicBlock 18 [0, 1, 0, 0, 0, 0, 0, 0, 0, 0, 0, 0, 0, 0, 0, 0, 0, 0, 1]
         [Zeros 65, LengthIs 1, Zeros 138, Zeros 52, LengthIs 1, LengthIs 1] 257 [Literal 65, Literal 65],
       StoredBlock [7], FixedBlock [Literal 65, Match 0 0 0 0]] @ [1, 2]) []
      (int (length (deflate [DynamicBlock 18 [0, 1, 0, 0, 0, 0, 0, 0, 0, 0, 0, 0, 0, 0, 0, 0, 0, 0, 1]
         [Zeros 65, LengthIs 1, Zeros 138, Zeros 52, LengthIs 1, LengthIs 1] 257 [Literal 65, Literal 65],
       StoredBlock [7], FixedBlock [Literal 65, Match 0 0 0 0]]))) (replicate 9 0) 7 = Done (0, s)
    \<and> take 7 (outBuffer s) = [65, 65, 7, 65, 65, 65, 65]"
  (is "\<exists>s. inflateData 2000 _ _ (deflate ?blocks @ _) _ _ _ _ = _ \<and> _")
proof -
  have "reader (\<lambda>f. (take 256 f, drop 256 f)) (\<lambda>f. Some f)" by (auto simp: reader_def)
  moreover have "Some (deflate ?blocks @ [1, 2]) = Some (deflate ?blocks @ [1, 2])" ..
  moreover have "\<forall>n :: int. True" by simp
  moreover have "?blocks \<noteq> []" by simp
  moreover have "list_all blockOk ?blocks"
    by (simp add: blockLengths_def Let_def ccode_idx_def lensOk_def coded_def nextCode_numeral list_all_iff nth_append)
  moreover have "expandBlocks ?blocks [] = Some [65, 65, 7, 65, 65, 65, 65]"
    by (simp add: ll_length_base_def dist_base_def numeral_3_eq_3)
  moreover have "length [65, 65, 7, 65, 65, 65, 65 :: jbyte] < 2 ^ 31" by simp
  moreover have "length [65, 65, 7, 65, 65, 65, 65 :: jbyte] \<le> length (replicate 9 0 :: jbyte list)" by simp
  moreover have "length (streamBits 0 ?blocks) \<le> 1900"
    by (simp add: blockLengths_def Let_def ccode_idx_def fixedCode_def huffCode_def nth_append ll_extra_bits_def dist_extra_bits_def)
  then have "8 * length (deflate ?blocks) + 34 \<le> 2000" using deflate_length [of ?blocks] by linarith
  ultimately have "\<exists>s. inflateData 2000 (\<lambda>f. (take 256 f, drop 256 f)) (\<lambda>_. True) (deflate ?blocks @ [1, 2]) []
      (int (length (deflate ?blocks))) (replicate 9 0) (int (length [65, 65, 7, 65, 65, 65, 65 :: jbyte])) = Done (0, s)
    \<and> take (length [65, 65, 7, 65, 65, 65, 65 :: jbyte]) (outBuffer s) = [65, 65, 7, 65, 65, 65, 65] \<and> tables s = 0"
    by (rule inflate_inverts_deflate)
  moreover have "length [65, 65, 7, 65, 65, 65, 65 :: jbyte] = 7" by simp
  ultimately show ?thesis by (simp only: of_nat_numeral) blast
qed

end
