(* ===== verification/Jar.thy ===== *)
theory Jar
  imports InflateStream Storage PcslString
begin

text \<open>
  The JAR reader: \<^verbatim>\<open>midp/src/core/jarutil/reference/native/jar.c\<close>, which reads the ZIP format through
  a file object, and \<^verbatim>\<open>midpJar.c\<close> beside it, which gives it files of the storage layer and looks up
  entries by name. Offsets are \<^verbatim>\<open>unsigned long\<close>, words of 32 bits.
\<close>

section \<open>File objects\<close>

text \<open>
  The member functions over the state of the file; reading gives the bytes stored, whose number is
  the count returned (none also for a negative one).
\<close>

record 'f FileObj =
  objSize :: "'f \<Rightarrow> int \<times> 'f"
  objRead :: "'f \<Rightarrow> nat \<Rightarrow> jbyte list \<times> 'f"
  objSeek :: "'f \<Rightarrow> int \<Rightarrow> whence \<Rightarrow> int \<times> 'f"
  objReadChar :: "'f \<Rightarrow> int \<times> 'f"

record JarInfo =
  jarStatus :: int
  locOffset :: "32 word"
  cenOffset :: "32 word"

record JarEntryInfo =
  entryStatus :: int
  decompLen :: "32 word"
  compLen :: "32 word"
  compMethod :: "32 word"
  expectedCRC :: "32 word"
  encrypted :: bool
  entryOffset :: "32 word"
  nameLen :: "32 word"
  nameOffset :: "32 word"
  nextCenEntryOffset :: "32 word"

definition JAR_CORRUPT :: int where "JAR_CORRUPT = 101"
definition JAR_ENTRY_NOT_FOUND :: int where "JAR_ENTRY_NOT_FOUND = 102"
definition JAR_ENCRYPTION_NOT_SUPPORTED :: int where "JAR_ENCRYPTION_NOT_SUPPORTED = 103"
definition JAR_EARLY_END_OF_INPUT :: int where "JAR_EARLY_END_OF_INPUT = 104"
definition JAR_ENTRY_SIZE_MISMATCH :: int where "JAR_ENTRY_SIZE_MISMATCH = 105"
definition JAR_UNKNOWN_COMP_METHOD :: int where "JAR_UNKNOWN_COMP_METHOD = 106"
definition JAR_ENTRY_CORRUPT :: int where "JAR_ENTRY_CORRUPT = 107"

section \<open>Headers\<close>

definition CENSIG :: "32 word" where "CENSIG = 0x02014B50"
definition STORED :: "32 word" where "STORED = 0"
definition DEFLATED :: "32 word" where "DEFLATED = 8"
definition LOCHDRSIZ :: nat where "LOCHDRSIZ = 30"
definition CENHDRSIZ :: nat where "CENHDRSIZ = 46"
definition ENDHDRSIZ :: nat where "ENDHDRSIZ = 22"

text \<open>Numbers of one, two and four bytes, the lowest byte first.\<close>

definition CH :: "jbyte list \<Rightarrow> nat \<Rightarrow> nat" where
  "CH b n = unat (b ! n)"

definition SH :: "jbyte list \<Rightarrow> nat \<Rightarrow> nat" where
  "SH b n = CH b n + 2 ^ 8 * CH b (n + 1)"

definition LG :: "jbyte list \<Rightarrow> nat \<Rightarrow> 32 word" where
  "LG b n = of_nat (SH b n + 2 ^ 16 * SH b (n + 2))"

definition LOCNAM :: "jbyte list \<Rightarrow> nat" where "LOCNAM b = SH b 26"
definition LOCEXT :: "jbyte list \<Rightarrow> nat" where "LOCEXT b = SH b 28"
definition CENFLG :: "jbyte list \<Rightarrow> nat" where "CENFLG b = SH b 8"
definition CENHOW :: "jbyte list \<Rightarrow> nat" where "CENHOW b = SH b 10"
definition CENCRC :: "jbyte list \<Rightarrow> 32 word" where "CENCRC b = LG b 16"
definition CENSIZ :: "jbyte list \<Rightarrow> 32 word" where "CENSIZ b = LG b 20"
definition CENLEN :: "jbyte list \<Rightarrow> 32 word" where "CENLEN b = LG b 24"
definition CENNAM :: "jbyte list \<Rightarrow> nat" where "CENNAM b = SH b 28"
definition CENEXT :: "jbyte list \<Rightarrow> nat" where "CENEXT b = SH b 30"
definition CENCOM :: "jbyte list \<Rightarrow> nat" where "CENCOM b = SH b 32"
definition CENOFF :: "jbyte list \<Rightarrow> 32 word" where "CENOFF b = LG b 42"
definition ENDSIZ :: "jbyte list \<Rightarrow> 32 word" where "ENDSIZ b = LG b 12"
definition ENDOFF :: "jbyte list \<Rightarrow> 32 word" where "ENDOFF b = LG b 16"
definition ENDCOM :: "jbyte list \<Rightarrow> nat" where "ENDCOM b = SH b 20"

section \<open>Checksum\<close>

fun crcBits :: "nat \<Rightarrow> 32 word \<Rightarrow> 32 word" where
  "crcBits 0 crc = crc"
| "crcBits (Suc j) crc =
     crcBits j (if crc AND 1 \<noteq> 0 then drop_bit 1 crc XOR 0xEDB88320 else drop_bit 1 crc)"

fun crcLoop :: "jbyte list \<Rightarrow> 32 word \<Rightarrow> 32 word" where
  "crcLoop [] crc = crc"
| "crcLoop (b # bs) crc = crcLoop bs (crcBits 8 (crc XOR ucast b))"

definition jarCRC32 :: "jbyte list \<Rightarrow> 32 word" where
  "jarCRC32 bs = NOT (crcLoop bs 0xFFFFFFFF)"

section \<open>The central directory\<close>

definition noEntry :: "int \<Rightarrow> JarEntryInfo" where
  "noEntry status = \<lparr>entryStatus = status, decompLen = 0, compLen = 0, compMethod = 0, expectedCRC = 0,
     encrypted = False, entryOffset = 0, nameLen = 0, nameOffset = 0, nextCenEntryOffset = 0\<rparr>"

definition readJarEntryInfo :: "'f FileObj \<Rightarrow> JarInfo \<Rightarrow> 32 word \<Rightarrow> 'f \<Rightarrow> JarEntryInfo \<times> 'f" where
  "readJarEntryInfo fileObj info offset f =
     (let (r, f1) = objSeek fileObj f (sint offset) SEEK_SET in
      if r < 0 then (noEntry JAR_CORRUPT, f1)
      else
        let (header, f2) = objRead fileObj f1 CENHDRSIZ in
        if length header \<noteq> CENHDRSIZ then (noEntry JAR_CORRUPT, f2)
        else if LG header 0 \<noteq> CENSIG then (noEntry JAR_ENTRY_NOT_FOUND, f2)
        else
          let nlen = of_nat (CENNAM header); noff = offset + of_nat CENHDRSIZ in
          (\<lparr>entryStatus = 0, decompLen = CENLEN header, compLen = CENSIZ header,
            compMethod = of_nat (CENHOW header), expectedCRC = CENCRC header, encrypted = odd (CENFLG header),
            entryOffset = locOffset info + CENOFF header, nameLen = nlen, nameOffset = noff,
            nextCenEntryOffset = noff + nlen + of_nat (CENEXT header) + of_nat (CENCOM header)\<rparr>, f2))"

definition getFirstJarEntryInfo :: "'f FileObj \<Rightarrow> JarInfo \<Rightarrow> 'f \<Rightarrow> JarEntryInfo \<times> 'f" where
  "getFirstJarEntryInfo fileObj info f = readJarEntryInfo fileObj info (cenOffset info) f"

definition getNextJarEntryInfo :: "'f FileObj \<Rightarrow> JarInfo \<Rightarrow> JarEntryInfo \<Rightarrow> 'f \<Rightarrow> JarEntryInfo \<times> 'f" where
  "getNextJarEntryInfo fileObj info current f = readJarEntryInfo fileObj info (nextCenEntryOffset current) f"

text \<open>The status and the name.\<close>

definition getJarEntryName :: "'f FileObj \<Rightarrow> JarEntryInfo \<Rightarrow> 'f \<Rightarrow> (int \<times> jbyte list) \<times> 'f" where
  "getJarEntryName fileObj entry f =
     (let (r, f1) = objSeek fileObj f (sint (nameOffset entry)) SEEK_SET in
      if r < 0 then ((JAR_EARLY_END_OF_INPUT, []), f1)
      else
        let (bs, f2) = objRead fileObj f1 (unat (nameLen entry)) in
        if length bs \<noteq> unat (nameLen entry) then ((JAR_EARLY_END_OF_INPUT, bs), f2) else ((0, bs), f2))"

text \<open>The search for a name; the file may have any number of entries, so the loop takes fuel.\<close>

fun findLoop :: "nat \<Rightarrow> 'f FileObj \<Rightarrow> JarInfo \<Rightarrow> jbyte list \<Rightarrow> 32 word \<Rightarrow> JarEntryInfo \<Rightarrow> 'f
    \<Rightarrow> (JarEntryInfo \<times> 'f) run" where
  "findLoop 0 fileObj info name nlen entry f = OutOfFuel"
| "findLoop (Suc k) fileObj info name nlen entry f =
     (if entryStatus entry \<noteq> 0 then Done (entry, f)
      else
        let ((status, bs), f1) = (if nameLen entry = nlen then getJarEntryName fileObj entry f else ((0, []), f)) in
        if status \<noteq> 0 then Done (entry\<lparr>entryStatus := status\<rparr>, f1)
        else if nameLen entry = nlen \<and> bs = take (unat nlen) name then Done (entry, f1)
        else case getNextJarEntryInfo fileObj info entry f1 of (entry', f2) \<Rightarrow>
               findLoop k fileObj info name nlen entry' f2)"

definition findJarEntryInfo :: "nat \<Rightarrow> 'f FileObj \<Rightarrow> JarInfo \<Rightarrow> jbyte list \<Rightarrow> 32 word \<Rightarrow> 'f
    \<Rightarrow> (JarEntryInfo \<times> 'f) run" where
  "findJarEntryInfo fuel fileObj info name nlen f =
     (case getFirstJarEntryInfo fileObj info f of (entry, f1) \<Rightarrow> findLoop fuel fileObj info name nlen entry f1)"

section \<open>The end header\<close>

text \<open>The first two bytes and the third and fourth of a local header, read one by one.\<close>

definition localHeaderAt :: "'f FileObj \<Rightarrow> 32 word \<Rightarrow> 'f \<Rightarrow> bool \<times> 'f" where
  "localHeaderAt fileObj offset f =
     (let (r, f0) = objSeek fileObj f (sint offset) SEEK_SET in
      if r < 0 then (False, f0)
      else let (c1, f1) = objReadChar fileObj f0 in
      if c1 \<noteq> 0x50 then (False, f1)
      else let (c2, f2) = objReadChar fileObj f1 in
      if c2 \<noteq> 0x4B then (False, f2)
      else let (c3, f3) = objReadChar fileObj f2 in
      if c3 \<noteq> 3 then (False, f3)
      else let (c4, f4) = objReadChar fileObj f3 in (c4 = 4, f4))"

text \<open>The loop stops with a result, or goes on with offset, index, buffer and file.\<close>

datatype 'f endStep = Stop "(JarInfo \<times> 'f) run" | GoOn int int "jbyte list" 'f

definition badJar :: "int \<Rightarrow> JarInfo" where
  "badJar status = \<lparr>jarStatus = status, locOffset = 0, cenOffset = 0\<rparr>"

text \<open>A possible end header at the index.\<close>

definition endHeaderHere :: "int \<Rightarrow> int \<Rightarrow> jbyte list \<Rightarrow> bool" where
  "endHeaderHere len endpos b \<longleftrightarrow> take 4 b = [0x50, 0x4B, 5, 6] \<and> endpos + int ENDHDRSIZ + int (ENDCOM b) = len"

definition foundEnd :: "'f FileObj \<Rightarrow> int \<Rightarrow> jbyte list \<Rightarrow> 'f \<Rightarrow> JarInfo \<times> 'f" where
  "foundEnd fileObj endpos b f =
     (let cen = of_int endpos - ENDSIZ b; loc = cen - ENDOFF b; (ok, f1) = localHeaderAt fileObj loc f in
      (if ok then \<lparr>jarStatus = 0, locOffset = loc, cenOffset = cen\<rparr> else badJar (-2), f1))"

text \<open>How far the header must start before a byte that is not its first.\<close>

definition skipBack :: "jbyte \<Rightarrow> int" where
  "skipBack c = (if c = 6 then 3 else if c = 5 then 2 else if c = 0x4B then 1 else 4)"

text \<open>
  \<open>bp\<close> is an index into \<open>buffer\<close>, the bytes from \<open>currentOffset\<close> on. Reading outside the buffer is
  undefined; an index less than a header before its end does not come up.
\<close>

definition endStep :: "'f FileObj \<Rightarrow> int \<Rightarrow> int \<Rightarrow> int \<Rightarrow> int \<Rightarrow> jbyte list \<Rightarrow> 'f \<Rightarrow> 'f endStep" where
  "endStep fileObj len minOffset currentOffset bp buffer f =
     (if bp < 0 \<or> int (length buffer) < bp + int ENDHDRSIZ then Stop Undefined
      else
        let b = drop (nat bp) buffer; endpos = currentOffset + bp in
        if endHeaderHere len endpos b then Stop (Done (foundEnd fileObj endpos b f))
        else
          let bp1 = bp - skipBack (b ! 0) in
          if bp1 < 0 then
            let left = currentOffset - minOffset in
            if left \<le> 0 then Stop (Done (badJar (-3), f))
            else
              let count = min left (int (length buffer) - int ENDHDRSIZ - bp1);
                  (r, f1) = objSeek fileObj f (currentOffset - count) SEEK_SET in
              if r < 0 then Stop (Done (badJar (-4), f1))
              else
                let (bs, f2) = objRead fileObj f1 (nat count) in
                if int (length bs) \<noteq> count then Stop (Done (badJar (-4), f2))
                else GoOn (currentOffset - count) (bp1 + count) (bs @ take (length buffer - nat count) buffer) f2
          else GoOn currentOffset bp1 buffer f)"

lemma endStep_progress:
  assumes "endStep fileObj len minOffset cur bp buffer f = GoOn cur' bp' buffer' f'"
  shows "nat (cur' - minOffset) < nat (cur - minOffset) \<or> cur' = cur \<and> nat bp' < nat bp"
proof -
  have "0 \<le> bp" "int ENDHDRSIZ + bp \<le> int (length buffer)" "0 < skipBack (buffer ! nat bp)"
    using assms by (auto simp: endStep_def skipBack_def split: if_splits)
  with assms show ?thesis
    unfolding endStep_def Let_def by (auto split: if_splits prod.splits)
qed

function endSearch :: "'f FileObj \<Rightarrow> int \<Rightarrow> int \<Rightarrow> int \<Rightarrow> int \<Rightarrow> jbyte list \<Rightarrow> 'f \<Rightarrow> (JarInfo \<times> 'f) run" where
  "endSearch fileObj len minOffset currentOffset bp buffer f =
     (case endStep fileObj len minOffset currentOffset bp buffer f of
        Stop r \<Rightarrow> r
      | GoOn currentOffset' bp' buffer' f' \<Rightarrow> endSearch fileObj len minOffset currentOffset' bp' buffer' f')"
  by pat_completeness auto
termination
  by (relation "measures [\<lambda>(fileObj, len, minOffset, cur, bp, buffer, f). nat (cur - minOffset),
        \<lambda>(fileObj, len, minOffset, cur, bp, buffer, f). nat bp]") (auto dest: endStep_progress)

declare endSearch.simps [simp del]

text \<open>\<open>stack\<close> is what the second half of the buffer holds at first.\<close>

definition getJarInfo :: "'f FileObj \<Rightarrow> jbyte list \<Rightarrow> 'f \<Rightarrow> (JarInfo \<times> 'f) run" where
  "getJarInfo fileObj stack f =
     (let (len, f0) = objSize fileObj f;
          minOffset = max (len - int (0xFFFF + ENDHDRSIZ)) (int (LOCHDRSIZ + CENHDRSIZ));
          (r, f1) = objSeek fileObj f0 (- int ENDHDRSIZ) SEEK_END in
      if r < 0 then Done (badJar (-1), f1)
      else
        let (bs, f2) = objRead fileObj f1 ENDHDRSIZ in
        if length bs \<noteq> ENDHDRSIZ then Done (badJar (-1), f2)
        else endSearch fileObj len minOffset (len - int ENDHDRSIZ) 0 (bs @ take ENDHDRSIZ stack) f2)"

section \<open>The data of an entry\<close>

text \<open>
  The status, what the memory at \<^verbatim>\<open>decompBuffer\<close> holds, and the file. \<^verbatim>\<open>mem\<close> is the allocator of the
  heap object, \<^verbatim>\<open>old\<close> what the inflater's buffer on the stack holds. Reading a negative number of
  bytes, and using memory behind the buffer, is undefined.
\<close>

definition inflateJarEntry :: "nat \<Rightarrow> 'f FileObj \<Rightarrow> (int \<Rightarrow> bool) \<Rightarrow> JarEntryInfo \<Rightarrow> jbyte list \<Rightarrow> jbyte list \<Rightarrow> 'f
    \<Rightarrow> (int \<times> jbyte list \<times> 'f) run" where
  "inflateJarEntry fuel fileObj mem entry decompBuffer old f =
     (if encrypted entry then Done (JAR_ENCRYPTION_NOT_SUPPORTED, decompBuffer, f)
      else let (r1, f1) = objSeek fileObj f (sint (entryOffset entry)) SEEK_SET in
      if r1 < 0 then Done (JAR_EARLY_END_OF_INPUT, decompBuffer, f1)
      else let (temp, f2) = objRead fileObj f1 LOCHDRSIZ in
      if length temp \<noteq> LOCHDRSIZ then Done (JAR_EARLY_END_OF_INPUT, decompBuffer, f2)
      else let (r3, f3) = objSeek fileObj f2 (int (LOCNAM temp + LOCEXT temp)) SEEK_CUR in
      if r3 < 0 then Done (JAR_EARLY_END_OF_INPUT, decompBuffer, f3)
      else
        andThen
          (if compMethod entry = STORED then
             if compLen entry \<noteq> decompLen entry then Done (JAR_ENTRY_SIZE_MISMATCH, decompBuffer, f3)
             else if sint (decompLen entry) < 0 \<or> length decompBuffer < unat (decompLen entry) then Undefined
             else
               let (bs, f4) = objRead fileObj f3 (unat (decompLen entry));
                   buf = bs @ drop (length bs) decompBuffer in
               Done (if length bs \<noteq> unat (decompLen entry) then JAR_EARLY_END_OF_INPUT else 0, buf, f4)
           else if compMethod entry = DEFLATED then
             andThen (inflateData fuel (\<lambda>f. objRead fileObj f INFLATEBUFFERSIZE) mem f3 old
                        (sint (compLen entry)) decompBuffer (sint (decompLen entry)))
               (\<lambda>(status, s). Done (status, outBuffer s, fileState s))
           else Done (JAR_UNKNOWN_COMP_METHOD, decompBuffer, f3))
          (\<lambda>(status, buf, f5).
            if status \<noteq> 0 then Done (status, buf, f5)
            else if length buf < unat (decompLen entry) then Undefined
            else Done (if jarCRC32 (take (unat (decompLen entry)) buf) \<noteq> expectedCRC entry
                       then JAR_ENTRY_CORRUPT else 0, buf, f5)))"

section \<open>Files of the storage layer\<close>

text \<open>The error texts are freed at once.\<close>

definition sizeOfFile :: "int \<Rightarrow> StorageSys \<Rightarrow> int \<times> StorageSys" where
  "sizeOfFile h s = (let ((_, sz), s1) = storageSizeOf h s in (sz, s1))"

definition readChars :: "int \<Rightarrow> StorageSys \<Rightarrow> nat \<Rightarrow> jbyte list \<times> StorageSys" where
  "readChars h s n = (let ((_, _, bs), s1) = storageRead h n s in (bs, s1))"

text \<open>An error of positioning goes unnoticed unless the position is negative.\<close>

definition seekChars :: "int \<Rightarrow> StorageSys \<Rightarrow> int \<Rightarrow> whence \<Rightarrow> int \<times> StorageSys" where
  "seekChars h s offset wh =
     (case wh of
        SEEK_SET \<Rightarrow> (offset, snd (storagePosition h offset s))
      | SEEK_END \<Rightarrow> (let (sz, s1) = sizeOfFile h s in (sz + offset, snd (storagePosition h (sz + offset) s1)))
      | SEEK_CUR \<Rightarrow> (let ((_, absPos), s1) = storageRelativePosition h offset s in (absPos, s1)))"

definition readChar :: "int \<Rightarrow> StorageSys \<Rightarrow> int \<times> StorageSys" where
  "readChar h s = (let (bs, s1) = readChars h s 1 in (if bs = [] then -1 else uint (bs ! 0), s1))"

definition storageFile :: "int \<Rightarrow> StorageSys FileObj" where
  "storageFile h = \<lparr>objSize = sizeOfFile h, objRead = readChars h, objSeek = seekChars h, objReadChar = readChar h\<rparr>"

section \<open>Opening and closing\<close>

definition MIDP_JAR_OUT_OF_MEM_ERROR :: int where "MIDP_JAR_OUT_OF_MEM_ERROR = -2"
definition MIDP_JAR_IO_ERROR :: int where "MIDP_JAR_IO_ERROR = -3"
definition MIDP_JAR_CORRUPT_ERROR :: int where "MIDP_JAR_CORRUPT_ERROR = -4"

text \<open>The member functions, always the same, are not part of the record.\<close>

record MidpJarInfo =
  jarFile :: int
  jarInfo :: JarInfo

text \<open>\<^verbatim>\<open>mem\<close>: whether there is memory for the handle. The result is the error and the handle.\<close>

definition midpOpenJar :: "bool \<Rightarrow> int \<Rightarrow> jbyte list \<Rightarrow> pcsl_string \<Rightarrow> StorageSys
    \<Rightarrow> ((int \<times> MidpJarInfo option) \<times> StorageSys) run" where
  "midpOpenJar mem cur stack name s =
     (if \<not> mem then Done ((MIDP_JAR_OUT_OF_MEM_ERROR, None), s)
      else
        case storage_open cur name OPEN_READ s of
          None \<Rightarrow> Undefined
        | Some ((error, h), s1) \<Rightarrow>
            if error \<noteq> None then Done ((MIDP_JAR_IO_ERROR, None), s1)
            else
              andThen (getJarInfo (storageFile h) stack s1) (\<lambda>(info, s2).
                if jarStatus info \<noteq> 0 then Done ((MIDP_JAR_CORRUPT_ERROR, None), s2)
                else Done ((0, Some \<lparr>jarFile = h, jarInfo = info\<rparr>), s2)))"

definition midpCloseJar :: "int \<Rightarrow> MidpJarInfo option \<Rightarrow> StorageSys \<Rightarrow> StorageSys run" where
  "midpCloseJar cur handle s =
     (case handle of
        None \<Rightarrow> Done s
      | Some jar \<Rightarrow> (case storageClose cur (jarFile jar) s of None \<Rightarrow> Undefined | Some (_, s1) \<Rightarrow> Done s1))"

definition midpGetJarSize :: "MidpJarInfo \<Rightarrow> StorageSys \<Rightarrow> int \<times> StorageSys" where
  "midpGetJarSize jar s = (let (sz, s1) = sizeOfFile (jarFile jar) s in (if sz < 0 then MIDP_JAR_IO_ERROR else sz, s1))"

section \<open>Entries by name\<close>

text \<open>
  The common beginning: the entry of a name, or an error without it. \<^verbatim>\<open>mem k n\<close> says whether the
  \<open>k\<close>-th kind of request, for \<open>n\<close> bytes, is met.
\<close>

definition lookUp :: "nat \<Rightarrow> (nat \<Rightarrow> int \<Rightarrow> bool) \<Rightarrow> MidpJarInfo \<Rightarrow> PcslString option \<Rightarrow> StorageSys
    \<Rightarrow> (JarEntryInfo option \<times> StorageSys) run" where
  "lookUp fuel mem jar name s =
     (case pcsl_string_get_utf8_data (mem 0) name of
        None \<Rightarrow> Done (None, s)
      | Some pName \<Rightarrow>
          let nlen = pcsl_string_utf8_length name in
          if \<not> mem 1 nlen then Done (None, s)
          else
            andThen (findJarEntryInfo fuel (storageFile (jarFile jar)) (jarInfo jar) pName (of_int nlen) s)
              (\<lambda>(entry, s1). Done (Some entry, s1)))"

text \<open>
  The size, or an error, and the entry's data; \<^verbatim>\<open>garbage n\<close> is what new memory of \<open>n\<close> bytes holds.
\<close>

definition midpGetJarEntry :: "nat \<Rightarrow> (nat \<Rightarrow> int \<Rightarrow> bool) \<Rightarrow> (nat \<Rightarrow> jbyte list) \<Rightarrow> jbyte list \<Rightarrow> MidpJarInfo
    \<Rightarrow> PcslString option \<Rightarrow> StorageSys \<Rightarrow> ((int \<times> jbyte list option) \<times> StorageSys) run" where
  "midpGetJarEntry fuel mem garbage old jar name s =
     andThen (lookUp fuel mem jar name s) (\<lambda>(found, s1).
       case found of
         None \<Rightarrow> Done ((MIDP_JAR_OUT_OF_MEM_ERROR, None), s1)
       | Some entry \<Rightarrow>
           if entryStatus entry = JAR_ENTRY_NOT_FOUND then Done ((0, None), s1)
           else if entryStatus entry \<noteq> 0 then Done ((MIDP_JAR_CORRUPT_ERROR, None), s1)
           else if \<not> mem 2 (uint (decompLen entry)) then Done ((MIDP_JAR_OUT_OF_MEM_ERROR, None), s1)
           else
             andThen (inflateJarEntry fuel (storageFile (jarFile jar)) (mem 3) entry
                        (garbage (unat (decompLen entry))) old s1)
               (\<lambda>(status, buf, s2).
                 if status \<noteq> 0 then Done ((MIDP_JAR_CORRUPT_ERROR, None), s2)
                 else Done ((sint (decompLen entry), Some buf), s2)))"

definition midpJarEntryExists :: "nat \<Rightarrow> (nat \<Rightarrow> int \<Rightarrow> bool) \<Rightarrow> MidpJarInfo \<Rightarrow> PcslString option \<Rightarrow> StorageSys
    \<Rightarrow> (int \<times> StorageSys) run" where
  "midpJarEntryExists fuel mem jar name s =
     andThen (lookUp fuel mem jar name s) (\<lambda>(found, s1).
       case found of
         None \<Rightarrow> Done (MIDP_JAR_OUT_OF_MEM_ERROR, s1)
       | Some entry \<Rightarrow>
           Done (if entryStatus entry = JAR_ENTRY_NOT_FOUND then 0
                 else if entryStatus entry \<noteq> 0 then MIDP_JAR_CORRUPT_ERROR else 1, s1))"

text \<open>
  The callbacks work on a state \<open>w\<close> of their own. After the loop the status of the last entry read is
  not looked at.
\<close>

fun iterateLoop :: "nat \<Rightarrow> (nat \<Rightarrow> int \<Rightarrow> bool) \<Rightarrow> (PcslString option \<Rightarrow> 'w \<Rightarrow> bool \<times> 'w)
    \<Rightarrow> (PcslString option \<Rightarrow> 'w \<Rightarrow> bool \<times> 'w) \<Rightarrow> MidpJarInfo \<Rightarrow> JarEntryInfo \<Rightarrow> StorageSys \<Rightarrow> 'w
    \<Rightarrow> (int \<times> StorageSys \<times> 'w) run" where
  "iterateLoop 0 mem filt act jar entry s w = OutOfFuel"
| "iterateLoop (Suc k) mem filt act jar entry s w =
     (if entryStatus entry \<noteq> 0 then Done (1, s, w)
      else if \<not> mem 0 (uint (nameLen entry)) then Done (MIDP_JAR_OUT_OF_MEM_ERROR, s, w)
      else
        let ((status, nameBuf), s1) = getJarEntryName (storageFile (jarFile jar)) entry s in
        if status \<noteq> 0 then Done (MIDP_JAR_CORRUPT_ERROR, s1, w)
        else
          let (res, entryName) = pcsl_string_convert_from_utf8 (mem 1) (mem 2 0) (Some nameBuf) (sint (nameLen entry)) (Some NULL_STRING) in
          if res \<noteq> PCSL_STRING_OK then Done (MIDP_JAR_OUT_OF_MEM_ERROR, s1, w)
          else
            let (match, w1) = filt entryName w;
                (ok, w2) = (if match then act entryName w1 else (True, w1)) in
            if \<not> ok then Done (0, s1, w2)
            else
              let (entry', s2) = getNextJarEntryInfo (storageFile (jarFile jar)) (jarInfo jar) entry s1 in
              iterateLoop k mem filt act jar entry' s2 w2)"

definition midpIterateJarEntries :: "nat \<Rightarrow> (nat \<Rightarrow> int \<Rightarrow> bool) \<Rightarrow> (PcslString option \<Rightarrow> 'w \<Rightarrow> bool \<times> 'w)
    \<Rightarrow> (PcslString option \<Rightarrow> 'w \<Rightarrow> bool \<times> 'w) \<Rightarrow> MidpJarInfo \<Rightarrow> StorageSys \<Rightarrow> 'w
    \<Rightarrow> (int \<times> StorageSys \<times> 'w) run" where
  "midpIterateJarEntries fuel mem filt act jar s w =
     (case getFirstJarEntryInfo (storageFile (jarFile jar)) (jarInfo jar) s of
        (entry, s1) \<Rightarrow> iterateLoop fuel mem filt act jar entry s1 w)"

end
