(* ===== verification/JarRead.thy ===== *)
theory JarRead
  imports Jar
begin

text \<open>
  What the JAR reader relies on in a file object, and what follows for it: the search for the end
  header, and reading archives of the ZIP format.
\<close>

section \<open>File objects\<close>

text \<open>
  \<open>view\<close> shows content and position of a file whose operations do not fail; its size is promised at
  its beginning only.
\<close>

locale file_object =
  fixes F :: "'f FileObj"
    and view :: "'f \<Rightarrow> (jbyte list \<times> nat) option"
  assumes size_start: "view s = Some (c, 0) \<Longrightarrow> \<exists>s'. objSize F s = (int (length c), s') \<and> view s' = Some (c, 0)"
    and seek_set: "\<lbrakk>view s = Some (c, p); 0 \<le> k\<rbrakk>
      \<Longrightarrow> \<exists>s'. objSeek F s k SEEK_SET = (k, s') \<and> view s' = Some (c, nat k)"
    and seek_negative: "\<lbrakk>view s = Some (c, p); k < 0\<rbrakk>
      \<Longrightarrow> \<exists>r s' p'. objSeek F s k SEEK_SET = (r, s') \<and> r < 0 \<and> view s' = Some (c, p')"
    and seek_end: "\<lbrakk>view s = Some (c, 0); n \<le> length c\<rbrakk>
      \<Longrightarrow> \<exists>s'. objSeek F s (- int n) SEEK_END = (int (length c - n), s') \<and> view s' = Some (c, length c - n)"
    and seek_short: "\<lbrakk>view s = Some (c, 0); length c < n\<rbrakk>
      \<Longrightarrow> \<exists>r s' p'. objSeek F s (- int n) SEEK_END = (r, s') \<and> r < 0 \<and> view s' = Some (c, p')"
    and seek_cur: "view s = Some (c, p)
      \<Longrightarrow> \<exists>s'. objSeek F s (int n) SEEK_CUR = (int (p + n), s') \<and> view s' = Some (c, p + n)"
    and read_here: "view s = Some (c, p)
      \<Longrightarrow> \<exists>s'. objRead F s n = (take n (drop p c), s') \<and> view s' = Some (c, p + length (take n (drop p c)))"
    and char_here: "view s = Some (c, p)
      \<Longrightarrow> \<exists>s' p'. objReadChar F s = (if p < length c then uint (c ! p) else -1, s')
             \<and> view s' = Some (c, p') \<and> (p < length c \<longrightarrow> p' = Suc p)"

section \<open>The end header\<close>

text \<open>
  Whether an end header starts at a position: its signature is there, and its comment ends with
  the file. The reader is to find the last one; only the last 22 bytes of a file may be one before
  offset 76, the room of a local and a central header.
\<close>

definition endAt :: "jbyte list \<Rightarrow> nat \<Rightarrow> bool" where
  "endAt c p \<longleftrightarrow> take 4 (drop p c) = [0x50, 0x4B, 5, 6] \<and> p + ENDHDRSIZ + ENDCOM (drop p c) = length c"

definition endHeaderPos :: "jbyte list \<Rightarrow> nat option" where
  "endHeaderPos c = find (endAt c)
     (rev [min (LOCHDRSIZ + CENHDRSIZ) (length c - ENDHDRSIZ)..<Suc (length c - ENDHDRSIZ)])"

definition localAt :: "jbyte list \<Rightarrow> 32 word \<Rightarrow> bool" where
  "localAt c offset \<longleftrightarrow> 0 \<le> sint offset \<and> take 4 (drop (nat (sint offset)) c) = [0x50, 0x4B, 3, 4]"

text \<open>The offsets of the central directory and of the archive, found from the end header.\<close>

definition endInfo :: "jbyte list \<Rightarrow> nat \<Rightarrow> JarInfo" where
  "endInfo c p =
     (let cen = of_nat p - ENDSIZ (drop p c); loc = cen - ENDOFF (drop p c) in
      if localAt c loc then \<lparr>jarStatus = 0, locOffset = loc, cenOffset = cen\<rparr> else badJar (-2))"

lemma take4: "take 4 xs = [a, b, d, e] \<longleftrightarrow>
    3 < length xs \<and> xs ! 0 = a \<and> xs ! 1 = b \<and> xs ! 2 = d \<and> xs ! 3 = e"
proof
  assume t: "take 4 xs = [a, b, d, e]"
  have "length (take 4 xs) = 4" unfolding t by simp
  then have l: "3 < length xs" by simp
  moreover have "xs ! i = [a, b, d, e] ! i" if "i < 4" for i using that t nth_take [of i 4 xs] by simp
  from this [of 0] this [of 1] this [of 2] this [of 3]
  have "xs ! 0 = a \<and> xs ! 1 = b \<and> xs ! 2 = d \<and> xs ! 3 = e" by simp
  ultimately show "3 < length xs \<and> xs ! 0 = a \<and> xs ! 1 = b \<and> xs ! 2 = d \<and> xs ! 3 = e" by simp
next
  assume "3 < length xs \<and> xs ! 0 = a \<and> xs ! 1 = b \<and> xs ! 2 = d \<and> xs ! 3 = e"
  then show "take 4 xs = [a, b, d, e]"
    by (intro nth_equalityI) (auto simp: less_Suc_eq numeral_eq_Suc)
qed

lemma byte_less: "unat (b :: jbyte) < 256"
  by (rule order_less_le_trans [OF unsigned_less]) simp

text \<open>Fields within the first bytes.\<close>

lemma same_fields:
  assumes "take m b = take m b'" "n + 3 < m"
  shows "SH b n = SH b' n" "LG b n = LG b' n"
proof -
  have "b ! i = b' ! i" if "i < m" for i using assms(1) that nth_take by metis
  then show "SH b n = SH b' n" "LG b n = LG b' n"
    using assms(2) by (simp_all add: SH_def LG_def CH_def)
qed

lemma same_end:
  assumes "take 22 b = take 22 b'"
  shows "ENDSIZ b = ENDSIZ b'" "ENDOFF b = ENDOFF b'" "ENDCOM b = ENDCOM b'" "take 4 b = take 4 b'" "b ! 0 = b' ! 0"
proof -
  have "b ! i = b' ! i" if "i < 22" for i using assms that nth_take by metis
  then show "ENDSIZ b = ENDSIZ b'" "ENDOFF b = ENDOFF b'" "ENDCOM b = ENDCOM b'" "b ! 0 = b' ! 0"
    by (simp_all add: ENDSIZ_def ENDOFF_def ENDCOM_def LG_def SH_def CH_def)
  have "take 4 (take 22 b) = take 4 (take 22 b')" using assms by simp
  then show "take 4 b = take 4 b'" by simp
qed

lemma uint_byte: "uint (b :: jbyte) = 0x50 \<longleftrightarrow> b = 0x50" "uint b = 0x4B \<longleftrightarrow> b = 0x4B"
  "uint b = 3 \<longleftrightarrow> b = 3" "uint b = 4 \<longleftrightarrow> b = 4"
  by (simp_all add: word_uint_eq_iff)

context file_object begin

text \<open>The rest of a file with the content \<open>c\<close>, as the inflater reads it.\<close>

definition restOf :: "jbyte list \<Rightarrow> 'f \<Rightarrow> jbyte list option" where
  "restOf c s = (case view s of None \<Rightarrow> None | Some (c', p) \<Rightarrow> if c' = c then Some (drop p c) else None)"

lemma portions: "reader (\<lambda>s. objRead F s INFLATEBUFFERSIZE) (restOf c)"
  unfolding reader_def
proof (intro allI impI)
  fix s r assume "restOf c s = Some r"
  then obtain p where p: "view s = Some (c, p)" "r = drop p c"
    by (auto simp: restOf_def split: option.splits if_splits)
  obtain s' where s': "objRead F s INFLATEBUFFERSIZE = (take INFLATEBUFFERSIZE r, s')"
    "view s' = Some (c, p + length (take INFLATEBUFFERSIZE r))"
    using read_here [OF p(1)] p(2) by auto
  have "drop (p + length (take INFLATEBUFFERSIZE r)) c = drop INFLATEBUFFERSIZE r"
    using p(2) by (simp add: min_def add.commute)
  with s' show "case objRead F s INFLATEBUFFERSIZE of (bs, s') \<Rightarrow>
      \<exists>r'. restOf c s' = Some r' \<and> r = bs @ r' \<and> (bs = [] \<longrightarrow> r = [])"
    by (simp add: restOf_def INFLATEBUFFERSIZE_def)
qed

lemma rest_of: "restOf c s \<noteq> None \<longleftrightarrow> (\<exists>p. view s = Some (c, p))"
  by (auto simp: restOf_def split: option.splits)

lemma local_header:
  assumes "view s = Some (c, p)"
  shows "\<exists>s' p'. localHeaderAt F offset s = (localAt c offset, s') \<and> view s' = Some (c, p')
    \<and> (localAt c offset \<longrightarrow> p' = nat (sint offset) + 4)"
proof (cases "sint offset < 0")
  case True
  with seek_negative [OF assms this] show ?thesis by (auto simp: localHeaderAt_def localAt_def)
next
  case False
  define q where "q = nat (sint offset)"
  obtain s0 where s0: "objSeek F s (sint offset) SEEK_SET = (sint offset, s0)" "view s0 = Some (c, q)"
    using seek_set [OF assms, of "sint offset"] False by (auto simp: q_def)
  obtain s1 p1 where s1: "objReadChar F s0 = (if q < length c then uint (c ! q) else -1, s1)"
    "view s1 = Some (c, p1)" "q < length c \<Longrightarrow> p1 = q + 1"
    using char_here [OF s0(2)] by auto
  obtain s2 p2 where s2: "objReadChar F s1 = (if p1 < length c then uint (c ! p1) else -1, s2)"
    "view s2 = Some (c, p2)" "p1 < length c \<Longrightarrow> p2 = p1 + 1"
    using char_here [OF s1(2)] by auto
  obtain s3 p3 where s3: "objReadChar F s2 = (if p2 < length c then uint (c ! p2) else -1, s3)"
    "view s3 = Some (c, p3)" "p2 < length c \<Longrightarrow> p3 = p2 + 1"
    using char_here [OF s2(2)] by auto
  obtain s4 p4 where s4: "objReadChar F s3 = (if p3 < length c then uint (c ! p3) else -1, s4)" "view s4 = Some (c, p4)"
    "p3 < length c \<Longrightarrow> p4 = p3 + 1"
    using char_here [OF s3(2)] by auto
  have l: "localAt c offset \<longleftrightarrow> q + 3 < length c \<and> c ! q = 0x50 \<and> c ! (q + 1) = 0x4B \<and> c ! (q + 2) = 3 \<and> c ! (q + 3) = 4"
    using False by (auto simp: localAt_def take4 q_def [symmetric])
  have "\<not> sint offset < 0" using False by simp
  then show ?thesis
    unfolding localHeaderAt_def s0(1) Let_def prod.case s1(1) s2(1) s3(1) s4(1) l
    using s1(2,3) s2(2,3) s3(2,3) s4(2,3) by (auto simp: uint_byte numeral_3_eq_3 q_def)
qed

lemma found_end:
  assumes "view s = Some (c, p0)" "take 22 b = take 22 (drop p c)"
  shows "\<exists>s' p'. foundEnd F (int p) b s = (endInfo c p, s') \<and> view s' = Some (c, p')
    \<and> (jarStatus (endInfo c p) = 0 \<longrightarrow> 0 < p')"
proof -
  have e: "ENDSIZ b = ENDSIZ (drop p c)" "ENDOFF b = ENDOFF (drop p c)" by (rule same_end [OF assms(2)])+
  define loc where "loc = of_nat p - ENDSIZ (drop p c) - ENDOFF (drop p c)"
  obtain s' p' where "localHeaderAt F loc s = (localAt c loc, s')" "view s' = Some (c, p')" "localAt c loc \<longrightarrow> 0 < p'"
    using local_header [OF assms(1), of loc] by auto
  then show ?thesis by (auto simp: foundEnd_def endInfo_def Let_def e loc_def badJar_def)
qed

end

text \<open>An end header cannot start less than so far before a byte.\<close>

lemma skip_back:
  assumes "endAt c p" "p < q" "q < length c"
  shows "int p \<le> int q - skipBack (c ! q)"
proof -
  have b: "3 < length (drop p c)" "c ! (p + 1) = 0x4B" "c ! (p + 2) = 5" "c ! (p + 3) = 6"
    using assms(1) by (auto simp: endAt_def take4)
  have "q = p + 1 \<or> q = p + 2 \<or> q = p + 3 \<or> p + 4 \<le> q" using assms(2) by arith
  then show ?thesis using b by (elim disjE) (simp_all add: skipBack_def split: if_splits)
qed


text \<open>The buffer holds the bytes of the file from the offset on, up to a header behind the index.\<close>

definition window :: "jbyte list \<Rightarrow> int \<Rightarrow> int \<Rightarrow> jbyte list \<Rightarrow> bool" where
  "window c cur bp buffer \<longleftrightarrow> 0 \<le> cur \<and> 0 \<le> bp \<and> bp \<le> 22 \<and> length buffer = 44 \<and> cur + bp + 22 \<le> int (length c)
     \<and> take (nat bp + 22) buffer = take (nat bp + 22) (drop (nat cur) c)"

lemma window_here:
  assumes "window c cur bp buffer"
  shows "take 22 (drop (nat bp) buffer) = take 22 (drop (nat (cur + bp)) c)"
proof -
  have "take 22 (drop (nat bp) buffer) = drop (nat bp) (take (22 + nat bp) buffer)" by (simp add: drop_take)
  also have "\<dots> = drop (nat bp) (take (22 + nat bp) (drop (nat cur) c))"
    using assms by (simp add: window_def add.commute)
  also have "\<dots> = take 22 (drop (nat (cur + bp)) c)"
    using assms by (simp add: drop_take window_def nat_add_distrib add.commute)
  finally show ?thesis .
qed

lemma window_back:
  assumes "window c cur bp buffer" "0 \<le> bp'" "bp' \<le> bp"
  shows "window c cur bp' buffer"
proof -
  have "take (nat bp' + 22) (take (nat bp + 22) buffer) = take (nat bp' + 22) (take (nat bp + 22) (drop (nat cur) c))"
    using assms(1) by (simp add: window_def)
  moreover have "min (nat bp' + 22) (nat bp + 22) = nat bp' + 22" using assms(2,3) by simp
  ultimately show ?thesis using assms by (auto simp: window_def)
qed

lemma window_refill:
  assumes "window c cur bp buffer" "bp1 < 0" "- 4 \<le> bp1" "0 < n" "int n \<le> cur" "int n \<le> 22 - bp1" "0 \<le> bp1 + int n"
  shows "window c (cur - int n) (bp1 + int n) (take n (drop (nat cur - n) c) @ take (44 - n) buffer)"
proof -
  define m where "m = nat (bp1 + 22)"
  have m: "int m = bp1 + 22" "m \<le> 44 - n" "m \<le> nat bp + 22" using assms by (auto simp: m_def window_def)
  have n: "nat cur - n + n = nat cur" "n \<le> length c - (nat cur - n)" "nat cur \<le> length c"
    using assms(1,5) by (auto simp: window_def)
  have "take m (take (nat bp + 22) buffer) = take m (take (nat bp + 22) (drop (nat cur) c))"
    using assms(1) by (simp add: window_def)
  then have b: "take m buffer = take m (drop (nat cur) c)" using m(3) by (simp add: min_absorb1)
  have e: "nat (bp1 + int n) + 22 = n + m" using assms(7) m(1) by linarith
  have "take (n + m) (take n (drop (nat cur - n) c) @ take (44 - n) buffer)
      = take n (drop (nat cur - n) c) @ take m buffer"
    using n(2) m(2) by (simp add: min_absorb1)
  also have "\<dots> = take (n + m) (drop (nat cur - n) c)"
    using n(1) by (simp add: b take_add)
  finally show ?thesis
    using assms n m unfolding window_def e by (simp add: nat_diff_distrib)
qed

context file_object begin

lemma end_step:
  assumes w: "window c cur bp buffer" and v: "view s = Some (c, p)" and m: "0 \<le> minO"
  shows "(endAt c (nat (cur + bp)) \<and>
        (\<exists>s' p'. endStep F (int (length c)) minO cur bp buffer s = Stop (Done (endInfo c (nat (cur + bp)), s'))
           \<and> view s' = Some (c, p') \<and> (jarStatus (endInfo c (nat (cur + bp))) = 0 \<longrightarrow> 0 < p')))
    \<or> (\<not> endAt c (nat (cur + bp)) \<and> cur \<le> minO \<and> bp < skipBack (c ! nat (cur + bp))
        \<and> endStep F (int (length c)) minO cur bp buffer s = Stop (Done (badJar (-3), s)))
    \<or> (\<not> endAt c (nat (cur + bp)) \<and> (\<exists>cur' bp' buffer' s' p'.
        endStep F (int (length c)) minO cur bp buffer s = GoOn cur' bp' buffer' s' \<and> view s' = Some (c, p')
        \<and> cur' + bp' = cur + bp - skipBack (c ! nat (cur + bp)) \<and> min minO cur \<le> cur' \<and> cur' \<le> cur
        \<and> (if bp' < 0 then cur' = minO else window c cur' bp' buffer')))"
    (is "?found \<or> ?given_up \<or> ?on")
proof -
  define q where "q = nat (cur + bp)"
  define b where "b = drop (nat bp) buffer"
  define bp1 where "bp1 = bp - skipBack (c ! q)"
  have b: "take 22 b = take 22 (drop q c)" unfolding b_def q_def by (rule window_here [OF w])
  have q: "int q = cur + bp" "q + 22 \<le> length c" using w by (auto simp: q_def window_def)
  have bounds: "\<not> (bp < 0 \<or> int 44 < bp + int ENDHDRSIZ)" using w by (simp add: window_def ENDHDRSIZ_def)
  have l44: "length buffer = 44" using w by (simp add: window_def)
  have e22: "int 44 - int ENDHDRSIZ - bp1 = 22 - bp1" by (simp add: ENDHDRSIZ_def)
  have b0: "b ! 0 = c ! q" using same_end(5) [OF b] q(2) by simp
  have here: "endHeaderHere (int (length c)) (cur + bp) b \<longleftrightarrow> endAt c q"
    using same_end(3,4) [OF b] q(1) by (auto simp: endHeaderHere_def endAt_def)
  have step: "endStep F (int (length c)) minO cur bp buffer s =
     (if endAt c q then Stop (Done (foundEnd F (int q) b s))
      else if bp1 < 0 then
        if cur - minO \<le> 0 then Stop (Done (badJar (-3), s))
        else
          let n = min (cur - minO) (22 - bp1); (r, f1) = objSeek F s (cur - n) SEEK_SET in
          if r < 0 then Stop (Done (badJar (-4), f1))
          else let (bs, f2) = objRead F f1 (nat n) in
               if int (length bs) \<noteq> n then Stop (Done (badJar (-4), f2))
               else GoOn (cur - n) (bp1 + n) (bs @ take (44 - nat n) buffer) f2
      else GoOn cur bp1 buffer s)"
    unfolding endStep_def if_not_P [OF bounds] Let_def b_def [symmetric] here [unfolded b_def] b0 bp1_def [symmetric] q(1) here l44 e22
    by (rule refl)
  show ?thesis
  proof (cases "endAt c q")
    case True
    then have ?found using step found_end [OF v b] by (auto simp: q_def)
    then show ?thesis ..
  next
    case no: False
    have sk: "0 < skipBack (c ! q)" "skipBack (c ! q) \<le> 4" by (simp_all add: skipBack_def)
    show ?thesis
    proof (cases "bp1 < 0")
      case False
      then have ?on using no step v window_back [OF w, of bp1] sk
        by (auto simp: q_def [symmetric] bp1_def)
      then show ?thesis by simp
    next
      case neg: True
      show ?thesis
      proof (cases "cur \<le> minO")
        case True
        then have ?given_up using no step neg by (simp add: q_def [symmetric] bp1_def)
        then show ?thesis by simp
      next
        case False
        define n where "n = nat (min (cur - minO) (22 - bp1))"
        have n: "int n = min (cur - minO) (22 - bp1)" "0 < n" "int n \<le> cur" "int n \<le> 22 - bp1"
          using False neg m by (auto simp: n_def)
        obtain s1 where s1: "objSeek F s (cur - int n) SEEK_SET = (cur - int n, s1)" "view s1 = Some (c, nat cur - n)"
          using seek_set [OF v, of "cur - int n"] n(3) by (auto simp: nat_diff_distrib)
        have l: "length (take n (drop (nat cur - n) c)) = n" using w n(3) by (auto simp: window_def)
        obtain s2 p2 where s2: "objRead F s1 n = (take n (drop (nat cur - n) c), s2)" "view s2 = Some (c, p2)"
          using read_here [OF s1(2), of n] by auto
        have "endStep F (int (length c)) minO cur bp buffer s
            = GoOn (cur - int n) (bp1 + int n) (take n (drop (nat cur - n) c) @ take (44 - n) buffer) s2"
          unfolding step Let_def n(1) [symmetric] s1(1) prod.case nat_int s2(1) using no neg False n(3) l by simp
        moreover have "bp1 + int n < 0 \<Longrightarrow> cur - int n = minO" using n(1) by linarith
        moreover have "0 \<le> bp1 + int n \<Longrightarrow>
            window c (cur - int n) (bp1 + int n) (take n (drop (nat cur - n) c) @ take (44 - n) buffer)"
          by (rule window_refill [OF w neg _ n(2,3,4)]) (use sk w in \<open>auto simp: bp1_def window_def\<close>)
        moreover have "min minO cur \<le> cur - int n" using n(1) by linarith
        ultimately have ?on using no s2(2) by (auto simp: q_def [symmetric] bp1_def)
        then show ?thesis by simp
      qed
    qed
  qed
qed

text \<open>The last possible header is found, if it starts in the buffer or behind the smallest offset.\<close>

lemma end_loop_finds:
  assumes "G = F" "l = int (length c)" "if bp < 0 then cur = minO else window c cur bp buffer"
    "view s = Some (c, p0)" "0 \<le> minO"
    "endAt c p" "int p \<le> cur + bp" "min minO cur \<le> int p" "\<forall>q. endAt c q \<longrightarrow> q \<le> p"
  shows "\<exists>s' p'. endSearch G l minO cur bp buffer s = Done (endInfo c p, s') \<and> view s' = Some (c, p')
    \<and> (jarStatus (endInfo c p) = 0 \<longrightarrow> 0 < p')"
  using assms
proof (induction G l minO cur bp buffer s arbitrary: p0 rule: endSearch.induct)
  case (1 G l minO cur bp buffer s)
  define q where "q = nat (cur + bp)"
  have w: "window c cur bp buffer" using "1.prems"(3,7,8) by (simp split: if_splits)
  have q: "int q = cur + bp" "p \<le> q" "q < length c" using w "1.prems"(7) by (auto simp: q_def window_def)
  from end_step [OF w "1.prems"(4,5)] consider
      (found) s' p' where "endAt c q" "endStep F l minO cur bp buffer s = Stop (Done (endInfo c q, s'))" "view s' = Some (c, p')"
          "jarStatus (endInfo c q) = 0 \<longrightarrow> 0 < p'"
    | (given_up) "\<not> endAt c q" "cur \<le> minO" "bp < skipBack (c ! q)"
    | (on) cur' bp' buffer' s' p' where "\<not> endAt c q" "endStep F l minO cur bp buffer s = GoOn cur' bp' buffer' s'"
        "view s' = Some (c, p')" "cur' + bp' = cur + bp - skipBack (c ! q)" "min minO cur \<le> cur'" "cur' \<le> cur"
        "if bp' < 0 then cur' = minO else window c cur' bp' buffer'"
    unfolding "1.prems"(2) q_def by blast
  then show ?case
  proof cases
    case found
    then have "q = p" using "1.prems"(9) q(2) by (simp add: le_antisym)
    then show ?thesis using found "1.prems"(1) by (subst endSearch.simps) simp
  next
    case given_up
    then have "p < q" using "1.prems"(6) q(2) by (metis le_neq_implies_less)
    from skip_back [OF "1.prems"(6) this q(3)] given_up "1.prems"(8) q(1) show ?thesis by linarith
  next
    case on
    then have "p < q" using "1.prems"(6) q(2) by (metis le_neq_implies_less)
    from skip_back [OF "1.prems"(6) this q(3)] on(4) q(1) have p: "int p \<le> cur' + bp'" by linarith
    have "min minO cur' \<le> int p" using "1.prems"(8) on(6) by linarith
    from "1.IH" [OF _ "1.prems"(1,2) on(7,3) "1.prems"(5,6) p this "1.prems"(9)] on(2) "1.prems"(1)
    show ?thesis by (subst endSearch.simps) simp
  qed
qed

text \<open>Without one, the search ends without success, or leaves the buffer.\<close>

lemma end_loop_fails:
  assumes "G = F" "l = int (length c)" "if bp < 0 then cur = minO else window c cur bp buffer"
    "view s = Some (c, p0)" "0 \<le> minO" "\<forall>p. endAt c p \<longrightarrow> int p < min minO cur \<or> cur + bp < int p"
  shows "endSearch G l minO cur bp buffer s = Undefined
    \<or> (\<exists>s' p'. endSearch G l minO cur bp buffer s = Done (badJar (-3), s') \<and> view s' = Some (c, p'))"
  using assms
proof (induction G l minO cur bp buffer s arbitrary: p0 rule: endSearch.induct)
  case (1 G l minO cur bp buffer s)
  show ?case
  proof (cases "bp < 0")
    case True
    then show ?thesis by (subst endSearch.simps) (simp add: endStep_def)
  next
    case False
    define q where "q = nat (cur + bp)"
    have w: "window c cur bp buffer" using "1.prems"(3) False by simp
    have q: "int q = cur + bp" "q < length c" using w by (auto simp: q_def window_def)
    have no: "\<not> endAt c q" using "1.prems"(6) w q(1) by (auto simp: window_def)
    from end_step [OF w "1.prems"(4,5)] no consider
        (given_up) "endStep F l minO cur bp buffer s = Stop (Done (badJar (-3), s))"
      | (on) cur' bp' buffer' s' p' where "endStep F l minO cur bp buffer s = GoOn cur' bp' buffer' s'"
          "view s' = Some (c, p')" "cur' + bp' = cur + bp - skipBack (c ! q)" "min minO cur \<le> cur'" "cur' \<le> cur"
          "if bp' < 0 then cur' = minO else window c cur' bp' buffer'"
      unfolding "1.prems"(2) q_def by blast
    then show ?thesis
    proof cases
      case given_up
      then show ?thesis using "1.prems"(1,4) by (subst (1 2) endSearch.simps) simp
    next
      case on
      have "int p < min minO cur' \<or> cur' + bp' < int p" if e: "endAt c p" for p
      proof -
        have "p \<noteq> q" using e no by auto
        moreover have "int p \<le> cur' + bp'" if "p < q" using skip_back [OF e that q(2)] on(3) q(1) by linarith
        moreover have "int p < min minO cur \<or> cur + bp < int p" using "1.prems"(6) e by blast
        moreover have "0 < skipBack (c ! q)" by (simp add: skipBack_def)
        ultimately show ?thesis using on(3-5) q(1) by linarith
      qed
      then have "\<forall>p. endAt c p \<longrightarrow> int p < min minO cur' \<or> cur' + bp' < int p" by blast
      from "1.IH" [OF _ "1.prems"(1,2) on(6,2) "1.prems"(5) this] on(1) "1.prems"(1)
      show ?thesis by (subst (1 2) endSearch.simps) simp
    qed
  qed
qed

text \<open>The search starts with the last 22 bytes.\<close>

definition smallestOffset :: "jbyte list \<Rightarrow> int" where
  "smallestOffset c = max (int (length c) - int (0xFFFF + ENDHDRSIZ)) (int (LOCHDRSIZ + CENHDRSIZ))"

lemma search_starts:
  assumes "view s = Some (c, 0)" "length stack = ENDHDRSIZ" "length c = n + ENDHDRSIZ"
  shows "\<exists>buffer s' p'. getJarInfo F stack s = endSearch F (int (length c)) (smallestOffset c) (int n) 0 buffer s'
    \<and> window c (int n) 0 buffer \<and> view s' = Some (c, p')"
proof -
  obtain s0 where s0: "objSize F s = (int (length c), s0)" "view s0 = Some (c, 0)"
    using size_start [OF assms(1)] by blast
  obtain s1 where s1: "objSeek F s0 (- int ENDHDRSIZ) SEEK_END = (int n, s1)" "view s1 = Some (c, n)"
    using seek_end [OF s0(2), of ENDHDRSIZ] assms(3) by auto
  have l: "length (take ENDHDRSIZ (drop n c)) = ENDHDRSIZ" using assms(3) by simp
  obtain s2 p2 where s2: "objRead F s1 ENDHDRSIZ = (take ENDHDRSIZ (drop n c), s2)" "view s2 = Some (c, p2)"
    using read_here [OF s1(2), of ENDHDRSIZ] by auto
  let ?buffer = "take ENDHDRSIZ (drop n c) @ take ENDHDRSIZ stack"
  have "\<not> int n < 0" by simp
  then have "getJarInfo F stack s = endSearch F (int (length c)) (smallestOffset c) (int n) 0 ?buffer s2"
    unfolding getJarInfo_def s0(1) Let_def prod.case s1(1) s2(1) l smallestOffset_def using assms(3) by simp
  moreover have "window c (int n) 0 ?buffer" using assms(2,3) by (auto simp: window_def ENDHDRSIZ_def)
  ultimately show ?thesis using s2(2) by blast
qed

text \<open>With at most three bytes before the window there is too little to go back.\<close>

lemma search_leaves_buffer:
  assumes "view s = Some (c, 0)" "length stack = ENDHDRSIZ" "length c \<in> {99..101}"
    "skipBack (c ! (length c - 22)) = 4" "\<not> endAt c (length c - 22)"
  shows "getJarInfo F stack s = Undefined"
proof -
  define n where "n = length c - 22"
  have n: "length c = n + ENDHDRSIZ" using assms(3) by (simp add: n_def ENDHDRSIZ_def)
  have m: "smallestOffset c = 76" using assms(3) by (simp add: smallestOffset_def ENDHDRSIZ_def LOCHDRSIZ_def CENHDRSIZ_def)
  obtain buffer s1 p1 where s1: "getJarInfo F stack s = endSearch F (int (length c)) 76 (int n) 0 buffer s1"
    "window c (int n) 0 buffer" "view s1 = Some (c, p1)"
    using search_starts [OF assms(1,2) n] unfolding m by blast
  obtain cur' bp' buffer' s' where g: "endStep F (int (length c)) 76 (int n) 0 buffer s1 = GoOn cur' bp' buffer' s'"
    "cur' + bp' = int n - 4" "min 76 (int n) \<le> cur'" "cur' \<le> int n"
    using end_step [OF s1(2,3), of 76] assms(3-5) by (auto simp: n_def)
  have "bp' < 0" using g(2,3) assms(3) by (simp add: n_def)
  then have "endStep F (int (length c)) 76 cur' bp' buffer' s' = Stop Undefined" by (simp add: endStep_def)
  then show ?thesis using g(1) by (simp add: s1(1) endSearch.simps)
qed

text \<open>A short file ends before the smallest offset.\<close>

lemma search_gives_up:
  assumes "view s = Some (c, 0)" "length stack = ENDHDRSIZ" "ENDHDRSIZ \<le> length c" "length c \<le> 98" "endHeaderPos c = None"
  shows "\<exists>s' p'. getJarInfo F stack s = Done (badJar (-3), s') \<and> view s' = Some (c, p')"
proof -
  define n where "n = length c - ENDHDRSIZ"
  have n: "length c = n + ENDHDRSIZ" "n \<le> 76" using assms(3,4) by (simp_all add: n_def ENDHDRSIZ_def)
  have m: "smallestOffset c = 76" using assms(4) by (simp add: smallestOffset_def ENDHDRSIZ_def LOCHDRSIZ_def CENHDRSIZ_def)
  have "rev [min (LOCHDRSIZ + CENHDRSIZ) n..<Suc n] = [n]" using n(2) by (simp add: LOCHDRSIZ_def CENHDRSIZ_def)
  then have no: "\<not> endAt c n" using assms(5) by (simp add: endHeaderPos_def n_def del: upt_Suc split: if_splits)
  obtain buffer s1 p1 where s1: "getJarInfo F stack s = endSearch F (int (length c)) 76 (int n) 0 buffer s1"
    "window c (int n) 0 buffer" "view s1 = Some (c, p1)"
    using search_starts [OF assms(1,2) n(1)] unfolding m by blast
  have "endStep F (int (length c)) 76 (int n) 0 buffer s1 \<noteq> GoOn cur' bp' buffer' s'" for cur' bp' buffer' s'
    using endStep_progress [of F "int (length c)" 76 "int n" 0 buffer s1 cur' bp' buffer' s'] n(2) by auto
  then have "endStep F (int (length c)) 76 (int n) 0 buffer s1 = Stop (Done (badJar (-3), s1))"
    using end_step [OF s1(2,3), of 76] no by auto
  then show ?thesis using s1(1,3) by (simp add: endSearch.simps)
qed

lemma jar_info:
  assumes "view s = Some (c, 0)" "length stack = ENDHDRSIZ"
  shows "if length c < ENDHDRSIZ then \<exists>s' p'. getJarInfo F stack s = Done (badJar (-1), s') \<and> view s' = Some (c, p')
    else case endHeaderPos c of
      Some p \<Rightarrow> \<exists>s' p'. getJarInfo F stack s = Done (endInfo c p, s') \<and> view s' = Some (c, p')
          \<and> (jarStatus (endInfo c p) = 0 \<longrightarrow> 0 < p')
    | None \<Rightarrow> getJarInfo F stack s = Undefined \<and> 98 < length c
        \<or> (\<exists>s' p'. getJarInfo F stack s = Done (badJar (-3), s') \<and> view s' = Some (c, p'))"
proof (cases "length c < ENDHDRSIZ")
  case True
  obtain s0 where s0: "objSize F s = (int (length c), s0)" "view s0 = Some (c, 0)"
    using size_start [OF assms(1)] by blast
  from seek_short [OF s0(2) True] True show ?thesis by (auto simp: getJarInfo_def s0(1))
next
  case False
  define n where "n = length c - ENDHDRSIZ"
  have n: "length c = n + ENDHDRSIZ" using False by (simp add: n_def)
  let ?lo = "min (LOCHDRSIZ + CENHDRSIZ) n"
  define ps where "ps = rev [?lo..<Suc n]"
  have pos: "endHeaderPos c = find (endAt c) ps" by (simp add: endHeaderPos_def ps_def n_def)
  have ps: "p \<in> set ps \<longleftrightarrow> ?lo \<le> p \<and> p \<le> n" for p by (auto simp: ps_def simp del: upt_Suc)
  obtain buffer s2 p2 where loop: "getJarInfo F stack s = endSearch F (int (length c)) (smallestOffset c) (int n) 0 buffer s2"
    and w: "window c (int n) 0 buffer" and v: "view s2 = Some (c, p2)"
    using search_starts [OF assms n] by blast
  from w have w: "if (0 :: int) < 0 then int n = smallestOffset c else window c (int n) 0 buffer" by simp
  have m: "0 \<le> smallestOffset c" by (simp add: smallestOffset_def)
  have range: "min (smallestOffset c) (int n) \<le> int p \<longleftrightarrow> ?lo \<le> p" "p \<le> n" if "endAt c p" for p
  proof -
    have "ENDCOM (drop p c) \<le> 0xFFFF"
      using byte_less [of "drop p c ! 20"] byte_less [of "drop p c ! 21"] by (simp add: ENDCOM_def SH_def CH_def)
    then have "length c \<le> p + ENDHDRSIZ + 0xFFFF" "p + ENDHDRSIZ \<le> length c" using that by (auto simp: endAt_def)
    then show "min (smallestOffset c) (int n) \<le> int p \<longleftrightarrow> ?lo \<le> p" "p \<le> n"
      by (auto simp: smallestOffset_def n_def)
  qed
  show ?thesis
  proof (cases "find (endAt c) ps")
    case None
    have "int p < min (smallestOffset c) (int n)" if e: "endAt c p" for p
    proof -
      have "p \<notin> set ps" using None e by (auto simp: find_None_iff)
      then show ?thesis using range [OF e] ps by force
    qed
    then have "\<forall>p. endAt c p \<longrightarrow> int p < min (smallestOffset c) (int n) \<or> int n + 0 < int p" by blast
    from end_loop_fails [OF refl refl w v m this] False None search_gives_up [OF assms] show ?thesis
      by (cases "98 < length c") (auto simp: loop pos)
  next
    case (Some p)
    then obtain i where i: "i < length ps" "endAt c (ps ! i)" "p = ps ! i" "\<forall>j<i. \<not> endAt c (ps ! j)"
      by (auto simp: find_Some_iff)
    have p: "?lo \<le> p" "p \<le> n" using i(1,3) ps [of p] by simp_all
    have "q \<le> p" if e: "endAt c q" for q
    proof (rule ccontr)
      assume q: "\<not> q \<le> p"
      then have "q \<in> set ps" using range(2) [OF e] p ps by simp
      then obtain j where j: "j < length ps" "ps ! j = q" by (auto simp: in_set_conv_nth)
      have "ps ! k = n - k" if "k < length ps" for k using that by (simp add: ps_def rev_nth del: upt_Suc)
      then have "j < i" using i(1,3) j q by (metis diff_le_mono2 not_less)
      then show False using i(4) j(2) e by blast
    qed
    moreover have "min (smallestOffset c) (int n) \<le> int p" using p range(1) i(2,3) by auto
    ultimately show ?thesis using end_loop_finds [OF refl refl w v m] i(2,3) False Some p(2)
      by (simp add: loop pos)
  qed
qed

end

section \<open>Files of the storage layer\<close>

text \<open>
  Content and position of a file open for reading, from when on no call fails; \<open>r\<close> is the state of
  the resource limits, which using the file does not change.
\<close>

definition jarView :: "ResourceState \<Rightarrow> int \<Rightarrow> StorageSys \<Rightarrow> (jbyte list \<times> nat) option" where
  "jarView r h s = (case fds (os s) h of
     None \<Rightarrow> None
   | Some f \<Rightarrow> if resources s = r \<and> quiet (os s) \<and> ofRead f then Some (inodes (os s) (ofInode f), ofPos f) else None)"

lemma jarViewD:
  assumes "jarView r h s = Some (c, p)"
  obtains f where "resources s = r" "fds (os s) h = Some f" "quiet (os s)" "ofRead f" "c = inodes (os s) (ofInode f)" "p = ofPos f"
  using assms by (auto simp: jarView_def split: option.splits if_splits)

lemma view_resources: "jarView r h s = Some x \<Longrightarrow> resources s = r"
  by (auto simp: jarView_def split: option.splits if_splits)

lemmas jar_ops = storage_ops storageRelativePosition_def storageSizeOf_def pcsl_file_sizeofopenfile_def
  javacall_file_sizeofopenfile_def os_lseek_def os_read_def quiet_tick jarView_def

lemma read_chars_view:
  assumes "jarView r h s = Some (c, p)"
  shows "\<exists>s'. readChars h s n = (take n (drop p c), s') \<and> jarView r h s' = Some (c, p + length (take n (drop p c)))"
proof (cases "n = 0")
  case True
  with assms show ?thesis by (simp add: readChars_def storageRead_def)
next
  case False
  with assms show ?thesis by (elim jarViewD) (simp add: readChars_def jar_ops Let_def)
qed

text \<open>The size of an open file is promised at its beginning only.\<close>

lemma lseek_view:
  assumes "jarView r h s = Some (c, p)" "0 \<le> seekBase w p (length c) + k"
  shows "\<exists>o'. os_lseek h k w (os s) = (seekBase w p (length c) + k, o')
    \<and> jarView r h (s\<lparr>os := o'\<rparr>) = Some (c, nat (seekBase w p (length c) + k))"
  using assms by (elim jarViewD) (cases w; simp add: os_lseek_def quiet_tick jarView_def seekBase_def Let_def)

lemma size_of_view:
  assumes "jarView r h s = Some (c, p)"
  shows "\<exists>s'. sizeOfFile h s = (if p = 0 then int (length c) else -1, s') \<and> jarView r h s' = Some (c, p)"
proof -
  obtain o1 where o1: "os_lseek h 0 SEEK_CUR (os s) = (int p, o1)" "jarView r h (s\<lparr>os := o1\<rparr>) = Some (c, p)"
    using lseek_view [OF assms, of SEEK_CUR 0] by (auto simp: seekBase_def)
  obtain o2 where o2: "os_lseek h 0 SEEK_END o1 = (int (length c), o2)" "jarView r h (s\<lparr>os := o2\<rparr>) = Some (c, length c)"
    using lseek_view [OF o1(2), of SEEK_END 0] by (auto simp: seekBase_def)
  obtain o3 where "os_lseek h (int p) SEEK_SET o2 = (int p, o3)" "jarView r h (s\<lparr>os := o3\<rparr>) = Some (c, p)"
    using lseek_view [OF o2(2), of SEEK_SET "int p"] by (auto simp: seekBase_def)
  with o1(1) o2(1) show ?thesis
    by (simp add: sizeOfFile_def storageSizeOf_def onOs_def pcsl_file_sizeofopenfile_def javacall_file_sizeofopenfile_def)
qed

lemma seek_chars_view:
  assumes "jarView r h s = Some (c, p)"
  shows "\<exists>s' p'. seekChars h s k SEEK_SET = (k, s') \<and> jarView r h s' = Some (c, p') \<and> (0 \<le> k \<longrightarrow> p' = nat k)"
  using assms by (elim jarViewD) (simp add: seekChars_def jar_ops Let_def)

interpretation jarFiles: file_object "storageFile h" "jarView r h" for r h
proof unfold_locales
  fix s c and p n :: nat and k :: int
  {
    assume "jarView r h s = Some (c, 0)"
    with size_of_view [OF this] show "\<exists>s'. objSize (storageFile h) s = (int (length c), s') \<and> jarView r h s' = Some (c, 0)"
      by (simp add: storageFile_def)
  }
  {
    assume "jarView r h s = Some (c, p)" "0 \<le> k"
    with seek_chars_view [OF this(1), of k] show "\<exists>s'. objSeek (storageFile h) s k SEEK_SET = (k, s') \<and> jarView r h s' = Some (c, nat k)"
      by (auto simp: storageFile_def)
  }
  {
    assume "jarView r h s = Some (c, p)" "k < 0"
    with seek_chars_view [OF this(1), of k] show "\<exists>v s' p'. objSeek (storageFile h) s k SEEK_SET = (v, s') \<and> v < 0 \<and> jarView r h s' = Some (c, p')"
      by (auto simp: storageFile_def)
  }
  {
    assume v: "jarView r h s = Some (c, 0)"
    obtain s1 where s1: "sizeOfFile h s = (int (length c), s1)" "jarView r h s1 = Some (c, 0)"
      using size_of_view [OF v] by auto
    have e: "objSeek (storageFile h) s (- int n) SEEK_END
        = (int (length c) - int n, snd (seekChars h s1 (int (length c) - int n) SEEK_SET))"
      by (simp add: storageFile_def seekChars_def s1(1))
    obtain s2 p2 where s2: "seekChars h s1 (int (length c) - int n) SEEK_SET = (int (length c) - int n, s2)"
      "jarView r h s2 = Some (c, p2)" "0 \<le> int (length c) - int n \<longrightarrow> p2 = nat (int (length c) - int n)"
      using seek_chars_view [OF s1(2)] by blast
    {
      assume "n \<le> length c"
      then show "\<exists>s'. objSeek (storageFile h) s (- int n) SEEK_END = (int (length c - n), s') \<and> jarView r h s' = Some (c, length c - n)"
        using e s2 by (auto simp: of_nat_diff nat_diff_distrib)
    }
    {
      assume "length c < n"
      then show "\<exists>v s' p'. objSeek (storageFile h) s (- int n) SEEK_END = (v, s') \<and> v < 0 \<and> jarView r h s' = Some (c, p')"
        using e s2 by auto
    }
  }
  {
    assume "jarView r h s = Some (c, p)"
    then show "\<exists>s'. objSeek (storageFile h) s (int n) SEEK_CUR = (int (p + n), s') \<and> jarView r h s' = Some (c, p + n)"
      by (elim jarViewD) (simp add: storageFile_def seekChars_def jar_ops Let_def)
  }
  {
    assume "jarView r h s = Some (c, p)"
    from read_chars_view [OF this, of n]
    show "\<exists>s'. objRead (storageFile h) s n = (take n (drop p c), s') \<and> jarView r h s' = Some (c, p + length (take n (drop p c)))"
      by (simp add: storageFile_def)
  }
  {
    assume v: "jarView r h s = Some (c, p)"
    from read_chars_view [OF v, of 1] obtain s' where
      "readChars h s 1 = (take 1 (drop p c), s')" "jarView r h s' = Some (c, p + length (take 1 (drop p c)))" by blast
    then show "\<exists>s' p'. objReadChar (storageFile h) s = (if p < length c then uint (c ! p) else -1, s')
        \<and> jarView r h s' = Some (c, p') \<and> (p < length c \<longrightarrow> p' = Suc p)"
      by (cases "p < length c") (simp_all add: storageFile_def readChar_def take_Suc_conv_app_nth)
  }
qed

end
