(* ===== verification/JarArchive.thy ===== *)
theory JarArchive
  imports JarRead "HOL-Library.Sublist"
begin

text \<open>
  Archives: what the ZIP format puts into a file (entries in any order, with anything before, between and
  behind their data), and that the JAR reader finds each entry in it and
  returns its content. Fields the reader does not look at (versions, times, attributes, numbers of
  disks) are arbitrary bytes.
\<close>

section \<open>The format\<close>

definition bytes16 :: "nat \<Rightarrow> jbyte list" where
  "bytes16 n = [of_nat n, of_nat (n div 2 ^ 8)]"

definition bytes32 :: "nat \<Rightarrow> jbyte list" where
  "bytes32 n = bytes16 (n mod 2 ^ 16) @ bytes16 (n div 2 ^ 16)"

datatype Packed = StoredData "jbyte list" | DeflatedData "Block list"

fun packedBytes :: "Packed \<Rightarrow> jbyte list" where
  "packedBytes (StoredData bs) = bs"
| "packedBytes (DeflatedData blocks) = deflate blocks"

fun unpacked :: "Packed \<Rightarrow> jbyte list option" where
  "unpacked (StoredData bs) = Some bs"
| "unpacked (DeflatedData blocks) = (if blocks \<noteq> [] \<and> list_all blockOk blocks then expandBlocks blocks [] else None)"

fun packMethod :: "Packed \<Rightarrow> nat" where
  "packMethod (StoredData bs) = 0"
| "packMethod (DeflatedData blocks) = 8"

text \<open>
  \<open>zipVersions\<close>, \<open>zipTimes\<close> and \<open>zipAttributes\<close> are the fields of the central header before the
  flags, after the method and before the offset; \<open>zipLocal\<close> are those of the local header up to
  the length of the name.
\<close>

record ZipEntry =
  zipName :: "jbyte list"
  zipContent :: "jbyte list"
  zipPacked :: Packed
  zipFlags :: nat
  zipVersions :: "jbyte list"
  zipTimes :: "jbyte list"
  zipAttributes :: "jbyte list"
  zipExtra :: "jbyte list"
  zipComment :: "jbyte list"
  zipLocal :: "jbyte list"
  zipLocalExtra :: "jbyte list"

definition entryOk :: "ZipEntry \<Rightarrow> bool" where
  "entryOk e \<longleftrightarrow> unpacked (zipPacked e) = Some (zipContent e) \<and> length (zipContent e) < 2 ^ 31
     \<and> even (zipFlags e) \<and> zipFlags e < 2 ^ 16
     \<and> length (zipVersions e) = 4 \<and> length (zipTimes e) = 4 \<and> length (zipAttributes e) = 8 \<and> length (zipLocal e) = 22
     \<and> length (zipName e) < 2 ^ 16 \<and> length (zipExtra e) < 2 ^ 16 \<and> length (zipComment e) < 2 ^ 16
     \<and> length (zipLocalExtra e) < 2 ^ 16"

definition localPart :: "ZipEntry \<Rightarrow> jbyte list" where
  "localPart e = [0x50, 0x4B, 3, 4] @ zipLocal e @ bytes16 (length (zipName e)) @ bytes16 (length (zipLocalExtra e))
     @ zipName e @ zipLocalExtra e @ packedBytes (zipPacked e)"

definition centralPart :: "nat \<Rightarrow> ZipEntry \<Rightarrow> jbyte list" where
  "centralPart off e = [0x50, 0x4B, 1, 2] @ zipVersions e @ bytes16 (zipFlags e) @ bytes16 (packMethod (zipPacked e))
     @ zipTimes e @ bytes32 (unat (jarCRC32 (zipContent e))) @ bytes32 (length (packedBytes (zipPacked e)))
     @ bytes32 (length (zipContent e)) @ bytes16 (length (zipName e)) @ bytes16 (length (zipExtra e))
     @ bytes16 (length (zipComment e)) @ zipAttributes e @ bytes32 off @ zipName e @ zipExtra e @ zipComment e"

text \<open>
  The directory lists entries with the offsets of their local headers in the body, in any order. The
  body may hold anything between and behind the entries, such as data descriptors, entries that are
  not listed, or padding.
\<close>

type_synonym ZipDir = "(nat \<times> ZipEntry) list"

fun centralDir :: "ZipDir \<Rightarrow> jbyte list" where
  "centralDir [] = []"
| "centralDir ((off, e) # es) = centralPart off e @ centralDir es"

definition endPart :: "nat \<Rightarrow> ZipDir \<Rightarrow> jbyte list \<Rightarrow> jbyte list" where
  "endPart n es comment = [0x50, 0x4B, 5, 6, 0, 0, 0, 0] @ bytes16 (length es) @ bytes16 (length es)
     @ bytes32 (length (centralDir es)) @ bytes32 n @ bytes16 (length comment) @ comment"

text \<open>Anything may stand before the archive.\<close>

definition zipFile :: "jbyte list \<Rightarrow> jbyte list \<Rightarrow> ZipDir \<Rightarrow> jbyte list \<Rightarrow> jbyte list" where
  "zipFile pre body es comment = pre @ body @ centralDir es @ endPart (length body) es comment"

text \<open>
  The body starts with a local header, every entry of the directory is in it at its offset, and the
  comment does not look like an end header itself.
\<close>

definition listedOk :: "jbyte list \<Rightarrow> nat \<times> ZipEntry \<Rightarrow> bool" where
  "listedOk body x \<longleftrightarrow> (case x of (off, e) \<Rightarrow> entryOk e \<and> prefix (localPart e) (drop off body))"

definition zipOk :: "jbyte list \<Rightarrow> jbyte list \<Rightarrow> ZipDir \<Rightarrow> jbyte list \<Rightarrow> bool" where
  "zipOk pre body es comment \<longleftrightarrow> es \<noteq> [] \<and> list_all (listedOk body) es \<and> take 4 body = [0x50, 0x4B, 3, 4]
     \<and> length comment < 2 ^ 16 \<and> length (zipFile pre body es comment) < 2 ^ 31
     \<and> list_all (\<lambda>k. \<not> endAt (endPart (length body) es comment) k) [1..<Suc (length comment)]"

text \<open>The usual archive: the local parts one after the other and the directory in their order.\<close>

definition localParts :: "ZipEntry list \<Rightarrow> jbyte list" where
  "localParts es = concat (map localPart es)"

fun consecutive :: "nat \<Rightarrow> ZipEntry list \<Rightarrow> ZipDir" where
  "consecutive off [] = []"
| "consecutive off (e # es) = (off, e) # consecutive (off + length (localPart e)) es"

lemma consecutive_listed:
  "list_all entryOk es \<Longrightarrow> list_all (listedOk (xs @ localParts es)) (consecutive (length xs) es)"
proof (induction es arbitrary: xs)
  case (Cons e es)
  from Cons.IH [of "xs @ localPart e"] Cons.prems show ?case
    by (simp add: listedOk_def localParts_def)
qed simp

lemma consecutive_starts: "es \<noteq> [] \<Longrightarrow> take 4 (localParts es) = [0x50, 0x4B, 3, 4]"
  by (cases es) (simp_all add: localParts_def localPart_def)

section \<open>Fields\<close>

lemma length_bytes16 [simp]: "length (bytes16 n) = 2"
  and length_bytes32 [simp]: "length (bytes32 n) = 4"
  by (simp_all add: bytes16_def bytes32_def)

lemma unat_of_nat_byte: "unat (of_nat n :: jbyte) = n mod 256"
  by (simp add: unat_of_nat)

lemma SH_bytes:
  assumes "drop n b = bytes16 k @ ys" "k < 2 ^ 16"
  shows "SH b n = k"
proof -
  have "drop n b \<noteq> []" using assms(1) by (simp add: bytes16_def)
  then have "n \<le> length b" by simp
  then have n: "b ! (n + i) = (bytes16 k @ ys) ! i" if "i < 2" for i
    using arg_cong [OF assms(1), of "\<lambda>xs. xs ! i"] by simp
  have "CH b n = k mod 256" "CH b (n + 1) = k div 256 mod 256"
    using n [of 0] n [of 1] by (simp_all add: CH_def bytes16_def unat_of_nat_byte)
  then show ?thesis using assms(2) by (simp add: SH_def mod_less)
qed

lemma LG_bytes:
  assumes "drop n b = bytes32 k @ ys" "k < 2 ^ 32"
  shows "LG b n = of_nat k"
proof -
  have d: "drop n b = bytes16 (k mod 2 ^ 16) @ bytes16 (k div 2 ^ 16) @ ys"
    using assms(1) by (simp add: bytes32_def)
  then have "drop 2 (drop n b) = bytes16 (k div 2 ^ 16) @ ys" by simp
  then have "drop (n + 2) b = bytes16 (k div 2 ^ 16) @ ys" by (simp add: add.commute)
  then have "SH b (n + 2) = k div 2 ^ 16" using assms(2) by (intro SH_bytes) simp_all
  moreover have "SH b n = k mod 2 ^ 16" using d by (intro SH_bytes) simp_all
  ultimately show ?thesis by (simp add: LG_def)
qed

text \<open>The fields of the headers, in order.\<close>

lemma central_fields:
  fixes rest :: "jbyte list"
  assumes "entryOk e" "off < 2 ^ 31" "length (packedBytes (zipPacked e)) < 2 ^ 31"
  defines "b \<equiv> centralPart off e @ rest"
  shows "LG b 0 = CENSIG" "CENFLG b = zipFlags e" "CENHOW b = packMethod (zipPacked e)"
    "CENCRC b = jarCRC32 (zipContent e)" "CENSIZ b = of_nat (length (packedBytes (zipPacked e)))"
    "CENLEN b = of_nat (length (zipContent e))" "CENNAM b = length (zipName e)" "CENEXT b = length (zipExtra e)"
    "CENCOM b = length (zipComment e)" "CENOFF b = of_nat off"
    "drop 46 b = zipName e @ zipExtra e @ zipComment e @ rest"
proof -
  have l: "length (zipVersions e) = 4" "length (zipTimes e) = 4" "length (zipAttributes e) = 8" "length (zipName e) < 2 ^ 16"
     "length (zipExtra e) < 2 ^ 16" "length (zipComment e) < 2 ^ 16" "zipFlags e < 2 ^ 16" "length (zipContent e) < 2 ^ 31"
    using assms(1) by (simp_all add: entryOk_def)
  have m: "packMethod (zipPacked e) < 2 ^ 16" by (cases "zipPacked e") simp_all
  have c: "unat (jarCRC32 (zipContent e)) < 2 ^ 32" by (rule order_less_le_trans [OF unsigned_less]) simp
  show "LG b 0 = CENSIG"
    by (simp add: b_def centralPart_def LG_def SH_def CH_def CENSIG_def)
  show "drop 46 b = zipName e @ zipExtra e @ zipComment e @ rest"
    by (simp add: b_def centralPart_def l)
  have d: "drop 8 b = bytes16 (zipFlags e) @ drop 10 b" "drop 10 b = bytes16 (packMethod (zipPacked e)) @ drop 12 b"
    "drop 16 b = bytes32 (unat (jarCRC32 (zipContent e))) @ drop 20 b"
    "drop 20 b = bytes32 (length (packedBytes (zipPacked e))) @ drop 24 b"
    "drop 24 b = bytes32 (length (zipContent e)) @ drop 28 b" "drop 28 b = bytes16 (length (zipName e)) @ drop 30 b"
    "drop 30 b = bytes16 (length (zipExtra e)) @ drop 32 b" "drop 32 b = bytes16 (length (zipComment e)) @ drop 34 b"
    "drop 42 b = bytes32 off @ drop 46 b"
    by (simp_all add: b_def centralPart_def l)
  show "CENFLG b = zipFlags e" "CENHOW b = packMethod (zipPacked e)" "CENNAM b = length (zipName e)"
    "CENEXT b = length (zipExtra e)" "CENCOM b = length (zipComment e)"
    using SH_bytes [OF d(1) l(7)] SH_bytes [OF d(2) m] SH_bytes [OF d(6) l(4)] SH_bytes [OF d(7) l(5)] SH_bytes [OF d(8) l(6)]
    by (simp_all add: CENFLG_def CENHOW_def CENNAM_def CENEXT_def CENCOM_def)
  show "CENCRC b = jarCRC32 (zipContent e)" "CENSIZ b = of_nat (length (packedBytes (zipPacked e)))"
    "CENLEN b = of_nat (length (zipContent e))" "CENOFF b = of_nat off"
    using LG_bytes [OF d(3) c] LG_bytes [OF d(4)] LG_bytes [OF d(5)] LG_bytes [OF d(9)] assms(2,3) l(8)
    by (simp_all add: CENCRC_def CENSIZ_def CENLEN_def CENOFF_def)
qed

lemma end_fields:
  assumes "length (centralDir es) < 2 ^ 31" "n < 2 ^ 31" "length comment < 2 ^ 16"
  shows "ENDSIZ (endPart n es comment) = of_nat (length (centralDir es))"
    "ENDOFF (endPart n es comment) = of_nat n" "ENDCOM (endPart n es comment) = length comment"
    "take 4 (endPart n es comment) = [0x50, 0x4B, 5, 6]" "length (endPart n es comment) = ENDHDRSIZ + length comment"
    "LG (endPart n es comment) 0 \<noteq> CENSIG"
proof -
  let ?b = "endPart n es comment"
  have d: "drop 12 ?b = bytes32 (length (centralDir es)) @ drop 16 ?b"
    "drop 16 ?b = bytes32 n @ drop 20 ?b" "drop 20 ?b = bytes16 (length comment) @ comment"
    by (simp_all add: endPart_def)
  show "ENDSIZ ?b = of_nat (length (centralDir es))" "ENDOFF ?b = of_nat n" "ENDCOM ?b = length comment"
    using LG_bytes [OF d(1)] LG_bytes [OF d(2)] SH_bytes [OF d(3)] assms by (simp_all add: ENDSIZ_def ENDOFF_def ENDCOM_def)
  show "take 4 ?b = [0x50, 0x4B, 5, 6]" "length ?b = ENDHDRSIZ + length comment"
    by (simp_all add: endPart_def ENDHDRSIZ_def)
  show "LG ?b 0 \<noteq> CENSIG" by (simp add: endPart_def LG_def SH_def CH_def CENSIG_def)
qed

lemma local_fields:
  fixes rest :: "jbyte list"
  assumes "entryOk e"
  defines "b \<equiv> localPart e @ rest"
  shows "LOCNAM b = length (zipName e)" "LOCEXT b = length (zipLocalExtra e)" "take 4 b = [0x50, 0x4B, 3, 4]"
    "drop (30 + LOCNAM b + LOCEXT b) b = packedBytes (zipPacked e) @ rest"
    "length (localPart e) = 30 + LOCNAM b + LOCEXT b + length (packedBytes (zipPacked e))"
proof -
  have l: "length (zipLocal e) = 22" "length (zipName e) < 2 ^ 16" "length (zipLocalExtra e) < 2 ^ 16"
    using assms(1) by (simp_all add: entryOk_def)
  have d: "drop 26 b = bytes16 (length (zipName e)) @ drop 28 b" "drop 28 b = bytes16 (length (zipLocalExtra e)) @ drop 30 b"
    by (simp_all add: b_def localPart_def l(1))
  show n: "LOCNAM b = length (zipName e)" and x: "LOCEXT b = length (zipLocalExtra e)"
    using SH_bytes [OF d(1) l(2)] SH_bytes [OF d(2) l(3)] by (simp_all add: LOCNAM_def LOCEXT_def)
  show "take 4 b = [0x50, 0x4B, 3, 4]" by (simp add: b_def localPart_def)
  have d30: "drop 30 b = zipName e @ zipLocalExtra e @ packedBytes (zipPacked e) @ rest"
    by (simp add: b_def localPart_def l(1))
  have "drop (30 + LOCNAM b + LOCEXT b) b = drop (LOCNAM b + LOCEXT b) (drop 30 b)" by (simp add: ac_simps)
  also have "\<dots> = packedBytes (zipPacked e) @ rest" unfolding d30 by (simp add: n x)
  finally show "drop (30 + LOCNAM b + LOCEXT b) b = packedBytes (zipPacked e) @ rest" .
  show "length (localPart e) = 30 + LOCNAM b + LOCEXT b + length (packedBytes (zipPacked e))"
    by (simp add: n x localPart_def l(1))
qed

section \<open>Reading the central directory\<close>

text \<open>What the reader is to know of an entry whose central header is at \<open>q\<close>.\<close>

definition zipInfo :: "JarInfo \<Rightarrow> nat \<Rightarrow> nat \<Rightarrow> ZipEntry \<Rightarrow> JarEntryInfo" where
  "zipInfo info q off e = \<lparr>entryStatus = 0, decompLen = of_nat (length (zipContent e)),
     compLen = of_nat (length (packedBytes (zipPacked e))), compMethod = of_nat (packMethod (zipPacked e)),
     expectedCRC = jarCRC32 (zipContent e), encrypted = False, entryOffset = locOffset info + of_nat off,
     nameLen = of_nat (length (zipName e)), nameOffset = of_nat (q + 46),
     nextCenEntryOffset = of_nat (q + length (centralPart off e))\<rparr>"

text \<open>
  A directory is over at the end header. That is told apart from a damaged file only if it is as long
  as a central header.
\<close>

definition dirEnd :: "jbyte list \<Rightarrow> JarEntryInfo" where
  "dirEnd comment = noEntry (if length comment < CENHDRSIZ - ENDHDRSIZ then JAR_CORRUPT else JAR_ENTRY_NOT_FOUND)"

lemma length_centralPart:
  "entryOk e \<Longrightarrow> length (centralPart off e) = 46 + length (zipName e) + length (zipExtra e) + length (zipComment e)"
  by (simp add: centralPart_def entryOk_def)

lemma sint_offset: "q < 2 ^ 31 \<Longrightarrow> sint (of_nat q :: 32 word) = int q"
  by (simp add: signed_of_nat signed_take_bit_int_eq_self)

lemma take_header:
  assumes "n + 3 < m"
  shows "LG (take m b) n = LG b n" "SH (take m b) n = SH b n"
  using same_fields [of m "take m b" b n] assms by simp_all

context file_object begin

lemma read_entry:
  assumes "view s = Some (c, p)" "drop q c = centralPart off e @ rest" "entryOk e" "off < 2 ^ 31"
    "length (packedBytes (zipPacked e)) < 2 ^ 31" "q < 2 ^ 31"
  shows "\<exists>s' p'. readJarEntryInfo F info (of_nat q) s = (zipInfo info q off e, s') \<and> view s' = Some (c, p')"
proof -
  define b where "b = centralPart off e @ rest"
  note f = central_fields [OF assms(3-5), of rest, folded b_def]
  have l: "length (take 46 b) = 46" using length_centralPart [OF assms(3)] by (simp add: b_def)
  obtain s1 where s1: "objSeek F s (int q) SEEK_SET = (int q, s1)" "view s1 = Some (c, q)"
    using seek_set [OF assms(1), of "int q"] by auto
  obtain s2 p2 where s2: "objRead F s1 46 = (take 46 b, s2)" "view s2 = Some (c, p2)"
    using read_here [OF s1(2), of 46] assms(2) by (auto simp: b_def)
  have "\<not> int q < 0" by simp
  moreover have "odd (CENFLG b) = False" using assms(3) f(2) by (simp add: entryOk_def)
  ultimately have "readJarEntryInfo F info (of_nat q) s = (zipInfo info q off e, s2)"
    unfolding readJarEntryInfo_def sint_offset [OF assms(6)] s1(1) Let_def prod.case CENHDRSIZ_def s2(1) l
    using f by (simp add: take_header CENFLG_def CENHOW_def CENCRC_def CENSIZ_def CENLEN_def CENNAM_def CENEXT_def
        CENCOM_def CENOFF_def zipInfo_def length_centralPart [OF assms(3)] ac_simps)
  with s2(2) show ?thesis by blast
qed

lemma read_end:
  assumes "view s = Some (c, p)" "drop q c = endPart n es comment" "q < 2 ^ 31"
  shows "\<exists>s' p'. readJarEntryInfo F info (of_nat q) s = (dirEnd comment, s') \<and> view s' = Some (c, p')"
proof -
  let ?b = "endPart n es comment"
  obtain s1 where s1: "objSeek F s (int q) SEEK_SET = (int q, s1)" "view s1 = Some (c, q)"
    using seek_set [OF assms(1), of "int q"] by auto
  obtain s2 p2 where s2: "objRead F s1 46 = (take 46 ?b, s2)" "view s2 = Some (c, p2)"
    using read_here [OF s1(2), of 46] assms(2) by auto
  have "LG ?b 0 \<noteq> CENSIG" by (simp add: endPart_def LG_def SH_def CH_def CENSIG_def)
  moreover have "length ?b = 22 + length comment" by (simp add: endPart_def)
  moreover have "\<not> int q < 0" by simp
  ultimately have "readJarEntryInfo F info (of_nat q) s = (dirEnd comment, s2)"
    unfolding readJarEntryInfo_def sint_offset [OF assms(3)] s1(1) Let_def prod.case CENHDRSIZ_def s2(1)
    by (simp add: take_header dirEnd_def CENHDRSIZ_def ENDHDRSIZ_def)
  with s2(2) show ?thesis by blast
qed

lemma read_name:
  assumes "view s = Some (c, p)" "drop (q + 46) c = zipName e @ rest" "q + 46 < 2 ^ 31" "length (zipName e) < 2 ^ 16"
  shows "\<exists>s' p'. getJarEntryName F (zipInfo info q off e) s = ((0, zipName e), s') \<and> view s' = Some (c, p')"
proof -
  obtain s1 where s1: "objSeek F s (int (q + 46)) SEEK_SET = (int (q + 46), s1)" "view s1 = Some (c, q + 46)"
    using seek_set [OF assms(1), of "int (q + 46)"] by (auto simp: nat_add_distrib)
  obtain s2 p2 where s2: "objRead F s1 (length (zipName e)) = (zipName e, s2)" "view s2 = Some (c, p2)"
    using read_here [OF s1(2), of "length (zipName e)"] assms(2) by auto
  have "nameOffset (zipInfo info q off e) = of_nat (q + 46)" by (simp add: zipInfo_def)
  moreover have "unat (nameLen (zipInfo info q off e)) = length (zipName e)"
    using assms(4) by (simp add: zipInfo_def unat_of_nat)
  moreover have "\<not> int (q + 46) < 0" by simp
  ultimately show ?thesis
    unfolding getJarEntryName_def using s1(1) s2 sint_offset [OF assms(3)] by simp
qed

end

text \<open>The place in the directory, the offset and the entry of a name: the first one.\<close>

fun dirFind :: "jbyte list \<Rightarrow> nat \<Rightarrow> ZipDir \<Rightarrow> (nat \<times> nat \<times> ZipEntry) option" where
  "dirFind name q [] = None"
| "dirFind name q ((off, e) # es) =
     (if zipName e = name then Some (q, off, e) else dirFind name (q + length (centralPart off e)) es)"

text \<open>What the directory says of an entry is within the limits of the format.\<close>

definition smallEntry :: "nat \<times> ZipEntry \<Rightarrow> bool" where
  "smallEntry x \<longleftrightarrow> (case x of (off, e) \<Rightarrow> entryOk e \<and> off < 2 ^ 31 \<and> length (packedBytes (zipPacked e)) < 2 ^ 31)"

lemma listed_small: "listedOk body x \<Longrightarrow> length body < 2 ^ 31 \<Longrightarrow> smallEntry x"
proof -
  assume l: "listedOk body x" "length body < 2 ^ 31"
  obtain off e where x: "x = (off, e)" by (cases x)
  with l(1) have "entryOk e" "length (localPart e) \<le> length body - off"
    using prefix_length_le [of "localPart e" "drop off body"] by (simp_all add: listedOk_def)
  moreover have "length (packedBytes (zipPacked e)) < length (localPart e)" by (simp add: localPart_def)
  ultimately have "entryOk e" "off < length body" "length (packedBytes (zipPacked e)) < length body" by linarith+
  with l(2) show ?thesis by (simp add: x smallEntry_def)
qed

lemma zip_small: "zipOk pre body es comment \<Longrightarrow> list_all smallEntry es"
  by (auto simp: zipOk_def zipFile_def list_all_iff intro: listed_small [of body])

context file_object begin

text \<open>At the central header of the first entry: reading it and its name, and where the next one is.\<close>

lemma directory_head:
  assumes "view s = Some (c, p)" "drop q c = centralDir ((off, e) # es) @ rest" "smallEntry (off, e)"
    "length c < 2 ^ 31" "q \<le> length c"
  defines "q' \<equiv> q + length (centralPart off e)"
  shows "drop q' c = centralDir es @ rest" "q' \<le> length c"
    "\<exists>s1 s2 p1 p2. readJarEntryInfo F info (of_nat q) s = (zipInfo info q off e, s1) \<and> view s1 = Some (c, p1)
       \<and> getJarEntryName F (zipInfo info q off e) s1 = ((0, zipName e), s2) \<and> view s2 = Some (c, p2)"
proof -
  have ok: "entryOk e" and off: "off < 2 ^ 31" "length (packedBytes (zipPacked e)) < 2 ^ 31"
    using assms(3) by (simp_all add: smallEntry_def)
  have n: "length (zipName e) < 2 ^ 16" using ok by (simp add: entryOk_def)
  have d: "drop q c = centralPart off e @ centralDir es @ rest" using assms(2) by simp
  have "drop (length (centralPart off e)) (drop q c) = centralDir es @ rest" unfolding d by simp
  then show "drop q' c = centralDir es @ rest" by (simp add: q'_def add.commute)
  have "length (drop q c) = length (centralPart off e @ centralDir es @ rest)" unfolding d ..
  then show q: "q' \<le> length c" using assms(5) by (simp add: q'_def)
  obtain s1 p1 where s1: "readJarEntryInfo F info (of_nat q) s = (zipInfo info q off e, s1)" "view s1 = Some (c, p1)"
    using read_entry [OF assms(1) d ok off, of info] assms(4,5) by auto
  have "drop 46 (drop q c) = zipName e @ zipExtra e @ zipComment e @ centralDir es @ rest"
    unfolding d by (rule central_fields(11) [OF ok off])
  then have dn: "drop (q + 46) c = zipName e @ zipExtra e @ zipComment e @ centralDir es @ rest"
    by (simp add: add.commute)
  have q46: "q + 46 < 2 ^ 31" using q length_centralPart [OF ok, of off] assms(4) by (simp add: q'_def)
  show "\<exists>s1 s2 p1 p2. readJarEntryInfo F info (of_nat q) s = (zipInfo info q off e, s1) \<and> view s1 = Some (c, p1)
       \<and> getJarEntryName F (zipInfo info q off e) s1 = ((0, zipName e), s2) \<and> view s2 = Some (c, p2)"
    using s1 read_name [OF s1(2) dn q46 n] by blast
qed

lemma find_entries:
  assumes "view s = Some (c, p)" "drop q c = centralDir es @ endPart n es' comment" "list_all smallEntry es"
    "length c < 2 ^ 31" "length name < 2 ^ 31" "length es < fuel" "q \<le> length c"
  shows "\<exists>s' p'. (case readJarEntryInfo F info (of_nat q) s of (entry, s1) \<Rightarrow>
      findLoop fuel F info (name @ xs) (of_nat (length name)) entry s1)
    = Done (case dirFind name q es of None \<Rightarrow> dirEnd comment | Some (q', off', e) \<Rightarrow> zipInfo info q' off' e, s')
    \<and> view s' = Some (c, p')"
  using assms
proof (induction es arbitrary: s p q fuel)
  case Nil
  obtain k where k: "fuel = Suc k" using Nil.prems(6) by (cases fuel) auto
  obtain s1 p1 where "readJarEntryInfo F info (of_nat q) s = (dirEnd comment, s1)" "view s1 = Some (c, p1)"
    using read_end [OF Nil.prems(1), of q n es' comment info] Nil.prems(2,4,7) by auto
  then show ?case by (simp add: k dirEnd_def noEntry_def JAR_CORRUPT_def JAR_ENTRY_NOT_FOUND_def)
next
  case (Cons x es)
  obtain off e where x: "x = (off, e)" by (cases x)
  obtain k where k: "fuel = Suc k" "length es < k" using Cons.prems(6) by (cases fuel) auto
  let ?q = "q + length (centralPart off e)"
  have ok: "smallEntry (off, e)" "list_all smallEntry es" using Cons.prems(3) x by simp_all
  have n: "length (zipName e) < 2 ^ 16" using ok(1) by (simp add: smallEntry_def entryOk_def)
  note head = directory_head [OF Cons.prems(1) Cons.prems(2) [unfolded x] ok(1) Cons.prems(4,7)]
  obtain s1 p1 s2 p2 where s1: "readJarEntryInfo F info (of_nat q) s = (zipInfo info q off e, s1)" "view s1 = Some (c, p1)"
    and s2: "getJarEntryName F (zipInfo info q off e) s1 = ((0, zipName e), s2)" "view s2 = Some (c, p2)"
    using head(3) by blast
  have nl: "nameLen (zipInfo info q off e) = of_nat (length name) \<longleftrightarrow> length (zipName e) = length name"
    using n Cons.prems(5) by (auto simp: zipInfo_def word_unat_eq_iff unat_of_nat)
  have tn: "unat (of_nat (length name) :: 32 word) = length name" using Cons.prems(5) by (simp add: unat_of_nat)
  have st: "entryStatus (zipInfo info q off e) = 0" "nextCenEntryOffset (zipInfo info q off e) = of_nat ?q"
    by (simp_all add: zipInfo_def)
  show ?case
  proof (cases "zipName e = name")
    case True
    then show ?thesis using s2 st nl by (simp add: s1(1) k(1) tn x)
  next
    case False
    define t where "t = (if length (zipName e) = length name then s2 else s1)"
    obtain pt where t: "view t = Some (c, pt)" using s1(2) s2(2) by (cases "length (zipName e) = length name") (auto simp: t_def)
    obtain s' p' where s': "(case readJarEntryInfo F info (of_nat ?q) t of (entry, s1) \<Rightarrow>
          findLoop k F info (name @ xs) (of_nat (length name)) entry s1)
        = Done (case dirFind name ?q es of None \<Rightarrow> dirEnd comment | Some (q', off', e) \<Rightarrow> zipInfo info q' off' e, s')"
      "view s' = Some (c, p')"
      using Cons.IH [OF t head(1) ok(2) Cons.prems(4,5) k(2) head(2)] by blast
    have "(case readJarEntryInfo F info (of_nat q) s of (entry, s1) \<Rightarrow>
        findLoop fuel F info (name @ xs) (of_nat (length name)) entry s1)
      = (case readJarEntryInfo F info (of_nat ?q) t of (entry, s1) \<Rightarrow>
          findLoop k F info (name @ xs) (of_nat (length name)) entry s1)"
      using False s2(1) st nl by (auto simp: s1(1) k(1) tn t_def getNextJarEntryInfo_def split: prod.splits)
    with s' False show ?thesis by (auto simp: x)
  qed
qed

text \<open>The data behind a local header.\<close>

lemma read_data:
  assumes "view s = Some (c, p)" "drop q c = localPart e @ rest" "entryOk e" "q < 2 ^ 31"
    "entryOffset entry = of_nat q" "entry = zipInfo info q' off e" "length (packedBytes (zipPacked e)) < 2 ^ 31"
    "\<forall>n. mem n" "length (zipContent e) \<le> length buf" "8 * length (packedBytes (zipPacked e)) + 34 \<le> fuel"
  shows "\<exists>buf' s' p'. inflateJarEntry fuel F mem entry buf old s = Done (0, buf', s') \<and> view s' = Some (c, p')
    \<and> take (length (zipContent e)) buf' = zipContent e \<and> length buf' = length buf"
proof -
  let ?n = "length (zipContent e)" and ?data = "packedBytes (zipPacked e)"
  define b where "b = localPart e @ rest"
  note f = local_fields [OF assms(3), of rest, folded b_def]
  have un: "unpacked (zipPacked e) = Some (zipContent e)" "?n < 2 ^ 31" using assms(3) by (simp_all add: entryOk_def)
  obtain s1 where s1: "objSeek F s (int q) SEEK_SET = (int q, s1)" "view s1 = Some (c, q)"
    using seek_set [OF assms(1), of "int q"] by auto
  have l: "30 \<le> length b" using f(5) by (simp add: b_def)
  obtain s2 where s2: "objRead F s1 30 = (take 30 b, s2)" "view s2 = Some (c, q + 30)"
    using read_here [OF s1(2), of 30] assms(2) l by (auto simp: b_def [symmetric] min_def)
  define k where "k = LOCNAM b + LOCEXT b"
  have t: "LOCNAM (take 30 b) = LOCNAM b" "LOCEXT (take 30 b) = LOCEXT b"
    by (simp_all add: LOCNAM_def LOCEXT_def SH_def CH_def)
  obtain s3 where s3: "objSeek F s2 (int k) SEEK_CUR = (int (q + 30 + k), s3)" "view s3 = Some (c, q + 30 + k)"
    using seek_cur [OF s2(2), of k] by auto
  have "drop (30 + k) (drop q c) = ?data @ rest" using f(4) assms(2) by (simp add: k_def b_def add.assoc)
  then have data: "drop (q + 30 + k) c = ?data @ rest" by (simp add: ac_simps)
  have len: "sint (decompLen entry) = int ?n" "unat (decompLen entry) = ?n" "sint (compLen entry) = int (length ?data)"
    using un(2) assms(7) by (simp_all add: assms(6) zipInfo_def sint_offset unat_of_nat)
  have crc: "expectedCRC entry = jarCRC32 (zipContent e)" "\<not> encrypted entry" by (simp_all add: assms(6) zipInfo_def)
  have nn: "\<not> int q < 0" "\<not> int (q + 30 + k) < 0" "\<not> int ?n < 0" by simp_all
  have go: "inflateJarEntry fuel F mem entry buf old s =
      andThen
        (if compMethod entry = STORED then
           if compLen entry \<noteq> decompLen entry then Done (JAR_ENTRY_SIZE_MISMATCH, buf, s3)
           else case objRead F s3 ?n of (bs, f4) \<Rightarrow>
             Done (if length bs \<noteq> ?n then JAR_EARLY_END_OF_INPUT else 0, bs @ drop (length bs) buf, f4)
         else if compMethod entry = DEFLATED then
           andThen (inflateData fuel (\<lambda>f. objRead F f INFLATEBUFFERSIZE) mem s3 old (int (length ?data)) buf (int ?n))
             (\<lambda>(status, s). Done (status, outBuffer s, fileState s))
         else Done (JAR_UNKNOWN_COMP_METHOD, buf, s3))
        (\<lambda>(status, buf, f5).
          if status \<noteq> 0 then Done (status, buf, f5)
          else if length buf < ?n then Undefined
          else Done (if jarCRC32 (take ?n buf) \<noteq> jarCRC32 (zipContent e) then JAR_ENTRY_CORRUPT else 0, buf, f5))"
    unfolding inflateJarEntry_def assms(5) sint_offset [OF assms(4)] s1(1) Let_def prod.case LOCHDRSIZ_def s2(1) t
      k_def [symmetric] s3(1) len crc(1)
    using crc(2) nn l assms(9) by simp
  show ?thesis
  proof (cases "zipPacked e")
    case (StoredData bs)
    then have bs: "bs = zipContent e" using un(1) by simp
    obtain s4 p4 where s4: "objRead F s3 ?n = (zipContent e, s4)" "view s4 = Some (c, p4)"
      using read_here [OF s3(2), of ?n] data bs StoredData by auto
    have "compMethod entry = STORED" "compLen entry = decompLen entry"
      by (simp_all add: assms(6) zipInfo_def STORED_def StoredData bs)
    then show ?thesis using s4 assms(9) by (simp add: go)
  next
    case (DeflatedData blocks)
    then have blocks: "blocks \<noteq> []" "list_all blockOk blocks" "expandBlocks blocks [] = Some (zipContent e)" "?data = deflate blocks"
      using un(1) by (auto split: if_splits)
    have r: "restOf c s3 = Some (deflate blocks @ rest)" using s3(2) data blocks(4) by (simp add: restOf_def)
    obtain st where st: "inflateData fuel (\<lambda>f. objRead F f INFLATEBUFFERSIZE) mem s3 old (int (length ?data)) buf (int ?n) = Done (0, st)"
      "take ?n (outBuffer st) = zipContent e" "length (outBuffer st) = length buf" "restOf c (fileState st) \<noteq> None"
      using inflate_deflated [OF portions r assms(8) blocks(1-3) un(2) assms(9), of fuel old] assms(10) blocks(4) by auto
    have "compMethod entry = DEFLATED" by (simp add: assms(6) zipInfo_def DEFLATED_def DeflatedData)
    moreover obtain p' where "view (fileState st) = Some (c, p')" using st(4) unfolding rest_of by blast
    ultimately show ?thesis using st(1-3) assms(9) by (simp add: go STORED_def DEFLATED_def)
  qed
qed

end

section \<open>Opening an archive\<close>

lemma end_at_suffix:
  "endAt (pre @ xs) (length pre + k) \<longleftrightarrow> endAt xs k"
  by (simp add: endAt_def add.assoc)

lemma last_end:
  assumes "zipOk pre body es comment"
  shows "endHeaderPos (zipFile pre body es comment) = Some (length pre + length body + length (centralDir es))"
proof -
  let ?c = "zipFile pre body es comment" and ?tail = "endPart (length body) es comment"
  let ?front = "pre @ body @ centralDir es"
  define p where "p = length ?front"
  have c: "?c = ?front @ ?tail" by (simp add: zipFile_def)
  have small: "length (centralDir es) < 2 ^ 31" "length body < 2 ^ 31" "length comment < 2 ^ 16"
    using assms by (simp_all add: zipOk_def zipFile_def)
  note f = end_fields [OF small]
  have l: "length ?c = p + ENDHDRSIZ + length comment" using f(5) by (simp add: c p_def)
  have here: "endAt ?c p"
    unfolding c p_def using end_at_suffix [of ?front ?tail 0] f(3-5) by (simp add: endAt_def)
  have later: "\<not> endAt ?c q" if q: "p < q" "q \<le> p + length comment" for q
  proof -
    have "\<not> endAt ?tail k" if "1 \<le> k" "k \<le> length comment" for k
      using assms that by (auto simp: zipOk_def list_all_iff simp del: upt_Suc)
    from this [of "q - p"] q have "\<not> endAt ?tail (q - p)" by auto
    then show ?thesis using end_at_suffix [of ?front ?tail "q - p"] q(1) by (simp add: c p_def)
  qed
  have "76 \<le> p"
  proof -
    obtain off e es' where e: "es = (off, e) # es'" using assms by (cases es) (auto simp: zipOk_def)
    then have "listedOk body (off, e)" using assms by (simp add: zipOk_def)
    then have "entryOk e" "length (localPart e) \<le> length body"
      using prefix_length_le [of "localPart e" "drop off body"] by (simp_all add: listedOk_def)
    with e show ?thesis
      using local_fields(5) [of e "[]"] length_centralPart [of e off] by (simp add: p_def)
  qed
  then have lo: "min (LOCHDRSIZ + CENHDRSIZ) (length ?c - ENDHDRSIZ) \<le> p" by (simp add: LOCHDRSIZ_def CENHDRSIZ_def)
  have hi: "length ?c - ENDHDRSIZ = p + length comment" using l by simp
  have "rev [m..<Suc (p + n)] = rev [Suc p..<Suc (p + n)] @ p # rev [m..<p]" if "m \<le> p" for m n
    using upt_add_eq_append [of m p "Suc n"] upt_conv_Cons [of p "Suc (p + n)"] that by (simp del: upt_Suc)
  from this [OF lo, of "length comment"]
  have "endHeaderPos ?c = find (endAt ?c) (rev [Suc p..<Suc (p + length comment)] @ p # rev [min (LOCHDRSIZ + CENHDRSIZ) (length ?c - ENDHDRSIZ)..<p])"
    by (simp only: endHeaderPos_def hi)
  moreover have "find (endAt ?c) (xs @ p # ys) = Some p" if "\<forall>x \<in> set xs. \<not> endAt ?c x" for xs ys
    using that here by (induction xs) auto
  ultimately have "endHeaderPos ?c = Some p" using later by (auto simp del: upt_Suc)
  then show ?thesis by (simp add: p_def)
qed

lemma end_info:
  assumes "zipOk pre body es comment"
  shows "endInfo (zipFile pre body es comment) (length pre + length body + length (centralDir es))
    = \<lparr>jarStatus = 0, locOffset = of_nat (length pre), cenOffset = of_nat (length pre + length body)\<rparr>"
proof -
  let ?c = "zipFile pre body es comment"
  have small: "length (centralDir es) < 2 ^ 31" "length body < 2 ^ 31" "length comment < 2 ^ 16" "length pre < 2 ^ 31"
    using assms by (simp_all add: zipOk_def zipFile_def)
  note f = end_fields [OF small(1-3)]
  have d: "drop (length pre + length body + length (centralDir es)) ?c = endPart (length body) es comment"
    by (simp add: zipFile_def)
  have "take 4 body = [0x50, 0x4B, 3, 4]" using assms by (simp add: zipOk_def)
  moreover from this have "4 \<le> length body" by (cases "4 \<le> length body") (auto dest: arg_cong [of _ _ length])
  ultimately have "take 4 (drop (length pre) ?c) = [0x50, 0x4B, 3, 4]" by (simp add: zipFile_def)
  then have "localAt ?c (of_nat (length pre))" by (simp add: localAt_def sint_offset [OF small(4)])
  then show ?thesis by (simp add: endInfo_def Let_def d f(1,2))
qed

context file_object begin

lemma open_archive:
  assumes "view s = Some (zipFile pre body es comment, 0)" "zipOk pre body es comment" "length stack = ENDHDRSIZ"
  shows "\<exists>s' p'. getJarInfo F stack s = Done (\<lparr>jarStatus = 0, locOffset = of_nat (length pre),
      cenOffset = of_nat (length pre + length body)\<rparr>, s') \<and> view s' = Some (zipFile pre body es comment, p') \<and> 0 < p'"
proof -
  have "\<not> length (zipFile pre body es comment) < ENDHDRSIZ" by (simp add: zipFile_def endPart_def ENDHDRSIZ_def)
  then show ?thesis using jar_info [OF assms(1,3)] last_end [OF assms(2)] end_info [OF assms(2)] by simp
qed

end

end
