(* ===== verification/JarEntries.thy ===== *)
theory JarEntries
  imports JarArchive
begin

text \<open>
  The properties of the JAR reader: the search for the end header, and archives in the storage layer
  from opening to the content of entries.
\<close>

section \<open>Names\<close>

definition utf8Of :: "jchar list \<Rightarrow> jbyte list" where
  "utf8Of t = fst (convertAll utf16Step t)"

lemma utf8_text: "wellFormed16 t \<Longrightarrow> convertAll utf16Step (t @ [0]) = (utf8Of t @ [0], False)"
proof (induction t rule: wellFormed16.induct)
  case 1
  then show ?case by (simp add: utf8Of_def utf16Step_def)
next
  case (2 c cs)
  show ?case
  proof (cases "highHalf c")
    case True
    with 2(3) obtain d ds where cs: "cs = d # ds" "lowHalf d" "wellFormed16 ds"
      by (cases cs) auto
    obtain bs where s: "utf16Step c (d # ds) = (bs, False, 1)"
      using decode_pair [OF True cs(2), of ds "[]"] by blast
    have "utf16Step c (d # (ds @ [0])) = utf16Step c (d # ds)" by (simp add: utf16Step_def)
    with s have s': "utf16Step c (d # (ds @ [0])) = (bs, False, 1)" by simp
    show ?thesis
      using 2(1) [OF True cs(1,3)] convertAll_step [where step = utf16Step, OF s] convertAll_step [where step = utf16Step, OF s'] cs(1)
      by (simp add: utf8Of_def)
  next
    case False
    with 2(3) have c: "\<not> lowHalf c" "wellFormed16 cs" by (auto split: if_splits)
    obtain bs where s: "utf16Step c cs = (bs, False, 0)" using decode_bmp [OF False c(1), of cs "[]"] by blast
    have "utf16Step c (cs @ [0]) = utf16Step c cs" by (simp only: utf16Step_def if_not_P [OF False])
    with s have s': "utf16Step c (cs @ [0]) = (bs, False, 0)" by simp
    show ?thesis
      using 2(2) [OF False c(2)] convertAll_step [where step = utf16Step, OF s] convertAll_step [where step = utf16Step, OF s']
      by (simp add: utf8Of_def)
  qed
qed

lemma utf8_name:
  assumes "pcslOk n" "textOf n = Some t" "wellFormed16 t"
  shows "pcsl_string_utf8_length (Some n) = int (length (utf8Of t))"
    "(\<And>i. mem i) \<Longrightarrow> pcsl_string_get_utf8_data mem (Some n) = Some (utf8Of t @ [0])"
proof -
  have d: "dataOf (Some n) = Some (t @ [0])" using assms(1,2) by (elim pcslOkE) (auto simp: dataOf_def)
  note u = utf8_text [OF assms(3)]
  have null: "pcsl_utf16_convert_to_utf8 (Some (t @ [0])) None = (PCSL_STRING_OK, Suc (length (utf8Of t)), None)"
    using conversion_result(1) [of utf16Step "t @ [0]"] by (simp add: pcsl_utf16_convert_to_utf8_def u)
  then show l: "pcsl_string_utf8_length (Some n) = int (length (utf8Of t))"
    by (simp add: pcsl_string_utf8_length_def d)
  have buf: "pcsl_utf16_convert_to_utf8 (Some (t @ [0])) (Some (replicate (Suc (length (utf8Of t))) 0))
      = (PCSL_STRING_OK, Suc (length (utf8Of t)), Some (utf8Of t @ [0]))"
    using conversion_result(2) [of utf16Step "t @ [0]" "replicate (Suc (length (utf8Of t))) 0"]
    by (auto simp: pcsl_utf16_convert_to_utf8_def u)
  assume "\<And>i. mem i"
  then show "pcsl_string_get_utf8_data mem (Some n) = Some (utf8Of t @ [0])"
    using buf by (simp add: pcsl_string_get_utf8_data_def l pcsl_string_convert_to_utf8_def d nat_add_distrib)
qed

section \<open>Entries\<close>

text \<open>The entry of a name, with its offset: the first one in the directory.\<close>

definition zipLookup :: "jbyte list \<Rightarrow> ZipDir \<Rightarrow> (nat \<times> ZipEntry) option" where
  "zipLookup name es = find (\<lambda>(off, e). zipName e = name) es"

lemma dir_find:
  "zipLookup name es = None \<Longrightarrow> dirFind name q es = None"
  "zipLookup name es = Some (off, e) \<Longrightarrow> (off, e) \<in> set es \<and> (\<exists>q'. dirFind name q es = Some (q', off, e))"
  by (induction es arbitrary: q) (auto simp: zipLookup_def split: if_splits)

definition openedJar :: "int \<Rightarrow> jbyte list \<Rightarrow> jbyte list \<Rightarrow> MidpJarInfo" where
  "openedJar h pre body = \<lparr>jarFile = h, jarInfo = \<lparr>jarStatus = 0, locOffset = of_nat (length pre),
     cenOffset = of_nat (length pre + length body)\<rparr>\<rparr>"

text \<open>The common hypotheses: an open archive, and a name.\<close>

definition archiveOpen :: "int \<Rightarrow> jbyte list \<Rightarrow> jbyte list \<Rightarrow> ZipDir \<Rightarrow> jbyte list \<Rightarrow> StorageSys \<Rightarrow> bool" where
  "archiveOpen h pre body es comment s \<longleftrightarrow> zipOk pre body es comment
     \<and> (\<exists>p. jarView (resources s) h s = Some (zipFile pre body es comment, p))"

definition nameIs :: "PcslString \<Rightarrow> jbyte list \<Rightarrow> bool" where
  "nameIs n bs \<longleftrightarrow> pcslOk n \<and> length bs < 2 ^ 31 \<and> (\<exists>t. textOf n = Some t \<and> wellFormed16 t \<and> bs = utf8Of t)"

lemma look_up:
  assumes "archiveOpen h pre body es comment s" "nameIs n name" "\<And>k i. mem k i" "length es < fuel"
  defines "q \<equiv> length pre + length body"
  shows "\<exists>s'. lookUp fuel mem (openedJar h pre body) (Some n) s = Done (Some (case dirFind name q es of
        None \<Rightarrow> dirEnd comment | Some (q', off', e) \<Rightarrow> zipInfo (jarInfo (openedJar h pre body)) q' off' e), s')
    \<and> archiveOpen h pre body es comment s' \<and> resources s' = resources s"
proof -
  let ?c = "zipFile pre body es comment" and ?info = "jarInfo (openedJar h pre body)"
  obtain p where v: "jarView (resources s) h s = Some (?c, p)" and ok: "zipOk pre body es comment" using assms(1) by (auto simp: archiveOpen_def)
  obtain t where t: "pcslOk n" "length name < 2 ^ 31" "textOf n = Some t" "wellFormed16 t" "name = utf8Of t"
    using assms(2) by (auto simp: nameIs_def)
  have name: "pcsl_string_utf8_length (Some n) = int (length name)" "pcsl_string_get_utf8_data (mem 0) (Some n) = Some (name @ [0])"
    using utf8_name [OF t(1,3,4)] assms(3) by (simp_all add: t(5))
  have d: "drop q ?c = centralDir es @ endPart (length body) es comment" by (simp add: zipFile_def q_def)
  have e: "list_all smallEntry es" "length ?c < 2 ^ 31" "q \<le> length ?c"
    using ok zip_small [OF ok] by (simp_all add: zipOk_def zipFile_def q_def)
  have "cenOffset ?info = of_nat q" by (simp add: openedJar_def q_def)
  moreover have "jarFile (openedJar h pre body) = h" by (simp add: openedJar_def)
  moreover obtain s' p' where "(case readJarEntryInfo (storageFile h) ?info (of_nat q) s of (entry, s1) \<Rightarrow>
      findLoop fuel (storageFile h) ?info (name @ [0]) (of_nat (length name)) entry s1)
    = Done (case dirFind name q es of None \<Rightarrow> dirEnd comment | Some (q', off', e) \<Rightarrow> zipInfo ?info q' off' e, s')"
    "jarView (resources s) h s' = Some (?c, p')"
    using jarFiles.find_entries [OF v d e(1,2) t(2) assms(4) e(3), of ?info "[0]"] by blast
  moreover from this have "resources s' = resources s" by (auto dest: view_resources)
  ultimately show ?thesis using assms(3) name ok
    by (simp add: lookUp_def findJarEntryInfo_def getFirstJarEntryInfo_def archiveOpen_def)
qed

section \<open>Going through the entries\<close>

text \<open>What the callbacks are to see: the names in the order of the directory, until one action fails.\<close>

fun visit :: "(PcslString option \<Rightarrow> 'w \<Rightarrow> bool \<times> 'w) \<Rightarrow> (PcslString option \<Rightarrow> 'w \<Rightarrow> bool \<times> 'w) \<Rightarrow> jchar list list \<Rightarrow> 'w
    \<Rightarrow> int \<times> 'w" where
  "visit filt act [] w = (1, w)"
| "visit filt act (t # ts) w =
     (let n = Some (heapString (t @ [0])); (match, w1) = filt n w; (ok, w2) = (if match then act n w1 else (True, w1)) in
      if ok then visit filt act ts w2 else (0, w2))"

text \<open>A name in UTF-8; zeros at its end would be cut off.\<close>

definition entryText :: "nat \<times> ZipEntry \<Rightarrow> jchar list \<Rightarrow> bool" where
  "entryText x t \<longleftrightarrow> (let name = zipName (snd x) in
     wellFormed16 t \<and> name = utf8Of t \<and> (name \<noteq> [] \<longrightarrow> last name \<noteq> 0))"

lemma utf8_decoded:
  assumes "wellFormed16 t" "utf8Of t \<noteq> [] \<longrightarrow> last (utf8Of t) \<noteq> 0" "\<And>i. mem i" "mem2"
  shows "pcsl_string_convert_from_utf8 mem mem2 (Some (utf8Of t)) (int (length (utf8Of t))) (Some u)
    = (PCSL_STRING_OK, Some (heapString (t @ [0])))"
proof -
  have e: "convertAll utf8Step (utf8Of t) = (t, False)" using roundtrip_all [OF assms(1)] by (simp add: utf8Of_def)
  have z: "stripZeros (utf8Of t) = utf8Of t"
    using assms(2) by (cases "utf8Of t" rule: rev_cases) (simp_all add: stripZeros_def)
  show ?thesis
    using from_utf8_result [of "length (utf8Of t)" "utf8Of t" mem mem2 u] assms(3,4) by (simp add: z e)
qed

lemma iterate_loop:
  assumes "jarView r h s = Some (c, p)" "drop q c = centralDir es @ endPart n es' comment" "list_all smallEntry es"
    "length c < 2 ^ 31" "length es < fuel" "q \<le> length c"
    "list_all2 entryText es ts" "\<And>k i. mem k i" "jarFile jar = h"
  shows "\<exists>s' p'. (case readJarEntryInfo (storageFile h) (jarInfo jar) (of_nat q) s of (entry, s1) \<Rightarrow>
      iterateLoop fuel mem filt act jar entry s1 w)
    = (case visit filt act ts w of (v, w') \<Rightarrow> Done (v, s', w')) \<and> jarView r h s' = Some (c, p')"
  using assms
proof (induction es arbitrary: s p q fuel ts w)
  case Nil
  obtain k where k: "fuel = Suc k" using Nil.prems(5) by (cases fuel) auto
  obtain s1 p1 where "readJarEntryInfo (storageFile h) (jarInfo jar) (of_nat q) s = (dirEnd comment, s1)"
    "jarView r h s1 = Some (c, p1)"
    using jarFiles.read_end [OF Nil.prems(1), of q n es' comment "jarInfo jar"] Nil.prems(2,4,6) by auto
  with Nil.prems(7) show ?case by (simp add: k dirEnd_def noEntry_def JAR_CORRUPT_def JAR_ENTRY_NOT_FOUND_def)
next
  case (Cons x es)
  obtain off e where x: "x = (off, e)" by (cases x)
  obtain k where k: "fuel = Suc k" "length es < k" using Cons.prems(5) by (cases fuel) auto
  obtain t ts' where t: "ts = t # ts'" "entryText (off, e) t" "list_all2 entryText es ts'"
    using Cons.prems(7) x by (auto simp: list_all2_Cons1)
  let ?q = "q + length (centralPart off e)" and ?info = "jarInfo jar"
  have ok: "smallEntry (off, e)" "list_all smallEntry es" using Cons.prems(3) x by simp_all
  have n: "length (zipName e) < 2 ^ 16" using ok(1) by (simp add: smallEntry_def entryOk_def)
  note head = jarFiles.directory_head [OF Cons.prems(1) Cons.prems(2) [unfolded x] ok(1) Cons.prems(4,6)]
  obtain s1 p1 s2 p2 where s1: "readJarEntryInfo (storageFile h) ?info (of_nat q) s = (zipInfo ?info q off e, s1)"
    "jarView r h s1 = Some (c, p1)"
    and s2: "getJarEntryName (storageFile h) (zipInfo ?info q off e) s1 = ((0, zipName e), s2)" "jarView r h s2 = Some (c, p2)"
    using head(3) by blast
  have nl: "sint (nameLen (zipInfo ?info q off e)) = int (length (zipName e))" using n by (simp add: zipInfo_def sint_offset)
  have name: "pcsl_string_convert_from_utf8 (mem 1) (mem 2 0) (Some (zipName e)) (int (length (zipName e))) (Some NULL_STRING)
      = (PCSL_STRING_OK, Some (heapString (t @ [0])))"
    using utf8_decoded [of t "mem 1" "mem 2 0" NULL_STRING] t(2) Cons.prems(8) by (auto simp: entryText_def Let_def)
  have st: "entryStatus (zipInfo ?info q off e) = 0" "nextCenEntryOffset (zipInfo ?info q off e) = of_nat ?q"
    by (simp_all add: zipInfo_def)
  let ?n = "Some (heapString (t @ [0]))"
  obtain match w1 where f: "filt ?n w = (match, w1)" by fastforce
  obtain ok' w2 where a: "(if match then act ?n w1 else (True, w1)) = (ok', w2)" by fastforce
  have loop: "iterateLoop fuel mem filt act jar (zipInfo ?info q off e) s1 w =
      (if \<not> ok' then Done (0, s2, w2)
       else case readJarEntryInfo (storageFile h) ?info (of_nat ?q) s2 of (entry, s3) \<Rightarrow> iterateLoop k mem filt act jar entry s3 w2)"
    unfolding k(1) iterateLoop.simps Let_def st Cons.prems(9) s2(1) prod.case nl name f a getNextJarEntryInfo_def
    using Cons.prems(8) by simp
  have visited: "visit filt act ts w = (if ok' then visit filt act ts' w2 else (0, w2))"
    unfolding t(1) visit.simps Let_def f prod.case a ..
  show ?case
  proof (cases ok')
    case True
    from Cons.IH [OF s2(2) head(1) ok(2) Cons.prems(4) k(2) head(2) t(3) Cons.prems(8,9), of w2] True show ?thesis
      by (simp add: s1(1) loop visited)
  next
    case False
    with s2(2) show ?thesis by (simp add: s1(1) loop visited)
  qed
qed

section \<open>Opening\<close>

text \<open>A file with the content \<open>c\<close> that can be opened, in a state where no call fails.\<close>

definition jarFileIs :: "int \<Rightarrow> pcsl_string \<Rightarrow> jbyte list \<Rightarrow> StorageSys \<Rightarrow> bool" where
  "jarFileIs cur name c s \<longleftrightarrow> quiet (os s) \<and> 0 \<le> nextFd (os s) \<and> quota_inv cur (resources s)
     \<and> midpCheckResourceLimit 0 1 cur FILE 1 (resources s) = Some (True, resources s)
     \<and> (\<exists>q i. pathOf name (os s) = Some q \<and> names (os s) q = Some i \<and> \<not> isDirectory (os s) q \<and> inodes (os s) i = c)"

text \<open>What the search for the end header says of a whole file.\<close>

definition damaged :: "jbyte list \<Rightarrow> bool" where
  "damaged c \<longleftrightarrow> length c < ENDHDRSIZ \<or> (case endHeaderPos c of None \<Rightarrow> True | Some p \<Rightarrow> jarStatus (endInfo c p) \<noteq> 0)"

lemma open_for_reading:
  assumes "jarFileIs cur name c s"
  shows "\<exists>s'. storage_open cur name OPEN_READ s = Some ((None, nextFd (os s)), s')
    \<and> holding 0 cur FILE (resources s') = holding 0 cur FILE (resources s) + 1 \<and> jarView (resources s') (nextFd (os s)) s' = Some (c, 0)"
proof -
  obtain q i where f: "pathOf name (os s) = Some q" "names (os s) q = Some i" "\<not> isDirectory (os s) q" "inodes (os s) i = c"
    and g: "quiet (os s)" "0 \<le> nextFd (os s)" "quota_inv cur (resources s)"
      "midpCheckResourceLimit 0 1 cur FILE 1 (resources s) = Some (True, resources s)"
    using assms by (auto simp: jarFileIs_def)
  obtain r where r: "midpIncResourceCount 0 1 cur FILE 1 (resources s) = Some (True, r)"
    "holding 0 cur FILE r = holding 0 cur FILE (resources s) + 1"
    using fq.acquire_checked [OF g(3), of FILE] g(4) by auto
  show ?thesis
    using open_existing [OF f(1) g(1) f(2,3) g(2)] r g(1,4) f(4)
    by (auto simp: storage_open_def onOs_def Let_def jarView_def)
qed

lemma zip_not_damaged: "zipOk pre body es comment \<Longrightarrow> \<not> damaged (zipFile pre body es comment)"
  using last_end [of pre body es comment] end_info [of pre body es comment]
  by (simp add: damaged_def) (simp add: zipFile_def endPart_def ENDHDRSIZ_def)

lemma open_jar:
  assumes "jarFileIs cur name c s" "length stack = ENDHDRSIZ"
  shows "if damaged c then
      endHeaderPos c = None \<and> 98 < length c \<and> midpOpenJar True cur stack name s = Undefined
      \<or> (\<exists>s' p'. midpOpenJar True cur stack name s = Done ((MIDP_JAR_CORRUPT_ERROR, None), s')
          \<and> holding 0 cur FILE (resources s') = holding 0 cur FILE (resources s) + 1 \<and> jarView (resources s') (nextFd (os s)) s' = Some (c, p'))
    else \<exists>s' p'. midpOpenJar True cur stack name s
        = Done ((0, Some \<lparr>jarFile = nextFd (os s), jarInfo = endInfo c (the (endHeaderPos c))\<rparr>), s')
      \<and> holding 0 cur FILE (resources s') = holding 0 cur FILE (resources s) + 1
      \<and> jarView (resources s') (nextFd (os s)) s' = Some (c, p') \<and> 0 < p'"
proof -
  let ?h = "nextFd (os s)"
  obtain s1 where o: "storage_open cur name OPEN_READ s = Some ((None, ?h), s1)"
    "holding 0 cur FILE (resources s1) = holding 0 cur FILE (resources s) + 1" "jarView (resources s1) ?h s1 = Some (c, 0)"
    using open_for_reading [OF assms(1)] by blast
  have m: "midpOpenJar True cur stack name s = andThen (getJarInfo (storageFile ?h) stack s1) (\<lambda>(info, s2).
      if jarStatus info \<noteq> 0 then Done ((MIDP_JAR_CORRUPT_ERROR, None), s2)
      else Done ((0, Some \<lparr>jarFile = ?h, jarInfo = info\<rparr>), s2))"
    by (simp add: midpOpenJar_def o(1))
  have r: "jarView (resources s1) ?h s2 = Some x \<Longrightarrow> resources s2 = resources s1" for s2 x by (rule view_resources)
  note i = jarFiles.jar_info [OF o(3) assms(2)]
  show ?thesis
    using i r o(2) by (cases "length c < ENDHDRSIZ"; cases "endHeaderPos c") (auto simp: m damaged_def badJar_def)
qed


section \<open>A sample\<close>

definition sampleEntry :: "jbyte list \<Rightarrow> jbyte list \<Rightarrow> Packed \<Rightarrow> ZipEntry" where
  "sampleEntry name content packed = \<lparr>zipName = name, zipContent = content, zipPacked = packed, zipFlags = 8,
     zipVersions = [20, 0, 20, 0], zipTimes = [1, 2, 3, 4], zipAttributes = replicate 8 0, zipExtra = [], zipComment = [7],
     zipLocal = replicate 22 0, zipLocalExtra = [5, 6]\<rparr>"

text \<open>
  Three entries, two of them with the name \<^verbatim>\<open>b\<close>; the first of these is compressed. A data descriptor is
  behind the first, and the directory has it second.
\<close>

definition sampleA :: ZipEntry where
  "sampleA = sampleEntry [0x61] [1, 2, 3] (StoredData [1, 2, 3])"

definition sampleB :: ZipEntry where
  "sampleB = sampleEntry [0x62] [65, 65, 65, 65] (DeflatedData [FixedBlock [Literal 65, Match 0 0 0 0]])"

definition sampleC :: ZipEntry where
  "sampleC = sampleEntry [0x62] [] (StoredData [])"

definition sampleBody :: "jbyte list" where
  "sampleBody = localPart sampleA @ [0x50, 0x4B, 7, 8] @ bytes32 (unat (jarCRC32 [1, 2, 3])) @ bytes32 3 @ bytes32 3
     @ localPart sampleB @ localPart sampleC"

definition sampleZip :: ZipDir where
  "sampleZip = [(length (localPart sampleA) + 16, sampleB), (0, sampleA),
     (length (localPart sampleA) + 16 + length (localPart sampleB), sampleC)]"

text \<open>The usual check value of the checksum.\<close>

lemma checksum_value: "jarCRC32 [0x31, 0x32, 0x33, 0x34, 0x35, 0x36, 0x37, 0x38, 0x39] = 0xCBF43926"
  by code_simp

definition sampleFile :: "jbyte list \<Rightarrow> StorageSys" where
  "sampleFile c = sampleStorage\<lparr>os := sampleOs\<lparr>inodes := (inodes sampleOs)(0 := c),
     fds := [9 \<mapsto> \<lparr>ofInode = 0, ofPos = 0, ofRead = True, ofWrite = False\<rparr>]\<rparr>\<rparr>"

lemma sample_jar_view: "jarView startedResources 9 (sampleFile c) = Some (c, 0)"
  by (simp add: jarView_def sampleFile_def sampleStorage_def sampleOs_def quiet_def)

lemma sample_jar: "jarFileIs 1 (Some [0x61]) c (sampleFile c)"
  using started_facts(2) sample_facts(2) started_check
  by (simp add: jarFileIs_def sampleFile_def sampleStorage_def)
    (simp add: sampleOs_def pathOf_def fileNameUnits_def javacall_UNICODEsToUtf8_def)

lemma sample_entries:
  "list_all entryOk [sampleA, sampleB, sampleC]" "length (packedBytes (zipPacked sampleB)) \<le> 10"
proof -
  show d: "length (packedBytes (zipPacked sampleB)) \<le> 10"
    using deflate_length [of "[FixedBlock [Literal 65, Match 0 0 0 0]]"]
    by (simp add: sampleB_def sampleEntry_def fixedCode_def ll_extra_bits_def dist_extra_bits_def)
  have e: "expandBlocks [FixedBlock [Literal 65, Match 0 0 0 0]] [] = Some [65, 65, 65, 65]"
    "list_all blockOk [FixedBlock [Literal 65, Match 0 0 0 0]]"
    by (simp_all add: ll_length_base_def dist_base_def numeral_3_eq_3)
  then show "list_all entryOk [sampleA, sampleB, sampleC]"
    by (simp add: sampleA_def sampleB_def sampleC_def sampleEntry_def entryOk_def)
qed

lemma sample_zip: "zipOk [9, 9] sampleBody sampleZip []"
proof -
  let ?A = "localPart sampleA" and ?B = "localPart sampleB" and ?C = "localPart sampleC"
  let ?D = "[0x50, 0x4B, 7, 8] @ bytes32 (unat (jarCRC32 [1, 2, 3])) @ bytes32 3 @ bytes32 3"
  have b: "sampleBody = ?A @ ?D @ ?B @ ?C" by (simp add: sampleBody_def)
  have D: "length ?D = 16" by simp
  have "drop (length ?A + 16) sampleBody = ?B @ ?C" "drop 0 sampleBody = ?A @ ?D @ ?B @ ?C"
    "drop (length ?A + 16 + length ?B) sampleBody = ?C"
    unfolding b using D by (simp_all del: append.simps)
  moreover have "prefix ?A sampleBody" by (subst b) (rule prefixI, rule refl)
  ultimately have listed: "list_all (listedOk sampleBody) sampleZip"
    using sample_entries(1) by (simp add: sampleZip_def listedOk_def)
  have lens: "length ?A = 36" "length ?B \<le> 43" "length ?C = 33"
    using sample_entries(2) by (simp_all add: localPart_def sampleA_def sampleB_def sampleC_def sampleEntry_def)
  have "length sampleBody \<le> 200" unfolding b using lens D by simp
  moreover have "length (centralDir sampleZip) \<le> 200"
    by (simp add: sampleZip_def centralPart_def sampleA_def sampleB_def sampleC_def sampleEntry_def)
  ultimately have "length (zipFile [9, 9] sampleBody sampleZip []) < 2 ^ 31"
    by (simp add: zipFile_def endPart_def)
  moreover have "take 4 sampleBody = [0x50, 0x4B, 3, 4]" by (simp add: b localPart_def)
  ultimately show ?thesis using listed by (simp add: zipOk_def) (simp add: sampleZip_def)
qed

lemma sample_archive: "archiveOpen 9 [9, 9] sampleBody sampleZip [] (sampleFile (zipFile [9, 9] sampleBody sampleZip []))"
proof -
  have "resources (sampleFile c) = startedResources" for c by (simp add: sampleFile_def sampleStorage_def)
  then show ?thesis using sample_zip sample_jar_view by (simp add: archiveOpen_def)
qed

lemma sample_names: "nameIs (heapString [0x62, 0]) [0x62]" "nameIs (heapString [0x63, 0]) [0x63]"
  by (simp_all add: nameIs_def pcslOk_def heapString_def textOf_def utf8Of_def utf16Step_def)

section \<open>Properties\<close>


text \<open>
  C36. The search for the end header agrees with the plain one: it skips back by what the byte under
  the index allows, through a window that moves over the file, and still finds the last place
  where an end header can be; a file without one is refused, unless it has more than 98 bytes and the
  search leaves its buffer.
\<close>

theorem end_header_found:
  assumes "jarView r h s = Some (c, 0)" "length stack = ENDHDRSIZ"
  shows "if length c < ENDHDRSIZ
    then \<exists>s' p'. getJarInfo (storageFile h) stack s = Done (badJar (-1), s') \<and> jarView r h s' = Some (c, p')
    else case endHeaderPos c of
      Some p \<Rightarrow> \<exists>s' p'. getJarInfo (storageFile h) stack s = Done (endInfo c p, s') \<and> jarView r h s' = Some (c, p')
        \<and> (jarStatus (endInfo c p) = 0 \<longrightarrow> 0 < p')
    | None \<Rightarrow> getJarInfo (storageFile h) stack s = Undefined \<and> 98 < length c
        \<or> (\<exists>s' p'. getJarInfo (storageFile h) stack s = Done (badJar (-3), s') \<and> jarView r h s' = Some (c, p'))"
  using jarFiles.jar_info [OF assms] .

lemma end_header_found_witness:
  "\<exists>s'. getJarInfo (storageFile 9) (replicate 22 0) (sampleFile (zipFile [9, 9] sampleBody sampleZip []))
    = Done (\<lparr>jarStatus = 0, locOffset = 2, cenOffset = of_nat (2 + length sampleBody)\<rparr>, s')"
proof -
  have "\<not> length (zipFile [9, 9] sampleBody sampleZip []) < ENDHDRSIZ" by (simp add: zipFile_def endPart_def ENDHDRSIZ_def)
  then show ?thesis
    using end_header_found [OF sample_jar_view, of "replicate 22 0" "zipFile [9, 9] sampleBody sampleZip []"]
      last_end [OF sample_zip] end_info [OF sample_zip] by (auto simp: ENDHDRSIZ_def)
qed

text \<open>
  C37. An archive opens: whatever its entries, whatever stands before it, and whatever the comment behind it,
  unless that ends in an end header, the handle has the file and the places of the first entry and of the
  directory, and the isolate holds one more file.
\<close>

theorem archive_opened:
  assumes "jarFileIs cur name (zipFile pre body es comment) s" "zipOk pre body es comment" "length stack = ENDHDRSIZ"
  shows "\<exists>s'. midpOpenJar True cur stack name s = Done ((0, Some (openedJar (nextFd (os s)) pre body)), s')
    \<and> archiveOpen (nextFd (os s)) pre body es comment s'
    \<and> holding 0 cur FILE (resources s') = holding 0 cur FILE (resources s) + 1"
  using open_jar [OF assms(1,3)] zip_not_damaged [OF assms(2)] last_end [OF assms(2)] end_info [OF assms(2)] assms(2)
  by (auto simp: archiveOpen_def openedJar_def)

lemma archive_opened_witness:
  "\<exists>s'. midpOpenJar True 1 (replicate 22 0) (Some [0x61]) (sampleFile (zipFile [9, 9] sampleBody sampleZip []))
      = Done ((0, Some (openedJar 6 [9, 9] sampleBody)), s') \<and> holding 0 1 FILE (resources s') = 1"
proof -
  have "nextFd (os (sampleFile c)) = 6" "holding 0 1 FILE (resources (sampleFile c)) = 0" for c
    using started_facts(4) by (simp_all add: sampleFile_def sampleStorage_def sampleOs_def)
  with archive_opened [OF sample_jar sample_zip, of "replicate 22 0"] show ?thesis by (auto simp: ENDHDRSIZ_def)
qed

text \<open>
  C40. A file that is no archive stays open: opening it reports a damaged archive and gives no handle, but the
  descriptor is not closed and the isolate is charged for it for good. The only other outcome is that the
  search for the end header reads outside of its buffer, in a file of more than 98 bytes that has none.
\<close>

theorem damaged_archive_stays_open:
  assumes "jarFileIs cur name c s" "damaged c" "length stack = ENDHDRSIZ"
  shows "(\<exists>s'. midpOpenJar True cur stack name s = Done ((MIDP_JAR_CORRUPT_ERROR, None), s')
      \<and> fds (os s') (nextFd (os s)) \<noteq> None \<and> holding 0 cur FILE (resources s') = holding 0 cur FILE (resources s) + 1)
    \<or> 98 < length c \<and> endHeaderPos c = None \<and> midpOpenJar True cur stack name s = Undefined"
  using open_jar [OF assms(1,3)] assms(2) by (auto elim!: jarViewD)

lemma damaged_archive_stays_open_witness:
  "\<exists>s'. midpOpenJar True 1 (replicate 22 0) (Some [0x61]) (sampleFile (replicate 60 7)) = Done ((-4, None), s')
    \<and> fds (os s') 6 \<noteq> None \<and> holding 0 1 FILE (resources s') = 1"
proof -
  have "nextFd (os (sampleFile c)) = 6" "holding 0 1 FILE (resources (sampleFile c)) = 0" for c
    using started_facts(4) by (simp_all add: sampleFile_def sampleStorage_def sampleOs_def)
  moreover have "damaged (replicate 60 7)"
  proof -
    have "take 4 (drop k (replicate 60 7)) \<noteq> [0x50, 0x4B, 5, 6 :: jbyte]" for k
      by (cases "60 - k") (simp_all add: take_replicate)
    then have "\<not> endAt (replicate 60 7) k" for k by (simp add: endAt_def)
    then have "endHeaderPos (replicate 60 7) = None" by (simp add: endHeaderPos_def find_None_iff)
    then show ?thesis by (simp add: damaged_def)
  qed
  ultimately show ?thesis
    using damaged_archive_stays_open [OF sample_jar, of "replicate 60 7" "replicate 22 0"]
    by (simp add: ENDHDRSIZ_def MIDP_JAR_CORRUPT_ERROR_def)
qed

text \<open>
  C1. The size of an archive cannot be had: where its size is asked for, an open archive has been read from, and
  the port finds the size of a file only at its beginning.
\<close>

theorem jar_size_fails:
  assumes "jarFileIs cur name c s" "\<not> damaged c" "length stack = ENDHDRSIZ"
  shows "\<exists>jar s' s''. midpOpenJar True cur stack name s = Done ((0, Some jar), s')
    \<and> midpGetJarSize jar s' = (MIDP_JAR_IO_ERROR, s'')"
proof -
  let ?jar = "\<lparr>jarFile = nextFd (os s), jarInfo = endInfo c (the (endHeaderPos c))\<rparr>"
  obtain s' p' where o: "midpOpenJar True cur stack name s = Done ((0, Some ?jar), s')"
    "jarView (resources s') (nextFd (os s)) s' = Some (c, p')" "0 < p'"
    using open_jar [OF assms(1,3)] assms(2) by auto
  then show ?thesis using size_of_view [OF o(2)] by (auto simp: midpGetJarSize_def)
qed

lemma jar_size_fails_witness:
  "\<exists>jar s' s''. midpOpenJar True 1 (replicate 22 0) (Some [0x61]) (sampleFile (zipFile [9, 9] sampleBody sampleZip []))
      = Done ((0, Some jar), s') \<and> midpGetJarSize jar s' = (-3, s'')"
  using jar_size_fails [OF sample_jar zip_not_damaged [OF sample_zip], of "replicate 22 0"]
  by (auto simp: ENDHDRSIZ_def MIDP_JAR_IO_ERROR_def)

text \<open>
  C35. Archives are read back: the reader gives for a name the content of the first entry of the
  directory with it, stored or deflated, wherever in the body the directory has it and whatever
  stands between and behind the entries, and leaves the archive open.
\<close>

theorem jar_entries_read_back:
  assumes "archiveOpen h pre body es comment s" "nameIs n name" "zipLookup name es = Some (off0, e)" "\<forall>k i. mem k i"
    "\<forall>n. length (garbage n) = n" "length es < fuel" "8 * length (packedBytes (zipPacked e)) + 34 \<le> fuel"
  shows "\<exists>s'. midpGetJarEntry fuel mem garbage old (openedJar h pre body) (Some n) s
      = Done ((int (length (zipContent e)), Some (zipContent e)), s') \<and> archiveOpen h pre body es comment s'"
proof -
  let ?c = "zipFile pre body es comment" and ?info = "jarInfo (openedJar h pre body)" and ?n = "length (zipContent e)"
  obtain q' where es: "(off0, e) \<in> set es" "dirFind name (length pre + length body) es = Some (q', off0, e)"
    using dir_find(2) [OF assms(3), of "length pre + length body"] by auto
  define entry where "entry = zipInfo ?info q' off0 e"
  obtain s1 p1 where s1: "lookUp fuel mem (openedJar h pre body) (Some n) s = Done (Some entry, s1)"
    "zipOk pre body es comment" "jarView (resources s1) h s1 = Some (?c, p1)"
    using look_up [OF assms(1,2) _ assms(6), of mem] assms(4) es(2) by (auto simp: archiveOpen_def entry_def)
  have listed: "listedOk body (off0, e)" and ok: "length ?c < 2 ^ 31" and small: "smallEntry (off0, e)"
    using s1(2) es(1) zip_small [OF s1(2)] by (auto simp: zipOk_def list_all_iff)
  then have e: "entryOk e" "length (packedBytes (zipPacked e)) < 2 ^ 31" by (simp_all add: smallEntry_def)
  obtain rest where rest: "drop off0 body = localPart e @ rest" using listed by (auto simp: listedOk_def prefix_def)
  have n: "?n < 2 ^ 31" using e(1) by (simp add: entryOk_def)
  define off where "off = length pre + off0"
  have "off0 \<le> length body" using rest by (cases "off0 \<le> length body") (simp_all add: localPart_def)
  then have d: "drop off ?c = localPart e @ rest @ centralDir es @ endPart (length body) es comment"
    and "off \<le> length ?c"
    using rest by (simp_all add: zipFile_def off_def)
  then have off: "off < 2 ^ 31" using ok by simp
  have eo: "entryOffset entry = of_nat off" by (simp add: entry_def zipInfo_def openedJar_def off_def)
  obtain buf' s' p' where r: "inflateJarEntry fuel (storageFile h) (mem 3) entry (garbage ?n) old s1 = Done (0, buf', s')"
    "jarView (resources s1) h s' = Some (?c, p')" "take ?n buf' = zipContent e" "length buf' = ?n"
    using jarFiles.read_data [OF s1(3) d e(1) off eo entry_def e(2), of "mem 3" "garbage ?n" fuel old] assms(4,5,7)
    by auto
  have "entryStatus entry = 0" "unat (decompLen entry) = ?n" "sint (decompLen entry) = int ?n"
    using n by (simp_all add: entry_def zipInfo_def sint_offset unat_of_nat)
  moreover have "jarFile (openedJar h pre body) = h" by (simp add: openedJar_def)
  ultimately have "midpGetJarEntry fuel mem garbage old (openedJar h pre body) (Some n) s = Done ((int ?n, Some buf'), s')"
    using assms(4) by (simp add: midpGetJarEntry_def s1(1) r(1) JAR_ENTRY_NOT_FOUND_def)
  moreover have "archiveOpen h pre body es comment s'" using r(2) view_resources [OF r(2)] s1(2) by (simp add: archiveOpen_def)
  ultimately show ?thesis using r(3,4) by auto
qed

lemma jar_entries_read_back_witness:
  "\<exists>s'. midpGetJarEntry 200 (\<lambda>_ _. True) (\<lambda>n. replicate n 0) [] (openedJar 9 [9, 9] sampleBody) (Some (heapString [0x62, 0]))
      (sampleFile (zipFile [9, 9] sampleBody sampleZip [])) = Done ((4, Some [65, 65, 65, 65]), s')"
proof -
  have e: "zipLookup [0x62] sampleZip = Some (length (localPart sampleA) + 16, sampleB)"
    by (simp add: zipLookup_def sampleZip_def sampleB_def sampleEntry_def)
  have "length sampleZip < 200" by (simp add: sampleZip_def)
  moreover have "8 * length (packedBytes (zipPacked sampleB)) + 34 \<le> 200" using sample_entries(2) by simp
  ultimately show ?thesis
    using jar_entries_read_back [OF sample_archive sample_names(1) e, of "\<lambda>_ _. True" "\<lambda>n. replicate n 0" 200 "[]"]
    by (simp add: sampleB_def sampleEntry_def) blast
qed

text \<open>
  C39. Only behind a long comment is an entry that does not exist told apart from a damaged archive: the
  reader takes the end header for a central one, which is 24 bytes longer.
\<close>

theorem missing_entry_result:
  assumes "archiveOpen h pre body es comment s" "nameIs n name" "zipLookup name es = None" "\<forall>k i. mem k i" "length es < fuel"
  shows "\<exists>s'. midpGetJarEntry fuel mem garbage old (openedJar h pre body) (Some n) s
      = Done ((if length comment < 24 then MIDP_JAR_CORRUPT_ERROR else 0, None), s')
    \<and> midpJarEntryExists fuel mem (openedJar h pre body) (Some n) s
      = Done (if length comment < 24 then MIDP_JAR_CORRUPT_ERROR else 0, s') \<and> archiveOpen h pre body es comment s'"
  using look_up [OF assms(1,2) _ assms(5), of mem] assms(4) dir_find(1) [OF assms(3)]
  by (auto simp: midpGetJarEntry_def midpJarEntryExists_def dirEnd_def noEntry_def CENHDRSIZ_def ENDHDRSIZ_def
      JAR_CORRUPT_def JAR_ENTRY_NOT_FOUND_def)

lemma missing_entry_result_witness:
  "\<exists>s'. midpGetJarEntry 200 (\<lambda>_ _. True) (\<lambda>n. replicate n 0) [] (openedJar 9 [9, 9] sampleBody) (Some (heapString [0x63, 0]))
      (sampleFile (zipFile [9, 9] sampleBody sampleZip [])) = Done ((-4, None), s')"
proof -
  have "zipLookup [0x63] sampleZip = None" "length sampleZip < 200"
    by (simp_all add: zipLookup_def sampleZip_def sampleA_def sampleB_def sampleC_def sampleEntry_def)
  from missing_entry_result [OF sample_archive sample_names(2) this(1) _ this(2), of "\<lambda>_ _. True" "\<lambda>n. replicate n 0" "[]"]
  show ?thesis by (auto simp: MIDP_JAR_CORRUPT_ERROR_def)
qed

text \<open>
  C38. All entries are visited: the callbacks see the names of an archive in the order of its directory, from
  the first to the last, or to the first action that fails, and the result says which.
\<close>

theorem entries_visited_in_order:
  assumes "archiveOpen h pre body es comment s" "list_all2 entryText es ts" "\<forall>k i. mem k i" "length es < fuel"
  shows "\<exists>s'. midpIterateJarEntries fuel mem filt act (openedJar h pre body) s w
      = (case visit filt act ts w of (v, w') \<Rightarrow> Done (v, s', w')) \<and> archiveOpen h pre body es comment s'"
proof -
  let ?c = "zipFile pre body es comment" and ?jar = "openedJar h pre body" and ?q = "length pre + length body"
  obtain p where v: "jarView (resources s) h s = Some (?c, p)" and ok: "zipOk pre body es comment" using assms(1) by (auto simp: archiveOpen_def)
  have d: "drop ?q ?c = centralDir es @ endPart (length body) es comment" by (simp add: zipFile_def)
  have e: "list_all smallEntry es" "length ?c < 2 ^ 31" "?q \<le> length ?c"
    using ok zip_small [OF ok] by (simp_all add: zipOk_def zipFile_def)
  have j: "jarFile ?jar = h" "cenOffset (jarInfo ?jar) = of_nat ?q" by (simp_all add: openedJar_def)
  have mem: "\<And>k i. mem k i" using assms(3) by simp
  obtain s' p' where "(case readJarEntryInfo (storageFile h) (jarInfo ?jar) (of_nat ?q) s of (entry, s1) \<Rightarrow>
      iterateLoop fuel mem filt act ?jar entry s1 w) = (case visit filt act ts w of (v, w') \<Rightarrow> Done (v, s', w'))"
    "jarView (resources s) h s' = Some (?c, p')"
    using iterate_loop [where mem = mem and filt = filt and act = act and w = w, OF v d e(1,2) assms(4) e(3) assms(2) mem j(1)]
    by blast
  moreover from this(2) have "resources s' = resources s" by (rule view_resources)
  ultimately show ?thesis using ok
    by (intro exI [of _ s']) (simp add: midpIterateJarEntries_def getFirstJarEntryInfo_def archiveOpen_def j)
qed

lemma entries_visited_in_order_witness:
  "\<exists>s'. midpIterateJarEntries 200 (\<lambda>_ _. True) (\<lambda>n w. (n \<noteq> Some (heapString [0x61, 0]), w)) (\<lambda>n w. (True, w + 1))
      (openedJar 9 [9, 9] sampleBody) (sampleFile (zipFile [9, 9] sampleBody sampleZip [])) (0 :: int) = Done (1, s', 2)"
proof -
  have "list_all2 entryText sampleZip [[0x62], [0x61], [0x62]]" "length sampleZip < 200"
    by (simp_all add: sampleZip_def sampleA_def sampleB_def sampleC_def sampleEntry_def entryText_def utf8Of_def utf16Step_def)
  from entries_visited_in_order [OF sample_archive this(1) _ this(2), of "\<lambda>_ _. True"
      "\<lambda>n w. (n \<noteq> Some (heapString [0x61, 0]), w)" "\<lambda>n w. (True, w + 1)" "0 :: int"]
  show ?thesis by (simp add: heapString_def) blast
qed

text \<open>
  The search can leave its buffer: with at most three bytes between the smallest offset and the window the
  index goes further back than the bytes read reach, as in a file of 99 zeros.
\<close>

lemma end_search_leaves_buffer:
  "getJarInfo (storageFile 9) (replicate 22 0) (sampleFile (replicate 99 0)) = Undefined"
proof -
  have e: "\<not> endAt (replicate 99 0) 77" unfolding endAt_def take4 by simp
  have "skipBack (replicate 99 0 ! 77) = 4" by (simp add: skipBack_def)
  with e show ?thesis
    using jarFiles.search_leaves_buffer [OF sample_jar_view, of "replicate 22 0" "replicate 99 0"] by (simp add: ENDHDRSIZ_def)
qed

end
