(* ===== verification/Spec2Isabelle.thy ===== *)
theory Spec2Isabelle
  imports EventQueue TimerQueue ResourceLimit SuspendResume Utf PcslString PosixFile Storage FileCache
    Directory RecordStore RecordList Memory Inflate InflateRuns InflateBits InflateTables InflateStream
    Jar JarRead JarArchive JarEntries
begin

text \<open>
  A verification development for PSPKVM, a port of the phoneME Feature Java ME stack to a
  console. Modelled is native code in C below the Java class library: the queues and tables by
  which the virtual machine, the platform and the isolates (Java tasks) talk to each other, and
  the storage stack from the record stores of Java down to the calls of the C library.

  \<^bold>\<open>The parts and how they interact.\<close>

  \<^enum> \<^theory_text>\<open>EventQueue\<close> models \<^verbatim>\<open>midp/src/events/eventqueue/reference/native/midpEvents.c\<close>: one ring
    buffer of 20 events per isolate. Native code stores events (\<open>StoreMIDPEventInVmThread\<close> and
    its variants); the event monitor thread of an isolate waits for them
    (\<open>waitForNativeEvent\<close>) and is unblocked by the next store. Locking is a step of its own. So is
    \<open>Task_stop\<close>, by which the VM (\<^verbatim>\<open>cldc/src/vm/share/runtime/Task.cpp\<close>) ends the threads of an
    isolate and clears its blocked one, although the monitor still counts as blocked.
  \<^enum> \<^theory_text>\<open>TimerQueue\<close> models \<^verbatim>\<open>midp/src/core/timer_queue/reference/native/timer_queue.c\<close>: a linked
    list of timers in an explicit heap, from which a port takes the timers that are due.
  \<^enum> \<^theory_text>\<open>ResourceLimit\<close> models \<^verbatim>\<open>midp/src/core/resource_manager/reference/native/midpResourceLimit.c\<close>:
    the pool of files, sockets, images and audio channels with the reservation and limit of each
    isolate, with the limits of \<^verbatim>\<open>constants_open.xml\<close>, which the build uses. The storage layer asks it
    before it opens a file.
  \<^enum> \<^theory_text>\<open>SuspendResume\<close> models \<^verbatim>\<open>midp/src/core/suspend_resume/sr_main/default/native/suspend_resume.c\<close>
    and the VM's entry points in \<^verbatim>\<open>sr_vm\<close>: the state machine by which the platform stops and
    restarts the stack. It sends its two events through the event queue.
  \<^enum> \<^theory_text>\<open>Memory\<close> models \<^verbatim>\<open>pcsl/memory/heap/pcsl_memory.c\<close>: the memory pool all native code allocates
    from. The other theories take the outcome of an allocation as a parameter.
  \<^enum> \<^theory_text>\<open>Utf\<close> models \<^verbatim>\<open>pcsl/string/util/utf.c\<close> and the unescaping of names; \<^theory_text>\<open>PcslString\<close> models
    \<^verbatim>\<open>pcsl/string/utf16/pcsl_string.c\<close> over it: the strings of the native code, built cell by cell in
    allocated blocks whose size, length and contents the code works out separately.
  \<^enum> \<^theory_text>\<open>PosixFile\<close> models the files of the C library and, over them, the ports
    \<^verbatim>\<open>javacall/implementation/psp_mips/common/file.c\<close> and \<^verbatim>\<open>pcsl/file/javacall/pcsl_file.c\<close>;
    \<^theory_text>\<open>Directory\<close> adds \<^verbatim>\<open>javacall/implementation/psp_mips/common/dir.c\<close> and the file iterators.
  \<^enum> \<^theory_text>\<open>Storage\<close> models \<^verbatim>\<open>midp/src/core/storage/reference/native/midpStorage.c\<close>: files within the
    quota of an isolate, with error texts, over \<^theory_text>\<open>PosixFile\<close> and \<^theory_text>\<open>ResourceLimit\<close>; strings in
    files go through \<^theory_text>\<open>PcslString\<close>.
  \<^enum> \<^theory_text>\<open>FileCache\<close> models \<^verbatim>\<open>midp/src/rms/record_store/file_based/native/midp_file_cache.c\<close>: a list of
    blocks not yet written to one file of the storage layer.
  \<^enum> \<^theory_text>\<open>RecordStore\<close> models \<^verbatim>\<open>midp/src/rms/record_store/file_based/native/rms.c\<close> with
    \<^verbatim>\<open>suitestore_rms.c\<close>: record stores as files, opened through the cache under locks;
    \<^theory_text>\<open>RecordList\<close> proves what it promises.
  \<^enum> \<^theory_text>\<open>Inflate\<close> models \<^verbatim>\<open>midp/src/ams/ams_base/reference/native/midpInflate.c\<close>, the inflater for
    compressed entries of a JAR: stored blocks, blocks with the fixed codes and blocks with codes of
    their own, whose tables \<open>makeCodeTable\<close> builds. \<^theory_text>\<open>InflateRuns\<close> proves what holds for any data,
    \<^theory_text>\<open>InflateBits\<close> the decoding of bits, \<^theory_text>\<open>InflateTables\<close> the code tables, \<^theory_text>\<open>InflateStream\<close> that the
    inflater inverts the format, given there as \<open>deflate\<close>.
  \<^enum> \<^theory_text>\<open>Jar\<close> models \<^verbatim>\<open>midp/src/core/jarutil/reference/native/jar.c\<close> and \<^verbatim>\<open>midpJar.c\<close>: archives, whose
    directory is searched from the end of the file, over files of the storage layer, and their entries,
    whose data goes through the inflater. \<^theory_text>\<open>JarRead\<close> states what the reader relies on in a file and proves
    the search right, \<^theory_text>\<open>JarArchive\<close> gives the format as \<open>zipFile\<close> (entries in any order, with anything
    before, between and behind them, data descriptors too) and proves what is read of it,
    \<^theory_text>\<open>JarEntries\<close> the properties of the functions of \<^verbatim>\<open>midpJar.c\<close>.

  \<^theory_text>\<open>PspPrelude\<close> holds the C types and generic lemmas. \<^theory_text>\<open>Interfaces\<close> holds the contracts as locales:
  \<open>bounded_fifo\<close> (interpreted on the event ring), \<open>stable_pqueue\<close> (the timer queue), \<open>handle_quota\<close>
  (the resource manager, used by the storage layer), \<open>codec\<close> (UTF-8 and escaped names),
  \<open>random_access\<close> (the storage layer) with \<open>positioned_writes\<close> (also the cache), and \<open>heap\<close> (the
  memory pool). \<^theory_text>\<open>InflateBits\<close> holds those of the inflater: \<open>symbol_code\<close>, a decoder that returns the
  symbol whose code is next, and \<open>block_codes\<close>, interpreted on the fixed codes and shown of every pair
  of code tables. \<^theory_text>\<open>JarRead\<close> holds \<open>file_object\<close>, what the JAR reader relies on in a file, interpreted on
  the files of the storage layer. Each component rests on the facts of the interpretation, so that what the cache
  promises follows from what the storage layer promises, and that from the port.

  \<^bold>\<open>Conventions.\<close> A C function keeps its name. State is a record, threaded explicitly; pointers
  to out-parameters become results. An outer \<open>None\<close> is undefined behaviour of the C code (a NULL or
  dangling dereference, an index outside its array); in \<^theory_text>\<open>PcslString\<close>, so is a status of success
  without a string. Error strings are constructors. Integers are
  words where the code lets them wrap around (units, bytes, hash and number parsing, sizes in the
  pool as \<open>mod\<close>) and \<open>int\<close> or \<open>nat\<close> where their range is bounded by the state; the text of each
  theory says why.

  \<^bold>\<open>What the lemmas show.\<close> Each theory ends with its properties. The queues deliver in order, lose
  nothing they accept and never lose the wake-up of a thread the VM still knows; the accounts of the
  resource manager stay within the limits as long as its callers keep the rules of its header, and
  reservations are honoured; suspending and resuming runs every routine once and ends (reachability
  there carries a flag, whether the two rules that an invariant needs have been kept so far); the
  allocator keeps blocks apart and loses no memory; strings refine lists and the codecs
  are inverse to each other; files read back what was written, through the cache as without it;
  stores are locked exclusively, have files of their own and are listed completely; the inflater
  ends, keeps inside its output and decodes every stream of the format; archives open, their entries are
  found, listed and read back. Where the code
  does not do what its documentation says, a property or lemma states what it does.

  \<^bold>\<open>Bounds and fuel.\<close> Loops over lists, and those over the memory blocks and the alignments, are
  recursive functions with a termination proof. Loops that an ill-formed state can keep from ending
  (walks over the linked timers, the copy loop of \<open>storage_rename_file\<close>, the polling of
  \<open>midp_waitWhileSuspended\<close>) are partial functions with an \<open>option\<close>: the properties on them show that
  they return, for well-formed lists, a file whose size is known and a clock that reaches the
  timeout. The loops of the inflater over blocks and codes take fuel: a round of either takes a bit
  of the input at least, so that eight rounds for every byte and 34 more are enough, and more fuel
  gives the same result. The loops over the directory of a JAR take fuel too, since the offsets
  of a damaged one wrap around; one round more than there are entries is enough for an archive. The search for
  its end header is a recursive function, with a termination proof.

  \<^bold>\<open>Parameters.\<close> Not under \<^verbatim>\<open>src/\<close>, and therefore parameters: the results of system calls
  (\<open>faults\<close>, \<open>readdir\<close>, \<open>errnoText\<close>), of allocations (\<open>mem\<close>), properties of the configuration, the
  suspend and resume routines that other resources register, and the list of suites the suite
  store has read.

  \<^bold>\<open>Not modelled.\<close> The virtual machine (C++), the Java classes, user interface, graphics and fonts,
  networking and protocols, security, the optional packages, vendored libraries, ports to other
  systems, tools and tests: other languages, third-party code, or calls of the platform without
  state of their own. Of the core in C, the suite store with its installer, the push registry
  and the start-up of the application manager are not modelled yet.
\<close>

end
